(* ===== verification/Prelude.thy ===== *)
theory Prelude
  imports Main "HOL-Library.Word" "HOL-Library.AList" "HOL-Library.Multiset"
begin

text \<open>
  Shared vocabulary of the development: the type of outcomes of Rust code that may panic or recurse
  without bound, Rust's integer division and casts, hash maps as association lists, and the generic
  notion of a reachable state with its invariant rule.
\<close>

section \<open>Types shared by the components\<close>

text \<open>
  A \<open>std::time::Duration\<close> or a \<open>std::time::Instant\<close> is a number of nanoseconds; a
  \<open>NetClockTimePoint\<close> is a \<open>u32\<close> number of whole seconds since 2000-01-01.
\<close>

type_synonym u32 = "32 word"
type_synonym duration = nat
type_synonym instant = nat
type_synonym net_time = "32 word"

abbreviation from_millis :: "nat \<Rightarrow> duration" where
  "from_millis n \<equiv> n * 1000000"

abbreviation from_secs :: "nat \<Rightarrow> duration" where
  "from_secs n \<equiv> n * 1000000000"

abbreviation u32_max :: u32 where
  "u32_max \<equiv> - 1"

text \<open>
  \<open>Duration::MAX\<close>, at which \<open>saturating_mul\<close> stops: \<open>u64::MAX\<close> seconds and 999999999 nanoseconds.
\<close>

definition duration_max :: duration where
  "duration_max = from_secs (2 ^ 64 - 1) + 999999999"

section \<open>Outcomes\<close>

text \<open>
  \<open>Done x\<close> is a normal return, \<open>Panic\<close> a failed \<open>expect\<close>, \<open>unwrap\<close>, assertion, index or
  arithmetic check, and \<open>OutOfFuel\<close> marks a recursion deeper than the bound given to it.
\<close>

datatype 'a outcome = Done 'a | Panic | OutOfFuel

fun bind_outcome :: "'a outcome \<Rightarrow> ('a \<Rightarrow> 'b outcome) \<Rightarrow> 'b outcome" where
  "bind_outcome (Done x) f = f x"
| "bind_outcome Panic f = Panic"
| "bind_outcome OutOfFuel f = OutOfFuel"

fun expect :: "'a option \<Rightarrow> 'a outcome" where
  "expect (Some x) = Done x"
| "expect None = Panic"

fun fold_outcome :: "('a \<Rightarrow> 's \<Rightarrow> 's outcome) \<Rightarrow> 'a list \<Rightarrow> 's \<Rightarrow> 's outcome" where
  "fold_outcome f [] s = Done s"
| "fold_outcome f (x # xs) s = bind_outcome (f x s) (fold_outcome f xs)"

text \<open>\<open>Iterator::all\<close> stops at the first element that fails.\<close>

fun all_outcome :: "('a \<Rightarrow> bool outcome) \<Rightarrow> 'a list \<Rightarrow> bool outcome" where
  "all_outcome f [] = Done True"
| "all_outcome f (x # xs) = bind_outcome (f x) (\<lambda>b. if b then all_outcome f xs else Done False)"

text \<open>
  \<open>sat r P\<close>: the outcome is no panic, and a returned value satisfies \<open>P\<close>. It is the weakest
  precondition of the outcome monad, and its rules drive the invariant proofs.
\<close>

fun sat :: "'a outcome \<Rightarrow> ('a \<Rightarrow> bool) \<Rightarrow> bool" where
  "sat (Done x) P = P x"
| "sat Panic P = False"
| "sat OutOfFuel P = True"

named_theorems wp \<open>weakest-precondition rules for the outcome monad\<close>

lemma sat_mono: "sat r P \<Longrightarrow> (\<And>x. P x \<Longrightarrow> Q x) \<Longrightarrow> sat r Q"
  by (cases r) auto

lemma sat_mono_Done: "sat r P \<Longrightarrow> (\<And>x. r = Done x \<Longrightarrow> P x \<Longrightarrow> Q x) \<Longrightarrow> sat r Q"
  by (cases r) auto

lemma sat_conj: "sat r (\<lambda>x. P x \<and> Q x) \<longleftrightarrow> sat r P \<and> sat r Q"
  by (cases r) auto

lemma sat_bind [wp, simp]: "sat (bind_outcome m f) P \<longleftrightarrow> sat m (\<lambda>x. sat (f x) P)"
  by (cases m) auto

lemma sat_expect [wp, simp]: "sat (expect x) P \<longleftrightarrow> (\<exists>y. x = Some y \<and> P y)"
  by (cases x) auto

lemma sat_DoneD: "sat r P \<Longrightarrow> r = Done x \<Longrightarrow> P x"
  by auto

lemma sat_noPanic: "sat r P \<Longrightarrow> r \<noteq> Panic"
  by auto

lemma bind_outcome_Done_iff:
  "bind_outcome m f = Done y \<longleftrightarrow> (\<exists>x. m = Done x \<and> f x = Done y)"
  by (cases m) auto

lemma bind_outcome_assoc:
  "bind_outcome (bind_outcome m f) g = bind_outcome m (\<lambda>x. bind_outcome (f x) g)"
  by (cases m) auto

lemma expect_Done_iff [simp]: "expect x = Done y \<longleftrightarrow> x = Some y"
  by (cases x) auto

lemma sat_fold:
  assumes "I s" and "\<And>x s. x \<in> set xs \<Longrightarrow> I s \<Longrightarrow> sat (f x s) I"
  shows "sat (fold_outcome f xs s) I"
  using assms
proof (induction xs arbitrary: s)
  case Nil
  then show ?case by simp
next
  case (Cons x xs)
  have "sat (f x s) I"
    using Cons.prems by simp
  then have "sat (f x s) (\<lambda>s'. sat (fold_outcome f xs s') I)"
    by (rule sat_mono) (use Cons in simp)
  then show ?case by simp
qed

text \<open>The same rule with an invariant that sees the elements still to come.\<close>

lemma sat_fold_list:
  assumes "I xs s" and "\<And>x xs s. I (x # xs) s \<Longrightarrow> sat (f x s) (I xs)"
  shows "sat (fold_outcome f xs s) (I [])"
  using assms(1)
proof (induction xs arbitrary: s)
  case Nil
  then show ?case by simp
next
  case (Cons x xs)
  have "sat (f x s) (\<lambda>s'. sat (fold_outcome f xs s') (I []))"
    by (rule sat_mono [OF assms(2) [OF Cons.prems]]) (rule Cons.IH)
  then show ?case by simp
qed

lemma fold_outcome_filter:
  "fold_outcome (\<lambda>(k, v) s. if Q v then f k s else Done s) xs s =
     fold_outcome f (map fst (filter (\<lambda>(_, v). Q v) xs)) s"
proof (induction xs arbitrary: s)
  case Nil
  then show ?case by simp
next
  case (Cons x xs)
  then have "fold_outcome (\<lambda>(k, v) s. if Q v then f k s else Done s) xs =
      fold_outcome f (map fst (filter (\<lambda>(_, v). Q v) xs))"
    by blast
  then show ?case by (cases x) auto
qed

lemma all_outcome_returns:
  assumes "\<And>x. x \<in> set xs \<Longrightarrow> \<exists>b. f x = Done b"
  shows "\<exists>b. all_outcome f xs = Done b"
  using assms
proof (induction xs)
  case Nil
  then show ?case by auto
next
  case (Cons x xs)
  then obtain b b' where "f x = Done b" and "all_outcome f xs = Done b'"
    by fastforce
  then show ?case by (cases b) auto
qed

lemma fold_outcome_Done_inv:
  assumes "fold_outcome f xs s = Done t" and "I s"
    and "\<And>x s s'. x \<in> set xs \<Longrightarrow> I s \<Longrightarrow> f x s = Done s' \<Longrightarrow> I s'"
  shows "I t"
  using assms
proof (induction xs arbitrary: s)
  case Nil
  then show ?case by simp
next
  case (Cons x xs)
  then obtain s' where "f x s = Done s'" and "fold_outcome f xs s' = Done t"
    by (auto simp: bind_outcome_Done_iff)
  with Cons show ?case by (metis list.set_intros(1,2))
qed

section \<open>Integers\<close>

text \<open>Rust's \<open>/\<close> on signed integers truncates towards zero and panics on a zero divisor.\<close>

definition rust_div :: "int \<Rightarrow> int \<Rightarrow> int outcome" where
  "rust_div a b = (if b = 0 then Panic else Done (sgn a * sgn b * (\<bar>a\<bar> div \<bar>b\<bar>)))"

lemma rust_div_nonneg [simp]: "0 \<le> a \<Longrightarrow> 0 < b \<Longrightarrow> rust_div a b = Done (a div b)"
  by (cases "a = 0") (auto simp: rust_div_def sgn_if)

lemma le_div_int_iff: "k \<le> a div m \<longleftrightarrow> k * m \<le> a" if "0 < m" for a k m :: int
proof
  assume "k \<le> a div m"
  then have "k * m \<le> a div m * m"
    using that by (intro mult_right_mono) auto
  also have "\<dots> \<le> a"
    using minus_mod_eq_div_mult [of a m] pos_mod_sign [OF that, of a] by linarith
  finally show "k * m \<le> a" .
next
  assume "k * m \<le> a"
  then have "k * m div m \<le> a div m"
    using that by (intro zdiv_mono1) auto
  then show "k \<le> a div m"
    using that by simp
qed

text \<open>\<open>as i32\<close> keeps the low 32 bits.\<close>

definition as_i32 :: "int \<Rightarrow> int" where
  "as_i32 x = sint (word_of_int x :: 32 word)"

lemma as_i32_small: "- (2 ^ 31) \<le> x \<Longrightarrow> x < 2 ^ 31 \<Longrightarrow> as_i32 x = x"
  by (simp add: as_i32_def sint_sbintrunc' signed_take_bit_int_eq_self)

definition i32_max :: int where
  "i32_max = 2 ^ 31 - 1"

text \<open>\<open>i32::try_from(n).expect(..)\<close> for a \<open>usize\<close>.\<close>

definition i32_try_from :: "nat \<Rightarrow> int outcome" where
  "i32_try_from n = (if int n \<le> i32_max then Done (int n) else Panic)"

lemma unat_u32_max [simp]: "unat u32_max = 4294967295"
  by (simp add: unsigned_minus_1_eq_mask mask_eq_exp_minus_1)

lemma u32_eq_max_iff: "x = u32_max \<longleftrightarrow> unat x = 4294967295" for x :: u32
  by (metis unat_u32_max word_unat_eq_iff)

lemma unat_u32_less: "unat x < 4294967296" for x :: u32
  using unsigned_less [of x] by simp

lemma unat_u32_inc: "x \<noteq> u32_max \<Longrightarrow> unat (x + 1) = unat x + 1" for x :: u32
  using unat_u32_less [of x] by (simp add: u32_eq_max_iff unat_word_ariths)

section \<open>Hash maps\<close>

text \<open>
  A \<open>HashMap\<close> or \<open>BTreeMap\<close> is an association list with distinct keys. The order of the list
  stands for the map's iteration order; \<open>AList.update\<close> and \<open>AList.delete\<close> are \<open>insert\<close> and \<open>remove\<close>.
\<close>

abbreviation keys :: "('k \<times> 'v) list \<Rightarrow> 'k set" where
  "keys m \<equiv> fst ` set m"

abbreviation unique_keys :: "('k \<times> 'v) list \<Rightarrow> bool" where
  "unique_keys m \<equiv> distinct (map fst m)"

text \<open>\<open>values_mut\<close>: apply a function to every value.\<close>

definition map_values :: "('v \<Rightarrow> 'w) \<Rightarrow> ('k \<times> 'v) list \<Rightarrow> ('k \<times> 'w) list" where
  "map_values f m = map (\<lambda>(k, v). (k, f v)) m"

lemma map_values_simps [simp]:
  "map_values f [] = []" "map_values f ((k, v) # m) = (k, f v) # map_values f m"
  "map_values f m = [] \<longleftrightarrow> m = []"
  by (simp_all add: map_values_def)

lemma map_values_map_values [simp]: "map_values f (map_values g m) = map_values (\<lambda>v. f (g v)) m"
  by (induction m) auto

lemma in_map_values [simp]: "(k, w) \<in> set (map_values f m) \<longleftrightarrow> (\<exists>v. w = f v \<and> (k, v) \<in> set m)"
  by (auto simp: map_values_def)

lemma keys_update [simp]: "keys (AList.update k v m) = insert k (keys m)"
  using dom_update [of k v m] by (simp add: dom_map_of_conv_image_fst)

lemma keys_delete [simp]: "keys (AList.delete k m) = keys m - {k}"
  by (auto simp: AList.delete_eq image_iff)

lemma keys_map_values [simp]: "keys (map_values f m) = keys m"
  by (force simp: image_iff map_values_def)

lemma unique_keys_update [simp]: "unique_keys m \<Longrightarrow> unique_keys (AList.update k v m)"
  by (rule distinct_update)

lemma unique_keys_delete [simp]: "unique_keys m \<Longrightarrow> unique_keys (AList.delete k m)"
  by (rule distinct_delete)

lemma unique_keys_map_values [simp]: "unique_keys (map_values f m) \<longleftrightarrow> unique_keys m"
  by (simp add: map_values_def comp_def split_beta)

lemma map_of_update [simp]: "map_of (AList.update k v m) = (map_of m)(k \<mapsto> v)"
  by (rule update_conv')

lemma map_of_AList_delete [simp]: "map_of (AList.delete k m) = (map_of m)(k := None)"
  by (rule delete_conv')

lemma map_of_map_values [simp]: "map_of (map_values f m) k = map_option f (map_of m k)"
  by (induction m) auto

lemma in_update_iff:
  "unique_keys m \<Longrightarrow> (k', v') \<in> set (AList.update k v m) \<longleftrightarrow>
     (k' = k \<and> v' = v) \<or> (k' \<noteq> k \<and> (k', v') \<in> set m)"
  by (metis fun_upd_apply map_of_eq_Some_iff map_of_update option.inject unique_keys_update)

lemma in_delete_iff: "(k', v') \<in> set (AList.delete k m) \<longleftrightarrow> k' \<noteq> k \<and> (k', v') \<in> set m"
  by (auto simp: AList.delete_eq)

lemma map_of_in: "map_of m k = Some v \<Longrightarrow> (k, v) \<in> set m"
  by (rule map_of_SomeD)

lemma keys_in: "(k, v) \<in> set m \<Longrightarrow> k \<in> keys m"
  by force

lemma map_of_None_keys: "map_of m k = None \<longleftrightarrow> k \<notin> keys m"
  by (rule map_of_eq_None_iff)

section \<open>Reachable states\<close>

inductive reach :: "('s \<Rightarrow> bool) \<Rightarrow> ('s \<Rightarrow> 's \<Rightarrow> bool) \<Rightarrow> 's \<Rightarrow> bool" for init step where
  reach_init: "init s \<Longrightarrow> reach init step s"
| reach_step: "reach init step s \<Longrightarrow> step s t \<Longrightarrow> reach init step t"

text \<open>
  The contract of an invariant: it holds at the start and every step keeps it. Components interpret
  this locale on their own start states and steps.
\<close>

locale step_invariant =
  fixes init :: "'s \<Rightarrow> bool"
    and step :: "'s \<Rightarrow> 's \<Rightarrow> bool"
    and inv :: "'s \<Rightarrow> bool"
  assumes inv_init: "init s \<Longrightarrow> inv s"
    and inv_step: "inv s \<Longrightarrow> step s t \<Longrightarrow> inv t"
begin

lemma inv_reach: "reach init step s \<Longrightarrow> inv s"
  by (induction rule: reach.induct) (auto intro: inv_init inv_step)

end

end
