(* ===== verification/Consensus_Params.thy ===== *)
theory Consensus_Params
  imports Prelude
begin

text \<open>
  The tuning parameters of consensus and the avalanche schedule of vote thresholds:
  \<^verbatim>\<open>xrpld/consensus/src/algorithm/params.rs\<close>.
\<close>

section \<open>Parameters\<close>

datatype avalanche_state = Init | Mid | Late | Stuck

record avalanche_cutoff =
  consensus_time :: int
  consensus_pct :: nat
  next_state :: avalanche_state

text \<open>The cutoff table is a \<open>BTreeMap\<close> from states to cutoffs.\<close>

record consensus_parms =
  validation_valid_wall :: duration
  validation_valid_local :: duration
  validation_valid_early :: duration
  propose_freshness :: duration
  propose_interval :: duration
  min_consensus_pct :: nat
  ledger_idle_interval :: duration
  ledger_min_consensus :: duration
  ledger_max_consensus :: duration
  ledger_min_close :: duration
  ledger_granularity :: duration
  ledger_abandon_consensus_factor :: nat
  ledger_abandon_consensus :: duration
  av_min_consensus_time :: duration
  avalanche_cutoffs :: "(avalanche_state \<times> avalanche_cutoff) list"
  av_ct_consensus_pct :: nat
  av_min_rounds :: nat
  av_stalled_rounds :: nat

definition default_cutoffs :: "(avalanche_state \<times> avalanche_cutoff) list" where
  "default_cutoffs =
     [(Init, \<lparr>consensus_time = 0, consensus_pct = 50, next_state = Mid\<rparr>),
      (Mid, \<lparr>consensus_time = 50, consensus_pct = 65, next_state = Late\<rparr>),
      (Late, \<lparr>consensus_time = 85, consensus_pct = 70, next_state = Stuck\<rparr>),
      (Stuck, \<lparr>consensus_time = 200, consensus_pct = 95, next_state = Stuck\<rparr>)]"

definition default_parms :: consensus_parms where
  "default_parms =
     \<lparr>validation_valid_wall = from_secs (5 * 60),
      validation_valid_local = from_secs (3 * 60),
      validation_valid_early = from_secs (3 * 60),
      propose_freshness = from_secs 20,
      propose_interval = from_secs 12,
      min_consensus_pct = 80,
      ledger_idle_interval = from_secs 15,
      ledger_min_consensus = from_millis 1950,
      ledger_max_consensus = from_secs 15,
      ledger_min_close = from_secs 2,
      ledger_granularity = from_secs 1,
      ledger_abandon_consensus_factor = 10,
      ledger_abandon_consensus = from_secs 120,
      av_min_consensus_time = from_secs 5,
      avalanche_cutoffs = default_cutoffs,
      av_ct_consensus_pct = 75,
      av_min_rounds = 2,
      av_stalled_rounds = 4\<rparr>"

lemma default_parms_sel [simp]:
  "min_consensus_pct default_parms = 80" "av_min_rounds default_parms = 2"
  "av_stalled_rounds default_parms = 4" "av_ct_consensus_pct default_parms = 75"
  "avalanche_cutoffs default_parms = default_cutoffs"
  by (simp_all add: default_parms_def)

section \<open>The required vote weight\<close>

text \<open>
  \<open>get_needed_weight\<close> panics when the table misses the current or the next state. A \<open>debug_assert!\<close>,
  here that the next cutoff is not earlier than the current one, is a panic throughout the development.
\<close>

definition get_needed_weight ::
  "consensus_parms \<Rightarrow> avalanche_state \<Rightarrow> int \<Rightarrow> nat \<Rightarrow> nat \<Rightarrow> (nat \<times> avalanche_state option) outcome" where
  "get_needed_weight parms current_state percent_time current_rounds minimum_rounds =
     bind_outcome (expect (map_of (avalanche_cutoffs parms) current_state)) (\<lambda>current_cutoff.
       if next_state current_cutoff \<noteq> current_state \<and> minimum_rounds \<le> current_rounds
       then bind_outcome (expect (map_of (avalanche_cutoffs parms) (next_state current_cutoff))) (\<lambda>next_cutoff.
         if consensus_time next_cutoff < consensus_time current_cutoff then Panic
         else if consensus_time next_cutoff \<le> percent_time
         then Done (consensus_pct next_cutoff, Some (next_state current_cutoff))
         else Done (consensus_pct current_cutoff, None))
       else Done (consensus_pct current_cutoff, None))"

text \<open>The position of a state in the schedule; the derived \<open>Ord\<close> of the source.\<close>

fun avalanche_rank :: "avalanche_state \<Rightarrow> nat" where
  "avalanche_rank Init = 0"
| "avalanche_rank Mid = 1"
| "avalanche_rank Late = 2"
| "avalanche_rank Stuck = 3"

lemma map_of_default_cutoffs:
  "map_of default_cutoffs s =
     Some (case s of
         Init \<Rightarrow> \<lparr>consensus_time = 0, consensus_pct = 50, next_state = Mid\<rparr>
       | Mid \<Rightarrow> \<lparr>consensus_time = 50, consensus_pct = 65, next_state = Late\<rparr>
       | Late \<Rightarrow> \<lparr>consensus_time = 85, consensus_pct = 70, next_state = Stuck\<rparr>
       | Stuck \<Rightarrow> \<lparr>consensus_time = 200, consensus_pct = 95, next_state = Stuck\<rparr>)"
  by (cases s) (simp_all add: default_parms_def default_cutoffs_def)

text \<open>The table has an entry for every state, and cutoff times do not decrease along the schedule.\<close>

definition total_cutoffs :: "consensus_parms \<Rightarrow> bool" where
  "total_cutoffs parms \<longleftrightarrow> (\<forall>s \<in> {Init, Mid, Late, Stuck}.
     case map_of (avalanche_cutoffs parms) s of
       None \<Rightarrow> False
     | Some c \<Rightarrow> (case map_of (avalanche_cutoffs parms) (next_state c) of
                   None \<Rightarrow> False | Some c' \<Rightarrow> consensus_time c \<le> consensus_time c'))"

lemma total_cutoffs_default [simp]: "total_cutoffs default_parms"
  by (simp add: total_cutoffs_def map_of_default_cutoffs)

lemma total_cutoffs_next:
  assumes "total_cutoffs parms"
  obtains c c' where "map_of (avalanche_cutoffs parms) s = Some c"
    and "map_of (avalanche_cutoffs parms) (next_state c) = Some c'"
    and "consensus_time c \<le> consensus_time c'"
proof -
  have "s \<in> {Init, Mid, Late, Stuck}" by (cases s) auto
  with assms that show ?thesis
    unfolding total_cutoffs_def by (fastforce split: option.splits)
qed

lemma total_cutoffsD: "total_cutoffs parms \<Longrightarrow> \<exists>c. map_of (avalanche_cutoffs parms) s = Some c"
  by (elim total_cutoffs_next) blast

lemma get_needed_weight_returns:
  assumes "total_cutoffs parms"
  shows "\<exists>pct st. get_needed_weight parms s t r m = Done (pct, st)"
  by (rule total_cutoffs_next [OF assms, of s]) (simp add: get_needed_weight_def)

text \<open>
  A run of the avalanche: the schedule is asked once per round with the rounds spent in the current
  state, and moves when it is told to, as \<open>DisputedTx::update_vote\<close> does.
\<close>

fun avalanche_run :: "consensus_parms \<Rightarrow> nat \<Rightarrow> avalanche_state \<times> nat \<Rightarrow> int list \<Rightarrow> (avalanche_state \<times> nat) outcome" where
  "avalanche_run parms m st [] = Done st"
| "avalanche_run parms m (s, r) (t # ts) =
     bind_outcome (get_needed_weight parms s t (Suc r) m) (\<lambda>(pct, new_state).
       avalanche_run parms m (case new_state of Some s' \<Rightarrow> (s', 0) | None \<Rightarrow> (s, Suc r)) ts)"

lemma default_schedule_step:
  assumes "get_needed_weight default_parms s t r m = Done (pct, new)"
  shows "new = None \<or> (\<exists>s'. new = Some s' \<and> avalanche_rank s' = Suc (avalanche_rank s) \<and> m \<le> r)"
  using assms
  by (cases s) (auto simp: get_needed_weight_def map_of_default_cutoffs split: if_splits)

end
