(* ===== verification/Consensus_Types.thy ===== *)
theory Consensus_Types
  imports Consensus_Params
begin

text \<open>
  Modes, phases, timers and results of a consensus round:
  \<^verbatim>\<open>xrpld/consensus/src/algorithm/types.rs\<close>.
\<close>

datatype consensus_mode = Proposing | Observing | WrongLedger | SwitchedLedger

datatype consensus_phase = PhaseOpen | Establish | Accepted

datatype consensus_state = No | MovedOn | Expired | Yes

definition show_mode :: "consensus_mode \<Rightarrow> string" where
  "show_mode m = (case m of Proposing \<Rightarrow> ''proposing'' | Observing \<Rightarrow> ''observing''
     | WrongLedger \<Rightarrow> ''wrongLedger'' | SwitchedLedger \<Rightarrow> ''switchedLedger'')"

definition show_phase :: "consensus_phase \<Rightarrow> string" where
  "show_phase p = (case p of PhaseOpen \<Rightarrow> ''open'' | Establish \<Rightarrow> ''establish'' | Accepted \<Rightarrow> ''accepted'')"

section \<open>Timer\<close>

record consensus_timer =
  ct_start :: "instant option"
  ct_dur :: duration

definition timer_default :: consensus_timer where
  "timer_default = \<lparr>ct_start = None, ct_dur = 0\<rparr>"

definition timer_read :: "consensus_timer \<Rightarrow> duration" where
  "timer_read t = ct_dur t"

definition tick_fixed :: "duration \<Rightarrow> consensus_timer \<Rightarrow> consensus_timer" where
  "tick_fixed fixed t = t\<lparr>ct_dur := ct_dur t + fixed\<rparr>"

definition timer_reset :: "instant \<Rightarrow> consensus_timer \<Rightarrow> consensus_timer" where
  "timer_reset tp t = t\<lparr>ct_start := Some tp, ct_dur := 0\<rparr>"

text \<open>\<open>saturating_duration_since\<close> is zero for an earlier instant, as subtraction on \<open>nat\<close> is.\<close>

definition tick_to :: "instant \<Rightarrow> consensus_timer \<Rightarrow> consensus_timer" where
  "tick_to tp t = (case ct_start t of Some start \<Rightarrow> t\<lparr>ct_dur := tp - start\<rparr> | None \<Rightarrow> t)"

section \<open>Close times and participants\<close>

record consensus_close_times =
  cct_peers :: "(net_time \<times> int) list"
  cct_self :: net_time

definition close_times_default :: consensus_close_times where
  "close_times_default = \<lparr>cct_peers = [], cct_self = 0\<rparr>"

text \<open>\<open>participants_needed\<close> works on \<open>i32\<close>; its callers pass counts and percentages.\<close>

definition participants_needed :: "int \<Rightarrow> int \<Rightarrow> int outcome" where
  "participants_needed participants percent =
     bind_outcome (rust_div percent 2) (\<lambda>half.
       bind_outcome (rust_div (participants * percent + half) 100) (\<lambda>result.
         Done (if result = 0 then 1 else result)))"

lemma participants_needed_pos:
  assumes "0 \<le> n" and "0 \<le> p"
  shows "participants_needed n p = Done (let r = (n * p + p div 2) div 100 in if r = 0 then 1 else r)"
  using assms by (simp add: participants_needed_def Let_def)

lemma participants_needed_bounds:
  assumes "0 < n" and "0 \<le> p" and "p \<le> 100" and "participants_needed n p = Done k"
  shows "1 \<le> k" and "k \<le> n" and "n * p \<le> 100 * k + 99 - p div 2 \<or> k = 1"
proof -
  let ?r = "(n * p + p div 2) div 100"
  have k: "k = (if ?r = 0 then 1 else ?r)"
    using assms by (simp add: participants_needed_pos Let_def)
  have "0 \<le> n * p" using assms by simp
  then have r0: "0 \<le> ?r" using assms by (simp add: pos_imp_zdiv_nonneg_iff)
  with k show "1 \<le> k" by auto
  have "n * p \<le> n * 100" using assms by (intro mult_left_mono) auto
  moreover have "p div 2 \<le> 50" using assms by linarith
  ultimately have "?r \<le> n" by linarith
  with k assms(1) show "k \<le> n" by auto
  have "n * p + p div 2 \<le> 100 * ?r + 99" by linarith
  with k show "n * p \<le> 100 * k + 99 - p div 2 \<or> k = 1" by (auto split: if_splits)
qed

end
