(* ===== verification/Consensus_Decisions.thy ===== *)
theory Consensus_Decisions
  imports Consensus_Types
begin

text \<open>
  The two decisions of a round: whether to close the open ledger and whether consensus is reached.
  \<^verbatim>\<open>xrpld/consensus/src/algorithm/functions.rs\<close>.
\<close>

section \<open>Definitions\<close>

definition should_close_ledger ::
  "bool \<Rightarrow> nat \<Rightarrow> nat \<Rightarrow> nat \<Rightarrow> duration \<Rightarrow> duration \<Rightarrow> duration \<Rightarrow> duration \<Rightarrow> consensus_parms \<Rightarrow> bool" where
  "should_close_ledger any_transactions prev_proposers proposers_closed proposers_validated
       prev_round_time time_since_prev_close open_time idle_interval parms =
     (if from_secs 600 < prev_round_time \<or> from_secs 600 < time_since_prev_close then True
      else if prev_proposers div 2 < proposers_closed + proposers_validated then True
      else if \<not> any_transactions then idle_interval \<le> time_since_prev_close
      else if open_time < ledger_min_close parms then False
      else if open_time < prev_round_time div 2 then False
      else True)"

definition check_consensus_reached :: "nat \<Rightarrow> nat \<Rightarrow> bool \<Rightarrow> nat \<Rightarrow> bool \<Rightarrow> bool \<Rightarrow> bool" where
  "check_consensus_reached agreeing participants count_self min_pct reached_max stalled =
     (if participants = 0 then reached_max
      else if stalled then True
      else let agreeing' = (if count_self then agreeing + 1 else agreeing);
               participants' = (if count_self then participants + 1 else participants);
               current_percentage = (agreeing' * 100) div participants'
           in min_pct \<le> current_percentage)"

text \<open>
  \<open>saturating_mul\<close> stops at \<open>Duration::MAX\<close>, the \<open>usize\<close> factor is cast to \<open>u32\<close>, and \<open>clamp\<close>
  panics when its bounds are out of order.
\<close>

definition check_consensus ::
  "nat \<Rightarrow> nat \<Rightarrow> nat \<Rightarrow> nat \<Rightarrow> duration \<Rightarrow> duration \<Rightarrow> bool \<Rightarrow> consensus_parms \<Rightarrow> bool \<Rightarrow> consensus_state outcome" where
  "check_consensus prev_proposers current_proposers current_agree current_finished
       previous_agree_time current_agree_time stalled parms proposing =
     (if current_agree_time \<le> ledger_min_consensus parms then Done No
      else if current_proposers < prev_proposers * 3 div 4
              \<and> current_agree_time < previous_agree_time + ledger_min_consensus parms then Done No
      else let reached_max = (ledger_max_consensus parms < current_agree_time) in
        if check_consensus_reached current_agree current_proposers proposing
             (min_consensus_pct parms) reached_max stalled then Done Yes
        else if check_consensus_reached current_finished current_proposers False
             (min_consensus_pct parms) reached_max False then Done MovedOn
        else let max_agree_time =
                   min (previous_agree_time * (ledger_abandon_consensus_factor parms mod 2 ^ 32)) duration_max
          in if ledger_abandon_consensus parms < ledger_max_consensus parms then Panic
             else let clamped_max =
                        max (ledger_max_consensus parms) (min max_agree_time (ledger_abandon_consensus parms))
               in if clamped_max < current_agree_time then Done Expired else Done No)"

section \<open>Facts\<close>

lemma percentage_le_iff: "0 < t \<Longrightarrow> p \<le> a * 100 div t \<longleftrightarrow> p * t \<le> a * (100 :: nat)"
  by (simp add: less_eq_div_iff_mult_less_eq)

lemma check_consensus_reached_iff:
  "check_consensus_reached a n self p reached_max stalled \<longleftrightarrow>
     (if n = 0 then reached_max
      else stalled \<or> p * (n + of_bool self) \<le> (a + of_bool self) * 100)"
  by (auto simp: check_consensus_reached_def Let_def less_eq_div_iff_mult_less_eq)

lemma check_consensus_YesD:
  assumes "check_consensus prev cur agree fin prev_time time stalled parms proposing = Done Yes"
    and "0 < cur" and "\<not> stalled"
  shows "min_consensus_pct parms * (cur + of_bool proposing) \<le> (agree + of_bool proposing) * 100"
  using assms
  by (auto simp: check_consensus_def Let_def check_consensus_reached_iff split: if_splits)






text \<open>
  The decision to close is monotone in time: once the open ledger should close it still should at
  every later moment of the round, with the same transactions flag and no fewer peers having closed
  or validated.
\<close>
theorem should_close_ledger_monotone:
  assumes "should_close_ledger any_tx prev closed validated prev_round since open_t idle parms"
    and "closed \<le> closed'" and "validated \<le> validated'" and "since \<le> since'" and "open_t \<le> open_t'"
  shows "should_close_ledger any_tx prev closed' validated' prev_round since' open_t' idle parms"
  using assms by (auto simp: should_close_ledger_def split: if_splits)

lemma should_close_ledger_monotone_witness:
  "should_close_ledger True 10 0 0 (from_secs 2) 0 (from_secs 3) (from_secs 15) default_parms"
  by (rule should_close_ledger_monotone [of _ _ 0 0 _ 0 "from_secs 2"])
     (simp_all add: should_close_ledger_def default_parms_def)

end
