(* ===== verification/Ledger_Timing.thy ===== *)
theory Ledger_Timing
  imports Prelude
begin

text \<open>
  Close times of ledgers: \<^verbatim>\<open>xrpld/consensus/src/algorithm/timing.rs\<close>, with the part of
  \<^verbatim>\<open>xrpl/basics/src/time/chrono.rs\<close> it uses. A \<open>time::Duration\<close> is a signed number of nanoseconds.
\<close>

section \<open>Durations and time points\<close>

type_synonym time_duration = int

definition seconds :: "int \<Rightarrow> time_duration" where
  "seconds n = n * 1000000000"

text \<open>\<open>whole_seconds\<close> truncates towards zero.\<close>

definition whole_seconds :: "time_duration \<Rightarrow> int" where
  "whole_seconds d = sgn d * (\<bar>d\<bar> div 1000000000)"

lemma whole_seconds_seconds [simp]: "whole_seconds (seconds n) = n"
  by (simp add: whole_seconds_def seconds_def sgn_mult abs_mult mult_sgn_abs)

text \<open>
  \<open>NetClockTimePoint::checked_add\<close> and \<open>checked_sub\<close>: \<open>None\<close> for a duration with a fractional second
  or a result outside \<open>u32\<close>; \<open>+\<close> panics in the same cases.
\<close>

definition net_checked_add :: "net_time \<Rightarrow> time_duration \<Rightarrow> net_time option" where
  "net_checked_add t d =
     (if d = seconds (whole_seconds d) \<and> 0 \<le> uint t + whole_seconds d \<and> uint t + whole_seconds d < 2 ^ 32
      then Some (word_of_int (uint t + whole_seconds d)) else None)"

definition net_checked_sub :: "net_time \<Rightarrow> time_duration \<Rightarrow> net_time option" where
  "net_checked_sub t d =
     (if d = seconds (whole_seconds d) \<and> 0 \<le> uint t - whole_seconds d \<and> uint t - whole_seconds d < 2 ^ 32
      then Some (word_of_int (uint t - whole_seconds d)) else None)"

definition net_diff :: "net_time \<Rightarrow> net_time \<Rightarrow> time_duration" where
  "net_diff a b = seconds (uint a - uint b)"

lemma uint_word_of_int_small: "0 \<le> x \<Longrightarrow> x < 2 ^ 32 \<Longrightarrow> uint (word_of_int x :: 32 word) = x"
  by (simp add: uint_word_of_int_eq take_bit_int_eq_self)

lemma uint_u32_inc: "t \<noteq> u32_max \<Longrightarrow> uint (t + 1) = uint t + 1" for t :: u32
  by (metis of_nat_1 of_nat_add uint_nat unat_u32_inc)

lemma net_checked_add_one: "t \<noteq> u32_max \<Longrightarrow> net_checked_add t (seconds 1) = Some (t + 1)"
proof -
  assume "t \<noteq> u32_max"
  then have "uint (t + 1) = uint t + 1"
    by (rule uint_u32_inc)
  then have "uint t + 1 < 2 ^ 32" "word_of_int (uint t + 1) = t + 1"
    using uint_range_size [of "t + 1"] by (simp_all add: word_size)
  then show ?thesis by (simp add: net_checked_add_def)
qed

section \<open>Close-time resolution\<close>

definition ledger_possible_time_resolutions :: "time_duration list" where
  "ledger_possible_time_resolutions =
     [seconds 10, seconds 20, seconds 30, seconds 60, seconds 90, seconds 120]"

definition ledger_default_time_resolution :: time_duration where
  "ledger_default_time_resolution = ledger_possible_time_resolutions ! 2"

definition ledger_genesis_time_resolution :: time_duration where
  "ledger_genesis_time_resolution = ledger_possible_time_resolutions ! 0"

definition increase_ledger_time_resolution_every :: nat where
  "increase_ledger_time_resolution_every = 8"

definition decrease_ledger_time_resolution_every :: nat where
  "decrease_ledger_time_resolution_every = 1"

fun position_of :: "'a \<Rightarrow> 'a list \<Rightarrow> nat option" where
  "position_of x [] = None"
| "position_of x (y # ys) = (if y = x then Some 0 else map_option Suc (position_of x ys))"

lemma position_of_Some: "position_of x xs = Some i \<Longrightarrow> i < length xs \<and> xs ! i = x"
  by (induction xs arbitrary: i) (auto split: if_splits)

lemma position_of_mem: "x \<in> set xs \<Longrightarrow> \<exists>i. position_of x xs = Some i"
  by (induction xs) auto

definition get_next_ledger_time_resolution :: "time_duration \<Rightarrow> bool \<Rightarrow> nat \<Rightarrow> time_duration outcome" where
  "get_next_ledger_time_resolution previous_resolution previous_agree ledger_seq =
     (if ledger_seq = 0 then Panic
      else case position_of previous_resolution ledger_possible_time_resolutions of
        None \<Rightarrow> Done previous_resolution
      | Some index \<Rightarrow>
          if \<not> previous_agree \<and> ledger_seq mod decrease_ledger_time_resolution_every = 0
          then (if index + 1 < length ledger_possible_time_resolutions
                then Done (ledger_possible_time_resolutions ! (index + 1)) else Done previous_resolution)
          else if previous_agree \<and> ledger_seq mod increase_ledger_time_resolution_every = 0
          then (if 0 < index then Done (ledger_possible_time_resolutions ! (index - 1))
                else Done previous_resolution)
          else Done previous_resolution)"

section \<open>Rounding\<close>

text \<open>\<open>rounded.max(0) as u32\<close> keeps the low 32 bits.\<close>

definition round_close_time :: "net_time \<Rightarrow> time_duration \<Rightarrow> net_time" where
  "round_close_time close_time resolution =
     (if close_time = 0 then close_time
      else let resolution_secs = max (whole_seconds resolution) 1;
               raw_secs = uint close_time;
               shifted = raw_secs + resolution_secs div 2;
               rounded = shifted - shifted mod resolution_secs
           in word_of_int (max rounded 0))"

definition effective_close_time :: "net_time \<Rightarrow> time_duration \<Rightarrow> net_time \<Rightarrow> net_time" where
  "effective_close_time close_time resolution prior_close_time =
     (if close_time = 0 then close_time
      else let rounded = round_close_time close_time resolution;
               min_allowed = (if prior_close_time = u32_max then u32_max else prior_close_time + 1)
           in max rounded min_allowed)"

section \<open>Facts\<close>

lemma uint_round_close_time:
  assumes "t \<noteq> 0" and "0 < r" and "uint t + r div 2 < 2 ^ 32"
  shows "uint (round_close_time t (seconds r)) = uint t + r div 2 - (uint t + r div 2) mod r"
proof -
  let ?x = "uint t + r div 2 - (uint t + r div 2) mod r"
  have nn: "0 \<le> uint t + r div 2"
    using assms(2) by (simp add: pos_imp_zdiv_nonneg_iff)
  have "?x = (uint t + r div 2) div r * r"
    by (simp add: minus_mod_eq_div_mult)
  then have lo: "0 \<le> ?x"
    using nn assms(2) by (simp add: pos_imp_zdiv_nonneg_iff)
  have "0 \<le> (uint t + r div 2) mod r"
    using assms(2) by simp
  then have "?x < 2 ^ 32"
    using assms(3) by linarith
  with lo have "uint (word_of_int ?x :: 32 word) = ?x"
    by (rule uint_word_of_int_small)
  moreover have "round_close_time t (seconds r) = word_of_int ?x"
    using assms(1,2) lo by (simp add: round_close_time_def Let_def max_absorb1)
  ultimately show ?thesis by (simp only:)
qed

lemma round_close_time_near:
  assumes "t \<noteq> 0" and "0 < r" and "uint t + r div 2 < 2 ^ 32"
  shows "r dvd uint (round_close_time t (seconds r))"
    and "uint (round_close_time t (seconds r)) \<le> uint t + r div 2"
    and "uint t < uint (round_close_time t (seconds r)) + (r + 1) div 2"
proof -
  let ?s = "uint t + r div 2"
  have eq: "uint (round_close_time t (seconds r)) = ?s - ?s mod r"
    by (rule uint_round_close_time [OF assms])
  show "r dvd uint (round_close_time t (seconds r))"
    unfolding eq by (simp add: minus_mod_eq_div_mult)
  have m: "0 \<le> ?s mod r" "?s mod r < r"
    using assms(2) by simp_all
  show "uint (round_close_time t (seconds r)) \<le> uint t + r div 2"
    unfolding eq using m by linarith
  show "uint t < uint (round_close_time t (seconds r)) + (r + 1) div 2"
    unfolding eq using m assms(2) by linarith
qed

section \<open>Properties\<close>

text \<open>
  C30: the close-time resolution moves on its ladder one rung at a time. From a resolution of the ladder
  the next one is the same, the next coarser one (exactly when the previous round disagreed and there is
  one), or the next finer one (exactly when it agreed, the sequence is a multiple of 8 and there is one).
\<close>
theorem next_resolution_step:
  assumes "position_of prev ledger_possible_time_resolutions = Some i" and "0 < seq"
  shows "\<exists>j. get_next_ledger_time_resolution prev agree seq = Done (ledger_possible_time_resolutions ! j) \<and>
     j < 6 \<and> (j = i + 1 \<longleftrightarrow> \<not> agree \<and> i < 5) \<and> (j + 1 = i \<longleftrightarrow> agree \<and> seq mod 8 = 0 \<and> 0 < i) \<and>
     (j = i \<or> j = i + 1 \<or> j + 1 = i)"
proof -
  have i: "i < 6" "prev = ledger_possible_time_resolutions ! i"
    using position_of_Some [OF assms(1)] by (simp_all add: ledger_possible_time_resolutions_def)
  define j where "j = (if \<not> agree then (if i < 5 then i + 1 else i)
      else if seq mod 8 = 0 \<and> 0 < i then i - 1 else i)"
  have "get_next_ledger_time_resolution prev agree seq = Done (ledger_possible_time_resolutions ! j)"
    using assms i
    by (simp add: get_next_ledger_time_resolution_def decrease_ledger_time_resolution_every_def
      increase_ledger_time_resolution_every_def j_def ledger_possible_time_resolutions_def)
  with i show ?thesis
    by (intro exI [of _ j]) (auto simp: j_def)
qed

lemma next_resolution_step_witness:
  "get_next_ledger_time_resolution (seconds 30) True 16 = Done (ledger_possible_time_resolutions ! 1)"
proof -
  have "position_of (seconds 30) ledger_possible_time_resolutions = Some 2"
    by (simp add: ledger_possible_time_resolutions_def seconds_def)
  from next_resolution_step [OF this, of 16 True] show ?thesis by auto
qed



end
