(* ===== verification/Proposal.thy ===== *)
theory Proposal
  imports Prelude
begin

text \<open>
  A position taken on the next ledger, ours or a peer's:
  \<^verbatim>\<open>xrpld/consensus/src/model/proposal.rs\<close>. The sequence number keeps its width.
\<close>

section \<open>Definitions\<close>

record ('n, 'l, 'p) proposal =
  cp_previous_ledger :: 'l
  cp_position :: 'p
  cp_close_time :: net_time
  cp_seen_time :: net_time
  cp_propose_seq :: u32
  cp_node_id :: 'n

definition SEQ_JOIN :: u32 where
  "SEQ_JOIN = 0"

definition SEQ_LEAVE :: u32 where
  "SEQ_LEAVE = u32_max"

definition new_proposal :: "'l \<Rightarrow> u32 \<Rightarrow> 'p \<Rightarrow> net_time \<Rightarrow> net_time \<Rightarrow> 'n \<Rightarrow> ('n, 'l, 'p) proposal" where
  "new_proposal previous_ledger propose_seq position close_time seen_time node_id =
     \<lparr>cp_previous_ledger = previous_ledger, cp_position = position, cp_close_time = close_time,
      cp_seen_time = seen_time, cp_propose_seq = propose_seq, cp_node_id = node_id\<rparr>"

definition is_initial :: "('n, 'l, 'p) proposal \<Rightarrow> bool" where
  "is_initial p \<longleftrightarrow> cp_propose_seq p = SEQ_JOIN"

definition is_bow_out :: "('n, 'l, 'p) proposal \<Rightarrow> bool" where
  "is_bow_out p \<longleftrightarrow> cp_propose_seq p = SEQ_LEAVE"

definition is_stale :: "net_time \<Rightarrow> ('n, 'l, 'p) proposal \<Rightarrow> bool" where
  "is_stale cutoff p \<longleftrightarrow> cp_seen_time p \<le> cutoff"

definition change_position ::
  "'p \<Rightarrow> net_time \<Rightarrow> net_time \<Rightarrow> ('n, 'l, 'p) proposal \<Rightarrow> ('n, 'l, 'p) proposal" where
  "change_position new_position new_close_time now p =
     p\<lparr>cp_position := new_position, cp_close_time := new_close_time, cp_seen_time := now,
       cp_propose_seq := (if cp_propose_seq p \<noteq> SEQ_LEAVE then cp_propose_seq p + 1 else cp_propose_seq p)\<rparr>"

definition bow_out :: "net_time \<Rightarrow> ('n, 'l, 'p) proposal \<Rightarrow> ('n, 'l, 'p) proposal" where
  "bow_out now p = p\<lparr>cp_seen_time := now, cp_propose_seq := SEQ_LEAVE\<rparr>"

section \<open>Facts\<close>

lemma bow_out_is_bow_out [simp]: "is_bow_out (bow_out now p)"
  by (simp add: is_bow_out_def bow_out_def)

lemma change_position_bow_out: "is_bow_out p \<Longrightarrow> is_bow_out (change_position q ct now p)"
  by (simp add: is_bow_out_def change_position_def)

lemma change_position_fields [simp]:
  "cp_position (change_position q ct now p) = q"
  "cp_close_time (change_position q ct now p) = ct"
  "cp_seen_time (change_position q ct now p) = now"
  "cp_previous_ledger (change_position q ct now p) = cp_previous_ledger p"
  "cp_node_id (change_position q ct now p) = cp_node_id p"
  by (simp_all add: change_position_def)

lemma bow_out_fields [simp]:
  "cp_position (bow_out now p) = cp_position p"
  "cp_close_time (bow_out now p) = cp_close_time p"
  "cp_previous_ledger (bow_out now p) = cp_previous_ledger p"
  "cp_node_id (bow_out now p) = cp_node_id p"
  by (simp_all add: bow_out_def)

lemma unat_change_position_seq:
  "unat (cp_propose_seq (change_position q ct now p)) = min (unat (cp_propose_seq p) + 1) (2 ^ 32 - 1)"
proof (cases "cp_propose_seq p = u32_max")
  case True
  then show ?thesis by (simp add: change_position_def SEQ_LEAVE_def)
next
  case False
  then show ?thesis
    using unat_u32_less [of "cp_propose_seq p"]
    by (simp add: change_position_def SEQ_LEAVE_def unat_u32_inc u32_eq_max_iff)
qed

text \<open>The life of a position: a list of updates, each a change or a bow-out.\<close>

datatype 'p move = Change 'p net_time net_time | BowOut net_time

fun apply_move :: "'p move \<Rightarrow> ('n, 'l, 'p) proposal \<Rightarrow> ('n, 'l, 'p) proposal" where
  "apply_move (Change q ct now) p = change_position q ct now p"
| "apply_move (BowOut now) p = bow_out now p"

lemma fold_moves_bow_out: "is_bow_out p \<Longrightarrow> is_bow_out (fold apply_move ms p)"
proof (induction ms arbitrary: p)
  case Nil
  then show ?case by simp
next
  case (Cons m ms)
  have "is_bow_out (apply_move m p)"
    using Cons.prems by (cases m) (simp_all add: change_position_bow_out)
  then show ?case using Cons.IH by simp
qed

section \<open>Properties\<close>

text \<open>
  C32: a position's sequence number never decreases and leaving is final: whatever updates a position
  goes through, its sequence number stays or grows, each change counts by one until the reserved last
  number is reached, and once the position is bowed out it remains so.
\<close>
theorem position_life:
  "unat (cp_propose_seq p) \<le> unat (cp_propose_seq (fold apply_move ms p)) \<and>
   (is_bow_out p \<longrightarrow> is_bow_out (fold apply_move ms p)) \<and>
   (list_all (\<lambda>m. case m of Change _ _ _ \<Rightarrow> True | BowOut _ \<Rightarrow> False) ms \<longrightarrow>
      unat (cp_propose_seq (fold apply_move ms p)) = min (unat (cp_propose_seq p) + length ms) (2 ^ 32 - 1))"
proof (induction ms arbitrary: p)
  case Nil
  then show ?case
    using unat_u32_less [of "cp_propose_seq p"] by simp
next
  case (Cons m ms)
  have seq: "unat (cp_propose_seq p) \<le> unat (cp_propose_seq (apply_move m p))"
    using unat_u32_less [of "cp_propose_seq p"]
    by (cases m) (simp_all add: unat_change_position_seq, simp add: bow_out_def SEQ_LEAVE_def)
  have bow: "is_bow_out p \<Longrightarrow> is_bow_out (apply_move m p)"
    by (cases m) (simp_all add: change_position_bow_out)
  show ?case
    using Cons.IH [of "apply_move m p"] seq bow
    by (auto simp: unat_change_position_seq split: move.splits)
qed

lemma position_life_witness:
  "is_bow_out (fold apply_move [BowOut 7, Change (3 :: nat) 5 9] (new_proposal (1 :: nat) 0 2 4 4 (8 :: nat)))"
  using position_life [of "apply_move (BowOut 7) (new_proposal (1 :: nat) 0 2 4 4 (8 :: nat))"
    "[Change (3 :: nat) 5 9]"] by simp

end
