(* ===== verification/Disputed_Tx.thy ===== *)
theory Disputed_Tx
  imports Consensus_Params
begin

text \<open>
  A transaction some peers include and others do not, with everybody's vote on it:
  \<^verbatim>\<open>xrpld/consensus/src/model/disputed_tx.rs\<close>. The \<open>i32\<close> counters are integers; they count
  peers, of which the tally invariant below shows they never go negative.
\<close>

section \<open>Definitions\<close>

record ('tx, 'x, 'n) disputed_tx =
  dt_yays :: int
  dt_nays :: int
  dt_our_vote :: bool
  dt_tx :: 'tx
  dt_votes :: "('n \<times> bool) list"
  dt_current_vote_counter :: nat
  dt_avalanche_state :: avalanche_state
  dt_avalanche_counter :: nat
  dt_tx_id :: 'x

definition new_dispute :: "'tx \<Rightarrow> 'x \<Rightarrow> bool \<Rightarrow> ('tx, 'x, 'n) disputed_tx" where
  "new_dispute tx tx_id our_vote =
     \<lparr>dt_yays = 0, dt_nays = 0, dt_our_vote = our_vote, dt_tx = tx, dt_votes = [],
      dt_current_vote_counter = 0, dt_avalanche_state = Init, dt_avalanche_counter = 0,
      dt_tx_id = tx_id\<rparr>"

definition set_our_vote :: "bool \<Rightarrow> ('tx, 'x, 'n) disputed_tx \<Rightarrow> ('tx, 'x, 'n) disputed_tx" where
  "set_our_vote vote d = d\<lparr>dt_our_vote := vote\<rparr>"

definition set_vote ::
  "'n \<Rightarrow> bool \<Rightarrow> ('tx, 'x, 'n) disputed_tx \<Rightarrow> bool \<times> ('tx, 'x, 'n) disputed_tx" where
  "set_vote peer votes_yes d =
     (case map_of (dt_votes d) peer of
        None \<Rightarrow>
          (True, (let d = d\<lparr>dt_votes := AList.update peer votes_yes (dt_votes d)\<rparr> in
             if votes_yes then d\<lparr>dt_yays := dt_yays d + 1\<rparr> else d\<lparr>dt_nays := dt_nays d + 1\<rparr>))
      | Some existing \<Rightarrow>
          if existing \<noteq> votes_yes then
            (True, (let d = (if votes_yes
                             then d\<lparr>dt_nays := dt_nays d - 1, dt_yays := dt_yays d + 1\<rparr>
                             else d\<lparr>dt_yays := dt_yays d - 1, dt_nays := dt_nays d + 1\<rparr>)
                    in d\<lparr>dt_votes := AList.update peer votes_yes (dt_votes d)\<rparr>))
          else (False, d))"

definition un_vote :: "'n \<Rightarrow> ('tx, 'x, 'n) disputed_tx \<Rightarrow> ('tx, 'x, 'n) disputed_tx" where
  "un_vote peer d =
     (case map_of (dt_votes d) peer of
        None \<Rightarrow> d
      | Some vote \<Rightarrow>
          (let d = d\<lparr>dt_votes := AList.delete peer (dt_votes d)\<rparr> in
           if vote then d\<lparr>dt_yays := dt_yays d - 1\<rparr> else d\<lparr>dt_nays := dt_nays d - 1\<rparr>))"

definition dispute_stalled ::
  "consensus_parms \<Rightarrow> bool \<Rightarrow> nat \<Rightarrow> ('tx, 'x, 'n) disputed_tx \<Rightarrow> bool outcome" where
  "dispute_stalled parms proposing peers_unchanged d =
     bind_outcome (expect (map_of (avalanche_cutoffs parms) (dt_avalanche_state d))) (\<lambda>current_cutoff.
     bind_outcome (expect (map_of (avalanche_cutoffs parms) (next_state current_cutoff))) (\<lambda>next_cutoff.
       if consensus_time current_cutoff < consensus_time next_cutoff
          \<or> dt_avalanche_counter d < av_min_rounds parms then Done False
       else if proposing \<and> dt_current_vote_counter d < av_min_rounds parms then Done False
       else if peers_unchanged < av_stalled_rounds parms
          \<and> (proposing \<and> dt_current_vote_counter d < av_stalled_rounds parms) then Done False
       else let support = (dt_yays d + of_bool (proposing \<and> dt_our_vote d)) * 100;
                participants = dt_nays d + dt_yays d + of_bool proposing
         in if participants = 0 then Done False
            else bind_outcome (rust_div support participants) (\<lambda>weight.
              bind_outcome (i32_try_from (min_consensus_pct parms)) (\<lambda>min_pct.
                Done (min_pct < weight \<or> weight < 100 - min_pct)))))"

definition update_vote ::
  "int \<Rightarrow> bool \<Rightarrow> consensus_parms \<Rightarrow> ('tx, 'x, 'n) disputed_tx \<Rightarrow> (bool \<times> ('tx, 'x, 'n) disputed_tx) outcome" where
  "update_vote percent_time proposing parms d =
     (if dt_our_vote d \<and> dt_nays d = 0 then Done (False, d)
      else if \<not> dt_our_vote d \<and> dt_yays d = 0 then Done (False, d)
      else let d = d\<lparr>dt_avalanche_counter := dt_avalanche_counter d + 1\<rparr> in
        bind_outcome (get_needed_weight parms (dt_avalanche_state d) percent_time
                        (dt_avalanche_counter d) (av_min_rounds parms)) (\<lambda>(required_pct, new_state).
          let d = (case new_state of
                     Some st \<Rightarrow> d\<lparr>dt_avalanche_state := st, dt_avalanche_counter := 0\<rparr>
                   | None \<Rightarrow> d)
          in bind_outcome
               (if proposing
                then bind_outcome (rust_div (dt_yays d * 100 + of_bool (dt_our_vote d) * 100)
                                            (dt_nays d + dt_yays d + 1)) (\<lambda>weight.
                       bind_outcome (i32_try_from required_pct) (\<lambda>required. Done (required < weight)))
                else Done (dt_nays d < dt_yays d)) (\<lambda>new_position.
               if new_position = dt_our_vote d
               then Done (False, d\<lparr>dt_current_vote_counter := dt_current_vote_counter d + 1\<rparr>)
               else Done (True, d\<lparr>dt_current_vote_counter := 0, dt_our_vote := new_position\<rparr>))))"

section \<open>The tally\<close>

text \<open>The number of peers that vote \<open>b\<close>.\<close>

definition votes_for :: "bool \<Rightarrow> ('n \<times> bool) list \<Rightarrow> int" where
  "votes_for b m = int (length (filter (\<lambda>(_, v). v = b) m))"

definition tally_ok :: "('tx, 'x, 'n) disputed_tx \<Rightarrow> bool" where
  "tally_ok d \<longleftrightarrow> unique_keys (dt_votes d) \<and>
     dt_yays d = votes_for True (dt_votes d) \<and> dt_nays d = votes_for False (dt_votes d)"

lemma votes_for_nonneg [simp]: "0 \<le> votes_for b m"
  by (simp add: votes_for_def)

lemma votes_for_Nil [simp]: "votes_for b [] = 0"
  by (simp add: votes_for_def)

lemma votes_for_Cons [simp]: "votes_for b ((k, v) # m) = of_bool (v = b) + votes_for b m"
  by (simp add: votes_for_def)

lemma votes_for_update_new:
  "map_of m k = None \<Longrightarrow> votes_for b (AList.update k v m) = votes_for b m + of_bool (v = b)"
  by (induction m) (auto split: if_splits)

lemma votes_for_update_old:
  assumes "unique_keys m" and "map_of m k = Some v'"
  shows "votes_for b (AList.update k v m) = votes_for b m + of_bool (v = b) - of_bool (v' = b)"
  using assms by (induction m) (auto split: if_splits)

lemma votes_for_delete:
  assumes "unique_keys m" and "map_of m k = Some v"
  shows "votes_for b (AList.delete k m) = votes_for b m - of_bool (v = b)"
  using assms by (induction m) (auto split: if_splits)

lemma votes_for_total: "votes_for True m + votes_for False m = int (length m)"
  by (induction m) auto

named_theorems tally \<open>operations keep the tally of a dispute\<close>

lemma tally_new [tally, simp]: "tally_ok (new_dispute tx x v)"
  by (simp add: tally_ok_def new_dispute_def)

lemma tally_set_our_vote [tally, simp]: "tally_ok d \<Longrightarrow> tally_ok (set_our_vote v d)"
  by (simp add: tally_ok_def set_our_vote_def)

lemma tally_set_vote [tally]: "tally_ok d \<Longrightarrow> tally_ok (snd (set_vote p v d))"
  by (cases v)
     (auto simp: tally_ok_def set_vote_def Let_def votes_for_update_new votes_for_update_old
           split: option.splits)

lemma tally_un_vote [tally]: "tally_ok d \<Longrightarrow> tally_ok (un_vote p d)"
  by (auto simp: tally_ok_def un_vote_def Let_def votes_for_delete split: option.splits)

lemma votes_set_vote [simp]:
  "map_of (dt_votes (snd (set_vote p v d))) = (map_of (dt_votes d))(p \<mapsto> v)"
  by (auto simp: set_vote_def Let_def split: option.splits)

lemma votes_un_vote [simp]: "map_of (dt_votes (un_vote p d)) = (map_of (dt_votes d))(p := None)"
  by (auto simp: un_vote_def Let_def split: option.splits)

lemma keys_votes_set_vote: "keys (dt_votes (snd (set_vote p v d))) = insert p (keys (dt_votes d))"
  by (metis dom_fun_upd dom_map_of_conv_image_fst option.distinct(1) votes_set_vote)

lemma keys_votes_un_vote: "keys (dt_votes (un_vote p d)) = keys (dt_votes d) - {p}"
  by (metis dom_fun_upd dom_map_of_conv_image_fst votes_un_vote)

lemma set_vote_changed: "fst (set_vote p v d) \<longleftrightarrow> map_of (dt_votes d) p \<noteq> Some v"
  by (auto simp: set_vote_def split: option.splits)

lemma set_vote_frame [simp]:
  "dt_tx (snd (set_vote p v d)) = dt_tx d" "dt_tx_id (snd (set_vote p v d)) = dt_tx_id d"
  "dt_our_vote (snd (set_vote p v d)) = dt_our_vote d"
  "dt_avalanche_state (snd (set_vote p v d)) = dt_avalanche_state d"
  by (auto simp: set_vote_def Let_def split: option.splits)

lemma un_vote_frame [simp]:
  "dt_tx (un_vote p d) = dt_tx d" "dt_tx_id (un_vote p d) = dt_tx_id d"
  "dt_our_vote (un_vote p d) = dt_our_vote d"
  "dt_avalanche_state (un_vote p d) = dt_avalanche_state d"
  by (auto simp: un_vote_def Let_def split: option.splits)

section \<open>Voting\<close>

definition pcts_fit :: "consensus_parms \<Rightarrow> bool" where
  "pcts_fit parms \<longleftrightarrow> int (min_consensus_pct parms) \<le> i32_max \<and>
     (\<forall>(s, c) \<in> set (avalanche_cutoffs parms). int (consensus_pct c) \<le> i32_max)"

lemma pcts_fit_default [simp]: "pcts_fit default_parms"
  by (simp add: pcts_fit_def default_parms_def default_cutoffs_def i32_max_def)

lemma get_needed_weight_pct:
  assumes "get_needed_weight parms s t r m = Done (pct, st)" and "pcts_fit parms"
  shows "int pct \<le> i32_max"
  using assms
  by (auto simp: get_needed_weight_def pcts_fit_def bind_outcome_Done_iff split: if_splits dest: map_of_in)

lemma update_vote_form:
  assumes "update_vote t proposing parms d = Done (changed, d')"
  obtains "d' = d" and "\<not> changed"
      and "dt_our_vote d \<and> dt_nays d = 0 \<or> \<not> dt_our_vote d \<and> dt_yays d = 0"
  | pct new vote cvc where
      "get_needed_weight parms (dt_avalanche_state d) t (dt_avalanche_counter d + 1)
         (av_min_rounds parms) = Done (pct, new)"
    and "d' = d\<lparr>dt_avalanche_state := (case new of None \<Rightarrow> dt_avalanche_state d | Some st \<Rightarrow> st),
                dt_avalanche_counter := (case new of None \<Rightarrow> dt_avalanche_counter d + 1 | Some _ \<Rightarrow> 0),
                dt_our_vote := vote, dt_current_vote_counter := cvc\<rparr>"
    and "changed \<longleftrightarrow> vote \<noteq> dt_our_vote d"
    and "if proposing
         then \<exists>w. rust_div (dt_yays d * 100 + of_bool (dt_our_vote d) * 100)
                       (dt_nays d + dt_yays d + 1) = Done w \<and> (vote \<longleftrightarrow> int pct < w)
         else vote \<longleftrightarrow> dt_nays d < dt_yays d"
proof (cases "dt_our_vote d \<and> dt_nays d = 0 \<or> \<not> dt_our_vote d \<and> dt_yays d = 0")
  case True
  then have "d' = d" "\<not> changed"
    using assms by (auto simp: update_vote_def)
  with True that(1) show ?thesis by blast
next
  case False
  then have "\<exists>pct new. get_needed_weight parms (dt_avalanche_state d) t (dt_avalanche_counter d + 1)
      (av_min_rounds parms) = Done (pct, new)"
    using assms by (auto simp: update_vote_def Let_def bind_outcome_Done_iff)
  then obtain pct new where w: "get_needed_weight parms (dt_avalanche_state d) t
      (dt_avalanche_counter d + 1) (av_min_rounds parms) = Done (pct, new)"
    by blast
  let ?e = "d\<lparr>dt_avalanche_state := (case new of None \<Rightarrow> dt_avalanche_state d | Some st \<Rightarrow> st),
      dt_avalanche_counter := (case new of None \<Rightarrow> dt_avalanche_counter d + 1 | Some _ \<Rightarrow> 0)\<rparr>"
  let ?dec = "\<lambda>vote. if proposing
         then \<exists>w. rust_div (dt_yays d * 100 + of_bool (dt_our_vote d) * 100)
                       (dt_nays d + dt_yays d + 1) = Done w \<and> (vote \<longleftrightarrow> int pct < w)
         else vote \<longleftrightarrow> dt_nays d < dt_yays d"
  have "\<exists>vote. ?dec vote \<and> (changed, d') = (if vote = dt_our_vote d
      then (False, ?e\<lparr>dt_current_vote_counter := dt_current_vote_counter d + 1\<rparr>)
      else (True, ?e\<lparr>dt_current_vote_counter := 0, dt_our_vote := vote\<rparr>))"
  proof -
    have F: "(dt_our_vote d \<and> dt_nays d = 0) = False" "(\<not> dt_our_vote d \<and> dt_yays d = 0) = False"
      using False by auto
    have eq: "update_vote t proposing parms d = bind_outcome
        (if proposing
         then bind_outcome (rust_div (dt_yays d * 100 + of_bool (dt_our_vote d) * 100)
                                     (dt_nays d + dt_yays d + 1)) (\<lambda>weight.
                bind_outcome (i32_try_from pct) (\<lambda>required. Done (required < weight)))
         else Done (dt_nays d < dt_yays d)) (\<lambda>vote.
        if vote = dt_our_vote d
        then Done (False, ?e\<lparr>dt_current_vote_counter := dt_current_vote_counter d + 1\<rparr>)
        else Done (True, ?e\<lparr>dt_current_vote_counter := 0, dt_our_vote := vote\<rparr>))"
      unfolding update_vote_def F if_False Let_def using w by (cases new) (simp_all cong: if_cong)
    from assms obtain vote where
      vote: "(if proposing
         then bind_outcome (rust_div (dt_yays d * 100 + of_bool (dt_our_vote d) * 100)
                                     (dt_nays d + dt_yays d + 1)) (\<lambda>weight.
                bind_outcome (i32_try_from pct) (\<lambda>required. Done (required < weight)))
         else Done (dt_nays d < dt_yays d)) = Done vote"
      and res: "(if vote = dt_our_vote d
        then Done (False, ?e\<lparr>dt_current_vote_counter := dt_current_vote_counter d + 1\<rparr>)
        else Done (True, ?e\<lparr>dt_current_vote_counter := 0, dt_our_vote := vote\<rparr>)) = Done (changed, d')"
      unfolding eq bind_outcome_Done_iff by blast
    have "?dec vote"
      using vote by (auto simp: bind_outcome_Done_iff i32_try_from_def split: if_split_asm)
    with res show ?thesis
      by (intro exI [of _ vote]) (simp split: if_split_asm)
  qed
  then obtain vote where v: "?dec vote" and eq: "(changed, d') = (if vote = dt_our_vote d
      then (False, ?e\<lparr>dt_current_vote_counter := dt_current_vote_counter d + 1\<rparr>)
      else (True, ?e\<lparr>dt_current_vote_counter := 0, dt_our_vote := vote\<rparr>))"
    by blast
  show ?thesis
    by (rule that(2) [OF w _ _ v, of "dt_current_vote_counter d'"])
       (use eq in \<open>simp_all split: if_split_asm\<close>)
qed

lemma update_vote_frame:
  assumes "update_vote t proposing parms d = Done (changed, d')"
  shows "dt_tx d' = dt_tx d" and "dt_tx_id d' = dt_tx_id d" and "dt_votes d' = dt_votes d"
    and "dt_yays d' = dt_yays d" and "dt_nays d' = dt_nays d"
    and "changed \<longleftrightarrow> dt_our_vote d' \<noteq> dt_our_vote d"
  using assms by (cases rule: update_vote_form, simp_all)+

lemma tally_update_vote [tally]:
  assumes "update_vote t proposing parms d = Done (changed, d')" and "tally_ok d"
  shows "tally_ok d'"
  using assms update_vote_frame [OF assms(1)] by (simp add: tally_ok_def)

lemma update_vote_returns:
  assumes "tally_ok d" and "total_cutoffs parms" and "pcts_fit parms"
  shows "\<exists>changed d'. update_vote t proposing parms d = Done (changed, d')"
proof -
  obtain pct st where w: "get_needed_weight parms (dt_avalanche_state d) t
      (dt_avalanche_counter d + 1) (av_min_rounds parms) = Done (pct, st)"
    using get_needed_weight_returns [OF assms(2)] by blast
  have pct: "int pct \<le> i32_max"
    by (rule get_needed_weight_pct [OF w assms(3)])
  have "0 < dt_nays d + dt_yays d + 1" "0 \<le> dt_yays d * 100 + of_bool (dt_our_vote d) * 100"
    using assms(1) by (auto simp: tally_ok_def)
  then show ?thesis
    using w pct
    by (cases st) (auto simp: update_vote_def Let_def i32_try_from_def)
qed

lemma dispute_stalled_returns:
  assumes "tally_ok d" and "total_cutoffs parms" and "pcts_fit parms"
  shows "\<exists>b. dispute_stalled parms proposing n d = Done b"
proof -
  obtain c where c: "map_of (avalanche_cutoffs parms) (dt_avalanche_state d) = Some c"
    using assms(2) total_cutoffsD by blast
  obtain c' where c': "map_of (avalanche_cutoffs parms) (next_state c) = Some c'"
    using assms(2) total_cutoffsD by blast
  have nn: "0 \<le> dt_yays d" "0 \<le> dt_nays d"
    using assms(1) by (auto simp: tally_ok_def)
  have "int (min_consensus_pct parms) \<le> i32_max"
    using assms(3) by (simp add: pcts_fit_def)
  with c c' nn show ?thesis
    by (auto simp: dispute_stalled_def Let_def i32_try_from_def rust_div_def)
qed

section \<open>Reachable disputes\<close>

text \<open>Everything the engine does to a dispute after creating it.\<close>

inductive dispute_step :: "('tx, 'x, 'n) disputed_tx \<Rightarrow> ('tx, 'x, 'n) disputed_tx \<Rightarrow> bool" where
  step_set_vote: "dispute_step d (snd (set_vote p v d))"
| step_un_vote: "dispute_step d (un_vote p d)"
| step_set_our_vote: "dispute_step d (set_our_vote v d)"
| step_update_vote: "update_vote t proposing parms d = Done (changed, d') \<Longrightarrow> dispute_step d d'"

definition dispute_init :: "('tx, 'x, 'n) disputed_tx \<Rightarrow> bool" where
  "dispute_init d \<longleftrightarrow> (\<exists>tx x v. d = new_dispute tx x v)"

interpretation dispute: step_invariant dispute_init dispute_step tally_ok
proof unfold_locales
  show "dispute_init d \<Longrightarrow> tally_ok d" for d :: "('a, 'b, 'c) disputed_tx"
    by (auto simp: dispute_init_def)
  show "tally_ok d \<Longrightarrow> dispute_step d d' \<Longrightarrow> tally_ok d'" for d d' :: "('a, 'b, 'c) disputed_tx"
    by (auto elim!: dispute_step.cases intro: tally)
qed

text \<open>
  C27: in every dispute the operations can produce, the yes and no counters are the numbers of peers
  whose recorded vote is yes and no: they never drift or go negative, and together they count the
  voting peers.
\<close>
theorem dispute_tally:
  assumes "reach dispute_init dispute_step d"
  shows "dt_yays d = votes_for True (dt_votes d) \<and> dt_nays d = votes_for False (dt_votes d) \<and>
    dt_yays d + dt_nays d = int (card (keys (dt_votes d)))"
proof -
  have "tally_ok d"
    using assms by (rule dispute.inv_reach)
  then show ?thesis
    using distinct_card [of "map fst (dt_votes d)"] by (simp add: votes_for_total tally_ok_def)
qed

lemma dispute_tally_witness:
  "dt_yays (snd (set_vote (1 :: nat) True (new_dispute () () False))) = votes_for True [(1 :: nat, True)]"
proof -
  have "reach dispute_init dispute_step (snd (set_vote (1 :: nat) True (new_dispute () () False)))"
    by (rule reach_step, rule reach_init, unfold dispute_init_def, blast, rule step_set_vote)
  from dispute_tally [OF this] show ?thesis
    by (simp add: set_vote_def new_dispute_def Let_def)
qed



text \<open>
  C29: the avalanche never runs backwards. With the default schedule an update leaves a dispute in its
  avalanche state, or moves it to the next one; it moves only after the minimum number of rounds in
  the old state, and then starts counting rounds again.
\<close>
theorem update_vote_avalanche:
  assumes "update_vote t proposing default_parms d = Done (changed, d')"
  shows "(dt_avalanche_state d' = dt_avalanche_state d \<and>
           dt_avalanche_counter d' \<in> {dt_avalanche_counter d, dt_avalanche_counter d + 1}) \<or>
         (avalanche_rank (dt_avalanche_state d') = avalanche_rank (dt_avalanche_state d) + 1 \<and>
           av_min_rounds default_parms \<le> dt_avalanche_counter d + 1 \<and> dt_avalanche_counter d' = 0)"
  using assms
  by (cases rule: update_vote_form) (auto split: option.splits dest!: default_schedule_step)

lemma update_vote_avalanche_witness:
  "\<exists>changed d'. update_vote 60 False default_parms
      (snd (set_vote (1 :: nat) True (new_dispute () () False))) = Done (changed, d')
      \<and> avalanche_rank (dt_avalanche_state d') \<le> 1"
proof -
  let ?d = "snd (set_vote (1 :: nat) True (new_dispute () () False))"
  obtain changed d' where u: "update_vote 60 False default_parms ?d = Done (changed, d')"
    using update_vote_returns [of ?d default_parms] tally_set_vote [OF tally_new]
    by (meson total_cutoffs_default pcts_fit_default)
  have "dt_avalanche_state ?d = Init" by (simp add: new_dispute_def)
  then show ?thesis
    using update_vote_avalanche [OF u] u by auto
qed

text \<open>
  A dispute reported as stalled is decided. Its avalanche schedule cannot advance any more and has
  been in that state for the minimum number of rounds, and the yes share of the voters, this node
  included when it proposes, is either above the consensus threshold or below its complement.
\<close>
theorem dispute_stalled_decided:
  assumes "tally_ok d" and "dispute_stalled parms proposing unchanged d = Done True"
  defines "yes \<equiv> votes_for True (dt_votes d) + of_bool (proposing \<and> dt_our_vote d)"
    and "all \<equiv> int (length (dt_votes d)) + of_bool proposing"
  shows "0 < all \<and> av_min_rounds parms \<le> dt_avalanche_counter d \<and>
    ((int (min_consensus_pct parms) + 1) * all \<le> 100 * yes \<or>
     100 * yes < (100 - int (min_consensus_pct parms)) * all)"
proof -
  have yn: "dt_yays d = votes_for True (dt_votes d)" "dt_nays d = votes_for False (dt_votes d)"
    using assms(1) by (simp_all add: tally_ok_def)
  have sum: "dt_nays d + dt_yays d + of_bool proposing = all"
    unfolding all_def yn using votes_for_total [of "dt_votes d"] by simp
  have nn: "0 \<le> yes" "0 \<le> all" by (simp_all add: yes_def all_def)
  have "0 < all \<and> av_min_rounds parms \<le> dt_avalanche_counter d \<and>
      (int (min_consensus_pct parms) < yes * 100 div all \<or> yes * 100 div all < 100 - int (min_consensus_pct parms))"
    using assms(2) nn
    by (auto simp: dispute_stalled_def Let_def bind_outcome_Done_iff i32_try_from_def sum
                   yes_def [folded yn(1), symmetric] split: if_splits)
  then show ?thesis
    using le_div_int_iff [of all "int (min_consensus_pct parms) + 1" "yes * 100"]
      le_div_int_iff [of all "100 - int (min_consensus_pct parms)" "yes * 100"]
    by (auto simp: algebra_simps not_less [symmetric] simp del: not_less)
qed

lemma dispute_stalled_decided_witness:
  "\<exists>d :: (unit, unit, nat) disputed_tx. dispute_stalled default_parms True 4 d = Done True \<and>
     0 < int (length (dt_votes d)) + 1 \<and> av_min_rounds default_parms \<le> dt_avalanche_counter d"
proof -
  define d :: "(unit, unit, nat) disputed_tx" where
    "d = (snd (set_vote 2 True (snd (set_vote 1 True (new_dispute () () True)))))
           \<lparr>dt_avalanche_state := Stuck, dt_avalanche_counter := 9, dt_current_vote_counter := 9\<rparr>"
  have "tally_ok d"
    by (simp add: d_def set_vote_def new_dispute_def tally_ok_def votes_for_def Let_def)
  moreover have "dispute_stalled default_parms True 4 d = Done True"
    by (simp add: d_def set_vote_def new_dispute_def dispute_stalled_def Let_def map_of_default_cutoffs
                  i32_try_from_def rust_div_def i32_max_def)
  ultimately show ?thesis
    using dispute_stalled_decided [of d default_parms True 4] by (intro exI [of _ d]) simp
qed

end
