(* ===== verification/Consensus_State.thy ===== *)
theory Consensus_State
  imports Consensus_Decisions Ledger_Timing Proposal Disputed_Tx "HOL-Library.Log_Nat" Complex_Main
begin

text \<open>
  The state of the consensus engine and the interface it drives:
  \<^verbatim>\<open>xrpld/consensus/src/algorithm/consensus.rs\<close> (traits, \<open>struct Consensus\<close>, \<open>with_clock\<close>) and
  \<open>ConsensusResult\<close> of \<^verbatim>\<open>types.rs\<close>.

  The application (\<open>ConsensusAdaptor\<close>, \<open>ConsensusClock\<close>, \<open>ConsensusTxSet\<close>, \<open>ConsensusTx\<close>) is a record of
  functions. Its methods take \<open>&self\<close> and may read and change the application's own state, a value
  of type \<open>'e\<close> that the engine threads through every call in the order of the code; tx sets are
  values. The small set of properties the engine reads of a ledger is a record, and a peer position
  is the proposal it wraps. Ledger sequences are \<open>nat\<close>.
\<close>

section \<open>Ledgers and results\<close>

record 'l cledger =
  cl_id :: 'l
  cl_seq :: nat
  cl_close_time_resolution :: duration
  cl_close_agree :: bool
  cl_close_time :: net_time
  cl_parent_close_time :: net_time

record ('n, 'l, 'p, 's, 't, 'x) cresult =
  cr_txns :: 's
  cr_position :: "('n, 'l, 'p) proposal"
  cr_disputes :: "('x \<times> ('t, 'x, 'n) disputed_tx) list"
  cr_compares :: "'p set"
  cr_round_time :: consensus_timer
  cr_state :: consensus_state
  cr_proposers :: nat

definition new_result :: "'s \<Rightarrow> ('n, 'l, 'p) proposal \<Rightarrow> 'p \<Rightarrow> ('n, 'l, 'p, 's, 't, 'x) cresult outcome" where
  "new_result txns position txns_id =
     (if txns_id \<noteq> cp_position position then Panic
      else Done \<lparr>cr_txns = txns, cr_position = position, cr_disputes = [], cr_compares = {},
                 cr_round_time = timer_default, cr_state = No, cr_proposers = 0\<rparr>)"

section \<open>The application interface\<close>

record ('e, 'n, 'l, 'p, 's, 't, 'x) adaptor =
  acquire_ledger :: "'l \<Rightarrow> 'e \<Rightarrow> 'l cledger option \<times> 'e"
  acquire_tx_set :: "'p \<Rightarrow> 'e \<Rightarrow> 's option \<times> 'e"
  has_open_transactions :: "'e \<Rightarrow> bool \<times> 'e"
  proposers_validated :: "'l \<Rightarrow> 'e \<Rightarrow> nat \<times> 'e"
  proposers_finished :: "'l cledger \<Rightarrow> 'l \<Rightarrow> 'e \<Rightarrow> nat \<times> 'e"
  get_prev_ledger :: "'l \<Rightarrow> 'l cledger \<Rightarrow> consensus_mode \<Rightarrow> 'e \<Rightarrow> 'l \<times> 'e"
  on_mode_change :: "consensus_mode \<Rightarrow> consensus_mode \<Rightarrow> 'e \<Rightarrow> 'e"
  on_close :: "'l cledger \<Rightarrow> net_time \<Rightarrow> consensus_mode \<Rightarrow> 'e \<Rightarrow> ('n, 'l, 'p, 's, 't, 'x) cresult \<times> 'e"
  on_accept :: "('n, 'l, 'p, 's, 't, 'x) cresult \<Rightarrow> 'l cledger \<Rightarrow> duration \<Rightarrow>
                consensus_close_times \<Rightarrow> consensus_mode \<Rightarrow> 'e \<Rightarrow> 'e"
  propose :: "('n, 'l, 'p) proposal \<Rightarrow> 'e \<Rightarrow> 'e"
  share_peer_position :: "('n, 'l, 'p) proposal \<Rightarrow> 'e \<Rightarrow> 'e"
  share_tx :: "'t \<Rightarrow> 'e \<Rightarrow> 'e"
  share_tx_set :: "'s \<Rightarrow> 'e \<Rightarrow> 'e"
  parms :: consensus_parms
  next_ledger_time_resolution :: "duration \<Rightarrow> bool \<Rightarrow> nat \<Rightarrow> duration"
  adaptor_round_close_time :: "net_time \<Rightarrow> duration \<Rightarrow> net_time"
  valid_ledger_seq :: "'e \<Rightarrow> nat \<times> 'e"
  quorum_keys :: "'e \<Rightarrow> (nat \<times> 'n set) \<times> 'e"
  laggards :: "nat \<Rightarrow> 'n set \<Rightarrow> 'e \<Rightarrow> (nat \<times> 'n set) \<times> 'e"
  validator :: "'e \<Rightarrow> bool \<times> 'e"
  have_validated :: "'e \<Rightarrow> bool \<times> 'e"
  update_operating_mode :: "nat \<Rightarrow> 'e \<Rightarrow> 'e"
  clock_now :: "'e \<Rightarrow> instant \<times> 'e"
  ts_exists :: "'s \<Rightarrow> 'x \<Rightarrow> bool"
  ts_find :: "'s \<Rightarrow> 'x \<Rightarrow> 't option"
  ts_id :: "'s \<Rightarrow> 'p"
  ts_compare :: "'s \<Rightarrow> 's \<Rightarrow> ('x \<times> bool) list"
  ts_insert :: "'t \<Rightarrow> 's \<Rightarrow> 's"
  ts_erase :: "'x \<Rightarrow> 's \<Rightarrow> 's"
  tx_id :: "'t \<Rightarrow> 'x"

section \<open>The engine\<close>

record ('e, 'n, 'l, 'p, 's, 't, 'x) consensus =
  c_world :: 'e
  c_phase :: consensus_phase
  c_mode :: consensus_mode
  c_first_round :: bool
  c_have_close_time_consensus :: bool
  c_converge_percent :: int
  c_open_time :: consensus_timer
  c_close_resolution :: duration
  c_close_time_avalanche_state :: avalanche_state
  c_prev_round_time :: duration
  c_now :: net_time
  c_prev_close_time :: net_time
  c_prev_ledger_id :: 'l
  c_previous_ledger :: "'l cledger"
  c_acquired :: "('p \<times> 's) list"
  c_result :: "('n, 'l, 'p, 's, 't, 'x) cresult option"
  c_raw_close_times :: consensus_close_times
  c_peer_unchanged_counter :: nat
  c_establish_counter :: nat
  c_curr_peer_positions :: "('n \<times> ('n, 'l, 'p) proposal) list"
  c_recent_peer_positions :: "('n \<times> ('n, 'l, 'p) proposal list) list"
  c_prev_proposers :: nat
  c_dead_nodes :: "'n set"

text \<open>\<open>with_clock\<close>; the default ledger and ledger id come from the \<open>Default\<close> instances.\<close>

definition with_clock :: "'e \<Rightarrow> 'l \<Rightarrow> 'l cledger \<Rightarrow> ('e, 'n, 'l, 'p, 's, 't, 'x) consensus" where
  "with_clock world default_id default_ledger =
     \<lparr>c_world = world, c_phase = Accepted, c_mode = Observing, c_first_round = True,
      c_have_close_time_consensus = False, c_converge_percent = 0, c_open_time = timer_default,
      c_close_resolution = from_secs 30, c_close_time_avalanche_state = Init, c_prev_round_time = 0,
      c_now = 0, c_prev_close_time = 0, c_prev_ledger_id = default_id,
      c_previous_ledger = default_ledger, c_acquired = [], c_result = None,
      c_raw_close_times = close_times_default, c_peer_unchanged_counter = 0, c_establish_counter = 0,
      c_curr_peer_positions = [], c_recent_peer_positions = [], c_prev_proposers = 0,
      c_dead_nodes = {}\<rparr>"

text \<open>Calls of the application: \<open>ask\<close> for one that returns a value, \<open>tell\<close> for one that does not.\<close>

definition ask :: "('e \<Rightarrow> 'r \<times> 'e) \<Rightarrow> ('e, 'n, 'l, 'p, 's, 't, 'x) consensus \<Rightarrow>
    'r \<times> ('e, 'n, 'l, 'p, 's, 't, 'x) consensus" where
  "ask f c = (case f (c_world c) of (r, w) \<Rightarrow> (r, c\<lparr>c_world := w\<rparr>))"

definition tell :: "('e \<Rightarrow> 'e) \<Rightarrow> ('e, 'n, 'l, 'p, 's, 't, 'x) consensus \<Rightarrow>
    ('e, 'n, 'l, 'p, 's, 't, 'x) consensus" where
  "tell f c = c\<lparr>c_world := f (c_world c)\<rparr>"

definition set_mode :: "('e, 'n, 'l, 'p, 's, 't, 'x) adaptor \<Rightarrow> consensus_mode \<Rightarrow>
    ('e, 'n, 'l, 'p, 's, 't, 'x) consensus \<Rightarrow> ('e, 'n, 'l, 'p, 's, 't, 'x) consensus" where
  "set_mode A m c = (tell (on_mode_change A (c_mode c) m) c)\<lparr>c_mode := m\<rparr>"

text \<open>\<open>*map.entry(k).or_insert(0) += 1\<close>\<close>

definition bump :: "'k \<Rightarrow> ('k \<times> int) list \<Rightarrow> ('k \<times> int) list" where
  "bump k m = AList.update k ((case map_of m k of Some v \<Rightarrow> v | None \<Rightarrow> 0) + 1) m"

definition time_duration_to_std :: "time_duration \<Rightarrow> duration" where
  "time_duration_to_std d = from_secs (nat (max (whole_seconds d) 0))"

definition std_duration_to_time :: "duration \<Rightarrow> time_duration" where
  "std_duration_to_time d = seconds (int (d div 1000000000))"

section \<open>Single-precision arithmetic\<close>

text \<open>
  \<open>f32\<close> values are rationals; every operation rounds its exact result to 24 significant bits, ties to
  even. The operands of \<open>should_pause\<close> stay far from the overflow and subnormal ranges.
\<close>

definition pow2 :: "int \<Rightarrow> rat" where
  "pow2 e = (if 0 \<le> e then 2 ^ nat e else 1 / 2 ^ nat (- e))"

definition rat_exponent :: "rat \<Rightarrow> int" where
  "rat_exponent x = (case quotient_of x of (a, b) \<Rightarrow>
     let e = bitlen \<bar>a\<bar> - bitlen b in if pow2 e \<le> \<bar>x\<bar> then e else e - 1)"

definition round_half_even :: "rat \<Rightarrow> int" where
  "round_half_even y = (let f = \<lfloor>y\<rfloor>; r = y - of_int f in
     if r < 1 / 2 then f else if 1 / 2 < r then f + 1 else if even f then f else f + 1)"

definition f32 :: "rat \<Rightarrow> rat" where
  "f32 x = (if x = 0 then 0 else let e = rat_exponent x - 23 in of_int (round_half_even (x / pow2 e)) * pow2 e)"

end
