(* ===== verification/Consensus_Engine.thy ===== *)
theory Consensus_Engine
  imports Consensus_State
begin

text \<open>
  The operations of the consensus engine, \<open>impl Consensus\<close> of
  \<^verbatim>\<open>xrpld/consensus/src/algorithm/consensus.rs\<close>, one definition per method and in dependency order.
  \<open>timer_entry\<close> and \<open>start_round_internal\<close> call each other; the methods between them take the recursive
  call as their argument \<open>te\<close>, and \<open>timer_entry\<close> ties the knot with a bound on the depth.
  Logging is left out.
\<close>

section \<open>Disputes\<close>

text \<open>Ask one peer, whose position's transaction set is at hand, for its vote on a new dispute.\<close>

definition poll_peer :: "('e, 'n, 'l, 'p, 's, 't, 'x) adaptor \<Rightarrow> 'x \<Rightarrow> 'n \<times> ('n, 'l, 'p) proposal \<Rightarrow>
    ('t, 'x, 'n) disputed_tx \<times> ('e, 'n, 'l, 'p, 's, 't, 'x) consensus \<Rightarrow>
    ('t, 'x, 'n) disputed_tx \<times> ('e, 'n, 'l, 'p, 's, 't, 'x) consensus" where
  "poll_peer A x peer dc = (case peer of (node_id, peer_pos) \<Rightarrow> case dc of (dtx, c) \<Rightarrow>
     (case map_of (c_acquired c) (cp_position peer_pos) of
        None \<Rightarrow> (dtx, c)
      | Some txset \<Rightarrow> (case set_vote node_id (ts_exists A txset x) dtx of (changed, dtx) \<Rightarrow>
          (dtx, if changed then c\<lparr>c_peer_unchanged_counter := 0\<rparr> else c))))"

definition dispute_difference :: "('e, 'n, 'l, 'p, 's, 't, 'x) adaptor \<Rightarrow> 's \<Rightarrow> 's \<Rightarrow> 'x \<times> bool \<Rightarrow>
    ('e, 'n, 'l, 'p, 's, 't, 'x) consensus \<Rightarrow> ('e, 'n, 'l, 'p, 's, 't, 'x) consensus outcome" where
  "dispute_difference A our_txns other difference c = (case difference of (x, in_this_set) \<Rightarrow>
     (case (if in_this_set then ts_find A our_txns x else ts_find A other x) of
        None \<Rightarrow> Done c
      | Some tx \<Rightarrow>
          bind_outcome (expect (c_result c)) (\<lambda>r.
            if x \<in> keys (cr_disputes r) then Done c
            else (case fold (poll_peer A x) (c_curr_peer_positions c)
                          (new_dispute tx x (ts_exists A our_txns x), c) of (dtx, c) \<Rightarrow>
              let c = tell (share_tx A (dt_tx dtx)) c
              in bind_outcome (expect (c_result c)) (\<lambda>r.
                   Done (c\<lparr>c_result := Some (r\<lparr>cr_disputes := AList.update x dtx (cr_disputes r)\<rparr>)\<rparr>))))))"

definition create_disputes :: "('e, 'n, 'l, 'p, 's, 't, 'x) adaptor \<Rightarrow> 's \<Rightarrow>
    ('e, 'n, 'l, 'p, 's, 't, 'x) consensus \<Rightarrow> ('e, 'n, 'l, 'p, 's, 't, 'x) consensus outcome" where
  "create_disputes A other c =
     bind_outcome (expect (c_result c)) (\<lambda>r.
       if ts_id A other \<in> cr_compares r then Done c
       else let c = c\<lparr>c_result := Some (r\<lparr>cr_compares := insert (ts_id A other) (cr_compares r)\<rparr>)\<rparr>;
                our_txns = cr_txns r
         in if ts_id A our_txns = ts_id A other then Done c
            else fold_outcome (dispute_difference A our_txns other) (ts_compare A our_txns other) c)"

definition update_disputes :: "('e, 'n, 'l, 'p, 's, 't, 'x) adaptor \<Rightarrow> 'n \<Rightarrow> 's \<Rightarrow>
    ('e, 'n, 'l, 'p, 's, 't, 'x) consensus \<Rightarrow> ('e, 'n, 'l, 'p, 's, 't, 'x) consensus outcome" where
  "update_disputes A node other c =
     bind_outcome (expect (c_result c)) (\<lambda>r.
     bind_outcome (if ts_id A other \<in> cr_compares r then Done c else create_disputes A other c) (\<lambda>c.
     bind_outcome (expect (c_result c)) (\<lambda>r.
       let voted = map_values (\<lambda>d. set_vote node (ts_exists A other (tx_id A (dt_tx d))) d) (cr_disputes r)
       in Done (c\<lparr>c_result := Some (r\<lparr>cr_disputes := map_values snd voted\<rparr>),
                  c_peer_unchanged_counter :=
                    (if list_ex (\<lambda>(x, changed, d). changed) voted then 0
                     else c_peer_unchanged_counter c)\<rparr>))))"

section \<open>Peer positions\<close>

text \<open>Withdraw a peer's votes and its current position.\<close>

definition drop_peer :: "'n \<Rightarrow> ('e, 'n, 'l, 'p, 's, 't, 'x) consensus \<Rightarrow>
    ('e, 'n, 'l, 'p, 's, 't, 'x) consensus" where
  "drop_peer peer_id c =
     (let c = (case c_result c of
                 Some r \<Rightarrow> c\<lparr>c_result := Some (r\<lparr>cr_disputes := map_values (un_vote peer_id) (cr_disputes r)\<rparr>)\<rparr>
               | None \<Rightarrow> c)
      in c\<lparr>c_curr_peer_positions := AList.delete peer_id (c_curr_peer_positions c)\<rparr>)"

definition got_tx_set :: "('e, 'n, 'l, 'p, 's, 't, 'x) adaptor \<Rightarrow> net_time \<Rightarrow> 's \<Rightarrow>
    ('e, 'n, 'l, 'p, 's, 't, 'x) consensus \<Rightarrow> ('e, 'n, 'l, 'p, 's, 't, 'x) consensus outcome" where
  "got_tx_set A now tx_set c =
     (if c_phase c = Accepted then Done c
      else let c = c\<lparr>c_now := now\<rparr>; id = ts_id A tx_set
        in if id \<in> keys (c_acquired c) then Done c
           else let c = c\<lparr>c_acquired := AList.update id tx_set (c_acquired c)\<rparr>
             in if c_result c = None then Done c
                else fold_outcome (\<lambda>(node_id, pos) c.
                       if cp_position pos = id then update_disputes A node_id tx_set c else Done c)
                     (c_curr_peer_positions c) c)"

definition peer_proposal_internal :: "('e, 'n, 'l, 'p, 's, 't, 'x) adaptor \<Rightarrow> net_time \<Rightarrow>
    ('n, 'l, 'p) proposal \<Rightarrow> ('e, 'n, 'l, 'p, 's, 't, 'x) consensus \<Rightarrow>
    (bool \<times> ('e, 'n, 'l, 'p, 's, 't, 'x) consensus) outcome" where
  "peer_proposal_internal A now prop c =
     (if c_phase c = Accepted then Done (False, c)
      else let c = c\<lparr>c_now := now\<rparr>; peer_id = cp_node_id prop
        in if cp_previous_ledger prop \<noteq> c_prev_ledger_id c then Done (False, c)
           else if peer_id \<in> c_dead_nodes c then Done (False, c)
           else if (case map_of (c_curr_peer_positions c) peer_id of
                      Some existing \<Rightarrow> cp_propose_seq prop \<le> cp_propose_seq existing | None \<Rightarrow> False)
           then Done (False, c)
           else if is_bow_out prop
           then (let c = drop_peer peer_id c
                 in Done (True, c\<lparr>c_dead_nodes := insert peer_id (c_dead_nodes c)\<rparr>))
           else let c = c\<lparr>c_curr_peer_positions := AList.update peer_id prop (c_curr_peer_positions c)\<rparr>;
                    c = (if is_initial prop
                         then c\<lparr>c_raw_close_times := (c_raw_close_times c)
                                  \<lparr>cct_peers := bump (cp_close_time prop) (cct_peers (c_raw_close_times c))\<rparr>\<rparr>
                         else c)
             in bind_outcome
                  (case map_of (c_acquired c) (cp_position prop) of
                     None \<Rightarrow> (case ask (acquire_tx_set A (cp_position prop)) c of (found, c) \<Rightarrow>
                       (case found of Some txset \<Rightarrow> got_tx_set A (c_now c) txset c | None \<Rightarrow> Done c))
                   | Some txset \<Rightarrow>
                       if c_result c \<noteq> None then update_disputes A peer_id txset c else Done c)
                  (\<lambda>c. Done (True, c)))"

text \<open>The last ten proposals of every peer are kept, oldest first.\<close>

definition peer_proposal :: "('e, 'n, 'l, 'p, 's, 't, 'x) adaptor \<Rightarrow> net_time \<Rightarrow>
    ('n, 'l, 'p) proposal \<Rightarrow> ('e, 'n, 'l, 'p, 's, 't, 'x) consensus \<Rightarrow>
    (bool \<times> ('e, 'n, 'l, 'p, 's, 't, 'x) consensus) outcome" where
  "peer_proposal A now prop c =
     (let peer_id = cp_node_id prop;
          props = (case map_of (c_recent_peer_positions c) peer_id of Some ps \<Rightarrow> ps | None \<Rightarrow> []);
          props = (if 10 \<le> length props then tl props else props) @ [prop]
      in peer_proposal_internal A now prop
           (c\<lparr>c_recent_peer_positions := AList.update peer_id props (c_recent_peer_positions c)\<rparr>))"

definition playback_proposals :: "('e, 'n, 'l, 'p, 's, 't, 'x) adaptor \<Rightarrow>
    ('e, 'n, 'l, 'p, 's, 't, 'x) consensus \<Rightarrow> ('e, 'n, 'l, 'p, 's, 't, 'x) consensus outcome" where
  "playback_proposals A c =
     fold_outcome (\<lambda>pos c.
         if cp_previous_ledger pos = c_prev_ledger_id c
         then bind_outcome (peer_proposal_internal A (c_now c) pos c) (\<lambda>(relay, c).
                Done (if relay then tell (share_peer_position A pos) c else c))
         else Done c)
       (concat (map snd (c_recent_peer_positions c))) c"

section \<open>Leaving, closing and starting a round\<close>

definition leave_consensus :: "('e, 'n, 'l, 'p, 's, 't, 'x) adaptor \<Rightarrow>
    ('e, 'n, 'l, 'p, 's, 't, 'x) consensus \<Rightarrow> ('e, 'n, 'l, 'p, 's, 't, 'x) consensus" where
  "leave_consensus A c =
     (if c_mode c = Proposing
      then set_mode A Observing
        (case c_result c of
           Some r \<Rightarrow>
             if \<not> is_bow_out (cr_position r)
             then let r = r\<lparr>cr_position := bow_out (c_now c) (cr_position r)\<rparr>
                  in tell (propose A (cr_position r)) (c\<lparr>c_result := Some r\<rparr>)
             else c
         | None \<Rightarrow> c)
      else c)"

definition close_ledger :: "('e, 'n, 'l, 'p, 's, 't, 'x) adaptor \<Rightarrow>
    ('e, 'n, 'l, 'p, 's, 't, 'x) consensus \<Rightarrow> ('e, 'n, 'l, 'p, 's, 't, 'x) consensus outcome" where
  "close_ledger A c =
     (if c_result c \<noteq> None then Panic
      else let c = c\<lparr>c_phase := Establish,
                     c_raw_close_times := (c_raw_close_times c)\<lparr>cct_self := c_now c\<rparr>,
                     c_peer_unchanged_counter := 0, c_establish_counter := 0\<rparr>
        in (case ask (on_close A (c_previous_ledger c) (c_now c) (c_mode c)) c of (r, c) \<Rightarrow>
            case ask (clock_now A) c of (t, c) \<Rightarrow>
              let r = r\<lparr>cr_round_time := timer_reset t (cr_round_time r)\<rparr>;
                  txns_id = ts_id A (cr_txns r);
                  c = (if txns_id \<in> keys (c_acquired c) then c
                       else tell (share_tx_set A (cr_txns r))
                              (c\<lparr>c_acquired := AList.update txns_id (cr_txns r) (c_acquired c)\<rparr>));
                  c = (if c_mode c = Proposing then tell (propose A (cr_position r)) c else c);
                  c = c\<lparr>c_result := Some r\<rparr>
              in fold_outcome (\<lambda>pos c.
                     case map_of (c_acquired c) pos of
                       Some txset \<Rightarrow> create_disputes A txset c
                     | None \<Rightarrow> Done c)
                   (map (\<lambda>(_, p). cp_position p) (c_curr_peer_positions c)) c))"

definition start_round_internal :: "('e, 'n, 'l, 'p, 's, 't, 'x) adaptor \<Rightarrow>
    (net_time \<Rightarrow> ('e, 'n, 'l, 'p, 's, 't, 'x) consensus \<Rightarrow> ('e, 'n, 'l, 'p, 's, 't, 'x) consensus outcome) \<Rightarrow>
    net_time \<Rightarrow> 'l \<Rightarrow> 'l cledger \<Rightarrow> consensus_mode \<Rightarrow>
    ('e, 'n, 'l, 'p, 's, 't, 'x) consensus \<Rightarrow> ('e, 'n, 'l, 'p, 's, 't, 'x) consensus outcome" where
  "start_round_internal A te now prev_ledger_id prev_ledger mode c =
     (let c = set_mode A mode (c\<lparr>c_phase := PhaseOpen\<rparr>);
          c = c\<lparr>c_now := now, c_prev_ledger_id := prev_ledger_id, c_previous_ledger := prev_ledger,
                c_result := None, c_converge_percent := 0, c_close_time_avalanche_state := Init,
                c_have_close_time_consensus := False\<rparr>
      in (case ask (clock_now A) c of (t, c) \<Rightarrow>
          let c = c\<lparr>c_open_time := timer_reset t (c_open_time c), c_curr_peer_positions := [],
                    c_acquired := [], c_raw_close_times := \<lparr>cct_peers = [], cct_self = 0\<rparr>,
                    c_dead_nodes := {},
                    c_close_resolution := next_ledger_time_resolution A
                      (cl_close_time_resolution prev_ledger) (cl_close_agree prev_ledger)
                      (cl_seq prev_ledger + 1)\<rparr>
          in bind_outcome (playback_proposals A c) (\<lambda>c.
               if c_prev_proposers c div 2 < length (c_curr_peer_positions c)
               then te (c_now c) c else Done c)))"

definition start_round :: "('e, 'n, 'l, 'p, 's, 't, 'x) adaptor \<Rightarrow>
    (net_time \<Rightarrow> ('e, 'n, 'l, 'p, 's, 't, 'x) consensus \<Rightarrow> ('e, 'n, 'l, 'p, 's, 't, 'x) consensus outcome) \<Rightarrow>
    net_time \<Rightarrow> 'l \<Rightarrow> 'l cledger \<Rightarrow> 'n set \<Rightarrow> bool \<Rightarrow>
    ('e, 'n, 'l, 'p, 's, 't, 'x) consensus \<Rightarrow> ('e, 'n, 'l, 'p, 's, 't, 'x) consensus outcome" where
  "start_round A te now prev_ledger_id prev_ledger now_untrusted proposing c =
     (let c = (if c_first_round c
               then c\<lparr>c_prev_round_time := ledger_idle_interval (parms A),
                      c_prev_close_time :=
                        (if cl_close_time prev_ledger = 0 then now else cl_close_time prev_ledger),
                      c_first_round := False\<rparr>
               else c\<lparr>c_prev_close_time := cct_self (c_raw_close_times c)\<rparr>);
          c = c\<lparr>c_recent_peer_positions :=
                  filter (\<lambda>(n, _). n \<notin> now_untrusted) (c_recent_peer_positions c)\<rparr>;
          start_mode = (if proposing then Proposing else Observing)
      in if cl_id prev_ledger \<noteq> prev_ledger_id
         then (case ask (acquire_ledger A prev_ledger_id) c of (found, c) \<Rightarrow>
               (case found of
                  Some new_ledger \<Rightarrow> start_round_internal A te now prev_ledger_id new_ledger start_mode c
                | None \<Rightarrow> start_round_internal A te now prev_ledger_id prev_ledger WrongLedger c))
         else start_round_internal A te now prev_ledger_id prev_ledger start_mode c)"

section \<open>The previous ledger\<close>

definition handle_wrong_ledger :: "('e, 'n, 'l, 'p, 's, 't, 'x) adaptor \<Rightarrow>
    (net_time \<Rightarrow> ('e, 'n, 'l, 'p, 's, 't, 'x) consensus \<Rightarrow> ('e, 'n, 'l, 'p, 's, 't, 'x) consensus outcome) \<Rightarrow>
    'l \<Rightarrow> ('e, 'n, 'l, 'p, 's, 't, 'x) consensus \<Rightarrow> ('e, 'n, 'l, 'p, 's, 't, 'x) consensus outcome" where
  "handle_wrong_ledger A te lgr_id c =
     (let c = leave_consensus A c
      in bind_outcome
           (if c_prev_ledger_id c \<noteq> lgr_id
            then playback_proposals A
                   (c\<lparr>c_prev_ledger_id := lgr_id,
                      c_result := map_option (\<lambda>r. r\<lparr>cr_disputes := [], cr_compares := {}\<rparr>) (c_result c),
                      c_curr_peer_positions := [],
                      c_raw_close_times := (c_raw_close_times c)\<lparr>cct_peers := []\<rparr>,
                      c_dead_nodes := {}\<rparr>)
            else Done c)
           (\<lambda>c. if cl_id (c_previous_ledger c) = c_prev_ledger_id c then Done c
                else (case ask (acquire_ledger A (c_prev_ledger_id c)) c of (found, c) \<Rightarrow>
                  (case found of
                     Some new_ledger \<Rightarrow> start_round_internal A te (c_now c) lgr_id new_ledger SwitchedLedger c
                   | None \<Rightarrow> Done (set_mode A WrongLedger c)))))"

definition check_ledger :: "('e, 'n, 'l, 'p, 's, 't, 'x) adaptor \<Rightarrow>
    (net_time \<Rightarrow> ('e, 'n, 'l, 'p, 's, 't, 'x) consensus \<Rightarrow> ('e, 'n, 'l, 'p, 's, 't, 'x) consensus outcome) \<Rightarrow>
    ('e, 'n, 'l, 'p, 's, 't, 'x) consensus \<Rightarrow> ('e, 'n, 'l, 'p, 's, 't, 'x) consensus outcome" where
  "check_ledger A te c =
     (case ask (get_prev_ledger A (c_prev_ledger_id c) (c_previous_ledger c) (c_mode c)) c of (net_lgr, c) \<Rightarrow>
        if net_lgr \<noteq> c_prev_ledger_id c \<or> cl_id (c_previous_ledger c) \<noteq> c_prev_ledger_id c
        then handle_wrong_ledger A te net_lgr c else Done c)"

section \<open>The open phase\<close>

definition phase_open :: "('e, 'n, 'l, 'p, 's, 't, 'x) adaptor \<Rightarrow>
    ('e, 'n, 'l, 'p, 's, 't, 'x) consensus \<Rightarrow> ('e, 'n, 'l, 'p, 's, 't, 'x) consensus outcome" where
  "phase_open A c =
     (case ask (has_open_transactions A) c of (any_transactions, c) \<Rightarrow>
      let proposers_closed = length (c_curr_peer_positions c)
      in case ask (proposers_validated A (c_prev_ledger_id c)) c of (proposers_valid, c) \<Rightarrow>
         case ask (clock_now A) c of (t, c) \<Rightarrow>
           let c = c\<lparr>c_open_time := tick_to t (c_open_time c)\<rparr>;
               prev = c_previous_ledger c
           in bind_outcome (expect (net_checked_add (cl_parent_close_time prev) (seconds 1))) (\<lambda>parent_plus_1.
             let previous_close_correct = (c_mode c \<noteq> WrongLedger \<and> cl_close_agree prev
                                           \<and> cl_close_time prev \<noteq> parent_plus_1);
                 last_close_time = (if previous_close_correct then cl_close_time prev else c_prev_close_time c);
                 last_close_time = (if last_close_time = 0 then c_prev_close_time c else last_close_time);
                 since_close = (if last_close_time \<le> c_now c
                                then time_duration_to_std (net_diff (c_now c) last_close_time) else 0);
                 idle_interval = max (ledger_idle_interval (parms A)) (cl_close_time_resolution prev * 2)
             in if should_close_ledger any_transactions (c_prev_proposers c) proposers_closed proposers_valid
                     (c_prev_round_time c) since_close (timer_read (c_open_time c)) idle_interval (parms A)
                then close_ledger A c else Done c))"

section \<open>The establish phase\<close>

definition should_pause :: "('e, 'n, 'l, 'p, 's, 't, 'x) adaptor \<Rightarrow>
    ('e, 'n, 'l, 'p, 's, 't, 'x) consensus \<Rightarrow> (bool \<times> ('e, 'n, 'l, 'p, 's, 't, 'x) consensus) outcome" where
  "should_pause A c =
     (let working_seq = cl_seq (c_previous_ledger c)
      in case ask (valid_ledger_seq A) c of (valid_seq, c) \<Rightarrow>
         let ahead = working_seq - valid_seq
         in case ask (quorum_keys A) c of ((quorum, trusted_keys), c) \<Rightarrow>
            let total_validators = card trusted_keys
            in case ask (laggards A working_seq trusted_keys) c of ((lagging, trusted_keys), c) \<Rightarrow>
               let offline = card trusted_keys
               in bind_outcome (expect (c_result c)) (\<lambda>r.
                 let round_time = timer_read (cr_round_time r)
                 in if ahead = 0 \<or> lagging = 0 \<or> total_validators = 0 then Done (False, c)
                    else case ask (validator A) c of (is_validator, c) \<Rightarrow>
                      if \<not> is_validator then Done (False, c)
                      else case ask (have_validated A) c of (validated, c) \<Rightarrow>
                        if \<not> validated \<or> ledger_max_consensus (parms A) < round_time then Done (False, c)
                        else let phase = (ahead - 1) mod 5; unavailable = lagging + offline
                          in if phase = 0 then Done (total_validators - quorum < unavailable, c)
                             else if phase = 4 then Done (True, c)
                             else let non_laggards = f32 (of_nat (total_validators - unavailable));
                                      total_f = f32 (of_nat total_validators);
                                      quorum_ratio = f32 (f32 (of_nat quorum) / total_f);
                                      allowed_dissent = f32 (1 - quorum_ratio);
                                      phase_factor = f32 (of_nat phase / 4)
                               in Done (f32 (non_laggards / total_f)
                                          < f32 (quorum_ratio + f32 (allowed_dissent * phase_factor)), c)))"

definition round_close_time_for :: "('e, 'n, 'l, 'p, 's, 't, 'x) adaptor \<Rightarrow> net_time \<Rightarrow>
    ('e, 'n, 'l, 'p, 's, 't, 'x) consensus \<Rightarrow> net_time" where
  "round_close_time_for A raw c = adaptor_round_close_time A raw (c_close_resolution c)"

text \<open>The loop over the disputes: the updated disputes, and our new transaction set if a vote changed.\<close>

fun vote_disputes :: "('e, 'n, 'l, 'p, 's, 't, 'x) adaptor \<Rightarrow> int \<Rightarrow> bool \<Rightarrow> 's \<Rightarrow>
    ('x \<times> ('t, 'x, 'n) disputed_tx) list \<Rightarrow> 's option \<Rightarrow>
    (('x \<times> ('t, 'x, 'n) disputed_tx) list \<times> 's option) outcome" where
  "vote_disputes A percent proposing txns [] mutable_set = Done ([], mutable_set)"
| "vote_disputes A percent proposing txns ((x, dispute) # ds) mutable_set =
     bind_outcome (update_vote percent proposing (parms A) dispute) (\<lambda>(changed, dispute).
       let mutable_set =
             (if changed
              then let txset = (case mutable_set of Some s \<Rightarrow> s | None \<Rightarrow> txns)
                   in Some (if dt_our_vote dispute then ts_insert A (dt_tx dispute) txset else ts_erase A x txset)
              else mutable_set)
       in bind_outcome (vote_disputes A percent proposing txns ds mutable_set) (\<lambda>(ds, mutable_set).
            Done ((x, dispute) # ds, mutable_set)))"

text \<open>
  The choice among the close times voted for, latest first: a time with at least as many votes as the
  best so far and the threshold replaces it.
\<close>

definition pick_close_time :: "int \<Rightarrow> int \<Rightarrow> (net_time \<times> int) list \<Rightarrow> net_time \<times> int \<times> bool" where
  "pick_close_time thresh_vote thresh_consensus close_time_votes =
     fold (\<lambda>(t, v) (close_time, thresh_vote, have).
         if thresh_vote \<le> v then (t, v, have \<or> thresh_consensus \<le> v) else (close_time, thresh_vote, have))
       (rev (sort_key fst close_time_votes)) (0, thresh_vote, False)"

text \<open>The middle part of \<open>update_our_positions\<close>: the close time for our new position.\<close>

definition vote_close_time :: "('e, 'n, 'l, 'p, 's, 't, 'x) adaptor \<Rightarrow> (net_time \<times> int) list \<Rightarrow>
    ('e, 'n, 'l, 'p, 's, 't, 'x) consensus \<Rightarrow>
    (net_time \<times> ('e, 'n, 'l, 'p, 's, 't, 'x) consensus) outcome" where
  "vote_close_time A close_time_votes c =
     (let c = c\<lparr>c_have_close_time_consensus := False\<rparr>
      in if c_curr_peer_positions c = []
         then let c = c\<lparr>c_have_close_time_consensus := True\<rparr>
              in bind_outcome (expect (c_result c)) (\<lambda>r.
                   Done (round_close_time_for A (cp_close_time (cr_position r)) c, c))
         else bind_outcome (get_needed_weight (parms A) (c_close_time_avalanche_state c)
                              (as_i32 (c_converge_percent c)) 0 0) (\<lambda>(needed_weight, new_state).
           let c = (case new_state of Some st \<Rightarrow> c\<lparr>c_close_time_avalanche_state := st\<rparr> | None \<Rightarrow> c);
               participants = as_i32 (int (length (c_curr_peer_positions c)))
           in bind_outcome
                (if c_mode c = Proposing
                 then bind_outcome (expect (c_result c)) (\<lambda>r.
                        Done (bump (round_close_time_for A (cp_close_time (cr_position r)) c) close_time_votes,
                              participants + 1))
                 else Done (close_time_votes, participants)) (\<lambda>(close_time_votes, participants).
              bind_outcome (participants_needed participants (as_i32 (int needed_weight))) (\<lambda>thresh_vote.
              bind_outcome (participants_needed participants (as_i32 (int (av_ct_consensus_pct (parms A)))))
                (\<lambda>thresh_consensus.
                case pick_close_time thresh_vote thresh_consensus close_time_votes of (close_time, _, have) \<Rightarrow>
                  Done (close_time, c\<lparr>c_have_close_time_consensus := have\<rparr>))))))"

text \<open>The last part: adopt and announce the new position.\<close>

definition adopt_position :: "('e, 'n, 'l, 'p, 's, 't, 'x) adaptor \<Rightarrow> 's \<Rightarrow> net_time \<Rightarrow>
    ('e, 'n, 'l, 'p, 's, 't, 'x) consensus \<Rightarrow> ('e, 'n, 'l, 'p, 's, 't, 'x) consensus outcome" where
  "adopt_position A new_set consensus_close_time c =
     (let new_id = ts_id A new_set
      in bind_outcome (expect (c_result c)) (\<lambda>r.
         let r = r\<lparr>cr_txns := new_set,
                   cr_position := change_position new_id consensus_close_time (c_now c) (cr_position r)\<rparr>;
             c = c\<lparr>c_result := Some r\<rparr>
         in bind_outcome
              (if new_id \<notin> keys (c_acquired c)
               then let c = c\<lparr>c_acquired := AList.update new_id (cr_txns r) (c_acquired c)\<rparr>;
                        c = (if \<not> is_bow_out (cr_position r) then tell (share_tx_set A (cr_txns r)) c else c)
                    in fold_outcome (\<lambda>node_id c. update_disputes A node_id (cr_txns r) c)
                         (map fst (filter (\<lambda>(_, p). cp_position p = new_id) (c_curr_peer_positions c))) c
               else Done c)
              (\<lambda>c. bind_outcome (expect (c_result c)) (\<lambda>r.
                 Done (if \<not> is_bow_out (cr_position r) \<and> c_mode c = Proposing
                       then tell (propose A (cr_position r)) c else c)))))"

definition update_our_positions :: "('e, 'n, 'l, 'p, 's, 't, 'x) adaptor \<Rightarrow>
    ('e, 'n, 'l, 'p, 's, 't, 'x) consensus \<Rightarrow> ('e, 'n, 'l, 'p, 's, 't, 'x) consensus outcome" where
  "update_our_positions A c =
     (let cutoff = (\<lambda>d. case net_checked_sub (c_now c) (std_duration_to_time d) of Some t \<Rightarrow> t | None \<Rightarrow> 0);
          peer_cutoff = cutoff (propose_freshness (parms A));
          our_cutoff = cutoff (propose_interval (parms A));
          stale_peers = map fst (filter (\<lambda>(_, pos). is_stale peer_cutoff pos) (c_curr_peer_positions c));
          c = fold drop_peer stale_peers c;
          close_time_votes = fold (\<lambda>(_, pos). bump (round_close_time_for A (cp_close_time pos) c))
                               (c_curr_peer_positions c) []
      in bind_outcome (expect (c_result c)) (\<lambda>r.
         bind_outcome (vote_disputes A (as_i32 (c_converge_percent c)) (c_mode c = Proposing)
                         (cr_txns r) (cr_disputes r) None) (\<lambda>(disputes, our_new_set).
         bind_outcome (vote_close_time A close_time_votes (c\<lparr>c_result := Some (r\<lparr>cr_disputes := disputes\<rparr>)\<rparr>))
           (\<lambda>(consensus_close_time, c).
         bind_outcome
           (case our_new_set of
              Some txset \<Rightarrow> Done our_new_set
            | None \<Rightarrow> bind_outcome (expect (c_result c)) (\<lambda>r.
                Done (if consensus_close_time \<noteq> round_close_time_for A (cp_close_time (cr_position r)) c
                         \<or> is_stale our_cutoff (cr_position r)
                      then Some (cr_txns r) else None))) (\<lambda>our_new_set.
         case our_new_set of
           Some new_set \<Rightarrow> adopt_position A new_set consensus_close_time c
         | None \<Rightarrow> Done c)))))"

definition have_consensus :: "('e, 'n, 'l, 'p, 's, 't, 'x) adaptor \<Rightarrow>
    ('e, 'n, 'l, 'p, 's, 't, 'x) consensus \<Rightarrow> (bool \<times> ('e, 'n, 'l, 'p, 's, 't, 'x) consensus) outcome" where
  "have_consensus A c =
     bind_outcome (expect (c_result c)) (\<lambda>r.
       let our_position = cp_position (cr_position r);
           positions = map (\<lambda>(_, p). cp_position p) (c_curr_peer_positions c);
           agree = length (filter (\<lambda>p. p = our_position) positions);
           disagree = length (filter (\<lambda>p. p \<noteq> our_position) positions)
       in case ask (proposers_finished A (c_previous_ledger c) (c_prev_ledger_id c)) c of (current_finished, c) \<Rightarrow>
          let proposing = (c_mode c = Proposing)
          in bind_outcome
               (if c_have_close_time_consensus c \<and> cr_disputes r \<noteq> []
                then all_outcome (\<lambda>(_, d). dispute_stalled (parms A) proposing (c_peer_unchanged_counter c) d)
                       (cr_disputes r)
                else Done False) (\<lambda>stalled.
             bind_outcome (check_consensus (c_prev_proposers c) (agree + disagree) agree current_finished
                 (c_prev_round_time c) (timer_read (cr_round_time r)) stalled (parms A) proposing) (\<lambda>state.
               let c = c\<lparr>c_result := Some (r\<lparr>cr_state := state\<rparr>)\<rparr>
               in if state = No then Done (False, c)
                  else if state = Expired
                  then (if c_establish_counter c
                             < length (avalanche_cutoffs (parms A)) * av_min_rounds (parms A)
                        then Done (False, c) else Done (True, leave_consensus A c))
                  else Done (True, c))))"

definition phase_establish :: "('e, 'n, 'l, 'p, 's, 't, 'x) adaptor \<Rightarrow>
    ('e, 'n, 'l, 'p, 's, 't, 'x) consensus \<Rightarrow> ('e, 'n, 'l, 'p, 's, 't, 'x) consensus outcome" where
  "phase_establish A c =
     (if c_result c = None then Panic
      else let c = c\<lparr>c_peer_unchanged_counter := c_peer_unchanged_counter c + 1,
                     c_establish_counter := c_establish_counter c + 1\<rparr>
        in case ask (clock_now A) c of (t, c) \<Rightarrow>
           bind_outcome (expect (c_result c)) (\<lambda>r.
             let r = r\<lparr>cr_round_time := tick_to t (cr_round_time r),
                       cr_proposers := length (c_curr_peer_positions c)\<rparr>;
                 round_time = timer_read (cr_round_time r);
                 denom = max (c_prev_round_time c) (av_min_consensus_time (parms A));
                 c = c\<lparr>c_result := Some r,
                       c_converge_percent := int (round_time div 1000000 * 100 div max (denom div 1000000) 1)\<rparr>
             in if round_time < ledger_min_consensus (parms A) then Done c
                else bind_outcome (update_our_positions A c) (\<lambda>c.
                  bind_outcome (should_pause A c) (\<lambda>(pause, c).
                    if pause then Done c
                    else bind_outcome (have_consensus A c) (\<lambda>(have, c).
                      if \<not> have then Done c
                      else if \<not> c_have_close_time_consensus c then Done c
                      else let positions = length (c_curr_peer_positions c);
                               c = (tell (update_operating_mode A positions) c)\<lparr>c_prev_proposers := positions\<rparr>
                        in bind_outcome (expect (c_result c)) (\<lambda>r.
                          let c = c\<lparr>c_prev_round_time := timer_read (cr_round_time r), c_phase := Accepted\<rparr>
                          in Done (tell (on_accept A r (c_previous_ledger c) (c_close_resolution c)
                                           (c_raw_close_times c) (c_mode c)) c)))))))"

section \<open>The timer\<close>

text \<open>The first argument bounds how often the previous ledger may be switched within one call.\<close>

fun timer_entry :: "nat \<Rightarrow> ('e, 'n, 'l, 'p, 's, 't, 'x) adaptor \<Rightarrow> net_time \<Rightarrow>
    ('e, 'n, 'l, 'p, 's, 't, 'x) consensus \<Rightarrow> ('e, 'n, 'l, 'p, 's, 't, 'x) consensus outcome" where
  "timer_entry 0 A now c = OutOfFuel"
| "timer_entry (Suc k) A now c =
     (if c_phase c = Accepted then Done c
      else bind_outcome (check_ledger A (timer_entry k A) (c\<lparr>c_now := now\<rparr>)) (\<lambda>c.
        case c_phase c of
          PhaseOpen \<Rightarrow> phase_open A c
        | Establish \<Rightarrow> phase_establish A c
        | Accepted \<Rightarrow> Done c))"

end
