(* ===== verification/Consensus_Disputes.thy ===== *)
theory Consensus_Disputes
  imports Consensus_Engine
begin

text \<open>
  The invariant of disputes: what the engine promises about the disputed transactions of a round, and
  that creating, updating and withdrawing votes keeps the promise.
\<close>

section \<open>Laws of the application\<close>

text \<open>
  What the engine relies on in a transaction set: \<open>W\<close> holds of the sets in use, ids identify contents,
  \<open>compare\<close> lists exactly the differing transactions, and \<open>insert\<close>, \<open>erase\<close>, \<open>find\<close> and \<open>exists\<close> fit.
\<close>

definition tx_set_laws :: "('s \<Rightarrow> bool) \<Rightarrow> ('e, 'n, 'l, 'p, 's, 't, 'x) adaptor \<Rightarrow> bool" where
  "tx_set_laws W A \<longleftrightarrow>
     (\<forall>s x. W s \<longrightarrow> (ts_exists A s x \<longleftrightarrow> (\<exists>t. ts_find A s x = Some t))) \<and>
     (\<forall>s x t. W s \<longrightarrow> ts_find A s x = Some t \<longrightarrow> tx_id A t = x) \<and>
     (\<forall>s t x. W s \<longrightarrow> (ts_exists A (ts_insert A t s) x \<longleftrightarrow> x = tx_id A t \<or> ts_exists A s x)) \<and>
     (\<forall>s y x. W s \<longrightarrow> (ts_exists A (ts_erase A y s) x \<longleftrightarrow> x \<noteq> y \<and> ts_exists A s x)) \<and>
     (\<forall>s s'. W s \<longrightarrow> W s' \<longrightarrow>
        set (ts_compare A s s') = {(x, b). ts_exists A s x \<noteq> ts_exists A s' x \<and> b = ts_exists A s x}) \<and>
     (\<forall>s s' x. W s \<longrightarrow> W s' \<longrightarrow> ts_id A s = ts_id A s' \<longrightarrow> ts_exists A s x = ts_exists A s' x) \<and>
     (\<forall>s t. W s \<longrightarrow> W (ts_insert A t s)) \<and> (\<forall>s x. W s \<longrightarrow> W (ts_erase A x s))"

lemma tx_set_lawsD:
  assumes "tx_set_laws W A" and "W s"
  shows "ts_exists A s x \<longleftrightarrow> (\<exists>t. ts_find A s x = Some t)"
    and "ts_find A s x = Some t \<Longrightarrow> tx_id A t = x"
    and "ts_exists A (ts_insert A t s) x \<longleftrightarrow> x = tx_id A t \<or> ts_exists A s x"
    and "ts_exists A (ts_erase A y s) x \<longleftrightarrow> x \<noteq> y \<and> ts_exists A s x"
    and "W s' \<Longrightarrow> (x, b) \<in> set (ts_compare A s s') \<longleftrightarrow>
           ts_exists A s x \<noteq> ts_exists A s' x \<and> b = ts_exists A s x"
    and "W s' \<Longrightarrow> ts_id A s = ts_id A s' \<Longrightarrow> ts_exists A s x = ts_exists A s' x"
    and "W (ts_insert A t s)" and "W (ts_erase A x s)"
proof -
  note laws = assms(1) [unfolded tx_set_laws_def, THEN conjunct1]
    assms(1) [unfolded tx_set_laws_def, THEN conjunct2]
  note laws2 = laws(2) [THEN conjunct1] laws(2) [THEN conjunct2]
  note laws3 = laws2(2) [THEN conjunct1] laws2(2) [THEN conjunct2]
  note laws4 = laws3(2) [THEN conjunct1] laws3(2) [THEN conjunct2]
  note laws5 = laws4(2) [THEN conjunct1] laws4(2) [THEN conjunct2]
  note laws6 = laws5(2) [THEN conjunct1] laws5(2) [THEN conjunct2]
  show "ts_exists A s x \<longleftrightarrow> (\<exists>t. ts_find A s x = Some t)"
    and "ts_find A s x = Some t \<Longrightarrow> tx_id A t = x"
    using laws(1) laws2(1) assms(2) by simp_all
  show "ts_exists A (ts_insert A t s) x \<longleftrightarrow> x = tx_id A t \<or> ts_exists A s x"
    and "ts_exists A (ts_erase A y s) x \<longleftrightarrow> x \<noteq> y \<and> ts_exists A s x"
    using laws3(1) laws4(1) assms(2) by simp_all
  show "W s' \<Longrightarrow> (x, b) \<in> set (ts_compare A s s') \<longleftrightarrow>
      ts_exists A s x \<noteq> ts_exists A s' x \<and> b = ts_exists A s x"
    using laws5(1) assms(2) by simp
  show "W s' \<Longrightarrow> ts_id A s = ts_id A s' \<Longrightarrow> ts_exists A s x = ts_exists A s' x"
    using laws6(1) assms(2) by blast
  show "W (ts_insert A t s)" and "W (ts_erase A x s)"
    using laws6(2) assms(2) by blast+
qed

section \<open>The invariant\<close>

text \<open>
  A dispute belongs to a transaction; its tally is right; only peers with a current position have
  votes; and our vote says whether our transaction set has the transaction.
\<close>

definition dispute_ok :: "('e, 'n, 'l, 'p, 's, 't, 'x) adaptor \<Rightarrow> 'n set \<Rightarrow> 's \<Rightarrow>
    'x \<Rightarrow> ('t, 'x, 'n) disputed_tx \<Rightarrow> bool" where
  "dispute_ok A nodes txns x d \<longleftrightarrow>
     tally_ok d \<and> dt_tx_id d = x \<and> tx_id A (dt_tx d) = x \<and> keys (dt_votes d) \<subseteq> nodes \<and>
     dt_our_vote d = ts_exists A txns x"

text \<open>
  The recorded votes are current: a peer whose position's transaction set is at hand votes on a dispute
  as that set says. Peers in \<open>N\<close> are still to be processed.
\<close>

definition votes_current :: "('e, 'n, 'l, 'p, 's, 't, 'x) adaptor \<Rightarrow> ('p \<times> 's) list \<Rightarrow>
    ('n \<times> ('n, 'l, 'p) proposal) list \<Rightarrow> 'n set \<Rightarrow> 'x \<Rightarrow> ('t, 'x, 'n) disputed_tx \<Rightarrow> bool" where
  "votes_current A acq peers N x d \<longleftrightarrow>
     (\<forall>n p s. (n, p) \<in> set peers \<longrightarrow> n \<notin> N \<longrightarrow> map_of acq (cp_position p) = Some s \<longrightarrow>
        map_of (dt_votes d) n = Some (ts_exists A s x))"

text \<open>
  The disputes are complete: every position at hand of a current peer has been compared with ours, and
  every difference to a compared position is disputed. Differences in \<open>D\<close> are still to be processed.
\<close>

definition compared :: "('p \<times> 's) list \<Rightarrow> ('n \<times> ('n, 'l, 'p) proposal) list \<Rightarrow> 'n set \<Rightarrow> 'p set \<Rightarrow> bool" where
  "compared acq peers N cmp \<longleftrightarrow>
     (\<forall>n p s. (n, p) \<in> set peers \<longrightarrow> n \<notin> N \<longrightarrow> map_of acq (cp_position p) = Some s \<longrightarrow>
        cp_position p \<in> cmp)"

definition differences_disputed :: "('e, 'n, 'l, 'p, 's, 't, 'x) adaptor \<Rightarrow> ('p \<times> 's) list \<Rightarrow> 's \<Rightarrow>
    'p set \<Rightarrow> ('p \<times> 'x) set \<Rightarrow> 'x set \<Rightarrow> bool" where
  "differences_disputed A acq txns cmp D disputed \<longleftrightarrow>
     (\<forall>k \<in> cmp. \<exists>s. map_of acq k = Some s \<and>
        (\<forall>x. ts_exists A s x \<noteq> ts_exists A txns x \<longrightarrow> x \<in> disputed \<or> (k, x) \<in> D))"

definition result_ok :: "('s \<Rightarrow> bool) \<Rightarrow> ('e, 'n, 'l, 'p, 's, 't, 'x) adaptor \<Rightarrow> ('p \<times> 's) list \<Rightarrow>
    ('n \<times> ('n, 'l, 'p) proposal) list \<Rightarrow> 'n set \<Rightarrow> 'n set \<Rightarrow> ('p \<times> 'x) set \<Rightarrow>
    ('n, 'l, 'p, 's, 't, 'x) cresult \<Rightarrow> bool" where
  "result_ok W A acq peers N C D r \<longleftrightarrow>
     W (cr_txns r) \<and> cp_position (cr_position r) = ts_id A (cr_txns r) \<and> unique_keys (cr_disputes r) \<and>
     (\<forall>x d. (x, d) \<in> set (cr_disputes r) \<longrightarrow>
        dispute_ok A (keys peers) (cr_txns r) x d \<and> votes_current A acq peers N x d) \<and>
     compared acq peers C (cr_compares r) \<and>
     differences_disputed A acq (cr_txns r) (cr_compares r) D (keys (cr_disputes r))"

definition acquired_ok :: "('s \<Rightarrow> bool) \<Rightarrow> ('e, 'n, 'l, 'p, 's, 't, 'x) adaptor \<Rightarrow> ('p \<times> 's) list \<Rightarrow> bool" where
  "acquired_ok W A acq \<longleftrightarrow> unique_keys acq \<and> (\<forall>k s. (k, s) \<in> set acq \<longrightarrow> W s \<and> ts_id A s = k)"

lemma acquired_okD:
  assumes "acquired_ok W A acq" and "map_of acq k = Some s"
  shows "W s" and "ts_id A s = k"
  using assms by (auto simp: acquired_ok_def dest: map_of_in)

lemma acquired_ok_update:
  "acquired_ok W A acq \<Longrightarrow> W s \<Longrightarrow> acquired_ok W A (AList.update (ts_id A s) s acq)"
  by (auto simp: acquired_ok_def in_update_iff)

section \<open>What the dispute operations leave alone\<close>

definition dispute_frame :: "('e, 'n, 'l, 'p, 's, 't, 'x) consensus \<Rightarrow>
    ('e, 'n, 'l, 'p, 's, 't, 'x) consensus \<Rightarrow> bool" where
  "dispute_frame c c' \<longleftrightarrow>
     c' = c\<lparr>c_world := c_world c', c_result := c_result c',
            c_peer_unchanged_counter := c_peer_unchanged_counter c'\<rparr>"

lemma dispute_frame_refl [simp]: "dispute_frame c c"
  by (simp add: dispute_frame_def)

lemma dispute_frameD:
  assumes "dispute_frame c c'"
  shows "c_phase c' = c_phase c" and "c_mode c' = c_mode c" and "c_now c' = c_now c"
    and "c_prev_ledger_id c' = c_prev_ledger_id c" and "c_previous_ledger c' = c_previous_ledger c"
    and "c_acquired c' = c_acquired c" and "c_curr_peer_positions c' = c_curr_peer_positions c"
    and "c_recent_peer_positions c' = c_recent_peer_positions c" and "c_dead_nodes c' = c_dead_nodes c"
    and "c_have_close_time_consensus c' = c_have_close_time_consensus c"
  by (subst assms [unfolded dispute_frame_def], simp)+

lemma dispute_frame_trans:
  assumes "dispute_frame a b" and "dispute_frame b c"
  shows "dispute_frame a c"
proof -
  have "c = b\<lparr>c_world := c_world c, c_result := c_result c,
      c_peer_unchanged_counter := c_peer_unchanged_counter c\<rparr>"
    by (rule assms(2) [unfolded dispute_frame_def])
  also have "\<dots> = a\<lparr>c_world := c_world c, c_result := c_result c,
      c_peer_unchanged_counter := c_peer_unchanged_counter c\<rparr>"
    by (subst assms(1) [unfolded dispute_frame_def]) simp
  finally show ?thesis unfolding dispute_frame_def .
qed

section \<open>Creating disputes\<close>

lemma poll_peer_step:
  assumes "poll_peer A x (n, p) (d, c) = (d', c')"
  shows "dispute_frame c c'" and "c_result c' = c_result c" and "tally_ok d \<Longrightarrow> tally_ok d'"
    and "dt_tx d' = dt_tx d" and "dt_tx_id d' = dt_tx_id d" and "dt_our_vote d' = dt_our_vote d"
    and "map_of (dt_votes d') = (case map_of (c_acquired c) (cp_position p) of
           None \<Rightarrow> map_of (dt_votes d) | Some s \<Rightarrow> (map_of (dt_votes d))(n \<mapsto> ts_exists A s x))"
proof -
  consider "map_of (c_acquired c) (cp_position p) = None" "d' = d" "c' = c"
    | s where "map_of (c_acquired c) (cp_position p) = Some s"
        "d' = snd (set_vote n (ts_exists A s x) d)" "c' = c \<or> c' = c\<lparr>c_peer_unchanged_counter := 0\<rparr>"
    using assms by (auto simp: poll_peer_def split: option.splits prod.splits if_splits)
  note cs = this
  show "dispute_frame c c'" and "c_result c' = c_result c"
    by (rule cs; auto simp: dispute_frame_def)+
  show "tally_ok d \<Longrightarrow> tally_ok d'"
    by (rule cs; simp add: tally_set_vote)
  show "dt_tx d' = dt_tx d" and "dt_tx_id d' = dt_tx_id d" and "dt_our_vote d' = dt_our_vote d"
    by (rule cs; simp)+
  show "map_of (dt_votes d') = (case map_of (c_acquired c) (cp_position p) of
      None \<Rightarrow> map_of (dt_votes d) | Some s \<Rightarrow> (map_of (dt_votes d))(n \<mapsto> ts_exists A s x))"
    by (rule cs; simp)
qed

lemma poll_fold:
  assumes "fold (poll_peer A x) ps (d, c) = (d', c')" and "tally_ok d" and "unique_keys ps"
  shows "dispute_frame c c' \<and> c_result c' = c_result c \<and> tally_ok d' \<and> dt_tx d' = dt_tx d \<and>
    dt_tx_id d' = dt_tx_id d \<and> dt_our_vote d' = dt_our_vote d \<and>
    (\<forall>n. n \<notin> keys ps \<longrightarrow> map_of (dt_votes d') n = map_of (dt_votes d) n) \<and>
    (\<forall>n p s. (n, p) \<in> set ps \<longrightarrow> map_of (c_acquired c) (cp_position p) = Some s \<longrightarrow>
       map_of (dt_votes d') n = Some (ts_exists A s x))"
  using assms
proof (induction ps arbitrary: d c)
  case Nil
  then show ?case by simp
next
  case (Cons np ps)
  obtain n p where np: "np = (n, p)" by (cases np)
  obtain d1 c1 where step: "poll_peer A x (n, p) (d, c) = (d1, c1)" by fastforce
  note st = poll_peer_step [OF step]
  have "fold (poll_peer A x) ps (d1, c1) = (d', c')"
    using Cons.prems(1) np step by simp
  moreover have "tally_ok d1" and "unique_keys ps" and n: "n \<notin> keys ps"
    using st(3) Cons.prems np by simp_all
  ultimately have IH: "dispute_frame c1 c'" "c_result c' = c_result c1" "tally_ok d'" "dt_tx d' = dt_tx d1"
    "dt_tx_id d' = dt_tx_id d1" "dt_our_vote d' = dt_our_vote d1"
    "\<And>m. m \<notin> keys ps \<Longrightarrow> map_of (dt_votes d') m = map_of (dt_votes d1) m"
    "\<And>m q s. (m, q) \<in> set ps \<Longrightarrow> map_of (c_acquired c1) (cp_position q) = Some s \<Longrightarrow>
       map_of (dt_votes d') m = Some (ts_exists A s x)"
    using Cons.IH by blast+
  have acq: "c_acquired c1 = c_acquired c"
    by (rule dispute_frameD(6) [OF st(1)])
  have "map_of (dt_votes d') m = map_of (dt_votes d) m" if "m \<notin> keys (np # ps)" for m
    using that IH(7) st(7) np by (auto split: option.splits)
  moreover have "map_of (dt_votes d') m = Some (ts_exists A s x)"
    if "(m, q) \<in> set (np # ps)" "map_of (c_acquired c) (cp_position q) = Some s" for m q s
    using that IH(7) [of n] IH(8) [of m q s] st(7) np n acq by auto
  ultimately show ?case
    using IH(1-6) st(1,2,4-6) dispute_frame_trans [OF st(1) IH(1)] by simp
qed

text \<open>A new dispute, polled from the current peers.\<close>

lemma polled_dispute:
  assumes "fold (poll_peer A x) (c_curr_peer_positions c) (new_dispute tx x (ts_exists A txns x), c) = (d, c')"
    and "unique_keys (c_curr_peer_positions c)" and "tx_id A tx = x"
  shows "dispute_frame c c' \<and> c_result c' = c_result c \<and>
    dispute_ok A (keys (c_curr_peer_positions c)) txns x d \<and>
    votes_current A (c_acquired c) (c_curr_peer_positions c) N x d"
proof -
  note pf = poll_fold [OF assms(1) tally_new assms(2)]
  have "n \<in> keys (c_curr_peer_positions c)" if "n \<in> keys (dt_votes d)" for n
  proof (rule ccontr)
    assume "n \<notin> keys (c_curr_peer_positions c)"
    then have "map_of (dt_votes d) n = None"
      using pf by (simp add: new_dispute_def)
    then show False using that by (simp add: map_of_None_keys)
  qed
  then show ?thesis
    using pf assms(3) by (auto simp: dispute_ok_def votes_current_def new_dispute_def)
qed

definition result_frame :: "('n, 'l, 'p, 's, 't, 'x) cresult \<Rightarrow> ('n, 'l, 'p, 's, 't, 'x) cresult \<Rightarrow> bool" where
  "result_frame r r' \<longleftrightarrow> r' = r\<lparr>cr_disputes := cr_disputes r', cr_compares := cr_compares r'\<rparr>"

lemma result_frame_refl [simp]: "result_frame r r"
  by (simp add: result_frame_def)

lemma result_frame_upd [simp]:
  "result_frame r (r'\<lparr>cr_disputes := ds\<rparr>) \<longleftrightarrow> result_frame r r'"
  "result_frame r (r'\<lparr>cr_compares := cs\<rparr>) \<longleftrightarrow> result_frame r r'"
  by (cases r; cases r'; simp add: result_frame_def)+

lemma result_frame_trans: "result_frame a b \<Longrightarrow> result_frame b c \<Longrightarrow> result_frame a c"
  by (cases a; cases b; cases c) (simp add: result_frame_def)

lemma result_frameD:
  assumes "result_frame r r'"
  shows "cr_txns r' = cr_txns r" and "cr_position r' = cr_position r"
    and "cr_round_time r' = cr_round_time r" and "cr_state r' = cr_state r"
  by (subst assms [unfolded result_frame_def], simp)+

lemma result_ok_add:
  assumes "result_ok W A acq peers N C D r" and "dispute_ok A (keys peers) (cr_txns r) x d"
    and "votes_current A acq peers N x d" and "D \<subseteq> D' \<union> UNIV \<times> {x}"
  shows "result_ok W A acq peers N C D' (r\<lparr>cr_disputes := AList.update x d (cr_disputes r)\<rparr>)"
proof -
  have "dispute_ok A (keys peers) (cr_txns r) y e \<and> votes_current A acq peers N y e"
    if "(y, e) \<in> set (AList.update x d (cr_disputes r))" for y e
    using that assms(1-3) unfolding result_ok_def by (auto simp: in_update_iff)
  moreover have "differences_disputed A acq (cr_txns r) (cr_compares r) D' (insert x (keys (cr_disputes r)))"
    using assms(1,4) unfolding result_ok_def differences_disputed_def by fast
  ultimately show ?thesis
    using assms(1) unfolding result_ok_def by simp
qed

lemma result_ok_skip:
  assumes "result_ok W A acq peers N C D r" and "x \<in> keys (cr_disputes r)" and "D \<subseteq> D' \<union> UNIV \<times> {x}"
  shows "result_ok W A acq peers N C D' r"
  using assms unfolding result_ok_def differences_disputed_def by fast

lemma dispute_difference_ok:
  assumes "tx_set_laws W A" and "W other" and "unique_keys (c_curr_peer_positions c)"
    and "c_result c = Some r" and "(x, b) \<in> set (ts_compare A (cr_txns r) other)"
    and "result_ok W A (c_acquired c) (c_curr_peer_positions c) N C D r" and "D \<subseteq> D' \<union> UNIV \<times> {x}"
  shows "sat (dispute_difference A (cr_txns r) other (x, b) c) (\<lambda>c'. dispute_frame c c' \<and>
    (\<exists>r'. c_result c' = Some r' \<and> result_frame r r' \<and> cr_compares r' = cr_compares r \<and>
          result_ok W A (c_acquired c) (c_curr_peer_positions c) N C D' r'))"
proof -
  have W: "W (cr_txns r)"
    using assms(6) by (simp add: result_ok_def)
  note laws = tx_set_lawsD [OF assms(1)]
  have b: "ts_exists A (cr_txns r) x \<noteq> ts_exists A other x" "b = ts_exists A (cr_txns r) x"
    using assms(5) laws(5) [OF W assms(2)] by simp_all
  obtain tx where tx: "(if b then ts_find A (cr_txns r) x else ts_find A other x) = Some tx" "tx_id A tx = x"
    using b laws(1,2) [OF W, of x] laws(1,2) [OF assms(2), of x] by (cases b) auto
  show ?thesis
  proof (cases "x \<in> keys (cr_disputes r)")
    case True
    then show ?thesis
      using tx assms(4) result_ok_skip [OF assms(6) _ assms(7)] by (simp add: dispute_difference_def)
  next
    case False
    obtain d c1 where poll: "fold (poll_peer A x) (c_curr_peer_positions c)
        (new_dispute tx x (ts_exists A (cr_txns r) x), c) = (d, c1)" by fastforce
    note pd = polled_dispute [OF poll assms(3) tx(2), of N]
    let ?c' = "tell (share_tx A (dt_tx d)) c1"
      and ?r' = "r\<lparr>cr_disputes := AList.update x d (cr_disputes r)\<rparr>"
    have "dispute_difference A (cr_txns r) other (x, b) c = Done (?c'\<lparr>c_result := Some ?r'\<rparr>)"
      using tx(1) False assms(4) pd by (simp add: dispute_difference_def poll tell_def)
    moreover have "dispute_frame c1 (?c'\<lparr>c_result := Some ?r'\<rparr>)"
      by (simp add: dispute_frame_def tell_def)
    then have "dispute_frame c (?c'\<lparr>c_result := Some ?r'\<rparr>)"
      using pd dispute_frame_trans by blast
    moreover have "result_ok W A (c_acquired c) (c_curr_peer_positions c) N C D' ?r'"
      using pd by (intro result_ok_add [OF assms(6) _ _ assms(7)]) auto
    ultimately show ?thesis by simp
  qed
qed

lemma compare_same_id:
  assumes "tx_set_laws W A" and "W s" and "W s'" and "ts_id A s = ts_id A s'"
  shows "ts_compare A s s' = []"
  using tx_set_lawsD(5) [OF assms(1-3), of "fst (hd (ts_compare A s s'))" "snd (hd (ts_compare A s s'))"]
    tx_set_lawsD(6) [OF assms]
  by (cases "ts_compare A s s'") simp_all

text \<open>Taking up the comparison with a set makes the listed differences pending.\<close>

lemma result_ok_compare:
  assumes "tx_set_laws W A" and "acquired_ok W A acq" and "result_ok W A acq peers N C {} r"
    and "map_of acq (ts_id A other) = Some other"
  shows "result_ok W A acq peers N C ({ts_id A other} \<times> fst ` set (ts_compare A (cr_txns r) other))
    (r\<lparr>cr_compares := insert (ts_id A other) (cr_compares r)\<rparr>)"
proof -
  let ?D = "{ts_id A other} \<times> fst ` set (ts_compare A (cr_txns r) other)"
  have W: "W (cr_txns r)" "W other"
    using assms(3) acquired_okD [OF assms(2,4)] by (simp_all add: result_ok_def)
  have "differences_disputed A acq (cr_txns r) (insert (ts_id A other) (cr_compares r)) ?D (keys (cr_disputes r))"
    unfolding differences_disputed_def
  proof (intro ballI)
    fix k assume k: "k \<in> insert (ts_id A other) (cr_compares r)"
    show "\<exists>s. map_of acq k = Some s \<and> (\<forall>x. ts_exists A s x \<noteq> ts_exists A (cr_txns r) x \<longrightarrow>
        x \<in> keys (cr_disputes r) \<or> (k, x) \<in> ?D)"
    proof (cases "k = ts_id A other")
      case True
      have "x \<in> fst ` set (ts_compare A (cr_txns r) other)"
        if "ts_exists A other x \<noteq> ts_exists A (cr_txns r) x" for x
        using tx_set_lawsD(5) [OF assms(1) W, of x "ts_exists A (cr_txns r) x"] that by (force simp: image_iff)
      then show ?thesis using True assms(4) by auto
    next
      case False
      with k show ?thesis
        using assms(3) unfolding result_ok_def differences_disputed_def by fast
    qed
  qed
  then show ?thesis
    using assms(3) unfolding result_ok_def compared_def by auto
qed

lemma create_disputes_ok:
  assumes "tx_set_laws W A" and "acquired_ok W A (c_acquired c)" and "unique_keys (c_curr_peer_positions c)"
    and "c_result c = Some r" and "result_ok W A (c_acquired c) (c_curr_peer_positions c) N C {} r"
    and "map_of (c_acquired c) (ts_id A other) = Some other"
  shows "sat (create_disputes A other c) (\<lambda>c'. dispute_frame c c' \<and>
    (\<exists>r'. c_result c' = Some r' \<and> result_frame r r' \<and> ts_id A other \<in> cr_compares r' \<and>
          cr_compares r \<subseteq> cr_compares r' \<and>
          result_ok W A (c_acquired c) (c_curr_peer_positions c) N C {} r'))"
proof (cases "ts_id A other \<in> cr_compares r")
  case True
  then show ?thesis
    using assms(4,5) by (simp add: create_disputes_def)
next
  case False
  let ?id = "ts_id A other" and ?acq = "c_acquired c" and ?peers = "c_curr_peer_positions c"
  let ?r = "r\<lparr>cr_compares := insert ?id (cr_compares r)\<rparr>"
  let ?c = "c\<lparr>c_result := Some ?r\<rparr>"
  let ?diff = "ts_compare A (cr_txns r) other"
  have W: "W (cr_txns r)" "W other"
    using assms(5) acquired_okD [OF assms(2,6)] by (simp_all add: result_ok_def)
  let ?I = "\<lambda>xs c'. dispute_frame ?c c' \<and> set xs \<subseteq> set ?diff \<and> (\<exists>r'. c_result c' = Some r' \<and>
    result_frame ?r r' \<and> cr_compares r' = cr_compares ?r \<and>
    result_ok W A ?acq ?peers N C ({?id} \<times> fst ` set xs) r')"
  have start: "result_ok W A ?acq ?peers N C ({?id} \<times> fst ` set ?diff) ?r"
    by (rule result_ok_compare [OF assms(1,2,5,6)])
  have step: "sat (dispute_difference A (cr_txns r) other xb c') (?I xs)" if "?I (xb # xs) c'" for xb xs c'
  proof -
    obtain x b where xb: "xb = (x, b)" by (cases xb)
    from that obtain r' where r': "c_result c' = Some r'" "result_frame ?r r'" "cr_compares r' = cr_compares ?r"
      "result_ok W A ?acq ?peers N C ({?id} \<times> fst ` set (xb # xs)) r'" and fr: "dispute_frame ?c c'" by blast
    have eq: "c_acquired c' = ?acq" "c_curr_peer_positions c' = ?peers" "cr_txns r' = cr_txns r"
      using dispute_frameD(6,7) [OF fr] result_frameD(1) [OF r'(2)] by simp_all
    have "(x, b) \<in> set (ts_compare A (cr_txns r') other)" "set xs \<subseteq> set ?diff"
      using that xb eq by auto
    with dispute_difference_ok [OF assms(1) W(2) _ r'(1), of x b N C "{?id} \<times> fst ` set (xb # xs)"
        "{?id} \<times> fst ` set xs"] r'(4) assms(3) eq xb
    have "sat (dispute_difference A (cr_txns r') other (x, b) c') (\<lambda>c''. dispute_frame c' c'' \<and>
      (\<exists>r''. c_result c'' = Some r'' \<and> result_frame r' r'' \<and> cr_compares r'' = cr_compares r' \<and>
        result_ok W A ?acq ?peers N C ({?id} \<times> fst ` set xs) r''))"
      by auto
    then show ?thesis
      unfolding xb eq(3) by (rule sat_mono)
        (use dispute_frame_trans [OF fr] result_frame_trans [OF r'(2)] r'(3) \<open>set xs \<subseteq> set ?diff\<close> in auto)
  qed
  show ?thesis
  proof (cases "ts_id A (cr_txns r) = ?id")
    case True
    then have "?diff = []"
      by (rule compare_same_id [OF assms(1) W])
    with True False assms(4) start show ?thesis
      by (simp add: create_disputes_def Let_def dispute_frame_def subset_insertI)
  next
    case ne: False
    have loop: "sat (fold_outcome (dispute_difference A (cr_txns r) other) ?diff ?c) (?I [])"
      by (rule sat_fold_list [where I = ?I]) (use start step in auto)
    have "dispute_frame c ?c" by (simp add: dispute_frame_def)
    from dispute_frame_trans [OF this] have mono: "?I [] c' \<Longrightarrow> dispute_frame c c' \<and>
      (\<exists>r'. c_result c' = Some r' \<and> result_frame r r' \<and> ?id \<in> cr_compares r' \<and>
          cr_compares r \<subseteq> cr_compares r' \<and> result_ok W A ?acq ?peers N C {} r')" for c'
      using result_frame_trans [of r ?r] by fastforce
    have "sat (fold_outcome (dispute_difference A (cr_txns r) other) ?diff ?c) (\<lambda>c'. dispute_frame c c' \<and>
      (\<exists>r'. c_result c' = Some r' \<and> result_frame r r' \<and> ?id \<in> cr_compares r' \<and>
          cr_compares r \<subseteq> cr_compares r' \<and> result_ok W A ?acq ?peers N C {} r'))"
      by (rule sat_mono [OF loop mono])
    then show ?thesis
      using False ne assms(4) by (simp add: create_disputes_def Let_def)
  qed
qed

section \<open>Updating and withdrawing votes\<close>

lemma dispute_ok_set_vote:
  "dispute_ok A nodes txns x d \<Longrightarrow> n \<in> nodes \<Longrightarrow> dispute_ok A nodes txns x (snd (set_vote n v d))"
  by (auto simp: dispute_ok_def tally_set_vote keys_votes_set_vote)

lemma votes_current_set_vote:
  assumes "votes_current A acq peers N x d" and "unique_keys peers" and "(n, p) \<in> set peers"
    and "map_of acq (cp_position p) = Some s"
  shows "votes_current A acq peers (N - {n}) x (snd (set_vote n (ts_exists A s x) d))"
proof -
  have "q = p" if "(n, q) \<in> set peers" for q
    using that assms(2,3) by (meson eq_key_imp_eq_value)
  with assms(1,4) show ?thesis
    by (fastforce simp: votes_current_def)
qed

lemma result_ok_vote:
  assumes "result_ok W A acq peers N C {} r" and "unique_keys peers" and "(n, p) \<in> set peers"
    and "map_of acq (cp_position p) = Some other" and "cp_position p \<in> cr_compares r"
  shows "result_ok W A acq peers (N - {n}) (C - {n}) {} (r\<lparr>cr_disputes :=
    map_values (\<lambda>d. snd (set_vote n (ts_exists A other (tx_id A (dt_tx d))) d)) (cr_disputes r)\<rparr>)"
proof -
  let ?f = "\<lambda>d. snd (set_vote n (ts_exists A other (tx_id A (dt_tx d))) d)"
  have n: "n \<in> keys peers"
    using assms(3) by force
  have "dispute_ok A (keys peers) (cr_txns r) x (?f d) \<and> votes_current A acq peers (N - {n}) x (?f d)"
    if "(x, d) \<in> set (cr_disputes r)" for x d
  proof -
    have d: "dispute_ok A (keys peers) (cr_txns r) x d" "votes_current A acq peers N x d"
      using assms(1) that by (auto simp: result_ok_def)
    then have "tx_id A (dt_tx d) = x" by (simp add: dispute_ok_def)
    with d n votes_current_set_vote [OF d(2) assms(2-4)] show ?thesis
      by (simp add: dispute_ok_set_vote)
  qed
  moreover have "q = p" if "(n, q) \<in> set peers" for q
    using that assms(2,3) by (meson eq_key_imp_eq_value)
  then have "compared acq peers (C - {n}) (cr_compares r)"
    using assms(1,5) by (fastforce simp: result_ok_def compared_def)
  ultimately show ?thesis
    using assms(1) unfolding result_ok_def by auto
qed

lemma update_disputes_ok:
  assumes "tx_set_laws W A" and "acquired_ok W A (c_acquired c)" and "unique_keys (c_curr_peer_positions c)"
    and "c_result c = Some r" and "result_ok W A (c_acquired c) (c_curr_peer_positions c) N C {} r"
    and "map_of (c_acquired c) (ts_id A other) = Some other"
    and "(n, p) \<in> set (c_curr_peer_positions c)" and "cp_position p = ts_id A other"
  shows "sat (update_disputes A n other c) (\<lambda>c'. dispute_frame c c' \<and>
    (\<exists>r'. c_result c' = Some r' \<and> result_frame r r' \<and>
          result_ok W A (c_acquired c) (c_curr_peer_positions c) (N - {n}) (C - {n}) {} r'))"
proof -
  let ?acq = "c_acquired c" and ?peers = "c_curr_peer_positions c"
  let ?P = "\<lambda>c'. dispute_frame c c' \<and> (\<exists>r'. c_result c' = Some r' \<and> result_frame r r' \<and>
      ts_id A other \<in> cr_compares r' \<and> result_ok W A ?acq ?peers N C {} r')"
  have first: "sat (if ts_id A other \<in> cr_compares r then Done c else create_disputes A other c) ?P"
    using create_disputes_ok [OF assms(1-6)] assms(4,5) by (auto elim!: sat_mono)
  have "sat (bind_outcome (expect (c_result c')) (\<lambda>r.
       let voted = map_values (\<lambda>d. set_vote n (ts_exists A other (tx_id A (dt_tx d))) d) (cr_disputes r)
       in Done (c'\<lparr>c_result := Some (r\<lparr>cr_disputes := map_values snd voted\<rparr>),
                  c_peer_unchanged_counter :=
                    (if list_ex (\<lambda>(x, changed, d). changed) voted then 0
                     else c_peer_unchanged_counter c')\<rparr>)))
    (\<lambda>c''. dispute_frame c c'' \<and> (\<exists>r'. c_result c'' = Some r' \<and> result_frame r r' \<and>
          result_ok W A ?acq ?peers (N - {n}) (C - {n}) {} r'))" (is "sat ?m ?Q") if "?P c'" for c'
  proof -
    from that obtain r' where r': "c_result c' = Some r'" "result_frame r r'"
      "ts_id A other \<in> cr_compares r'" "result_ok W A ?acq ?peers N C {} r'" and fr: "dispute_frame c c'"
      by blast
    have "result_ok W A ?acq ?peers (N - {n}) (C - {n}) {} (r'\<lparr>cr_disputes := map_values snd
        (map_values (\<lambda>d. set_vote n (ts_exists A other (tx_id A (dt_tx d))) d) (cr_disputes r'))\<rparr>)"
      using result_ok_vote [OF r'(4) assms(3,7)] assms(6,8) r'(3)
      by simp
    moreover have "dispute_frame c' (c'\<lparr>c_result := x, c_peer_unchanged_counter := y\<rparr>)" for x y
      by (simp add: dispute_frame_def)
    ultimately show ?thesis
      using r'(1,2) dispute_frame_trans [OF fr] by (simp add: Let_def)
  qed
  then show ?thesis
    unfolding update_disputes_def using assms(4) sat_mono [OF first] by simp
qed

lemma dispute_ok_un_vote:
  "dispute_ok A nodes txns x d \<Longrightarrow> dispute_ok A (nodes - {n}) txns x (un_vote n d)"
  by (auto simp: dispute_ok_def tally_un_vote keys_votes_un_vote)

lemma result_ok_drop:
  assumes "result_ok W A acq peers N C {} r"
  shows "result_ok W A acq (AList.delete n peers) N C {}
    (r\<lparr>cr_disputes := map_values (un_vote n) (cr_disputes r)\<rparr>)"
proof -
  have "dispute_ok A (keys peers - {n}) (cr_txns r) x (un_vote n d) \<and>
      votes_current A acq (AList.delete n peers) N x (un_vote n d)"
    if "(x, d) \<in> set (cr_disputes r)" for x d
  proof -
    have "dispute_ok A (keys peers) (cr_txns r) x d" "votes_current A acq peers N x d"
      using assms that by (auto simp: result_ok_def)
    then show ?thesis
      by (auto simp: dispute_ok_un_vote votes_current_def in_delete_iff)
  qed
  moreover have "compared acq (AList.delete n peers) C (cr_compares r)"
    using assms by (auto simp: result_ok_def compared_def in_delete_iff)
  ultimately show ?thesis
    using assms unfolding result_ok_def by auto
qed

text \<open>A new transaction set at hand, and a new position, make the peers concerned pending.\<close>

lemma result_ok_acquire:
  assumes "result_ok W A acq peers N C {} r" and "k \<notin> keys acq"
  defines "M \<equiv> {n. \<exists>p. (n, p) \<in> set peers \<and> cp_position p = k}"
  shows "result_ok W A (AList.update k s acq) peers (N \<union> M) (C \<union> M) {} r"
proof -
  have "differences_disputed A (AList.update k s acq) (cr_txns r) (cr_compares r) {} (keys (cr_disputes r))"
    using assms(1,2) unfolding result_ok_def differences_disputed_def
    by (metis fun_upd_apply map_of_None_keys map_of_update option.distinct(1))
  then show ?thesis
    using assms(1) unfolding result_ok_def votes_current_def compared_def M_def by (auto split: if_splits)
qed

lemma dispute_ok_mono: "dispute_ok A nodes txns x d \<Longrightarrow> nodes \<subseteq> nodes' \<Longrightarrow> dispute_ok A nodes' txns x d"
  by (auto simp: dispute_ok_def)

lemma result_ok_propose:
  assumes "result_ok W A acq peers N C {} r" and "unique_keys peers"
  shows "result_ok W A acq (AList.update n p peers) (insert n N) (insert n C) {} r"
  using assms unfolding result_ok_def votes_current_def compared_def
  by (auto simp: in_update_iff intro: dispute_ok_mono)

end
