(* ===== verification/Consensus_Invariants.thy ===== *)
theory Consensus_Invariants
  imports Consensus_Disputes
begin

text \<open>
  The invariant of the consensus engine: every operation keeps it and, from a state that has it, no
  operation panics. The laws of the application it rests on are \<open>adaptor_laws\<close>.
\<close>

section \<open>Laws and invariant\<close>

definition parms_ok :: "consensus_parms \<Rightarrow> bool" where
  "parms_ok p \<longleftrightarrow> total_cutoffs p \<and> pcts_fit p \<and>
     ledger_max_consensus p \<le> ledger_abandon_consensus p"

lemma parms_ok_default [simp]: "parms_ok default_parms"
  by (simp add: parms_ok_def) (simp add: default_parms_def)

definition fresh_result :: "('s \<Rightarrow> bool) \<Rightarrow> ('e, 'n, 'l, 'p, 's, 't, 'x) adaptor \<Rightarrow>
    ('n, 'l, 'p, 's, 't, 'x) cresult \<Rightarrow> bool" where
  "fresh_result W A r \<longleftrightarrow> W (cr_txns r) \<and> cp_position (cr_position r) = ts_id A (cr_txns r) \<and>
     cr_disputes r = [] \<and> cr_compares r = {}"

lemma new_result_fresh: "new_result txns p (ts_id A txns) = Done r \<Longrightarrow> W txns \<Longrightarrow> fresh_result W A r"
  by (auto simp: new_result_def fresh_result_def split: if_splits)

text \<open>
  What the application promises: an acquired transaction set or ledger is the one asked for, a ledger's
  parent did not close in the last representable second, and \<open>on_close\<close> builds its result with
  \<open>ConsensusResult::new\<close>.
\<close>

definition adaptor_laws :: "('s \<Rightarrow> bool) \<Rightarrow> ('e, 'n, 'l, 'p, 's, 't, 'x) adaptor \<Rightarrow> bool" where
  "adaptor_laws W A \<longleftrightarrow> tx_set_laws W A \<and> parms_ok (parms A) \<and>
     (\<forall>k w s w'. acquire_tx_set A k w = (Some s, w') \<longrightarrow> W s \<and> ts_id A s = k) \<and>
     (\<forall>l w lg w'. acquire_ledger A l w = (Some lg, w') \<longrightarrow>
        cl_id lg = l \<and> cl_parent_close_time lg \<noteq> u32_max) \<and>
     (\<forall>lg t m w r w'. on_close A lg t m w = (r, w') \<longrightarrow> fresh_result W A r)"

lemma adaptor_lawsD:
  assumes "adaptor_laws W A"
  shows "tx_set_laws W A" and "parms_ok (parms A)"
    and "acquire_tx_set A k w = (Some s, w') \<Longrightarrow> W s \<and> ts_id A s = k"
    and "acquire_ledger A l w = (Some lg, w') \<Longrightarrow> cl_id lg = l \<and> cl_parent_close_time lg \<noteq> u32_max"
    and "on_close A lg' t m w = (r, w') \<Longrightarrow> fresh_result W A r"
  using assms unfolding adaptor_laws_def by blast+

text \<open>
  Current positions are filed under their author, build on the previous ledger, are not bowed out and
  do not come from a peer that left the round; at most ten recent proposals are kept per peer.
\<close>

definition peers_ok :: "('e, 'n, 'l, 'p, 's, 't, 'x) consensus \<Rightarrow> bool" where
  "peers_ok c \<longleftrightarrow> unique_keys (c_curr_peer_positions c) \<and>
     keys (c_curr_peer_positions c) \<inter> c_dead_nodes c = {} \<and>
     (\<forall>n p. (n, p) \<in> set (c_curr_peer_positions c) \<longrightarrow>
        cp_node_id p = n \<and> cp_previous_ledger p = c_prev_ledger_id c \<and> \<not> is_bow_out p)"

definition recent_ok :: "('e, 'n, 'l, 'p, 's, 't, 'x) consensus \<Rightarrow> bool" where
  "recent_ok c \<longleftrightarrow> unique_keys (c_recent_peer_positions c) \<and>
     (\<forall>n ps. (n, ps) \<in> set (c_recent_peer_positions c) \<longrightarrow>
        length ps \<le> 10 \<and> (\<forall>p \<in> set ps. cp_node_id p = n))"

definition pending_ok :: "('s \<Rightarrow> bool) \<Rightarrow> ('e, 'n, 'l, 'p, 's, 't, 'x) adaptor \<Rightarrow> 'n set \<Rightarrow>
    ('e, 'n, 'l, 'p, 's, 't, 'x) consensus \<Rightarrow> bool" where
  "pending_ok W A N c \<longleftrightarrow> acquired_ok W A (c_acquired c) \<and> peers_ok c \<and> recent_ok c \<and>
     (\<forall>r. c_result c = Some r \<longrightarrow> result_ok W A (c_acquired c) (c_curr_peer_positions c) N N {} r)"

definition engine_inv :: "('s \<Rightarrow> bool) \<Rightarrow> ('e, 'n, 'l, 'p, 's, 't, 'x) adaptor \<Rightarrow>
    ('e, 'n, 'l, 'p, 's, 't, 'x) consensus \<Rightarrow> bool" where
  "engine_inv W A c \<longleftrightarrow> pending_ok W A {} c \<and>
     (c_phase c = PhaseOpen \<longrightarrow> c_result c = None) \<and> (c_phase c = Establish \<longrightarrow> c_result c \<noteq> None) \<and>
     (c_phase c \<noteq> Accepted \<longrightarrow> cl_parent_close_time (c_previous_ledger c) \<noteq> u32_max \<and>
        (c_mode c \<noteq> WrongLedger \<longrightarrow> cl_id (c_previous_ledger c) = c_prev_ledger_id c))"

lemma result_ok_mono:
  "result_ok W A acq peers N C D r \<Longrightarrow> N \<subseteq> N' \<Longrightarrow> C \<subseteq> C' \<Longrightarrow> result_ok W A acq peers N' C' D r"
  unfolding result_ok_def votes_current_def compared_def by blast

lemma pending_ok_mono: "pending_ok W A N c \<Longrightarrow> N \<subseteq> N' \<Longrightarrow> pending_ok W A N' c"
  unfolding pending_ok_def by (blast intro: result_ok_mono)

section \<open>What peer messages leave alone\<close>

definition peer_frame :: "('e, 'n, 'l, 'p, 's, 't, 'x) consensus \<Rightarrow>
    ('e, 'n, 'l, 'p, 's, 't, 'x) consensus \<Rightarrow> bool" where
  "peer_frame c c' \<longleftrightarrow>
     c_phase c' = c_phase c \<and> c_mode c' = c_mode c \<and> c_prev_ledger_id c' = c_prev_ledger_id c \<and>
     c_previous_ledger c' = c_previous_ledger c \<and> c_recent_peer_positions c' = c_recent_peer_positions c \<and>
     c_prev_proposers c' = c_prev_proposers c \<and> rel_option result_frame (c_result c) (c_result c')"

lemma rel_option_result_frame_trans:
  "rel_option result_frame a b \<Longrightarrow> rel_option result_frame b c \<Longrightarrow> rel_option result_frame a c"
  by (cases a; cases b; cases c) (auto intro: result_frame_trans)

lemma peer_frame_refl [simp]: "peer_frame c c"
  by (cases "c_result c") (auto simp: peer_frame_def)

lemma peer_frame_trans: "peer_frame a b \<Longrightarrow> peer_frame b c \<Longrightarrow> peer_frame a c"
  by (auto simp: peer_frame_def intro: rel_option_result_frame_trans)

lemma dispute_frame_prev_proposers: "dispute_frame c c' \<Longrightarrow> c_prev_proposers c' = c_prev_proposers c"
  by (subst (asm) dispute_frame_def, erule ssubst) simp

lemma dispute_peer_frame:
  "dispute_frame c c' \<Longrightarrow> rel_option result_frame (c_result c) (c_result c') \<Longrightarrow> peer_frame c c'"
  by (simp add: peer_frame_def dispute_frameD dispute_frame_prev_proposers)

lemma peer_frame_None: "peer_frame c c' \<Longrightarrow> c_result c' = None \<longleftrightarrow> c_result c = None"
  by (cases "c_result c"; cases "c_result c'") (auto simp: peer_frame_def)

lemma dispute_frame_pending_ok:
  assumes "pending_ok W A N c" and "dispute_frame c c'" and "c_result c' = Some r"
    and "result_ok W A (c_acquired c) (c_curr_peer_positions c) N' N' {} r"
  shows "pending_ok W A N' c'"
  using assms dispute_frameD [OF assms(2)]
  by (simp add: pending_ok_def peers_ok_def recent_ok_def)

section \<open>Peer messages\<close>

lemma update_all_ok:
  assumes "tx_set_laws W A" and "acquired_ok W A (c_acquired c)" and "unique_keys (c_curr_peer_positions c)"
    and "c_result c = Some r" and "map_of (c_acquired c) (ts_id A s) = Some s"
    and "result_ok W A (c_acquired c) (c_curr_peer_positions c) (N \<union> set ns) (N \<union> set ns) {} r"
    and "\<And>n. n \<in> set ns \<Longrightarrow> \<exists>p. (n, p) \<in> set (c_curr_peer_positions c) \<and> cp_position p = ts_id A s"
  shows "sat (fold_outcome (\<lambda>n. update_disputes A n s) ns c) (\<lambda>c'. dispute_frame c c' \<and>
    (\<exists>r'. c_result c' = Some r' \<and> result_frame r r' \<and>
          result_ok W A (c_acquired c) (c_curr_peer_positions c) N N {} r'))"
proof -
  let ?acq = "c_acquired c" and ?peers = "c_curr_peer_positions c"
  let ?I = "\<lambda>xs c'. dispute_frame c c' \<and> set xs \<subseteq> set ns \<and> (\<exists>r'. c_result c' = Some r' \<and>
      result_frame r r' \<and> result_ok W A ?acq ?peers (N \<union> set xs) (N \<union> set xs) {} r')"
  have step: "sat (update_disputes A n s c') (?I xs)" if I: "?I (n # xs) c'" for n xs c'
  proof -
    from I obtain r' where r': "c_result c' = Some r'" "result_frame r r'"
      "result_ok W A ?acq ?peers (N \<union> set (n # xs)) (N \<union> set (n # xs)) {} r'" and fr: "dispute_frame c c'" by blast
    from I assms(7) obtain p where p: "(n, p) \<in> set ?peers" "cp_position p = ts_id A s" by fastforce
    have eq: "c_acquired c' = ?acq" "c_curr_peer_positions c' = ?peers"
      using dispute_frameD(6,7) [OF fr] by simp_all
    have "sat (update_disputes A n s c') (\<lambda>c''. dispute_frame c' c'' \<and> (\<exists>r''. c_result c'' = Some r'' \<and>
        result_frame r' r'' \<and> result_ok W A ?acq ?peers (N \<union> set (n # xs) - {n}) (N \<union> set (n # xs) - {n}) {} r''))"
      using update_disputes_ok [OF assms(1) _ _ r'(1), of "N \<union> set (n # xs)" "N \<union> set (n # xs)" s n p] assms(2,3,5) r'(3) p eq
      by simp
    moreover have "N \<union> set (n # xs) - {n} \<subseteq> N \<union> set xs" by auto
    ultimately show ?thesis
      by (elim sat_mono)
         (use I dispute_frame_trans [OF fr] result_frame_trans [OF r'(2)] result_ok_mono in fastforce)
  qed
  have "?I ns c"
    using assms(4,6) by simp
  from sat_fold_list [where I = ?I, OF this step] show ?thesis
    by (auto elim: sat_mono)
qed

text \<open>Handling of votes leaves the positions themselves alone.\<close>

definition votes_frame :: "('e, 'n, 'l, 'p, 's, 't, 'x) consensus \<Rightarrow>
    ('e, 'n, 'l, 'p, 's, 't, 'x) consensus \<Rightarrow> bool" where
  "votes_frame c c' \<longleftrightarrow> peer_frame c c' \<and> c_curr_peer_positions c' = c_curr_peer_positions c \<and>
     c_dead_nodes c' = c_dead_nodes c"

lemma votes_frame_trans: "votes_frame a b \<Longrightarrow> votes_frame b c \<Longrightarrow> votes_frame a c"
  by (auto simp: votes_frame_def intro: peer_frame_trans)

lemma dispute_votes_frame:
  "dispute_frame c c' \<Longrightarrow> rel_option result_frame (c_result c) (c_result c') \<Longrightarrow> votes_frame c c'"
  by (simp add: votes_frame_def dispute_peer_frame dispute_frameD)

lemma got_tx_set_ok:
  assumes "adaptor_laws W A" and "pending_ok W A N c" and "W s"
  shows "sat (got_tx_set A t s c) (\<lambda>c'. votes_frame c c' \<and>
    pending_ok W A (if c_phase c = Accepted \<or> ts_id A s \<in> keys (c_acquired c) then N
      else N - {n. \<exists>p. (n, p) \<in> set (c_curr_peer_positions c) \<and> cp_position p = ts_id A s}) c')"
proof (cases "c_phase c = Accepted \<or> ts_id A s \<in> keys (c_acquired c)")
  case True
  then show ?thesis
    using assms(2) by (auto simp: got_tx_set_def Let_def pending_ok_def peers_ok_def recent_ok_def peer_frame_def
        votes_frame_def rel_option_iff split: option.splits)
next
  case False
  let ?id = "ts_id A s" and ?peers = "c_curr_peer_positions c"
  let ?ns = "map fst (filter (\<lambda>(_, p). cp_position p = ?id) ?peers)"
  define M where "M = {n. \<exists>p. (n, p) \<in> set ?peers \<and> cp_position p = ?id}"
  have M: "set ?ns = M"
    by (force simp: M_def)
  let ?c = "c\<lparr>c_now := t, c_acquired := AList.update ?id s (c_acquired c)\<rparr>"
  have acq: "acquired_ok W A (c_acquired ?c)"
    using assms(2,3) acquired_ok_update by (auto simp: pending_ok_def)
  have keep: "peers_ok ?c" "recent_ok ?c" "unique_keys ?peers"
    using assms(2) by (simp_all add: pending_ok_def peers_ok_def recent_ok_def)
  show ?thesis
  proof (cases "c_result c")
    case None
    with False acq keep show ?thesis
      by (simp add: got_tx_set_def Let_def pending_ok_def peer_frame_def votes_frame_def)
  next
    case (Some r)
    then have r: "result_ok W A (c_acquired ?c) ?peers (N - M \<union> set ?ns) (N - M \<union> set ?ns) {} r"
      using assms(2) False result_ok_acquire [of W A "c_acquired c" ?peers N N r ?id s] M
      unfolding pending_ok_def M_def by (auto intro: result_ok_mono)
    have loop: "sat (fold_outcome (\<lambda>n. update_disputes A n s) ?ns ?c) (\<lambda>c'. dispute_frame ?c c' \<and>
      (\<exists>r'. c_result c' = Some r' \<and> result_frame r r' \<and>
          result_ok W A (c_acquired ?c) (c_curr_peer_positions ?c) (N - M) (N - M) {} r'))"
      using update_all_ok [OF adaptor_lawsD(1) [OF assms(1)] acq, of r s "N - M" ?ns] keep(3) r Some
      by fastforce
    have "pending_ok W A (N - M \<union> set ?ns) ?c"
      using acq keep r Some by (simp add: pending_ok_def)
    note post = dispute_frame_pending_ok [OF this]
    have fr: "votes_frame c ?c"
      by (cases "c_result c") (simp_all add: peer_frame_def votes_frame_def)
    have "sat (fold_outcome (\<lambda>n. update_disputes A n s) ?ns ?c) (\<lambda>c'. votes_frame c c' \<and> pending_ok W A (N - M) c')"
      by (rule sat_mono [OF loop])
         (use post Some votes_frame_trans [OF fr dispute_votes_frame] in auto)
    moreover have "got_tx_set A t s c = fold_outcome (\<lambda>n. update_disputes A n s) ?ns ?c"
      using False Some by (simp add: got_tx_set_def Let_def fold_outcome_filter)
    ultimately show ?thesis
      using False unfolding M_def by simp
  qed
qed

lemma drop_peer_ok:
  assumes "pending_ok W A N c"
  shows "pending_ok W A N (drop_peer n c)" and "peer_frame c (drop_peer n c)"
    and "c_dead_nodes (drop_peer n c) = c_dead_nodes c" and "c_acquired (drop_peer n c) = c_acquired c"
    and "c_curr_peer_positions (drop_peer n c) = AList.delete n (c_curr_peer_positions c)"
    and "c_now (drop_peer n c) = c_now c"
  using assms
  by (auto simp: drop_peer_def Let_def pending_ok_def peers_ok_def recent_ok_def peer_frame_def in_delete_iff
      result_ok_drop split: option.splits)

lemma pending_ok_dead:
  "pending_ok W A N c \<Longrightarrow> n \<notin> keys (c_curr_peer_positions c) \<Longrightarrow>
     pending_ok W A N (c\<lparr>c_dead_nodes := insert n (c_dead_nodes c)\<rparr>)"
  by (auto simp: pending_ok_def peers_ok_def recent_ok_def)

text \<open>Taking up a new position leaves its author pending.\<close>

lemma pending_ok_position:
  assumes "pending_ok W A N c" and "cp_previous_ledger p = c_prev_ledger_id c" and "cp_node_id p \<notin> c_dead_nodes c"
    and "\<not> is_bow_out p"
  shows "pending_ok W A (insert (cp_node_id p) N)
    (c\<lparr>c_curr_peer_positions := AList.update (cp_node_id p) p (c_curr_peer_positions c)\<rparr>)"
  using assms unfolding pending_ok_def peers_ok_def recent_ok_def
  by (auto simp: in_update_iff result_ok_propose)

lemma pending_ok_irrelevant [simp]:
  "pending_ok W A N (c\<lparr>c_now := t\<rparr>) \<longleftrightarrow> pending_ok W A N c"
  "pending_ok W A N (c\<lparr>c_raw_close_times := ct\<rparr>) \<longleftrightarrow> pending_ok W A N c"
  "pending_ok W A N (c\<lparr>c_world := w\<rparr>) \<longleftrightarrow> pending_ok W A N c"
  "pending_ok W A N (c\<lparr>c_open_time := ot\<rparr>) \<longleftrightarrow> pending_ok W A N c"
  "pending_ok W A N (c\<lparr>c_mode := m\<rparr>) \<longleftrightarrow> pending_ok W A N c"
  "pending_ok W A N (c\<lparr>c_phase := ph\<rparr>) \<longleftrightarrow> pending_ok W A N c"
  "pending_ok W A N (c\<lparr>c_peer_unchanged_counter := k\<rparr>) \<longleftrightarrow> pending_ok W A N c"
  "pending_ok W A N (c\<lparr>c_establish_counter := k\<rparr>) \<longleftrightarrow> pending_ok W A N c"
  "pending_ok W A N (c\<lparr>c_converge_percent := i\<rparr>) \<longleftrightarrow> pending_ok W A N c"
  "pending_ok W A N (c\<lparr>c_have_close_time_consensus := b\<rparr>) \<longleftrightarrow> pending_ok W A N c"
  "pending_ok W A N (c\<lparr>c_close_time_avalanche_state := st\<rparr>) \<longleftrightarrow> pending_ok W A N c"
  "pending_ok W A N (c\<lparr>c_prev_proposers := k\<rparr>) \<longleftrightarrow> pending_ok W A N c"
  "pending_ok W A N (c\<lparr>c_prev_round_time := dur\<rparr>) \<longleftrightarrow> pending_ok W A N c"
  "pending_ok W A N (c\<lparr>c_prev_close_time := t\<rparr>) \<longleftrightarrow> pending_ok W A N c"
  "pending_ok W A N (c\<lparr>c_first_round := b\<rparr>) \<longleftrightarrow> pending_ok W A N c"
  "pending_ok W A N (tell f c) \<longleftrightarrow> pending_ok W A N c"
  by (simp_all add: pending_ok_def peers_ok_def recent_ok_def tell_def)

lemma peer_frame_irrelevant [simp]:
  "peer_frame c (c'\<lparr>c_now := t\<rparr>) \<longleftrightarrow> peer_frame c c'"
  "peer_frame c (c'\<lparr>c_raw_close_times := ct\<rparr>) \<longleftrightarrow> peer_frame c c'"
  "peer_frame c (c'\<lparr>c_world := w\<rparr>) \<longleftrightarrow> peer_frame c c'"
  "peer_frame c (c'\<lparr>c_curr_peer_positions := ps\<rparr>) \<longleftrightarrow> peer_frame c c'"
  "peer_frame c (c'\<lparr>c_dead_nodes := ds\<rparr>) \<longleftrightarrow> peer_frame c c'"
  "peer_frame c (tell f c') \<longleftrightarrow> peer_frame c c'"
  by (simp_all add: peer_frame_def tell_def)

text \<open>A peer whose transaction set is unknown is not pending.\<close>

lemma result_ok_unknown:
  assumes "result_ok W A acq peers {n} {n} {} r" and "unique_keys peers" and "(n, p) \<in> set peers"
    and "map_of acq (cp_position p) = None"
  shows "result_ok W A acq peers {} {} {} r"
proof -
  have n: "map_of acq (cp_position q) = None" if "(n, q) \<in> set peers" for q
    using that assms(2-4) by (metis eq_key_imp_eq_value)
  have "votes_current A acq peers {} x d" if "votes_current A acq peers {n} x d" for x d
    using that n unfolding votes_current_def by (metis option.distinct(1) singletonD)
  moreover have "compared acq peers {} (cr_compares r)" if "compared acq peers {n} (cr_compares r)"
    using that n unfolding compared_def by (metis option.distinct(1) singletonD)
  ultimately show ?thesis
    using assms(1) unfolding result_ok_def by blast
qed

text \<open>The last part of \<open>peer_proposal_internal\<close>: votes from the new position.\<close>

lemma take_position_ok:
  assumes "adaptor_laws W A" and "pending_ok W A {cp_node_id p} c" and "c_phase c \<noteq> Accepted"
    and "(cp_node_id p, p) \<in> set (c_curr_peer_positions c)"
  shows "sat (case map_of (c_acquired c) (cp_position p) of
      None \<Rightarrow> (case ask (acquire_tx_set A (cp_position p)) c of (found, c) \<Rightarrow>
        (case found of Some txset \<Rightarrow> got_tx_set A (c_now c) txset c | None \<Rightarrow> Done c))
    | Some txset \<Rightarrow> if c_result c \<noteq> None then update_disputes A (cp_node_id p) txset c else Done c)
    (\<lambda>c'. votes_frame c c' \<and> pending_ok W A {} c')"
proof (cases "map_of (c_acquired c) (cp_position p)")
  case None
  then have new: "cp_position p \<notin> keys (c_acquired c)"
    by (simp add: map_of_None_keys)
  have uk: "unique_keys (c_curr_peer_positions c)"
    using assms(2) by (simp add: pending_ok_def peers_ok_def)
  have "result_ok W A (c_acquired c) (c_curr_peer_positions c) {} {} {} r" if "c_result c = Some r" for r
    using that assms(2) by (intro result_ok_unknown [OF _ uk assms(4) None]) (simp add: pending_ok_def)
  then have drop: "pending_ok W A {} c"
    using assms(2) by (simp add: pending_ok_def)
  obtain found w where acq: "acquire_tx_set A (cp_position p) (c_world c) = (found, w)" by fastforce
  show ?thesis
  proof (cases found)
    case None
    with drop acq new \<open>map_of _ _ = None\<close> show ?thesis by (simp add: ask_def votes_frame_def)
  next
    case (Some s)
    then have s: "W s" "ts_id A s = cp_position p"
      using adaptor_lawsD(3) [OF assms(1)] acq by auto
    have "sat (got_tx_set A (c_now c) s (c\<lparr>c_world := w\<rparr>)) (\<lambda>c'. votes_frame (c\<lparr>c_world := w\<rparr>) c' \<and> pending_ok W A {} c')"
      by (rule sat_mono [OF got_tx_set_ok [OF assms(1) _ s(1)]], subst pending_ok_irrelevant, rule drop)
         (auto intro: pending_ok_mono split: if_splits)
    then show ?thesis
      using Some acq \<open>map_of _ _ = None\<close>
      by (auto simp: ask_def peer_frame_def votes_frame_def elim: sat_mono)
  qed
next
  case (Some s)
  show ?thesis
  proof (cases "c_result c")
    case None
    with Some assms(2) show ?thesis by (simp add: pending_ok_def votes_frame_def)
  next
    case r: (Some r)
    have acq: "acquired_ok W A (c_acquired c)" and uk: "unique_keys (c_curr_peer_positions c)"
      using assms(2) by (auto simp: pending_ok_def peers_ok_def)
    have s: "ts_id A s = cp_position p"
      using acquired_okD [OF acq Some] by simp
    have ro: "result_ok W A (c_acquired c) (c_curr_peer_positions c) {cp_node_id p} {cp_node_id p} {} r"
      using assms(2) r by (simp add: pending_ok_def)
    have "sat (update_disputes A (cp_node_id p) s c) (\<lambda>c'. dispute_frame c c' \<and> (\<exists>r'. c_result c' = Some r' \<and>
        result_frame r r' \<and> result_ok W A (c_acquired c) (c_curr_peer_positions c) ({cp_node_id p} - {cp_node_id p}) ({cp_node_id p} - {cp_node_id p}) {} r'))"
      by (rule update_disputes_ok [OF adaptor_lawsD(1) [OF assms(1)] acq uk r ro _ assms(4)]) (simp_all add: Some s)
    then have "sat (update_disputes A (cp_node_id p) s c) (\<lambda>c'. votes_frame c c' \<and> pending_ok W A {} c')"
      by (rule sat_mono)
         (use dispute_frame_pending_ok [OF assms(2)] dispute_votes_frame [of c] r in fastforce)
    then show ?thesis using Some r by simp
  qed
qed

text \<open>
  The effect of a proposal on the positions: none, unless it is for the running round, from a peer
  that did not leave and newer than that peer's position; then it replaces the position or, for a
  bow-out, removes the peer for the rest of the round.
\<close>

definition proposal_effect :: "('n, 'l, 'p) proposal \<Rightarrow> ('e, 'n, 'l, 'p, 's, 't, 'x) consensus \<Rightarrow> bool \<Rightarrow>
    ('e, 'n, 'l, 'p, 's, 't, 'x) consensus \<Rightarrow> bool" where
  "proposal_effect p c taken c' \<longleftrightarrow>
     (let n = cp_node_id p; peers = c_curr_peer_positions c
      in (taken \<longleftrightarrow> c_phase c \<noteq> Accepted \<and> cp_previous_ledger p = c_prev_ledger_id c \<and> n \<notin> c_dead_nodes c \<and>
            (\<forall>q. map_of peers n = Some q \<longrightarrow> cp_propose_seq q < cp_propose_seq p)) \<and>
         (if taken
          then (if is_bow_out p
                then c_curr_peer_positions c' = AList.delete n peers \<and> c_dead_nodes c' = insert n (c_dead_nodes c)
                else c_curr_peer_positions c' = AList.update n p peers \<and> c_dead_nodes c' = c_dead_nodes c)
          else c_curr_peer_positions c' = peers \<and> c_dead_nodes c' = c_dead_nodes c))"

lemma peer_proposal_internal_ok:
  assumes "adaptor_laws W A" and "pending_ok W A {} c"
  shows "sat (peer_proposal_internal A t p c) (\<lambda>(b, c'). peer_frame c c' \<and> pending_ok W A {} c' \<and> proposal_effect p c b c')"
proof -
  let ?n = "cp_node_id p" and ?c1 = "c\<lparr>c_now := t\<rparr>"
  let ?ignored = "cp_previous_ledger p \<noteq> c_prev_ledger_id c \<or> ?n \<in> c_dead_nodes c \<or>
    (case map_of (c_curr_peer_positions c) ?n of
       Some existing \<Rightarrow> cp_propose_seq p \<le> cp_propose_seq existing | None \<Rightarrow> False)"
  consider (accepted) "c_phase c = Accepted" | (ignored) "c_phase c \<noteq> Accepted" "?ignored"
    | (left) "c_phase c \<noteq> Accepted" "\<not> ?ignored" "is_bow_out p"
    | (taken) "c_phase c \<noteq> Accepted" "\<not> ?ignored" "\<not> is_bow_out p" by blast
  then show ?thesis
  proof cases
    case accepted
    then show ?thesis using assms(2) by (simp add: peer_proposal_internal_def proposal_effect_def Let_def)
  next
    case ignored
    then have "peer_proposal_internal A t p c = Done (False, ?c1)"
      by (elim disjE) (simp_all add: peer_proposal_internal_def Let_def)
    with ignored show ?thesis
      using assms(2) by (auto simp: proposal_effect_def Let_def not_less split: option.splits)
  next
    case left
    then have "peer_proposal_internal A t p c =
        Done (True, (drop_peer ?n ?c1)\<lparr>c_dead_nodes := insert ?n (c_dead_nodes (drop_peer ?n ?c1))\<rparr>)"
      by (simp add: peer_proposal_internal_def Let_def)
    moreover have "pending_ok W A {} ?c1" using assms(2) by simp
    note dp = drop_peer_ok [OF this, of ?n]
    have "peer_frame c (drop_peer ?n ?c1)"
      by (rule peer_frame_trans [OF _ dp(2)]) simp
    ultimately show ?thesis
      using pending_ok_dead [OF dp(1)] dp(3,5) left by (auto simp: proposal_effect_def Let_def split: option.splits)
  next
    case taken
    let ?c2 = "?c1\<lparr>c_curr_peer_positions := AList.update ?n p (c_curr_peer_positions c)\<rparr>"
    define c3 where "c3 = (if is_initial p
       then ?c2\<lparr>c_raw_close_times := (c_raw_close_times c)
              \<lparr>cct_peers := bump (cp_close_time p) (cct_peers (c_raw_close_times c))\<rparr>\<rparr>
       else ?c2)"
    have pk: "pending_ok W A {?n} c3"
      using pending_ok_position [of W A "{}" ?c1 p] assms(2) taken by (simp add: c3_def)
    have mem: "c_phase c3 \<noteq> Accepted" "(?n, p) \<in> set (c_curr_peer_positions c3)"
      using assms(2) taken by (simp_all add: c3_def in_update_iff pending_ok_def peers_ok_def)
    have fr: "peer_frame c c3" by (simp add: c3_def)
    have "peer_proposal_internal A t p c = bind_outcome (case map_of (c_acquired c3) (cp_position p) of
        None \<Rightarrow> (case ask (acquire_tx_set A (cp_position p)) c3 of (found, c) \<Rightarrow>
          (case found of Some txset \<Rightarrow> got_tx_set A (c_now c) txset c | None \<Rightarrow> Done c))
      | Some txset \<Rightarrow> if c_result c3 \<noteq> None then update_disputes A ?n txset c3 else Done c3)
      (\<lambda>c. Done (True, c))"
      using taken by (simp add: peer_proposal_internal_def c3_def Let_def cong: option.case_cong if_cong)
    moreover have "peer_frame c c' \<and> pending_ok W A {} c' \<and> proposal_effect p c True c'"
      if "votes_frame c3 c' \<and> pending_ok W A {} c'" for c'
      using that taken peer_frame_trans [OF fr, of c']
      by (auto simp: votes_frame_def proposal_effect_def c3_def Let_def split: option.splits)
    ultimately show ?thesis
      using sat_mono [OF take_position_ok [OF assms(1) pk mem]] by simp
  qed
qed

lemma engine_inv_peer_frame:
  "engine_inv W A c \<Longrightarrow> peer_frame c c' \<Longrightarrow> pending_ok W A {} c' \<Longrightarrow> engine_inv W A c'"
  using peer_frame_None [of c c'] by (simp add: engine_inv_def peer_frame_def)

lemma recent_ok_push:
  assumes "recent_ok c" and "props = (case map_of (c_recent_peer_positions c) (cp_node_id p) of Some ps \<Rightarrow> ps | None \<Rightarrow> [])"
  shows "recent_ok (c\<lparr>c_recent_peer_positions := AList.update (cp_node_id p)
    ((if 10 \<le> length props then tl props else props) @ [p]) (c_recent_peer_positions c)\<rparr>)"
proof -
  have "length props \<le> 10 \<and> (\<forall>q \<in> set props. cp_node_id q = cp_node_id p)"
    using assms by (auto simp: recent_ok_def split: option.splits dest: map_of_in)
  then show ?thesis
    using assms(1) by (auto simp: recent_ok_def in_update_iff dest: list.set_sel(2) [rotated])
qed

lemma peer_proposal_inv:
  assumes "adaptor_laws W A" and "engine_inv W A c"
  shows "sat (peer_proposal A t p c) (\<lambda>(b, c'). engine_inv W A c')"
proof -
  define props where "props = (case map_of (c_recent_peer_positions c) (cp_node_id p) of Some ps \<Rightarrow> ps | None \<Rightarrow> [])"
  let ?c = "c\<lparr>c_recent_peer_positions := AList.update (cp_node_id p)
    ((if 10 \<le> length props then tl props else props) @ [p]) (c_recent_peer_positions c)\<rparr>"
  have "recent_ok ?c"
    using assms(2) by (intro recent_ok_push) (auto simp: engine_inv_def pending_ok_def props_def)
  then have inv: "engine_inv W A ?c"
    using assms(2) by (simp add: engine_inv_def pending_ok_def peers_ok_def)
  then have "pending_ok W A {} ?c" by (simp add: engine_inv_def)
  from peer_proposal_internal_ok [OF assms(1) this, of t p]
  have "sat (peer_proposal_internal A t p ?c) (\<lambda>(b, c'). engine_inv W A c')"
    by (rule sat_mono) (use engine_inv_peer_frame [OF inv] in auto)
  then show ?thesis unfolding peer_proposal_def Let_def props_def .
qed

lemma got_tx_set_inv:
  assumes "adaptor_laws W A" and "engine_inv W A c" and "W s"
  shows "sat (got_tx_set A t s c) (engine_inv W A)"
proof -
  have "pending_ok W A {} c"
    using assms(2) by (simp add: engine_inv_def)
  from got_tx_set_ok [OF assms(1) this assms(3)] show ?thesis
    by (rule sat_mono) (use engine_inv_peer_frame [OF assms(2)] in \<open>auto simp: votes_frame_def split: if_splits\<close>)
qed

lemma playback_ok:
  assumes "adaptor_laws W A" and "pending_ok W A {} c"
  shows "sat (playback_proposals A c) (\<lambda>c'. peer_frame c c' \<and> pending_ok W A {} c')"
  unfolding playback_proposals_def
proof (rule sat_fold)
  show "peer_frame c c \<and> pending_ok W A {} c"
    using assms(2) by simp
  fix p c'
  assume I: "peer_frame c c' \<and> pending_ok W A {} c'"
  have "sat (peer_proposal_internal A (c_now c') p c') (\<lambda>(relay, c'').
      peer_frame c (if relay then tell (share_peer_position A p) c'' else c'') \<and>
      pending_ok W A {} (if relay then tell (share_peer_position A p) c'' else c''))"
    using peer_proposal_internal_ok [OF assms(1), of c' "c_now c'" p] I
    by (auto elim!: sat_mono intro: peer_frame_trans)
  then show "sat (if cp_previous_ledger p = c_prev_ledger_id c'
      then bind_outcome (peer_proposal_internal A (c_now c') p c')
        (\<lambda>(relay, c). Done (if relay then tell (share_peer_position A p) c else c))
      else Done c') (\<lambda>c'. peer_frame c c' \<and> pending_ok W A {} c')"
    using I by (auto elim!: sat_mono)
qed

section \<open>Leaving and starting a round\<close>

lemma result_ok_irrelevant [simp]:
  "result_ok W A acq peers N C D (r\<lparr>cr_round_time := rt\<rparr>) \<longleftrightarrow> result_ok W A acq peers N C D r"
  "result_ok W A acq peers N C D (r\<lparr>cr_state := st\<rparr>) \<longleftrightarrow> result_ok W A acq peers N C D r"
  "result_ok W A acq peers N C D (r\<lparr>cr_proposers := k\<rparr>) \<longleftrightarrow> result_ok W A acq peers N C D r"
  "result_ok W A acq peers N C D (r\<lparr>cr_position := bow_out t (cr_position r)\<rparr>) \<longleftrightarrow>
     result_ok W A acq peers N C D r"
  by (simp_all add: result_ok_def)

lemma set_mode_simps [simp]:
  "c_mode (set_mode A m c) = m" "c_phase (set_mode A m c) = c_phase c" "c_result (set_mode A m c) = c_result c"
  "c_prev_ledger_id (set_mode A m c) = c_prev_ledger_id c" "c_now (set_mode A m c) = c_now c"
  "c_previous_ledger (set_mode A m c) = c_previous_ledger c" "c_acquired (set_mode A m c) = c_acquired c"
  "c_recent_peer_positions (set_mode A m c) = c_recent_peer_positions c"
  "c_curr_peer_positions (set_mode A m c) = c_curr_peer_positions c"
  "c_dead_nodes (set_mode A m c) = c_dead_nodes c"
  "c_have_close_time_consensus (set_mode A m c) = c_have_close_time_consensus c"
  "c_establish_counter (set_mode A m c) = c_establish_counter c"
  "pending_ok W A N (set_mode A m c) \<longleftrightarrow> pending_ok W A N c"
  by (simp_all add: set_mode_def tell_def)

lemma leave_consensus_ok:
  assumes "pending_ok W A N c"
  shows "pending_ok W A N (leave_consensus A c)"
    and "c_phase (leave_consensus A c) = c_phase c" and "c_prev_ledger_id (leave_consensus A c) = c_prev_ledger_id c"
    and "c_previous_ledger (leave_consensus A c) = c_previous_ledger c"
    and "c_result (leave_consensus A c) = None \<longleftrightarrow> c_result c = None"
    and "c_mode (leave_consensus A c) = (if c_mode c = Proposing then Observing else c_mode c)"
  using assms
  by (auto simp: leave_consensus_def Let_def tell_def pending_ok_def peers_ok_def recent_ok_def split: option.splits)

lemma leave_consensus_inv:
  assumes "engine_inv W A c"
  shows "engine_inv W A (leave_consensus A c)"
proof -
  have p: "pending_ok W A {} c" using assms by (simp add: engine_inv_def)
  show ?thesis
    using leave_consensus_ok [OF p] assms
    by (auto simp: engine_inv_def split: if_splits)
qed

text \<open>
  What is assumed of the recursive timer call: from the invariant it ends in \<open>Q\<close>, where \<open>Q\<close> holds of
  every state with the invariant whose round is not over.
\<close>

definition timer_ok :: "('s \<Rightarrow> bool) \<Rightarrow> ('e, 'n, 'l, 'p, 's, 't, 'x) adaptor \<Rightarrow>
    (net_time \<Rightarrow> ('e, 'n, 'l, 'p, 's, 't, 'x) consensus \<Rightarrow> ('e, 'n, 'l, 'p, 's, 't, 'x) consensus outcome) \<Rightarrow>
    (('e, 'n, 'l, 'p, 's, 't, 'x) consensus \<Rightarrow> bool) \<Rightarrow> bool" where
  "timer_ok W A te Q \<longleftrightarrow>
     (\<forall>c. engine_inv W A c \<longrightarrow> c_phase c \<noteq> Accepted \<longrightarrow> Q c \<and> (\<forall>t. sat (te t c) Q))"

lemma start_round_internal_inv:
  assumes "adaptor_laws W A" and "recent_ok c" and "timer_ok W A te Q"
    and "cl_parent_close_time ledger \<noteq> u32_max" and "mode \<noteq> WrongLedger \<Longrightarrow> cl_id ledger = l"
  shows "sat (start_round_internal A te t l ledger mode c) Q"
proof -
  obtain ts w where clk: "clock_now A (on_mode_change A (c_mode c) mode (c_world c)) = (ts, w)" by fastforce
  define c' where "c' = (set_mode A mode (c\<lparr>c_phase := PhaseOpen\<rparr>))\<lparr>c_now := t, c_prev_ledger_id := l,
      c_previous_ledger := ledger, c_result := None, c_converge_percent := 0,
      c_close_time_avalanche_state := Init, c_have_close_time_consensus := False, c_world := w,
      c_open_time := timer_reset ts (c_open_time c), c_curr_peer_positions := [], c_acquired := [],
      c_raw_close_times := \<lparr>cct_peers = [], cct_self = 0\<rparr>, c_dead_nodes := {},
      c_close_resolution := next_ledger_time_resolution A (cl_close_time_resolution ledger)
        (cl_close_agree ledger) (cl_seq ledger + 1)\<rparr>"
  have p: "pending_ok W A {} c'"
    using assms(2) by (simp add: c'_def pending_ok_def acquired_ok_def peers_ok_def recent_ok_def)
  then have inv: "engine_inv W A c'"
    using assms(4,5) by (simp add: engine_inv_def) (simp add: c'_def)
  have ph: "c_phase c' = PhaseOpen" by (simp add: c'_def)
  have play: "sat (playback_proposals A c') (\<lambda>c. engine_inv W A c \<and> c_phase c \<noteq> Accepted)"
    by (rule sat_mono [OF playback_ok [OF assms(1) p]])
       (use engine_inv_peer_frame [OF inv] ph in \<open>auto simp: peer_frame_def\<close>)
  have "start_round_internal A te t l ledger mode c = bind_outcome (playback_proposals A c') (\<lambda>c.
      if c_prev_proposers c div 2 < length (c_curr_peer_positions c) then te (c_now c) c else Done c)"
    by (simp add: start_round_internal_def Let_def ask_def set_mode_def tell_def clk c'_def)
  then show ?thesis
    using sat_mono [OF play] assms(3) by (simp add: timer_ok_def)
qed

section \<open>Closing the ledger\<close>

lemma result_ok_compared:
  assumes "result_ok W A acq peers N C D r"
    and "\<And>n p s. (n, p) \<in> set peers \<Longrightarrow> n \<in> C \<Longrightarrow> n \<notin> C' \<Longrightarrow>
       map_of acq (cp_position p) = Some s \<Longrightarrow> cp_position p \<in> cr_compares r"
  shows "result_ok W A acq peers N C' D r"
  using assms unfolding result_ok_def compared_def by blast

lemma compare_positions_ok:
  assumes "tx_set_laws W A" and "acquired_ok W A (c_acquired c)" and "unique_keys (c_curr_peer_positions c)"
    and "c_result c = Some r" and "result_ok W A (c_acquired c) (c_curr_peer_positions c) {} UNIV {} r"
  shows "sat (fold_outcome (\<lambda>pos c. case map_of (c_acquired c) pos of
                 Some txset \<Rightarrow> create_disputes A txset c | None \<Rightarrow> Done c)
               (map (\<lambda>(_, p). cp_position p) (c_curr_peer_positions c)) c)
    (\<lambda>c'. dispute_frame c c' \<and> (\<exists>r'. c_result c' = Some r' \<and> result_frame r r' \<and>
       result_ok W A (c_acquired c) (c_curr_peer_positions c) {} {} {} r'))"
proof -
  let ?acq = "c_acquired c" and ?peers = "c_curr_peer_positions c"
  let ?C = "\<lambda>xs. {n. \<exists>p. (n, p) \<in> set ?peers \<and> cp_position p \<in> set xs}"
  let ?I = "\<lambda>xs c'. dispute_frame c c' \<and> (\<exists>r'. c_result c' = Some r' \<and> result_frame r r' \<and>
      result_ok W A ?acq ?peers {} (?C xs) {} r')"
  let ?f = "\<lambda>pos c. case map_of (c_acquired c) pos of Some txset \<Rightarrow> create_disputes A txset c | None \<Rightarrow> Done c"
  have uniq: "p = q" if "(n, p) \<in> set ?peers" "(n, q) \<in> set ?peers" for n p q
    using that assms(3) by (meson eq_key_imp_eq_value)
  have step: "sat (?f pos c') (?I xs)" if I: "?I (pos # xs) c'" for pos xs c'
  proof -
    from I obtain r' where r': "c_result c' = Some r'" "result_frame r r'"
      "result_ok W A ?acq ?peers {} (?C (pos # xs)) {} r'" and fr: "dispute_frame c c'" by blast
    have eq: "c_acquired c' = ?acq" "c_curr_peer_positions c' = ?peers"
      using dispute_frameD(6,7) [OF fr] by simp_all
    show ?thesis
    proof (cases "map_of ?acq pos")
      case None
      have "result_ok W A ?acq ?peers {} (?C xs) {} r'"
        by (rule result_ok_compared [OF r'(3)]) (use None uniq in fastforce)
      with None r' fr eq show ?thesis by simp
    next
      case (Some s)
      have s: "ts_id A s = pos"
        using acquired_okD [OF assms(2) Some] by simp
      have "sat (create_disputes A s c') (\<lambda>c''. dispute_frame c' c'' \<and> (\<exists>r''. c_result c'' = Some r'' \<and>
          result_frame r' r'' \<and> ts_id A s \<in> cr_compares r'' \<and> cr_compares r' \<subseteq> cr_compares r'' \<and>
          result_ok W A ?acq ?peers {} (?C (pos # xs)) {} r''))"
        using create_disputes_ok [OF assms(1) _ _ r'(1), of "{}" "?C (pos # xs)" s] assms(2,3) r'(3) Some s eq by simp
      moreover have "result_ok W A ?acq ?peers {} (?C xs) {} r''"
        if "result_ok W A ?acq ?peers {} (?C (pos # xs)) {} r''" "pos \<in> cr_compares r''" for r''
        by (rule result_ok_compared [OF that(1)]) (use that(2) uniq in fastforce)
      ultimately have "sat (create_disputes A s c') (?I xs)"
        using s dispute_frame_trans [OF fr] result_frame_trans [OF r'(2)] by (elim sat_mono) blast
      then show ?thesis using Some eq by simp
    qed
  qed
  let ?ps = "map (\<lambda>(_, p). cp_position p) ?peers"
  have "result_ok W A ?acq ?peers {} (?C ?ps) {} r"
    by (rule result_ok_compared [OF assms(5)]) force
  then have "?I ?ps c" using assms(4) by simp
  from sat_fold_list [where I = ?I, OF this step] show ?thesis
    by (auto elim: sat_mono)
qed

lemma fresh_result_ok: "fresh_result W A r \<Longrightarrow> result_ok W A acq peers {} UNIV {} r"
  by (simp add: fresh_result_def result_ok_def compared_def differences_disputed_def)

lemma close_ledger_inv:
  assumes "adaptor_laws W A" and "engine_inv W A c" and "c_phase c = PhaseOpen"
  shows "sat (close_ledger A c) (\<lambda>c'. engine_inv W A c' \<and> c_phase c' = Establish)"
proof -
  have none: "c_result c = None" and p: "pending_ok W A {} c"
    using assms(2,3) by (simp_all add: engine_inv_def)
  let ?c1 = "c\<lparr>c_phase := Establish, c_raw_close_times := (c_raw_close_times c)\<lparr>cct_self := c_now c\<rparr>,
     c_peer_unchanged_counter := 0, c_establish_counter := 0\<rparr>"
  obtain r0 w t w' where oc: "on_close A (c_previous_ledger c) (c_now c) (c_mode c) (c_world c) = (r0, w)"
    and clk: "clock_now A w = (t, w')" by fastforce
  define r where "r = r0\<lparr>cr_round_time := timer_reset t (cr_round_time r0)\<rparr>"
  have fresh: "fresh_result W A r"
    using adaptor_lawsD(5) [OF assms(1) oc] by (simp add: r_def fresh_result_def)
  define c2 where "c2 = (if ts_id A (cr_txns r) \<in> keys (c_acquired c) then ?c1\<lparr>c_world := w'\<rparr>
     else tell (share_tx_set A (cr_txns r))
       (?c1\<lparr>c_world := w', c_acquired := AList.update (ts_id A (cr_txns r)) (cr_txns r) (c_acquired c)\<rparr>))"
  define c3 where "c3 = (if c_mode c2 = Proposing then tell (propose A (cr_position r)) c2 else c2)\<lparr>c_result := Some r\<rparr>"
  have same: "c_phase c3 = Establish" "c_mode c3 = c_mode c" "c_previous_ledger c3 = c_previous_ledger c"
    "c_prev_ledger_id c3 = c_prev_ledger_id c" "c_curr_peer_positions c3 = c_curr_peer_positions c"
    "peers_ok c3" "recent_ok c3" "c_result c3 = Some r"
    using p by (simp_all add: c3_def c2_def tell_def pending_ok_def peers_ok_def recent_ok_def)
  have acq: "acquired_ok W A (c_acquired c3)"
    using p fresh acquired_ok_update [of W A "c_acquired c" "cr_txns r"]
    by (auto simp: c3_def c2_def tell_def pending_ok_def fresh_result_def)
  have "sat (fold_outcome (\<lambda>pos c. case map_of (c_acquired c) pos of
                 Some txset \<Rightarrow> create_disputes A txset c | None \<Rightarrow> Done c)
               (map (\<lambda>(_, p). cp_position p) (c_curr_peer_positions c3)) c3)
    (\<lambda>c'. dispute_frame c3 c' \<and> (\<exists>r'. c_result c' = Some r' \<and> result_frame r r' \<and>
       result_ok W A (c_acquired c3) (c_curr_peer_positions c3) {} {} {} r'))"
    using compare_positions_ok [OF adaptor_lawsD(1) [OF assms(1)] acq _ same(8)] fresh_result_ok [OF fresh] same(6)
    by (simp add: peers_ok_def)
  moreover have "pending_ok W A UNIV c3"
    using acq same fresh by (simp add: pending_ok_def) (auto intro: result_ok_mono [OF fresh_result_ok])
  then have "engine_inv W A c' \<and> c_phase c' = Establish"
    if "dispute_frame c3 c'" "c_result c' = Some r'"
      "result_ok W A (c_acquired c3) (c_curr_peer_positions c3) {} {} {} r'" for c' r'
    using dispute_frame_pending_ok [OF _ that] dispute_frameD [OF that(1)] same that(2) assms(2,3)
    by (simp add: engine_inv_def)
  moreover have "close_ledger A c = fold_outcome (\<lambda>pos c. case map_of (c_acquired c) pos of
                 Some txset \<Rightarrow> create_disputes A txset c | None \<Rightarrow> Done c)
               (map (\<lambda>(_, p). cp_position p) (c_curr_peer_positions c3)) c3"
    using none by (simp add: close_ledger_def Let_def ask_def oc clk c3_def c2_def r_def)
  ultimately show ?thesis
    by (auto elim!: sat_mono)
qed

lemma phase_open_inv:
  assumes "adaptor_laws W A" and "engine_inv W A c" and "c_phase c = PhaseOpen"
  shows "sat (phase_open A c) (\<lambda>c'. engine_inv W A c' \<and> c_phase c' \<noteq> Accepted)"
proof -
  obtain any w1 pv w2 t w3 where w: "has_open_transactions A (c_world c) = (any, w1)"
    "proposers_validated A (c_prev_ledger_id c) w1 = (pv, w2)" "clock_now A w2 = (t, w3)" by fastforce
  let ?c = "c\<lparr>c_world := w3, c_open_time := tick_to t (c_open_time c)\<rparr>"
  have inv: "engine_inv W A ?c" "c_phase ?c = PhaseOpen"
    using assms(2,3) by (simp_all add: engine_inv_def)
  obtain plus where plus: "net_checked_add (cl_parent_close_time (c_previous_ledger c)) (seconds 1) = Some plus"
    using assms(2,3) net_checked_add_one [of "cl_parent_close_time (c_previous_ledger c)"]
    by (auto simp: engine_inv_def)
  have "sat (close_ledger A ?c) (\<lambda>c'. engine_inv W A c' \<and> c_phase c' \<noteq> Accepted)"
    by (rule sat_mono [OF close_ledger_inv [OF assms(1) inv]]) simp
  with inv show ?thesis
    by (simp add: phase_open_def Let_def ask_def w plus)
qed

section \<open>The previous ledger\<close>

lemma handle_wrong_ledger_inv:
  assumes "adaptor_laws W A" and "engine_inv W A c" and "c_phase c \<noteq> Accepted"
    and te: "timer_ok W A te Q"
  shows "sat (handle_wrong_ledger A te l c) Q"
proof -
  define c1 where "c1 = leave_consensus A c"
  have inv1: "engine_inv W A c1"
    unfolding c1_def by (rule leave_consensus_inv [OF assms(2)])
  have open1: "c_phase c1 \<noteq> Accepted"
    using leave_consensus_ok(2) [of W A "{}" c] assms(2,3) by (simp add: c1_def engine_inv_def)
  let ?P = "\<lambda>c'. pending_ok W A {} c' \<and> c_phase c' = c_phase c1 \<and> (c_result c' = None \<longleftrightarrow> c_result c1 = None) \<and>
     c_previous_ledger c' = c_previous_ledger c1 \<and> c_prev_ledger_id c' = l"
  let ?c2 = "c1\<lparr>c_prev_ledger_id := l, c_result := map_option (\<lambda>r. r\<lparr>cr_disputes := [], cr_compares := {}\<rparr>) (c_result c1),
     c_curr_peer_positions := [], c_raw_close_times := (c_raw_close_times c1)\<lparr>cct_peers := []\<rparr>, c_dead_nodes := {}\<rparr>"
  have p2: "pending_ok W A {} ?c2"
    using inv1 by (auto simp: engine_inv_def pending_ok_def peers_ok_def recent_ok_def result_ok_def
        compared_def differences_disputed_def)
  have first: "sat (if c_prev_ledger_id c1 \<noteq> l then playback_proposals A ?c2 else Done c1) ?P"
  proof (cases "c_prev_ledger_id c1 = l")
    case True
    then show ?thesis using inv1 by (simp add: engine_inv_def)
  next
    case False
    have "?P c'" if "peer_frame ?c2 c' \<and> pending_ok W A {} c'" for c'
      using that peer_frame_None [of ?c2 c'] by (simp add: peer_frame_def)
    with False show ?thesis
      using sat_mono [OF playback_ok [OF assms(1) p2]] by simp
  qed
  have second: "sat (if cl_id (c_previous_ledger c') = c_prev_ledger_id c' then Done c'
      else (case ask (acquire_ledger A (c_prev_ledger_id c')) c' of (found, c) \<Rightarrow>
        (case found of
           Some new_ledger \<Rightarrow> start_round_internal A te (c_now c) l new_ledger SwitchedLedger c
         | None \<Rightarrow> Done (set_mode A WrongLedger c)))) Q" if P: "?P c'" for c'
  proof (cases "cl_id (c_previous_ledger c') = c_prev_ledger_id c'")
    case True
    then have "engine_inv W A c'" "c_phase c' \<noteq> Accepted"
      using P inv1 open1 by (auto simp: engine_inv_def)
    with True te show ?thesis by (simp add: timer_ok_def)
  next
    case False
    obtain found w where acq: "acquire_ledger A (c_prev_ledger_id c') (c_world c') = (found, w)" by fastforce
    have rec: "recent_ok (c'\<lparr>c_world := w\<rparr>)"
      using P by (simp add: pending_ok_def recent_ok_def)
    show ?thesis
    proof (cases found)
      case None
      have "engine_inv W A (set_mode A WrongLedger (c'\<lparr>c_world := w\<rparr>))" "c_phase c' \<noteq> Accepted"
        using P inv1 open1 by (auto simp: engine_inv_def)
      with None False acq te show ?thesis by (simp add: ask_def timer_ok_def)
    next
      case (Some lg)
      then have "cl_id lg = l" "cl_parent_close_time lg \<noteq> u32_max"
        using adaptor_lawsD(4) [OF assms(1)] acq P by auto
      with Some False acq start_round_internal_inv [OF assms(1) rec te] show ?thesis
        by (simp add: ask_def)
    qed
  qed
  show ?thesis
    unfolding handle_wrong_ledger_def Let_def c1_def [symmetric]
    using sat_mono [OF first second] by simp
qed

lemma check_ledger_inv:
  assumes "adaptor_laws W A" and "engine_inv W A c" and "c_phase c \<noteq> Accepted"
    and "timer_ok W A te Q"
  shows "sat (check_ledger A te c) Q"
proof -
  obtain l w where "get_prev_ledger A (c_prev_ledger_id c) (c_previous_ledger c) (c_mode c) (c_world c) = (l, w)"
    by fastforce
  moreover have "engine_inv W A (c\<lparr>c_world := w\<rparr>)"
    using assms(2) by (simp add: engine_inv_def)
  moreover from this have "sat (handle_wrong_ledger A te l (c\<lparr>c_world := w\<rparr>)) Q"
    by (rule handle_wrong_ledger_inv [OF assms(1) _ _ assms(4)]) (simp add: assms(3))
  ultimately show ?thesis
    using assms(3,4) by (simp add: check_ledger_def ask_def timer_ok_def)
qed

lemma start_round_inv:
  assumes "adaptor_laws W A" and "engine_inv W A c" and "cl_parent_close_time ledger \<noteq> u32_max"
    and te: "timer_ok W A te Q"
  shows "sat (start_round A te t l ledger untrusted proposing c) Q"
proof -
  define c1 where "c1 = (if c_first_round c
      then c\<lparr>c_prev_round_time := ledger_idle_interval (parms A),
             c_prev_close_time := (if cl_close_time ledger = 0 then t else cl_close_time ledger),
             c_first_round := False\<rparr>
      else c\<lparr>c_prev_close_time := cct_self (c_raw_close_times c)\<rparr>)
    \<lparr>c_recent_peer_positions := filter (\<lambda>(n, _). n \<notin> untrusted) (c_recent_peer_positions c)\<rparr>"
  have rec: "recent_ok (c1\<lparr>c_world := w\<rparr>)" for w
    using assms(2) by (auto simp: c1_def recent_ok_def engine_inv_def pending_ok_def distinct_map_filter)
  obtain found w where acq: "acquire_ledger A l (c_world c) = (found, w)" by fastforce
  have w: "c_world c1 = c_world c" by (simp add: c1_def)
  have step: "sat (start_round_internal A te t l lg m (c1\<lparr>c_world := w\<rparr>)) Q"
    if "cl_parent_close_time lg \<noteq> u32_max" "m \<noteq> WrongLedger \<Longrightarrow> cl_id lg = l" for lg m w
    by (rule start_round_internal_inv [OF assms(1) rec te that])
  let ?m = "if proposing then Proposing else Observing"
  have eq: "start_round A te t l ledger untrusted proposing c =
      (if cl_id ledger \<noteq> l
       then (case ask (acquire_ledger A l) c1 of (found, c) \<Rightarrow>
             (case found of
                Some new_ledger \<Rightarrow> start_round_internal A te t l new_ledger ?m c
              | None \<Rightarrow> start_round_internal A te t l ledger WrongLedger c))
       else start_round_internal A te t l ledger ?m c1)"
    by (simp add: start_round_def Let_def c1_def)
  show ?thesis
  proof (cases "cl_id ledger = l")
    case True
    then show ?thesis
      using step [of ledger ?m "c_world c1"] assms(3) by (simp add: eq)
  next
    case False
    show ?thesis
    proof (cases found)
      case None
      with False acq w step [of ledger WrongLedger w] assms(3) show ?thesis
        by (simp add: eq ask_def)
    next
      case (Some lg)
      then have "cl_id lg = l" "cl_parent_close_time lg \<noteq> u32_max"
        using adaptor_lawsD(4) [OF assms(1)] acq by auto
      with Some False acq w step [of lg ?m w] show ?thesis
        by (simp add: eq ask_def)
    qed
  qed
qed

end
