(* ===== verification/Consensus_Establish.thy ===== *)
theory Consensus_Establish
  imports Consensus_Invariants
begin

text \<open>
  The establish phase keeps the invariant of the engine and does not panic: updating our position,
  voting on the close time, checking for consensus and accepting.
\<close>

section \<open>Voting on disputes\<close>

text \<open>The transaction set that results from the votes so far.\<close>

abbreviation working_set :: "'s \<Rightarrow> 's option \<Rightarrow> 's" where
  "working_set txns m \<equiv> (case m of Some s \<Rightarrow> s | None \<Rightarrow> txns)"

lemma dispute_ok_cong:
  "ts_exists A txns x = ts_exists A txns' x \<Longrightarrow> dispute_ok A nodes txns x d \<longleftrightarrow> dispute_ok A nodes txns' x d"
  by (simp add: dispute_ok_def)

lemma update_vote_dispute_ok:
  assumes "tx_set_laws W A" and "update_vote t proposing (parms A) d = Done (changed, d')"
    and "dispute_ok A nodes s x d" and "W s"
  defines "s' \<equiv> (if changed then if dt_our_vote d' then ts_insert A (dt_tx d') s else ts_erase A x s else s)"
  shows "dispute_ok A nodes s' x d'" and "W s'" and "y \<noteq> x \<Longrightarrow> ts_exists A s' y = ts_exists A s y"
proof -
  note fr = update_vote_frame [OF assms(2)]
  have d: "tally_ok d'" "dt_tx_id d' = x" "tx_id A (dt_tx d') = x" "keys (dt_votes d') \<subseteq> nodes"
    using assms(3) fr tally_update_vote [OF assms(2)] by (simp_all add: dispute_ok_def)
  have ex: "ts_exists A s' y = (if changed \<and> y = x then dt_our_vote d' else ts_exists A s y)" for y
    using tx_set_lawsD(3,4) [OF assms(1,4)] d(3) by (auto simp: s'_def)
  have "dt_our_vote d' = ts_exists A s' x"
    using ex fr(6) assms(3) by (auto simp: dispute_ok_def)
  with d show "dispute_ok A nodes s' x d'" by (simp add: dispute_ok_def)
  show "W s'"
    using tx_set_lawsD(7,8) [OF assms(1,4)] assms(4) by (simp add: s'_def)
  show "y \<noteq> x \<Longrightarrow> ts_exists A s' y = ts_exists A s y"
    using ex by simp
qed

lemma vote_disputes_ok:
  assumes "tx_set_laws W A" and "parms_ok (parms A)" and "W (working_set txns m)" and "unique_keys ds"
    and "\<And>x d. (x, d) \<in> set ds \<Longrightarrow> dispute_ok A nodes (working_set txns m) x d"
  shows "\<exists>ds' m'. vote_disputes A t proposing txns ds m = Done (ds', m') \<and> W (working_set txns m') \<and>
    (\<forall>y. y \<notin> keys ds \<longrightarrow> ts_exists A (working_set txns m') y = ts_exists A (working_set txns m) y) \<and>
    list_all2 (\<lambda>(x, d) (x', d'). x' = x \<and> dt_votes d' = dt_votes d \<and> dispute_ok A nodes (working_set txns m') x d') ds ds'"
  using assms(3-5)
proof (induction ds arbitrary: m)
  case Nil
  then show ?case by simp
next
  case (Cons xd ds)
  obtain x d where xd: "xd = (x, d)" by (cases xd)
  let ?s = "working_set txns m"
  have d: "dispute_ok A nodes ?s x d"
    using Cons.prems(3) xd by simp
  then have "tally_ok d" by (simp add: dispute_ok_def)
  then obtain changed d' where u: "update_vote t proposing (parms A) d = Done (changed, d')"
    using update_vote_returns [of d "parms A" t proposing] assms(2) by (auto simp: parms_ok_def)
  define m1 where "m1 = (if changed then Some (if dt_our_vote d' then ts_insert A (dt_tx d') ?s else ts_erase A x ?s) else m)"
  have ws: "working_set txns m1 = (if changed then if dt_our_vote d' then ts_insert A (dt_tx d') ?s else ts_erase A x ?s else ?s)"
    by (simp add: m1_def)
  note st = update_vote_dispute_ok [OF assms(1) u d Cons.prems(1), folded ws]
  have nx: "x \<notin> keys ds" "unique_keys ds"
    using Cons.prems(2) xd by simp_all
  have rest: "dispute_ok A nodes (working_set txns m1) y e" if "(y, e) \<in> set ds" for y e
  proof -
    have "y \<noteq> x" using that nx by force
    then show ?thesis
      using Cons.prems(3) [of y e] that dispute_ok_cong [OF st(3)] by simp
  qed
  from Cons.IH [OF st(2) nx(2) rest] obtain ds' m' where IH:
    "vote_disputes A t proposing txns ds m1 = Done (ds', m')" "W (working_set txns m')"
    "\<And>y. y \<notin> keys ds \<Longrightarrow> ts_exists A (working_set txns m') y = ts_exists A (working_set txns m1) y"
    "list_all2 (\<lambda>(x, d) (x', d'). x' = x \<and> dt_votes d' = dt_votes d \<and> dispute_ok A nodes (working_set txns m') x d') ds ds'"
    by blast
  have "vote_disputes A t proposing txns (xd # ds) m = Done ((x, d') # ds', m')"
    using IH(1) by (simp add: xd u Let_def m1_def cong: if_cong)
  moreover have "dispute_ok A nodes (working_set txns m') x d'"
    using st(1) dispute_ok_cong [OF IH(3) [OF nx(1)]] by simp
  ultimately show ?case
    using IH(2-4) st(3) xd update_vote_frame(3) [OF u] by auto
qed

lemma list_all2_mem2: "list_all2 P xs ys \<Longrightarrow> y \<in> set ys \<Longrightarrow> \<exists>x \<in> set xs. P x y"
  by (induction rule: list_all2_induct) auto

text \<open>The result after the votes, with the new set and any position that carries its id.\<close>

lemma result_ok_voted:
  assumes "result_ok W A acq peers {} {} {} r" and "W s"
    and "\<And>y. y \<notin> keys (cr_disputes r) \<Longrightarrow> ts_exists A s y = ts_exists A (cr_txns r) y"
    and "list_all2 (\<lambda>(x, d) (x', d'). x' = x \<and> dt_votes d' = dt_votes d \<and> dispute_ok A (keys peers) s x d')
           (cr_disputes r) ds"
    and "cp_position p = ts_id A s"
  shows "result_ok W A acq peers {} {} {} (r\<lparr>cr_disputes := ds, cr_txns := s, cr_position := p\<rparr>)"
proof -
  have ks: "map fst ds = map fst (cr_disputes r)"
    using assms(4) by (induction rule: list_all2_induct) auto
  then have keys: "keys ds = keys (cr_disputes r)"
    by (metis list.set_map)
  have "dispute_ok A (keys peers) s x d' \<and> votes_current A acq peers {} x d'" if mem: "(x, d') \<in> set ds" for x d'
  proof -
    from list_all2_mem2 [OF assms(4) mem] obtain d where "(x, d) \<in> set (cr_disputes r)"
        "dt_votes d' = dt_votes d" "dispute_ok A (keys peers) s x d'"
      by auto
    then show ?thesis
      using assms(1) by (auto simp: result_ok_def votes_current_def)
  qed
  moreover have "differences_disputed A acq s (cr_compares r) {} (keys (cr_disputes r))"
    using assms(1,3) unfolding result_ok_def differences_disputed_def by metis
  ultimately show ?thesis
    using assms(1,2,5) ks keys by (simp add: result_ok_def)
qed

section \<open>Updating our position\<close>

definition round_frame :: "('e, 'n, 'l, 'p, 's, 't, 'x) consensus \<Rightarrow>
    ('e, 'n, 'l, 'p, 's, 't, 'x) consensus \<Rightarrow> bool" where
  "round_frame c c' \<longleftrightarrow> c_phase c' = c_phase c \<and> c_mode c' = c_mode c \<and>
     c_prev_ledger_id c' = c_prev_ledger_id c \<and> c_previous_ledger c' = c_previous_ledger c \<and>
     map_option cr_round_time (c_result c') = map_option cr_round_time (c_result c)"

lemma round_frame_refl [simp]: "round_frame c c"
  by (simp add: round_frame_def)

lemma round_frame_trans: "round_frame a b \<Longrightarrow> round_frame b c \<Longrightarrow> round_frame a c"
  by (simp add: round_frame_def)

lemma peer_round_frame: "peer_frame c c' \<Longrightarrow> round_frame c c'"
  by (cases "c_result c"; cases "c_result c'") (auto simp: peer_frame_def round_frame_def result_frameD)

lemma round_frame_None: "round_frame c c' \<Longrightarrow> c_result c' = None \<longleftrightarrow> c_result c = None"
  by (cases "c_result c"; cases "c_result c'") (auto simp: round_frame_def)

lemma engine_inv_round_frame:
  "engine_inv W A c \<Longrightarrow> round_frame c c' \<Longrightarrow> pending_ok W A {} c' \<Longrightarrow> engine_inv W A c'"
  using round_frame_None [of c c'] by (simp add: engine_inv_def round_frame_def)

lemma drop_peers_ok:
  assumes "pending_ok W A {} c"
  shows "pending_ok W A {} (fold drop_peer ns c)" and "peer_frame c (fold drop_peer ns c)"
  using assms
proof (induction ns arbitrary: c)
  case (Cons n ns)
  {
    case 1
    then show ?case using Cons.IH(1) [OF drop_peer_ok(1)] by simp
  next
    case 2
    then show ?case
      using peer_frame_trans [OF drop_peer_ok(2) Cons.IH(2) [OF drop_peer_ok(1)]] by simp
  }
qed simp_all

lemma vote_close_time_ok:
  assumes "parms_ok (parms A)" and "c_result c = Some r"
  shows "\<exists>t b st. vote_close_time A votes c =
    Done (t, c\<lparr>c_have_close_time_consensus := b, c_close_time_avalanche_state := st\<rparr>)"
proof (cases "c_curr_peer_positions c = []")
  case True
  then have "vote_close_time A votes c = Done (round_close_time_for A (cp_close_time (cr_position r))
      (c\<lparr>c_have_close_time_consensus := True\<rparr>), c\<lparr>c_have_close_time_consensus := True,
      c_close_time_avalanche_state := c_close_time_avalanche_state c\<rparr>)"
    using assms(2) by (simp add: vote_close_time_def Let_def)
  then show ?thesis by blast
next
  case False
  obtain pct st where gw: "get_needed_weight (parms A) (c_close_time_avalanche_state c)
      (as_i32 (c_converge_percent c)) 0 0 = Done (pct, st)"
    using get_needed_weight_returns assms(1) unfolding parms_ok_def by blast
  have pn: "\<exists>k. participants_needed n p = Done k" for n p
    by (simp add: participants_needed_def rust_div_def)
  let ?c = "case st of Some st \<Rightarrow> c\<lparr>c_have_close_time_consensus := False, c_close_time_avalanche_state := st\<rparr>
    | None \<Rightarrow> c\<lparr>c_have_close_time_consensus := False\<rparr>"
  let ?n = "as_i32 (int (length (c_curr_peer_positions c)))"
  obtain vs n where vn: "(if c_mode c = Proposing
      then bind_outcome (expect (c_result ?c)) (\<lambda>r.
        Done (bump (round_close_time_for A (cp_close_time (cr_position r)) ?c) votes, ?n + 1))
      else Done (votes, ?n)) = Done (vs, n)"
    using assms(2) by (cases "c_mode c = Proposing"; cases st) auto
  obtain k1 k2 where k: "participants_needed n (as_i32 (int pct)) = Done k1"
    "participants_needed n (as_i32 (int (av_ct_consensus_pct (parms A)))) = Done k2"
    using pn by metis
  obtain t v b where pick: "pick_close_time k1 k2 vs = (t, v, b)" by (metis prod_cases3)
  have "vote_close_time A votes c = Done (t, ?c\<lparr>c_have_close_time_consensus := b\<rparr>)"
    using False vn k pick gw assms(2)
    by (cases st; cases "c_mode c = Proposing") (auto simp: vote_close_time_def Let_def)
  then show ?thesis
    by (intro exI [of _ t] exI [of _ b] exI [of _ "case st of Some a \<Rightarrow> a | None \<Rightarrow> c_close_time_avalanche_state c"])
       (cases st; simp)
qed

lemma adopt_position_ok:
  assumes "tx_set_laws W A" and "acquired_ok W A (c_acquired c)" and "peers_ok c" and "recent_ok c"
    and "c_result c = Some r" and "W s"
    and "result_ok W A (c_acquired c) (c_curr_peer_positions c) {} {} {}
      (r\<lparr>cr_txns := s, cr_position := change_position (ts_id A s) t (c_now c) (cr_position r)\<rparr>)"
  shows "sat (adopt_position A s t c) (\<lambda>c'. round_frame c c' \<and> pending_ok W A {} c')"
proof -
  let ?id = "ts_id A s"
  let ?r = "r\<lparr>cr_txns := s, cr_position := change_position ?id t (c_now c) (cr_position r)\<rparr>"
  let ?c1 = "c\<lparr>c_result := Some ?r\<rparr>"
  let ?P = "\<lambda>c'. round_frame c c' \<and> pending_ok W A {} c'"
  let ?ns = "map fst (filter (\<lambda>(_, p). cp_position p = ?id) (c_curr_peer_positions c))"
  define c2 where "c2 = (if \<not> is_bow_out (cr_position ?r)
      then tell (share_tx_set A s) (?c1\<lparr>c_acquired := AList.update ?id s (c_acquired c)\<rparr>)
      else ?c1\<lparr>c_acquired := AList.update ?id s (c_acquired c)\<rparr>)"
  have c2: "c_result c2 = Some ?r" "c_acquired c2 = AList.update ?id s (c_acquired c)"
    "c_curr_peer_positions c2 = c_curr_peer_positions c" "peers_ok c2" "recent_ok c2" "round_frame c c2"
    using assms(3-5) by (simp_all add: c2_def tell_def peers_ok_def recent_ok_def round_frame_def)
  have uk: "unique_keys (c_curr_peer_positions c)"
    using assms(3) by (simp add: peers_ok_def)
  have main: "sat (if ?id \<notin> keys (c_acquired c) then fold_outcome (\<lambda>n. update_disputes A n s) ?ns c2 else Done ?c1) ?P"
  proof (cases "?id \<in> keys (c_acquired c)")
    case True
    then show ?thesis
      using assms(2-5,7) by (simp add: pending_ok_def peers_ok_def recent_ok_def round_frame_def)
  next
    case False
    have ns: "set ?ns = {n. \<exists>p. (n, p) \<in> set (c_curr_peer_positions c) \<and> cp_position p = ?id}" by force
    have ro: "result_ok W A (c_acquired c2) (c_curr_peer_positions c2) ({} \<union> set ?ns) ({} \<union> set ?ns) {} ?r"
      unfolding c2(2,3) ns by (rule result_ok_acquire [OF assms(7) False])
    have acq: "acquired_ok W A (c_acquired c2)"
      using acquired_ok_update [OF assms(2,6)] c2(2) by simp
    have "sat (fold_outcome (\<lambda>n. update_disputes A n s) ?ns c2) (\<lambda>c'. dispute_frame c2 c' \<and>
      (\<exists>r'. c_result c' = Some r' \<and> result_frame ?r r' \<and>
          result_ok W A (c_acquired c2) (c_curr_peer_positions c2) {} {} {} r'))"
      by (rule update_all_ok [OF assms(1) acq _ c2(1) _ ro]) (use c2 uk in auto)
    moreover have "pending_ok W A (set ?ns) c2"
      using acq c2 ro by (simp add: pending_ok_def)
    note post = dispute_frame_pending_ok [OF this]
    have "?P c'" if "dispute_frame c2 c'" "c_result c' = Some r'" "result_frame ?r r'"
        "result_ok W A (c_acquired c2) (c_curr_peer_positions c2) {} {} {} r'" for c' r'
      using post [OF that(1,2,4)] round_frame_trans [OF c2(6) peer_round_frame] that(3) c2(1)
        dispute_peer_frame [OF that(1)] by (simp add: that(2))
    ultimately show ?thesis
      using False by (auto elim!: sat_mono)
  qed
  have final: "sat (bind_outcome (expect (c_result c')) (\<lambda>r.
      Done (if \<not> is_bow_out (cr_position r) \<and> c_mode c' = Proposing
            then tell (propose A (cr_position r)) c' else c'))) ?P" if P: "?P c'" for c'
  proof -
    obtain r' where "c_result c' = Some r'"
      using P round_frame_None [of c c'] assms(5) by (cases "c_result c'") auto
    with P show ?thesis by (simp add: round_frame_def tell_def)
  qed
  have "adopt_position A s t c = bind_outcome
      (if ?id \<notin> keys (c_acquired c) then fold_outcome (\<lambda>n. update_disputes A n s) ?ns c2 else Done ?c1)
      (\<lambda>c'. bind_outcome (expect (c_result c')) (\<lambda>r.
        Done (if \<not> is_bow_out (cr_position r) \<and> c_mode c' = Proposing
              then tell (propose A (cr_position r)) c' else c')))"
    using assms(5) by (simp add: adopt_position_def Let_def c2_def tell_def)
  then show ?thesis
    using sat_mono [OF main final] by simp
qed

lemma update_our_positions_ok:
  assumes "adaptor_laws W A" and "pending_ok W A {} c" and "c_result c = Some r0"
  shows "sat (update_our_positions A c) (\<lambda>c'. round_frame c c' \<and> pending_ok W A {} c')"
proof -
  define cutoff where "cutoff = (\<lambda>d. case net_checked_sub (c_now c) (std_duration_to_time d) of Some t \<Rightarrow> t | None \<Rightarrow> 0)"
  define c1 where "c1 = fold drop_peer (map fst (filter (\<lambda>(_, pos). is_stale (cutoff (propose_freshness (parms A))) pos)
      (c_curr_peer_positions c))) c"
  have p1: "pending_ok W A {} c1" and f1: "round_frame c c1"
    unfolding c1_def by (rule drop_peers_ok [OF assms(2)], rule peer_round_frame, rule drop_peers_ok [OF assms(2)])
  obtain r where r: "c_result c1 = Some r"
    using round_frame_None [OF f1] assms(3) by (cases "c_result c1") auto
  let ?acq = "c_acquired c1" and ?peers = "c_curr_peer_positions c1"
  have ro: "result_ok W A ?acq ?peers {} {} {} r"
    using p1 r by (simp add: pending_ok_def)
  note laws = adaptor_lawsD(1,2) [OF assms(1)]
  obtain ds m where vd: "vote_disputes A (as_i32 (c_converge_percent c1)) (c_mode c1 = Proposing)
      (cr_txns r) (cr_disputes r) None = Done (ds, m)" and W: "W (working_set (cr_txns r) m)"
    and same: "\<And>y. y \<notin> keys (cr_disputes r) \<Longrightarrow>
      ts_exists A (working_set (cr_txns r) m) y = ts_exists A (cr_txns r) y"
    and ds: "list_all2 (\<lambda>(x, d) (x', d'). x' = x \<and> dt_votes d' = dt_votes d \<and>
      dispute_ok A (keys ?peers) (working_set (cr_txns r) m) x d') (cr_disputes r) ds"
    using vote_disputes_ok [OF laws, of "cr_txns r" None "cr_disputes r" "keys ?peers"
        "as_i32 (c_converge_percent c1)" "c_mode c1 = Proposing"] ro
    unfolding result_ok_def option.case by blast
  let ?r = "r\<lparr>cr_disputes := ds\<rparr>"
  obtain t b st where vc: "vote_close_time A (fold (\<lambda>(_, pos). bump (round_close_time_for A (cp_close_time pos) c1)) ?peers [])
      (c1\<lparr>c_result := Some ?r\<rparr>) = Done (t, c1\<lparr>c_result := Some ?r, c_have_close_time_consensus := b, c_close_time_avalanche_state := st\<rparr>)"
    using vote_close_time_ok [OF laws(2), of "c1\<lparr>c_result := Some ?r\<rparr>" ?r] by fastforce
  define c2 where "c2 = c1\<lparr>c_result := Some ?r, c_have_close_time_consensus := b, c_close_time_avalanche_state := st\<rparr>"
  define m' where "m' = (case m of Some s \<Rightarrow> m | None \<Rightarrow>
      if t \<noteq> round_close_time_for A (cp_close_time (cr_position r)) c2 \<or>
         is_stale (cutoff (propose_interval (parms A))) (cr_position r) then Some (cr_txns r) else None)"
  have eq: "update_our_positions A c = (case m' of Some s \<Rightarrow> adopt_position A s t c2 | None \<Rightarrow> Done c2)"
    using r vd vc by (cases m) (simp_all add: update_our_positions_def Let_def cutoff_def [symmetric] c1_def [symmetric]
        c2_def m'_def)
  have c2: "acquired_ok W A (c_acquired c2)" "peers_ok c2" "recent_ok c2" "round_frame c c2" "c_result c2 = Some ?r"
    "c_acquired c2 = ?acq" "c_curr_peer_positions c2 = ?peers"
    using p1 f1 r by (simp_all add: c2_def pending_ok_def peers_ok_def recent_ok_def round_frame_def)
  have ok: "result_ok W A ?acq ?peers {} {} {} (r\<lparr>cr_disputes := ds, cr_txns := working_set (cr_txns r) m, cr_position := p\<rparr>)"
    if "cp_position p = ts_id A (working_set (cr_txns r) m)" for p
    by (rule result_ok_voted [OF ro W same ds that])
  show ?thesis
  proof (cases m')
    case None
    then have "m = None" by (cases m) (auto simp: m'_def)
    then have "result_ok W A ?acq ?peers {} {} {} ?r"
      using ok [of "cr_position r"] ro by (simp add: result_ok_def)
    then show ?thesis using None eq c2 by (simp add: pending_ok_def)
  next
    case (Some s)
    then have s: "s = working_set (cr_txns r) m"
      by (cases m) (auto simp: m'_def split: if_splits)
    have "sat (adopt_position A s t c2) (\<lambda>c'. round_frame c2 c' \<and> pending_ok W A {} c')"
      using ok [of "change_position (ts_id A s) t (c_now c2) (cr_position r)"] W s c2
      by (intro adopt_position_ok [OF laws(1) c2(1-3,5)]) simp_all
    with Some eq show ?thesis
      using round_frame_trans [OF c2(4)] by (auto elim!: sat_mono)
  qed
qed

section \<open>Consensus\<close>

lemma should_pause_ok:
  assumes "c_result c = Some r"
  shows "\<exists>b w. should_pause A c = Done (b, c\<lparr>c_world := w\<rparr>)"
proof -
  obtain v w1 where 1: "valid_ledger_seq A (c_world c) = (v, w1)" by fastforce
  obtain q ks w2 where 2: "quorum_keys A w1 = ((q, ks), w2)" by (metis surj_pair)
  obtain l ks' w3 where 3: "laggards A (cl_seq (c_previous_ledger c)) ks w2 = ((l, ks'), w3)" by (metis surj_pair)
  obtain iv w4 where 4: "validator A w3 = (iv, w4)" by fastforce
  obtain hv w5 where 5: "have_validated A w4 = (hv, w5)" by fastforce
  show ?thesis
    using assms by (simp add: should_pause_def Let_def ask_def 1 2 3 4 5) blast
qed

text \<open>What holds when the engine believes to have consensus.\<close>

definition consensus_reached :: "('e, 'n, 'l, 'p, 's, 't, 'x) adaptor \<Rightarrow>
    ('e, 'n, 'l, 'p, 's, 't, 'x) consensus \<Rightarrow> bool" where
  "consensus_reached A c \<longleftrightarrow> (\<exists>r. c_result c = Some r \<and> cr_state r \<noteq> No \<and>
     (cr_state r = Expired \<longrightarrow> c_mode c \<noteq> Proposing \<and>
        length (avalanche_cutoffs (parms A)) * av_min_rounds (parms A) \<le> c_establish_counter c))"

lemma leave_consensus_frame [simp]:
  "c_have_close_time_consensus (leave_consensus A c) = c_have_close_time_consensus c"
  "c_establish_counter (leave_consensus A c) = c_establish_counter c"
  "c_curr_peer_positions (leave_consensus A c) = c_curr_peer_positions c"
  "map_option cr_round_time (c_result (leave_consensus A c)) = map_option cr_round_time (c_result c)"
  "map_option cr_state (c_result (leave_consensus A c)) = map_option cr_state (c_result c)"
  by (auto simp: leave_consensus_def Let_def tell_def split: option.splits)

lemma check_consensus_returns:
  "\<not> ledger_abandon_consensus p < ledger_max_consensus p \<Longrightarrow>
     \<exists>state. check_consensus prev cur agree fin prev_time time stalled p proposing = Done state"
  by (simp add: check_consensus_def Let_def)

lemma have_consensus_ok:
  assumes "adaptor_laws W A" and "engine_inv W A c" and "c_phase c = Establish"
  shows "sat (have_consensus A c) (\<lambda>(b, c'). engine_inv W A c' \<and> c_phase c' = Establish \<and>
    c_have_close_time_consensus c' = c_have_close_time_consensus c \<and>
    map_option cr_round_time (c_result c') = map_option cr_round_time (c_result c) \<and>
    (b \<longrightarrow> consensus_reached A c'))"
proof -
  obtain r where r: "c_result c = Some r"
    using assms(2,3) by (auto simp: engine_inv_def)
  have pk: "total_cutoffs (parms A)" "pcts_fit (parms A)" "\<not> ledger_abandon_consensus (parms A) < ledger_max_consensus (parms A)"
    using adaptor_lawsD(2) [OF assms(1)] by (simp_all add: parms_ok_def)
  obtain fin w where fin: "proposers_finished A (c_previous_ledger c) (c_prev_ledger_id c) (c_world c) = (fin, w)"
    by fastforce
  have tallies: "tally_ok (snd xd)" if "xd \<in> set (cr_disputes r)" for xd
    using that assms(2) r unfolding engine_inv_def pending_ok_def result_ok_def dispute_ok_def by (metis prod.collapse)
  have "\<exists>b. (case xd of (_, d) \<Rightarrow> dispute_stalled (parms A) (c_mode c = Proposing) (c_peer_unchanged_counter c) d) = Done b"
    if "xd \<in> set (cr_disputes r)" for xd
    using dispute_stalled_returns [OF tallies pk(1,2)] that by (simp add: case_prod_beta)
  then have "\<exists>b. all_outcome (\<lambda>(_, d). dispute_stalled (parms A) (c_mode c = Proposing) (c_peer_unchanged_counter c) d)
      (cr_disputes r) = Done b"
    by (rule all_outcome_returns)
  then obtain stalled where st: "(if c_have_close_time_consensus c \<and> cr_disputes r \<noteq> []
      then all_outcome (\<lambda>(_, d). dispute_stalled (parms A) (c_mode c = Proposing) (c_peer_unchanged_counter c) d)
             (cr_disputes r)
      else Done False) = Done stalled"
    by (cases "c_have_close_time_consensus c \<and> cr_disputes r \<noteq> []") auto
  define agree where "agree = length (filter (\<lambda>p. p = cp_position (cr_position r))
      (map (\<lambda>(_, p). cp_position p) (c_curr_peer_positions c)))"
  define disagree where "disagree = length (filter (\<lambda>p. p \<noteq> cp_position (cr_position r))
      (map (\<lambda>(_, p). cp_position p) (c_curr_peer_positions c)))"
  obtain state where state: "check_consensus (c_prev_proposers c) (agree + disagree) agree fin (c_prev_round_time c)
      (timer_read (cr_round_time r)) stalled (parms A) (c_mode c = Proposing) = Done state"
    using check_consensus_returns [OF pk(3)] by blast
  define c' where "c' = c\<lparr>c_world := w, c_result := Some (r\<lparr>cr_state := state\<rparr>)\<rparr>"
  have inv: "engine_inv W A c'" "c_phase c' = Establish"
    using assms(2,3) r by (simp_all add: c'_def engine_inv_def pending_ok_def peers_ok_def recent_ok_def)
  let ?enough = "\<lambda>c. length (avalanche_cutoffs (parms A)) * av_min_rounds (parms A) \<le> c_establish_counter c"
  have "have_consensus A c = bind_outcome (if c_have_close_time_consensus c \<and> cr_disputes r \<noteq> []
      then all_outcome (\<lambda>(_, d). dispute_stalled (parms A) (c_mode c = Proposing) (c_peer_unchanged_counter c) d)
             (cr_disputes r)
      else Done False) (\<lambda>stalled. bind_outcome (check_consensus (c_prev_proposers c) (agree + disagree) agree fin
        (c_prev_round_time c) (timer_read (cr_round_time r)) stalled (parms A) (c_mode c = Proposing)) (\<lambda>state.
      let c' = c\<lparr>c_world := w, c_result := Some (r\<lparr>cr_state := state\<rparr>)\<rparr>
      in if state = No then Done (False, c')
         else if state = Expired then if ?enough c' then Done (True, leave_consensus A c') else Done (False, c')
         else Done (True, c')))"
    unfolding have_consensus_def r expect.simps bind_outcome.simps ask_def fin agree_def disagree_def
    by (simp add: Let_def not_le [symmetric] cong: if_cong)
  then have eq: "have_consensus A c =
      (if state = No then Done (False, c')
       else if state = Expired then if ?enough c' then Done (True, leave_consensus A c') else Done (False, c')
       else Done (True, c'))"
    unfolding st bind_outcome.simps state c'_def Let_def .
  have left: "engine_inv W A (leave_consensus A c')" "c_phase (leave_consensus A c') = Establish"
    "c_mode (leave_consensus A c') \<noteq> Proposing"
    using leave_consensus_inv [OF inv(1)] leave_consensus_ok(2,6) [of W A "{}" c'] inv by (auto simp: engine_inv_def)
  have res: "map_option cr_state (c_result c') = Some state" "map_option cr_round_time (c_result c') = Some (cr_round_time r)"
    by (simp_all add: c'_def)
  have "consensus_reached A (leave_consensus A c')"
    if "state = Expired" "?enough c'"
  proof -
    have "map_option cr_state (c_result (leave_consensus A c')) = Some state"
      using res(1) by simp
    then obtain r' where "c_result (leave_consensus A c') = Some r'" "cr_state r' = state"
      by (cases "c_result (leave_consensus A c')") auto
    with that left(3) show ?thesis by (simp add: consensus_reached_def)
  qed
  moreover have "consensus_reached A c'" if "state \<noteq> No" "state \<noteq> Expired"
    using that by (simp add: consensus_reached_def c'_def)
  moreover have "c_have_close_time_consensus c' = c_have_close_time_consensus c"
    by (simp add: c'_def)
  ultimately show ?thesis
    using inv left(1,2) res(2) by (simp add: eq r del: map_option_eq_Some)
qed

section \<open>Accepting\<close>

text \<open>What holds of a round that was accepted.\<close>

definition accepted_ok :: "('e, 'n, 'l, 'p, 's, 't, 'x) adaptor \<Rightarrow>
    ('e, 'n, 'l, 'p, 's, 't, 'x) consensus \<Rightarrow> bool" where
  "accepted_ok A c \<longleftrightarrow> c_have_close_time_consensus c \<and> consensus_reached A c \<and>
     (\<exists>r. c_result c = Some r \<and> ledger_min_consensus (parms A) \<le> timer_read (cr_round_time r) \<and>
          c_prev_round_time c = timer_read (cr_round_time r) \<and>
          c_prev_proposers c = length (c_curr_peer_positions c))"

definition round_inv :: "('s \<Rightarrow> bool) \<Rightarrow> ('e, 'n, 'l, 'p, 's, 't, 'x) adaptor \<Rightarrow>
    ('e, 'n, 'l, 'p, 's, 't, 'x) consensus \<Rightarrow> bool" where
  "round_inv W A c \<longleftrightarrow> engine_inv W A c \<and> (c_phase c = Accepted \<longrightarrow> accepted_ok A c)"

lemma round_inv_open: "engine_inv W A c \<Longrightarrow> c_phase c \<noteq> Accepted \<Longrightarrow> round_inv W A c"
  by (simp add: round_inv_def)

lemma accept_ok:
  assumes "engine_inv W A c" and "c_phase c = Establish" and "consensus_reached A c"
    and "c_have_close_time_consensus c" and "map_option cr_round_time (c_result c) = Some rt"
    and "ledger_min_consensus (parms A) \<le> timer_read rt"
  shows "sat (let positions = length (c_curr_peer_positions c);
        c = (tell (update_operating_mode A positions) c)\<lparr>c_prev_proposers := positions\<rparr>
      in bind_outcome (expect (c_result c)) (\<lambda>r.
        let c = c\<lparr>c_prev_round_time := timer_read (cr_round_time r), c_phase := Accepted\<rparr>
        in Done (tell (on_accept A r (c_previous_ledger c) (c_close_resolution c) (c_raw_close_times c) (c_mode c)) c)))
    (round_inv W A)"
proof -
  obtain r where "c_result c = Some r" "cr_round_time r = rt"
    using assms(5) by (cases "c_result c") auto
  with assms show ?thesis
    by (auto simp: Let_def tell_def round_inv_def engine_inv_def accepted_ok_def consensus_reached_def
        pending_ok_def peers_ok_def recent_ok_def)
qed

lemma phase_establish_inv:
  assumes "adaptor_laws W A" and "engine_inv W A c" and "c_phase c = Establish"
  shows "sat (phase_establish A c) (round_inv W A)"
proof -
  obtain r0 where r0: "c_result c = Some r0"
    using assms(2,3) by (auto simp: engine_inv_def)
  obtain t w where clk: "clock_now A (c_world c) = (t, w)" by fastforce
  define r where "r = r0\<lparr>cr_round_time := tick_to t (cr_round_time r0), cr_proposers := length (c_curr_peer_positions c)\<rparr>"
  define c1 where "c1 = c\<lparr>c_peer_unchanged_counter := c_peer_unchanged_counter c + 1,
      c_establish_counter := c_establish_counter c + 1, c_world := w, c_result := Some r,
      c_converge_percent := int (timer_read (cr_round_time r) div 1000000 * 100
        div max (max (c_prev_round_time c) (av_min_consensus_time (parms A)) div 1000000) 1)\<rparr>"
  have inv1: "engine_inv W A c1" "c_phase c1 = Establish" "c_result c1 = Some r" "pending_ok W A {} c1"
    using assms(2,3) r0 by (simp_all add: c1_def r_def engine_inv_def pending_ok_def peers_ok_def recent_ok_def)
  let ?P = "\<lambda>c. engine_inv W A c \<and> c_phase c = Establish \<and> map_option cr_round_time (c_result c) = Some (cr_round_time r)"
  have up: "sat (update_our_positions A c1) ?P"
    by (rule sat_mono [OF update_our_positions_ok [OF assms(1) inv1(4,3)]])
       (use engine_inv_round_frame [OF inv1(1)] inv1 in \<open>auto simp: round_frame_def\<close>)
  have rest: "sat (bind_outcome (should_pause A c2) (\<lambda>(pause, c).
      if pause then Done c
      else bind_outcome (have_consensus A c) (\<lambda>(have, c).
        if \<not> have then Done c
        else if \<not> c_have_close_time_consensus c then Done c
        else let positions = length (c_curr_peer_positions c);
                 c = (tell (update_operating_mode A positions) c)\<lparr>c_prev_proposers := positions\<rparr>
          in bind_outcome (expect (c_result c)) (\<lambda>r.
            let c = c\<lparr>c_prev_round_time := timer_read (cr_round_time r), c_phase := Accepted\<rparr>
            in Done (tell (on_accept A r (c_previous_ledger c) (c_close_resolution c)
                             (c_raw_close_times c) (c_mode c)) c))))) (round_inv W A)"
    if P: "?P c2" and min: "ledger_min_consensus (parms A) \<le> timer_read (cr_round_time r)" for c2
  proof -
    obtain r2 where "c_result c2 = Some r2" using P by auto
    then obtain b w2 where sp: "should_pause A c2 = Done (b, c2\<lparr>c_world := w2\<rparr>)"
      using should_pause_ok by blast
    have P2: "?P (c2\<lparr>c_world := w2\<rparr>)"
      using P by (simp add: engine_inv_def)
    then have "sat (have_consensus A (c2\<lparr>c_world := w2\<rparr>)) (\<lambda>(b, c'). engine_inv W A c' \<and> c_phase c' = Establish \<and>
        map_option cr_round_time (c_result c') = Some (cr_round_time r) \<and> (b \<longrightarrow> consensus_reached A c'))"
      by (intro sat_mono [OF have_consensus_ok [OF assms(1)]]) auto
    then show ?thesis
      using P2 accept_ok [OF _ _ _ _ _ min]
      by (auto simp: sp round_inv_def elim!: sat_mono simp del: map_option_eq_Some)
  qed
  have "phase_establish A c = (if timer_read (cr_round_time r) < ledger_min_consensus (parms A) then Done c1
      else bind_outcome (update_our_positions A c1) (\<lambda>c2. bind_outcome (should_pause A c2) (\<lambda>(pause, c).
      if pause then Done c
      else bind_outcome (have_consensus A c) (\<lambda>(have, c).
        if \<not> have then Done c
        else if \<not> c_have_close_time_consensus c then Done c
        else let positions = length (c_curr_peer_positions c);
                 c = (tell (update_operating_mode A positions) c)\<lparr>c_prev_proposers := positions\<rparr>
          in bind_outcome (expect (c_result c)) (\<lambda>r.
            let c = c\<lparr>c_prev_round_time := timer_read (cr_round_time r), c_phase := Accepted\<rparr>
            in Done (tell (on_accept A r (c_previous_ledger c) (c_close_resolution c)
                             (c_raw_close_times c) (c_mode c)) c))))))"
    unfolding phase_establish_def using r0
    by (simp add: ask_def clk r_def c1_def Let_def cong: if_cong)
  then show ?thesis
    using inv1(1,2) sat_mono [OF up rest] by (simp add: round_inv_def)
qed

section \<open>The timer\<close>

lemma phase_step_inv:
  assumes "adaptor_laws W A" and "round_inv W A c"
  shows "sat (case c_phase c of PhaseOpen \<Rightarrow> phase_open A c | Establish \<Rightarrow> phase_establish A c | Accepted \<Rightarrow> Done c)
    (round_inv W A)"
proof (cases "c_phase c")
  case PhaseOpen
  then have "sat (phase_open A c) (\<lambda>c'. engine_inv W A c' \<and> c_phase c' \<noteq> Accepted)"
    using phase_open_inv [OF assms(1)] assms(2) by (simp add: round_inv_def)
  with PhaseOpen show ?thesis
    by (auto simp: round_inv_def elim!: sat_mono)
next
  case Establish
  with phase_establish_inv [OF assms(1)] assms(2) show ?thesis by (simp add: round_inv_def)
next
  case Accepted
  with assms(2) show ?thesis by simp
qed

lemma timer_entry_inv:
  assumes "adaptor_laws W A" and "round_inv W A c"
  shows "sat (timer_entry k A t c) (round_inv W A)"
  using assms(2)
proof (induction k arbitrary: t c)
  case 0
  then show ?case by simp
next
  case (Suc k)
  show ?case
  proof (cases "c_phase c = Accepted")
    case True
    then show ?thesis using Suc.prems by simp
  next
    case False
    have te: "timer_ok W A (timer_entry k A) (round_inv W A)"
      unfolding timer_ok_def using Suc.IH round_inv_open by blast
    have "sat (check_ledger A (timer_entry k A) (c\<lparr>c_now := t\<rparr>)) (round_inv W A)"
      using False Suc.prems by (intro check_ledger_inv [OF assms(1) _ _ te]) (simp_all add: round_inv_def engine_inv_def)
    then show ?thesis
      using False phase_step_inv [OF assms(1)] by (auto elim: sat_mono)
  qed
qed

end
