(* ===== verification/Consensus_Rounds.thy ===== *)
theory Consensus_Rounds
  imports Consensus_Establish "HOL-Library.Code_Target_Nat"
begin

text \<open>
  Whole runs of the consensus engine: what the application can do to it, the states it can reach, the
  properties of these states, and that a timer call returns.
\<close>

section \<open>Runs\<close>

datatype ('n, 'l, 'p, 's) event =
    StartRound net_time 'l "'l cledger" "'n set" bool
  | PeerProposal net_time "('n, 'l, 'p) proposal"
  | TimerEntry net_time
  | GotTxSet net_time 's

text \<open>The public methods; \<open>k\<close> bounds the ledger switches within one call.\<close>

fun engine_step :: "nat \<Rightarrow> ('e, 'n, 'l, 'p, 's, 't, 'x) adaptor \<Rightarrow> ('n, 'l, 'p, 's) event \<Rightarrow>
    ('e, 'n, 'l, 'p, 's, 't, 'x) consensus \<Rightarrow> ('e, 'n, 'l, 'p, 's, 't, 'x) consensus outcome" where
  "engine_step k A (StartRound now l ledger untrusted proposing) c =
     start_round A (timer_entry k A) now l ledger untrusted proposing c"
| "engine_step k A (PeerProposal now p) c = bind_outcome (peer_proposal A now p c) (\<lambda>(relay, c). Done c)"
| "engine_step k A (TimerEntry now) c = timer_entry k A now c"
| "engine_step k A (GotTxSet now s) c = got_tx_set A now s c"

fun event_ok :: "('s \<Rightarrow> bool) \<Rightarrow> ('n, 'l, 'p, 's) event \<Rightarrow> bool" where
  "event_ok W (StartRound now l ledger untrusted proposing) \<longleftrightarrow> cl_parent_close_time ledger \<noteq> u32_max"
| "event_ok W (GotTxSet now s) \<longleftrightarrow> W s"
| "event_ok W (PeerProposal now p) \<longleftrightarrow> True"
| "event_ok W (TimerEntry now) \<longleftrightarrow> True"

definition engine_init :: "('s \<Rightarrow> bool) \<Rightarrow> ('e, 'n, 'l, 'p, 's, 't, 'x) adaptor \<Rightarrow>
    ('e, 'n, 'l, 'p, 's, 't, 'x) consensus \<Rightarrow> bool" where
  "engine_init W A c \<longleftrightarrow> adaptor_laws W A \<and> (\<exists>w l ledger. c = with_clock w l ledger)"

definition engine_next :: "('s \<Rightarrow> bool) \<Rightarrow> ('e, 'n, 'l, 'p, 's, 't, 'x) adaptor \<Rightarrow>
    ('e, 'n, 'l, 'p, 's, 't, 'x) consensus \<Rightarrow> ('e, 'n, 'l, 'p, 's, 't, 'x) consensus \<Rightarrow> bool" where
  "engine_next W A c c' \<longleftrightarrow> (\<exists>k ev. event_ok W ev \<and> engine_step k A ev c = Done c')"

abbreviation engine_reach :: "('s \<Rightarrow> bool) \<Rightarrow> ('e, 'n, 'l, 'p, 's, 't, 'x) adaptor \<Rightarrow>
    ('e, 'n, 'l, 'p, 's, 't, 'x) consensus \<Rightarrow> bool" where
  "engine_reach W A \<equiv> reach (engine_init W A) (engine_next W A)"

definition run_inv :: "('s \<Rightarrow> bool) \<Rightarrow> ('e, 'n, 'l, 'p, 's, 't, 'x) adaptor \<Rightarrow>
    ('e, 'n, 'l, 'p, 's, 't, 'x) consensus \<Rightarrow> bool" where
  "run_inv W A c \<longleftrightarrow> adaptor_laws W A \<and> engine_inv W A c \<and>
     (c_phase c = Accepted \<longrightarrow> c_result c = None \<or> accepted_ok A c)"

lemma round_run_inv: "adaptor_laws W A \<Longrightarrow> round_inv W A c \<Longrightarrow> run_inv W A c"
  by (simp add: run_inv_def round_inv_def)

lemma with_clock_inv: "adaptor_laws W A \<Longrightarrow> run_inv W A (with_clock w l ledger)"
  by (simp add: run_inv_def engine_inv_def with_clock_def pending_ok_def acquired_ok_def peers_ok_def recent_ok_def)

lemma peer_proposal_run_inv:
  assumes "run_inv W A c"
  shows "sat (peer_proposal A t p c) (\<lambda>(b, c'). run_inv W A c')"
proof (cases "c_phase c = Accepted")
  case True
  then obtain c' where c': "peer_proposal A t p c = Done (False, c')" "accepted_ok A c' \<longleftrightarrow> accepted_ok A c"
    "c_result c' = c_result c"
    by (simp add: peer_proposal_def peer_proposal_internal_def Let_def accepted_ok_def consensus_reached_def)
  moreover have "sat (peer_proposal A t p c) (\<lambda>(b, c'). engine_inv W A c')"
    using assms by (intro peer_proposal_inv) (simp_all add: run_inv_def)
  ultimately show ?thesis
    using assms True by (simp add: run_inv_def)
next
  case False
  have inv: "adaptor_laws W A" "engine_inv W A c"
    using assms by (simp_all add: run_inv_def)
  have "c_phase c' \<noteq> Accepted" if "peer_proposal A t p c = Done (b, c')" for b c'
  proof -
    from that obtain c1 where "peer_proposal_internal A t p c1 = Done (b, c')" "c_phase c1 = c_phase c"
        "pending_ok W A {} c1"
      using recent_ok_push [of c _ p] inv(2)
      by (fastforce simp: peer_proposal_def Let_def engine_inv_def pending_ok_def peers_ok_def)
    with peer_proposal_internal_ok [OF inv(1), of c1 t p] False show ?thesis
      by (simp add: peer_frame_def)
  qed
  with peer_proposal_inv [OF inv] inv(1) show ?thesis
    by (intro sat_mono_Done [OF peer_proposal_inv [OF inv]]) (auto simp: run_inv_def)
qed

lemma got_tx_set_run_inv:
  assumes "run_inv W A c" and "W s"
  shows "sat (got_tx_set A t s c) (run_inv W A)"
proof (cases "c_phase c = Accepted")
  case True
  then show ?thesis using assms(1) by (simp add: got_tx_set_def)
next
  case False
  have inv: "adaptor_laws W A" "engine_inv W A c" "pending_ok W A {} c"
    using assms by (simp_all add: run_inv_def engine_inv_def)
  show ?thesis
    by (rule sat_mono [OF got_tx_set_ok [OF inv(1,3) assms(2)]])
       (use False inv engine_inv_peer_frame [OF inv(2)] in \<open>auto simp: run_inv_def peer_frame_def votes_frame_def split: if_splits\<close>)
qed

lemma timer_entry_run_inv:
  assumes "run_inv W A c"
  shows "sat (timer_entry k A t c) (run_inv W A)"
proof (cases "c_phase c = Accepted")
  case True
  then show ?thesis using assms by (cases k) simp_all
next
  case False
  then have "sat (timer_entry k A t c) (round_inv W A)"
    using assms by (intro timer_entry_inv) (simp_all add: run_inv_def round_inv_def)
  then show ?thesis
    by (rule sat_mono) (use assms round_run_inv in \<open>auto simp: run_inv_def\<close>)
qed

lemma engine_step_inv:
  assumes "run_inv W A c" and "event_ok W ev"
  shows "sat (engine_step k A ev c) (run_inv W A)"
proof (cases ev)
  case (StartRound now l ledger untrusted proposing)
  have inv: "adaptor_laws W A" "engine_inv W A c"
    using assms(1) by (simp_all add: run_inv_def)
  have te: "timer_ok W A (timer_entry k A) (round_inv W A)"
    unfolding timer_ok_def using timer_entry_inv [OF inv(1)] round_inv_open by blast
  have "sat (engine_step k A ev c) (round_inv W A)"
    using start_round_inv [OF inv _ te] assms(2) StartRound by simp
  then show ?thesis
    by (rule sat_mono) (rule round_run_inv [OF inv(1)])
next
  case (PeerProposal now p)
  then show ?thesis
    using peer_proposal_run_inv [OF assms(1), of now p] by (auto elim: sat_mono)
next
  case (TimerEntry now)
  then show ?thesis using timer_entry_run_inv [OF assms(1)] by simp
next
  case (GotTxSet now s)
  then show ?thesis using got_tx_set_run_inv [OF assms(1)] assms(2) by simp
qed

interpretation engine: step_invariant "engine_init W A" "engine_next W A" "run_inv W A" for W A
proof unfold_locales
  show "engine_init W A c \<Longrightarrow> run_inv W A c" for c
    by (auto simp: engine_init_def with_clock_inv)
  show "run_inv W A c \<Longrightarrow> engine_next W A c c' \<Longrightarrow> run_inv W A c'" for c c'
    using engine_step_inv by (fastforce simp: engine_next_def dest: sat_DoneD)
qed

lemma reach_inv:
  assumes "engine_reach W A c"
  shows "run_inv W A c" and "adaptor_laws W A" and "engine_inv W A c" and "pending_ok W A {} c"
  using engine.inv_reach [OF assms] by (auto simp: run_inv_def engine_inv_def)

section \<open>A sample application\<close>

text \<open>
  A small application that satisfies the laws: transactions are numbers, transaction sets are finite
  sets of numbers identified by their contents, every reading of the clock is eight seconds after the
  one before, and our own position is always the set of transaction 1.
\<close>

definition demo_ledger :: "nat cledger" where
  "demo_ledger = \<lparr>cl_id = 7, cl_seq = 5, cl_close_time_resolution = from_secs 30, cl_close_agree = True,
     cl_close_time = 1000, cl_parent_close_time = 900\<rparr>"

definition demo_adaptor :: "(nat, nat, nat, nat set, nat set, nat, nat) adaptor" where
  "demo_adaptor = \<lparr>acquire_ledger = (\<lambda>l w. (None, w)), acquire_tx_set = (\<lambda>k w. (None, w)),
     has_open_transactions = (\<lambda>w. (True, w)), proposers_validated = (\<lambda>l w. (0, w)),
     proposers_finished = (\<lambda>lg l w. (0, w)), get_prev_ledger = (\<lambda>l lg m w. (7, w)),
     on_mode_change = (\<lambda>m m' w. w),
     on_close = (\<lambda>lg t m w. (\<lparr>cr_txns = {1}, cr_position = new_proposal (cl_id lg) SEQ_JOIN {1} t t 0,
       cr_disputes = [], cr_compares = {}, cr_round_time = timer_default, cr_state = No, cr_proposers = 0\<rparr>, w)),
     on_accept = (\<lambda>r lg d ct m w. w), propose = (\<lambda>p w. w), share_peer_position = (\<lambda>p w. w),
     share_tx = (\<lambda>t w. w), share_tx_set = (\<lambda>s w. w), parms = default_parms,
     next_ledger_time_resolution = (\<lambda>d b s. d), adaptor_round_close_time = (\<lambda>t d. t),
     valid_ledger_seq = (\<lambda>w. (5, w)), quorum_keys = (\<lambda>w. ((1, {}), w)),
     laggards = (\<lambda>s ks w. ((0, ks), w)), validator = (\<lambda>w. (True, w)), have_validated = (\<lambda>w. (True, w)),
     update_operating_mode = (\<lambda>k w. w), clock_now = (\<lambda>w. (w, w + from_secs 8)),
     ts_exists = (\<lambda>s x. x \<in> s), ts_find = (\<lambda>s x. if x \<in> s then Some x else None),
     ts_id = (\<lambda>s. s),
     ts_compare = (\<lambda>s s'. map (\<lambda>x. (x, x \<in> s)) (sorted_list_of_set ((s - s') \<union> (s' - s)))),
     ts_insert = insert, ts_erase = (\<lambda>x s. s - {x}), tx_id = (\<lambda>t. t)\<rparr>"

lemma demo_laws: "adaptor_laws finite demo_adaptor"
  by (auto simp: adaptor_laws_def tx_set_laws_def demo_adaptor_def fresh_result_def new_proposal_def)

definition demo_peer :: "nat \<Rightarrow> nat set \<Rightarrow> (nat, nat, nat set) proposal" where
  "demo_peer n s = new_proposal 7 SEQ_JOIN s 1020 1020 n"

definition demo_run :: "(nat, nat, nat set, nat set) event list \<Rightarrow>
    (nat, nat, nat, nat set, nat set, nat, nat) consensus outcome" where
  "demo_run evs = fold_outcome (engine_step 2 demo_adaptor) evs (with_clock 0 7 demo_ledger)"

lemma reach_run:
  assumes "fold_outcome (engine_step k A) evs c = Done c'" and "list_all (event_ok W) evs" and "engine_reach W A c"
  shows "engine_reach W A c'"
  using assms
proof (induction evs arbitrary: c)
  case Nil
  then show ?case by simp
next
  case (Cons ev evs)
  then obtain c1 where "engine_step k A ev c = Done c1" "fold_outcome (engine_step k A) evs c1 = Done c'"
    by (auto simp: bind_outcome_Done_iff)
  moreover from this(1) Cons.prems have "engine_reach W A c1"
    by (intro reach_step [OF Cons.prems(3)]) (auto simp: engine_next_def)
  ultimately show ?case using Cons by simp
qed

lemma demo_reach: "demo_run evs = Done c \<Longrightarrow> list_all (event_ok finite) evs \<Longrightarrow> engine_reach finite demo_adaptor c"
  unfolding demo_run_def
  by (erule reach_run, assumption, rule reach_init) (use demo_laws in \<open>unfold engine_init_def, blast\<close>)

text \<open>A round in which peer 4 proposes the set of transaction 2, up to the closing of the ledger.\<close>

definition demo_events :: "(nat, nat, nat set, nat set) event list" where
  "demo_events = [StartRound 1020 7 demo_ledger {} True, GotTxSet 1020 {2}, PeerProposal 1020 (demo_peer 4 {2}),
     TimerEntry 1021]"

lemma demo_state:
  obtains c r d p where "demo_run demo_events = Done c" and "engine_reach finite demo_adaptor c"
    and "c_phase c = Establish" and "c_result c = Some r" and "(2, d) \<in> set (cr_disputes r)"
    and "cr_txns r = {1}" and "map_of (c_curr_peer_positions c) 4 = Some p"
    and "map_of (c_acquired c) (cp_position p) = Some {2}"
proof -
  have "case demo_run demo_events of
      Done c \<Rightarrow> c_phase c = Establish \<and> (case c_result c of
          Some r \<Rightarrow> map_of (cr_disputes r) 2 \<noteq> None \<and> cr_txns r = {1} | None \<Rightarrow> False) \<and>
        (case map_of (c_curr_peer_positions c) 4 of
          Some p \<Rightarrow> map_of (c_acquired c) (cp_position p) = Some {2} | None \<Rightarrow> False)
    | _ \<Rightarrow> False"
    by code_simp
  then obtain c where c: "demo_run demo_events = Done c" "c_phase c = Establish"
    "case c_result c of Some r \<Rightarrow> map_of (cr_disputes r) 2 \<noteq> None \<and> cr_txns r = {1} | None \<Rightarrow> False"
    "case map_of (c_curr_peer_positions c) 4 of
       Some p \<Rightarrow> map_of (c_acquired c) (cp_position p) = Some {2} | None \<Rightarrow> False"
    by (auto split: outcome.splits)
  obtain r where r: "c_result c = Some r" "map_of (cr_disputes r) 2 \<noteq> None" "cr_txns r = {1}"
    using c(3) by (auto split: option.splits)
  obtain d where "map_of (cr_disputes r) 2 = Some d"
    using r(2) by blast
  moreover obtain p where "map_of (c_curr_peer_positions c) 4 = Some p"
    "map_of (c_acquired c) (cp_position p) = Some {2}"
    using c(4) by (auto split: option.splits)
  moreover have "engine_reach finite demo_adaptor c"
    using c(1) by (rule demo_reach) (simp add: demo_events_def demo_ledger_def)
  ultimately show ?thesis
    using that [OF c(1) _ c(2) r(1) _ r(3)] map_of_in by metis
qed

section \<open>Properties of reachable states\<close>



lemma votes_for_card: "unique_keys m \<Longrightarrow> votes_for b m = int (card {n. map_of m n = Some b})"
proof -
  assume u: "unique_keys m"
  have "votes_for b m = int (length (map fst (filter (\<lambda>(_, v). v = b) m)))"
    by (simp add: votes_for_def)
  also have "\<dots> = int (card (fst ` set (filter (\<lambda>(_, v). v = b) m)))"
    using u distinct_card [of "map fst (filter (\<lambda>(_, v). v = b) m)"] by (simp add: distinct_map_filter)
  also have "fst ` set (filter (\<lambda>(_, v). v = b) m) = {n. map_of m n = Some b}"
    using u by (force simp: map_of_eq_Some_iff)
  finally show ?thesis .
qed

text \<open>
  C2: the votes recorded on a disputed transaction are the votes of the network. In every reachable
  state, the yes and no counters of a dispute count the peers recorded with that vote; only peers with
  a current position are recorded; a current peer whose transaction set is at hand is recorded with
  what that set says; and our own vote is whether our transaction set has the transaction.
\<close>
theorem engine_votes_faithful:
  assumes "engine_reach W A c" and "c_result c = Some r" and "(x, d) \<in> set (cr_disputes r)"
  shows "dt_yays d = int (card {n. map_of (dt_votes d) n = Some True}) \<and>
    dt_nays d = int (card {n. map_of (dt_votes d) n = Some False}) \<and>
    keys (dt_votes d) \<subseteq> keys (c_curr_peer_positions c) \<and>
    (dt_our_vote d \<longleftrightarrow> ts_exists A (cr_txns r) x) \<and>
    (\<forall>n p s. map_of (c_curr_peer_positions c) n = Some p \<longrightarrow> map_of (c_acquired c) (cp_position p) = Some s \<longrightarrow>
       map_of (dt_votes d) n = Some (ts_exists A s x))"
proof -
  have "dispute_ok A (keys (c_curr_peer_positions c)) (cr_txns r) x d"
    and vc: "votes_current A (c_acquired c) (c_curr_peer_positions c) {} x d"
    using reach_inv(4) [OF assms(1)] assms(2,3) by (auto simp: pending_ok_def result_ok_def)
  moreover have "map_of (dt_votes d) n = Some (ts_exists A s x)"
    if "map_of (c_curr_peer_positions c) n = Some p" "map_of (c_acquired c) (cp_position p) = Some s" for n p s
    using vc map_of_in [OF that(1)] that(2) by (auto simp: votes_current_def)
  ultimately show ?thesis
    using votes_for_card [of "dt_votes d"] by (simp add: dispute_ok_def tally_ok_def)
qed

lemma engine_votes_faithful_witness:
  "\<exists>c r d. demo_run demo_events = Done c \<and> c_result c = Some r \<and> (2, d) \<in> set (cr_disputes r) \<and>
     map_of (dt_votes d) 4 = Some True \<and> \<not> dt_our_vote d"
proof -
  obtain c r d p where s: "demo_run demo_events = Done c" "engine_reach finite demo_adaptor c"
    "c_phase c = Establish" "c_result c = Some r" "(2, d) \<in> set (cr_disputes r)" "cr_txns r = {1}"
    "map_of (c_curr_peer_positions c) 4 = Some p" "map_of (c_acquired c) (cp_position p) = Some {2}"
    by (rule demo_state)
  have "ts_exists demo_adaptor {2} 2" "\<not> ts_exists demo_adaptor {1} 2"
    by (simp_all add: demo_adaptor_def)
  with s engine_votes_faithful [OF s(2,4,5)] show ?thesis by fastforce
qed

text \<open>
  C3: no disagreement goes undisputed. In every reachable state in which we have a position, every
  transaction on which our set differs from the set of a current peer, if that set is at hand, is in
  the table of disputes.
\<close>
theorem engine_disputes_complete:
  assumes "engine_reach W A c" and "c_result c = Some r" and "map_of (c_curr_peer_positions c) n = Some p"
    and "map_of (c_acquired c) (cp_position p) = Some s" and "ts_exists A s x \<noteq> ts_exists A (cr_txns r) x"
  shows "x \<in> keys (cr_disputes r)"
proof -
  have ro: "result_ok W A (c_acquired c) (c_curr_peer_positions c) {} {} {} r"
    using reach_inv(4) [OF assms(1)] assms(2) by (simp add: pending_ok_def)
  then have "cp_position p \<in> cr_compares r"
    using map_of_in [OF assms(3)] assms(4) by (auto simp: result_ok_def compared_def)
  with ro assms(4,5) show ?thesis
    by (fastforce simp: result_ok_def differences_disputed_def)
qed

lemma engine_disputes_complete_witness:
  "\<exists>c r. demo_run demo_events = Done c \<and> c_result c = Some r \<and> 2 \<in> keys (cr_disputes r)"
proof -
  obtain c r d p where s: "demo_run demo_events = Done c" "engine_reach finite demo_adaptor c"
    "c_phase c = Establish" "c_result c = Some r" "(2, d) \<in> set (cr_disputes r)" "cr_txns r = {1}"
    "map_of (c_curr_peer_positions c) 4 = Some p" "map_of (c_acquired c) (cp_position p) = Some {2}"
    by (rule demo_state)
  have "ts_exists demo_adaptor {2} 2 \<noteq> ts_exists demo_adaptor (cr_txns r) 2"
    using s(6) by (simp add: demo_adaptor_def)
  from engine_disputes_complete [OF s(2,4,7,8) this] s(1,4) show ?thesis by blast
qed

text \<open>
  C4: a ledger is accepted only with consensus. Whenever a round has ended, the engine had agreement on
  the close time, had stayed in the establish phase for at least the minimum time, and had consensus or
  had seen the network move on or expire; and it gave up on an expired round only after it had spent the
  full avalanche schedule and was no longer proposing.
\<close>
theorem engine_acceptance:
  assumes "engine_reach W A c" and "c_phase c = Accepted" and "c_result c = Some r"
  shows "c_have_close_time_consensus c \<and> cr_state r \<noteq> No \<and>
    ledger_min_consensus (parms A) \<le> timer_read (cr_round_time r) \<and>
    (cr_state r = Expired \<longrightarrow> c_mode c \<noteq> Proposing \<and>
       length (avalanche_cutoffs (parms A)) * av_min_rounds (parms A) \<le> c_establish_counter c)"
  using reach_inv(1) [OF assms(1)] assms(2,3)
  by (simp add: run_inv_def accepted_ok_def consensus_reached_def)

lemma engine_acceptance_witness:
  "\<exists>c r. demo_run [StartRound 1020 7 demo_ledger {} True, TimerEntry 1021, TimerEntry 1022, TimerEntry 1023] = Done c \<and>
     c_phase c = Accepted \<and> c_result c = Some r \<and> cr_state r \<noteq> No"
proof -
  let ?evs = "[StartRound 1020 7 demo_ledger {} True, TimerEntry 1021, TimerEntry 1022, TimerEntry 1023]"
  have "case demo_run ?evs of Done c \<Rightarrow> c_phase c = Accepted \<and> c_result c \<noteq> None | _ \<Rightarrow> False"
    by code_simp
  then obtain c r where c: "demo_run ?evs = Done c" "c_phase c = Accepted" "c_result c = Some r"
    by (auto split: outcome.splits)
  have "engine_reach finite demo_adaptor c"
    using c(1) by (rule demo_reach) (simp add: demo_ledger_def)
  from engine_acceptance [OF this c(2,3)] c show ?thesis by blast
qed



section \<open>Peer positions\<close>

text \<open>
  C11: when a peer's proposal counts. A received proposal is taken up exactly when a round is running, it
  builds on our previous ledger, its author has not left the round and it is newer than the author's
  current position. Then it becomes the author's current position, or, if it is a bow-out, removes the
  author for the rest of the round; no other peer is affected. A proposal that is not taken up changes
  no current position.
\<close>
theorem peer_proposal_spec:
  assumes "engine_reach W A c" and "peer_proposal A t p c = Done (relay, c')"
  shows "(relay \<longleftrightarrow> c_phase c \<noteq> Accepted \<and> cp_previous_ledger p = c_prev_ledger_id c \<and>
      cp_node_id p \<notin> c_dead_nodes c \<and>
      (\<forall>q. map_of (c_curr_peer_positions c) (cp_node_id p) = Some q \<longrightarrow> cp_propose_seq q < cp_propose_seq p)) \<and>
    map_of (c_curr_peer_positions c') =
      (if relay then (map_of (c_curr_peer_positions c))(cp_node_id p := if is_bow_out p then None else Some p)
       else map_of (c_curr_peer_positions c)) \<and>
    c_dead_nodes c' = (if relay \<and> is_bow_out p then insert (cp_node_id p) (c_dead_nodes c) else c_dead_nodes c)"
proof -
  let ?props = "case map_of (c_recent_peer_positions c) (cp_node_id p) of Some ps \<Rightarrow> ps | None \<Rightarrow> []"
  let ?c = "c\<lparr>c_recent_peer_positions := AList.update (cp_node_id p)
    ((if 10 \<le> length ?props then tl ?props else ?props) @ [p]) (c_recent_peer_positions c)\<rparr>"
  have p: "pending_ok W A {} ?c"
    using reach_inv(4) [OF assms(1)] recent_ok_push [of c ?props p] by (simp add: pending_ok_def peers_ok_def)
  have "peer_proposal_internal A t p ?c = Done (relay, c')"
    using assms(2) by (simp add: peer_proposal_def Let_def)
  with peer_proposal_internal_ok [OF reach_inv(2) [OF assms(1)] p, of t p]
  have "proposal_effect p ?c relay c'" by simp
  then show ?thesis
    by (auto simp: proposal_effect_def Let_def split: if_splits)
qed

lemma peer_proposal_spec_witness:
  "\<exists>c c'. demo_run demo_events = Done c \<and> peer_proposal demo_adaptor 1021 (demo_peer 5 {2}) c = Done (True, c')"
proof -
  obtain c r d q where s: "demo_run demo_events = Done c" "engine_reach finite demo_adaptor c"
    "c_phase c = Establish" "c_result c = Some r" "(2, d) \<in> set (cr_disputes r)" "cr_txns r = {1}"
    "map_of (c_curr_peer_positions c) 4 = Some q" "map_of (c_acquired c) (cp_position q) = Some {2}"
    by (rule demo_state)
  have "case demo_run demo_events of Done c \<Rightarrow> c_prev_ledger_id c = 7 \<and> 5 \<notin> c_dead_nodes c \<and>
      map_of (c_curr_peer_positions c) 5 = None \<and> (case peer_proposal demo_adaptor 1021 (demo_peer 5 {2}) c of Done _ \<Rightarrow> True | _ \<Rightarrow> False)
    | _ \<Rightarrow> False"
    by code_simp
  then obtain relay c' where r: "peer_proposal demo_adaptor 1021 (demo_peer 5 {2}) c = Done (relay, c')"
    and f: "c_prev_ledger_id c = 7" "5 \<notin> c_dead_nodes c" "map_of (c_curr_peer_positions c) 5 = None"
    using s(1) by (auto split: outcome.splits)
  from peer_proposal_spec [OF s(2) r] f s(3) have relay
    by (simp add: demo_peer_def new_proposal_def)
  with r s(1) show ?thesis by auto
qed

section \<open>The close time\<close>

lemma pick_fold:
  fixes vs :: "(net_time \<times> int) list"
  assumes "sorted (map fst vs)"
    and "fold (\<lambda>(t, v) (close_time, thresh, have).
      if thresh \<le> v then (t, v, have \<or> need \<le> v) else (close_time, thresh, have)) (rev vs) (0, thresh0, False) = (t, v, h)"
  shows "(h \<longrightarrow> need \<le> v) \<and> (\<forall>t' v'. (t', v') \<in> set vs \<longrightarrow> thresh0 \<le> v' \<longrightarrow> v' \<le> v \<and> (v' = v \<longrightarrow> t \<le> t')) \<and>
    (if (t, v) \<in> set vs \<and> thresh0 \<le> v then h = (need \<le> v)
     else (t, v, h) = (0, thresh0, False) \<and> (\<forall>t' v'. (t', v') \<in> set vs \<longrightarrow> v' < thresh0))"
  using assms
proof (induction vs arbitrary: t v h)
  case Nil
  then show ?case by simp
next
  case (Cons tv vs)
  obtain t0 v0 where tv: "tv = (t0, v0)" by (cases tv)
  obtain t1 v1 h1 where IH: "fold (\<lambda>(t, v) (close_time, thresh, have).
      if thresh \<le> v then (t, v, have \<or> need \<le> v) else (close_time, thresh, have)) (rev vs) (0, thresh0, False)
      = (t1, v1, h1)" by (rule prod_cases3)
  have le: "t0 \<le> t'" if "(t', v') \<in> set vs" for t' v'
    using Cons.prems(1) tv that by (force simp: image_iff)
  have new: "(t, v, h) = (if v1 \<le> v0 then (t0, v0, h1 \<or> need \<le> v0) else (t1, v1, h1))"
    using Cons.prems(2) IH tv by (simp split: if_splits)
  have "sorted (map fst vs)"
    using Cons.prems(1) by simp
  note ih = Cons.IH [OF this IH]
  have low: "thresh0 \<le> v1" and h1: "h1 \<longrightarrow> need \<le> v1"
    using ih by (auto split: if_splits)
  have up: "v' \<le> v1" "v' = v1 \<Longrightarrow> t1 \<le> t'" if "(t', v') \<in> set vs" "thresh0 \<le> v'" for t' v'
    using ih that by blast+
  show ?case
  proof (cases "v1 \<le> v0")
    case True
    with new have eq: "t = t0" "v = v0" "h = (h1 \<or> need \<le> v0)" by simp_all
    have "v' \<le> v \<and> (v' = v \<longrightarrow> t \<le> t')" if "(t', v') \<in> set (tv # vs)" "thresh0 \<le> v'" for t' v'
      using that up [of t' v'] True le [of t' v'] eq tv by auto
    with low h1 True eq tv show ?thesis by auto
  next
    case False
    with new have eq: "t = t1" "v = v1" "h = h1" by simp_all
    have "v' \<le> v \<and> (v' = v \<longrightarrow> t \<le> t')" if "(t', v') \<in> set (tv # vs)" "thresh0 \<le> v'" for t' v'
      using that up [of t' v'] False eq tv by auto
    moreover have "v0 < thresh0" if "v1 = thresh0"
      using that False by simp
    ultimately show ?thesis
      using ih False eq tv h1 by (cases "(t1, v1) \<in> set vs \<and> thresh0 \<le> v1") auto
  qed
qed

text \<open>
  C20: which close time is agreed on. Among the close times voted for, the choice is the one with the most
  votes, provided they reach the required number, and the earliest of those with equally many; close-time
  consensus holds exactly if its votes also reach the consensus threshold. If no close time has the
  required votes, there is no choice and no consensus.
\<close>
theorem pick_close_time_spec:
  assumes "pick_close_time need_vote need_consensus votes = (t, v, have)"
  shows "if \<exists>t' v'. (t', v') \<in> set votes \<and> need_vote \<le> v'
     then (t, v) \<in> set votes \<and> need_vote \<le> v \<and> (have \<longleftrightarrow> need_consensus \<le> v) \<and>
       (\<forall>t' v'. (t', v') \<in> set votes \<longrightarrow> v' \<le> v \<and> (v' = v \<longrightarrow> t \<le> t'))
     else t = 0 \<and> \<not> have"
proof -
  have "sorted (map fst (sort_key fst votes))" by simp
  note pick = pick_fold [OF this assms [unfolded pick_close_time_def], unfolded set_sort]
  show ?thesis
  proof (cases "(t, v) \<in> set votes \<and> need_vote \<le> v")
    case True
    have "v' \<le> v \<and> (v' = v \<longrightarrow> t \<le> t')" if "(t', v') \<in> set votes" for t' v'
      using pick that True by (cases "need_vote \<le> v'") auto
    with True pick show ?thesis by auto
  next
    case False
    with pick have "(t, v, have) = (0, need_vote, False)" and "\<And>t' v'. (t', v') \<in> set votes \<Longrightarrow> v' < need_vote"
      by (simp_all only: if_False)
    then show ?thesis by (auto simp: not_le [symmetric])
  qed
qed

lemma pick_close_time_spec_witness:
  "pick_close_time 2 3 [(100, 2), (130, 1), (90, 2)] = (90, 2, False) \<and>
   (90 :: net_time, 2 :: int) \<in> set [(100, 2), (130, 1), (90, 2)]"
proof -
  have p: "pick_close_time 2 3 [(100, 2), (130, 1), (90, 2)] = (90, 2, False)"
    by code_simp
  have "\<exists>t' v'. (t', v') \<in> set [(100 :: net_time, 2 :: int), (130, 1), (90, 2)] \<and> 2 \<le> v'"
    by (intro exI [of _ 100] exI [of _ 2]) simp
  with pick_close_time_spec [OF p] p show ?thesis by simp
qed

end
