(* ===== verification/Consensus_Termination.thy ===== *)
theory Consensus_Termination
  imports Consensus_Rounds
begin

text \<open>
  A timer call returns: the only recursion of the engine is through switches of the previous ledger, and
  while the application's preferred ledger is stable there is at most one within a call.
\<close>

section \<open>Outcomes that do not run out of fuel\<close>

definition fuelled :: "'a outcome \<Rightarrow> bool" where
  "fuelled r \<longleftrightarrow> r \<noteq> OutOfFuel"

lemma fuelled_simps [simp]: "fuelled (Done x)" "fuelled Panic" "fuelled (expect y)"
  by (cases y; simp add: fuelled_def)+

lemma fuelled_bind [simp]:
  "fuelled (bind_outcome m f) \<longleftrightarrow> fuelled m \<and> (\<forall>x. m = Done x \<longrightarrow> fuelled (f x))"
  by (cases m) (auto simp: fuelled_def)

lemma fuelled_fold [simp]: "(\<And>x s. x \<in> set xs \<Longrightarrow> fuelled (f x s)) \<Longrightarrow> fuelled (fold_outcome f xs s)"
  by (induction xs arbitrary: s) auto

lemma fuelled_all [simp]: "(\<And>x. x \<in> set xs \<Longrightarrow> fuelled (f x)) \<Longrightarrow> fuelled (all_outcome f xs)"
  by (induction xs) auto

lemma fuelled_arith [simp]: "fuelled (rust_div a b)" "fuelled (i32_try_from n)"
  by (simp_all add: rust_div_def i32_try_from_def)

section \<open>Everything but the timer\<close>

lemma fuelled_decisions [simp]:
  "fuelled (get_needed_weight p st t n m)" "fuelled (participants_needed i j)"
  "fuelled (check_consensus a b d e f g s p q)"
  by (simp_all add: get_needed_weight_def participants_needed_def check_consensus_def Let_def)

lemma fuelled_dispute [simp]: "fuelled (update_vote t b p d)" "fuelled (dispute_stalled p b n d)"
  by (simp_all add: update_vote_def dispute_stalled_def Let_def split: prod.split)

lemma fuelled_difference [simp]: "fuelled (dispute_difference A s s' xb c)"
  by (auto simp: dispute_difference_def Let_def split: prod.split option.split)

lemma fuelled_create [simp]: "fuelled (create_disputes A s c)"
  by (simp add: create_disputes_def Let_def)

lemma fuelled_update [simp]: "fuelled (update_disputes A n s c)"
  by (simp add: update_disputes_def Let_def)

lemma fuelled_got [simp]: "fuelled (got_tx_set A t s c)"
  by (auto simp: got_tx_set_def Let_def intro!: fuelled_fold)

lemma fuelled_proposal [simp]: "fuelled (peer_proposal_internal A t p c)"
  by (auto simp: peer_proposal_internal_def Let_def split: option.split prod.split)

lemma fuelled_playback [simp]: "fuelled (playback_proposals A c)"
  by (auto simp: playback_proposals_def split: prod.split)

lemma fuelled_close [simp]: "fuelled (close_ledger A c)"
  by (auto simp: close_ledger_def Let_def split: prod.split option.split)

lemma fuelled_open [simp]: "fuelled (phase_open A c)"
  by (auto simp: phase_open_def Let_def split: prod.split)

lemma fuelled_pause [simp]: "fuelled (should_pause A c)"
  by (auto simp: should_pause_def Let_def split: prod.split)

lemma fuelled_votes [simp]: "fuelled (vote_disputes A t b s ds m)"
  by (induction ds arbitrary: m) (auto simp: Let_def split: prod.split)

lemma fuelled_close_time [simp]: "fuelled (vote_close_time A vs c)"
  by (auto simp: vote_close_time_def Let_def split: prod.split option.split)

lemma fuelled_adopt [simp]: "fuelled (adopt_position A s t c)"
  by (auto simp: adopt_position_def Let_def)

lemma fuelled_positions [simp]: "fuelled (update_our_positions A c)"
  by (auto simp: update_our_positions_def Let_def split: prod.split option.split)

lemma fuelled_have [simp]: "fuelled (have_consensus A c)"
  by (auto simp: have_consensus_def Let_def split: prod.split)

lemma fuelled_establish [simp]: "fuelled (phase_establish A c)"
  by (auto simp: phase_establish_def Let_def split: prod.split)

section \<open>The timer\<close>

text \<open>The application's preference for the previous ledger does not change.\<close>

definition stable_preference :: "('e, 'n, 'l, 'p, 's, 't, 'x) adaptor \<Rightarrow> 'l \<Rightarrow> bool" where
  "stable_preference A l \<longleftrightarrow> (\<forall>l' ledger m w. fst (get_prev_ledger A l' ledger m w) = l)"

lemma timer_on_preferred:
  assumes "stable_preference A l" and "c_prev_ledger_id c = l" and "cl_id (c_previous_ledger c) = l"
  shows "fuelled (timer_entry (Suc k) A t c)"
proof -
  have "check_ledger A te (c\<lparr>c_now := t\<rparr>) = Done ((c\<lparr>c_now := t\<rparr>)\<lparr>c_world :=
      snd (get_prev_ledger A (c_prev_ledger_id c) (c_previous_ledger c) (c_mode c) (c_world c))\<rparr>)" for te
    using assms by (simp add: check_ledger_def ask_def stable_preference_def split_beta)
  then show ?thesis
    by (simp split: consensus_phase.split)
qed

lemma start_on_preferred:
  assumes "adaptor_laws W A" and "stable_preference A l" and "recent_ok c" and "cl_id ledger = l"
  shows "fuelled (start_round_internal A (timer_entry (Suc k) A) t l ledger m c)"
proof -
  obtain ts w where clk: "clock_now A (on_mode_change A (c_mode c) m (c_world c)) = (ts, w)" by fastforce
  define c' where "c' = (set_mode A m (c\<lparr>c_phase := PhaseOpen\<rparr>))\<lparr>c_now := t, c_prev_ledger_id := l,
      c_previous_ledger := ledger, c_result := None, c_converge_percent := 0,
      c_close_time_avalanche_state := Init, c_have_close_time_consensus := False, c_world := w,
      c_open_time := timer_reset ts (c_open_time c), c_curr_peer_positions := [], c_acquired := [],
      c_raw_close_times := \<lparr>cct_peers = [], cct_self = 0\<rparr>, c_dead_nodes := {},
      c_close_resolution := next_ledger_time_resolution A (cl_close_time_resolution ledger)
        (cl_close_agree ledger) (cl_seq ledger + 1)\<rparr>"
  have eq: "start_round_internal A te t l ledger m c = bind_outcome (playback_proposals A c') (\<lambda>c.
      if c_prev_proposers c div 2 < length (c_curr_peer_positions c) then te (c_now c) c else Done c)" for te
    by (simp add: start_round_internal_def Let_def ask_def set_mode_def tell_def clk c'_def)
  have "pending_ok W A {} c'"
    using assms(3) by (simp add: c'_def pending_ok_def acquired_ok_def peers_ok_def recent_ok_def)
  then have "peer_frame c' c''" if "playback_proposals A c' = Done c''" for c''
    using playback_ok [OF assms(1)] that by fastforce
  moreover have "c_prev_ledger_id c' = l" "cl_id (c_previous_ledger c') = l"
    using assms(4) by (simp_all add: c'_def)
  ultimately show ?thesis
    using timer_on_preferred [OF assms(2), of _ k] by (simp add: eq peer_frame_def del: timer_entry.simps)
qed

lemma handle_on_preferred:
  assumes "adaptor_laws W A" and "stable_preference A l" and "engine_inv W A c"
  shows "fuelled (handle_wrong_ledger A (timer_entry (Suc k) A) l c)"
proof -
  define c1 where "c1 = leave_consensus A c"
  have inv: "pending_ok W A {} c1"
    unfolding c1_def using assms(3) by (intro leave_consensus_ok(1)) (simp add: engine_inv_def)
  let ?c2 = "c1\<lparr>c_prev_ledger_id := l, c_result := map_option (\<lambda>r. r\<lparr>cr_disputes := [], cr_compares := {}\<rparr>) (c_result c1),
     c_curr_peer_positions := [], c_raw_close_times := (c_raw_close_times c1)\<lparr>cct_peers := []\<rparr>, c_dead_nodes := {}\<rparr>"
  have "pending_ok W A {} ?c2"
    using inv by (auto simp: pending_ok_def peers_ok_def recent_ok_def result_ok_def compared_def differences_disputed_def)
  then have play: "recent_ok c' \<and> c_prev_ledger_id c' = l" if "playback_proposals A ?c2 = Done c'" for c'
    using playback_ok [OF assms(1), of ?c2] that by (auto simp: peer_frame_def pending_ok_def)
  have rest: "fuelled (if cl_id (c_previous_ledger c') = c_prev_ledger_id c' then Done c'
      else (case ask (acquire_ledger A (c_prev_ledger_id c')) c' of (found, c) \<Rightarrow>
        (case found of
           Some new_ledger \<Rightarrow> start_round_internal A (timer_entry (Suc k) A) (c_now c) l new_ledger SwitchedLedger c
         | None \<Rightarrow> Done (set_mode A WrongLedger c))))" if "recent_ok c'" "c_prev_ledger_id c' = l" for c'
  proof -
    obtain found w where acq: "acquire_ledger A (c_prev_ledger_id c') (c_world c') = (found, w)" by fastforce
    have "recent_ok (c'\<lparr>c_world := w\<rparr>)" using that(1) by (simp add: recent_ok_def)
    moreover have "cl_id lg = l" if "found = Some lg" for lg
      using adaptor_lawsD(4) [OF assms(1)] acq that \<open>c_prev_ledger_id c' = l\<close> by auto
    ultimately show ?thesis
      using start_on_preferred [OF assms(1,2)] by (auto simp: ask_def acq split: option.split)
  qed
  have "recent_ok c1" using inv by (simp add: pending_ok_def)
  then show ?thesis
    unfolding handle_wrong_ledger_def Let_def c1_def [symmetric] fuelled_bind
    using rest play by (auto split: if_splits)
qed

text \<open>
  C12: a timer call returns. While the application's preference for the previous ledger does not change,
  two levels of recursion are enough: from every reachable state the call ends normally, whatever larger
  bound is given.
\<close>
theorem timer_entry_returns:
  assumes "engine_reach W A c" and "stable_preference A l"
  shows "\<exists>c'. timer_entry (Suc (Suc k)) A t c = Done c'"
proof -
  note inv = reach_inv [OF assms(1)]
  have "fuelled (timer_entry (Suc (Suc k)) A t c)"
  proof (cases "c_phase c = Accepted")
    case True
    then show ?thesis by simp
  next
    case False
    obtain w where gp: "get_prev_ledger A (c_prev_ledger_id c) (c_previous_ledger c) (c_mode c) (c_world c) = (l, w)"
      using assms(2) unfolding stable_preference_def by (metis prod.collapse)
    have "engine_inv W A (c\<lparr>c_now := t, c_world := w\<rparr>)"
      using inv(3) by (simp add: engine_inv_def)
    then have "fuelled (handle_wrong_ledger A (timer_entry (Suc k) A) l (c\<lparr>c_now := t, c_world := w\<rparr>))"
      by (rule handle_on_preferred [OF inv(2) assms(2)])
    then have "fuelled (check_ledger A (timer_entry (Suc k) A) (c\<lparr>c_now := t\<rparr>))"
      by (simp add: check_ledger_def ask_def gp)
    then show ?thesis
      using False by (simp only: timer_entry.simps if_False fuelled_bind) (auto split: consensus_phase.split)
  qed
  moreover have "timer_entry (Suc (Suc k)) A t c \<noteq> Panic"
    using timer_entry_run_inv [OF inv(1)] by (rule sat_noPanic)
  ultimately show ?thesis
    by (cases "timer_entry (Suc (Suc k)) A t c") (auto simp: fuelled_def)
qed

lemma timer_entry_returns_witness:
  "\<exists>c c'. demo_run demo_events = Done c \<and> timer_entry 2 demo_adaptor 1022 c = Done c'"
proof -
  obtain c where "demo_run demo_events = Done c" and reach: "engine_reach finite demo_adaptor c"
    using demo_state by metis
  moreover have "stable_preference demo_adaptor 7"
    by (simp add: stable_preference_def demo_adaptor_def)
  ultimately show ?thesis
    using timer_entry_returns [of finite demo_adaptor c 7 0 1022] by (auto simp: numeral_2_eq_2)
qed

end
