(* ===== verification/Ordered_Map.thy ===== *)
theory Ordered_Map
  imports Prelude
begin

text \<open>
  A \<open>BTreeMap\<close> as an association list in strictly increasing key order, which is its iteration
  order, and the search for the successor of a key in a set of keys.
\<close>

section \<open>Ordered maps\<close>

fun bt_insert :: "'k::linorder \<Rightarrow> 'v \<Rightarrow> ('k \<times> 'v) list \<Rightarrow> ('k \<times> 'v) list" where
  "bt_insert k v [] = [(k, v)]"
| "bt_insert k v ((k', v') # m) =
     (if k < k' then (k, v) # (k', v') # m
      else if k = k' then (k, v) # m
      else (k', v') # bt_insert k v m)"

definition bt_remove :: "'k::linorder \<Rightarrow> ('k \<times> 'v) list \<Rightarrow> ('k \<times> 'v) list" where
  "bt_remove k m = AList.delete k m"

text \<open>\<open>range((Excluded(k), Unbounded))\<close>: the entries after \<open>k\<close>.\<close>

definition bt_after :: "'k::linorder \<Rightarrow> ('k \<times> 'v) list \<Rightarrow> ('k \<times> 'v) list" where
  "bt_after k m = filter (\<lambda>(k', _). k < k') m"

definition bt_ok :: "('k::linorder \<times> 'v) list \<Rightarrow> bool" where
  "bt_ok m \<longleftrightarrow> sorted_wrt (<) (map fst m)"

lemma bt_ok_Nil [simp]: "bt_ok []"
  by (simp add: bt_ok_def)

lemma bt_ok_Cons: "bt_ok ((k, v) # m) \<longleftrightarrow> (\<forall>k' \<in> keys m. k < k') \<and> bt_ok m"
  by (auto simp: bt_ok_def)

lemma bt_ok_unique: "bt_ok m \<Longrightarrow> unique_keys m"
  by (simp add: bt_ok_def strict_sorted_iff)

lemma map_of_bt_insert [simp]: "map_of (bt_insert k v m) = (map_of m)(k \<mapsto> v)"
  by (induction m) auto

lemma keys_bt_insert [simp]: "keys (bt_insert k v m) = insert k (keys m)"
  by (metis dom_fun_upd dom_map_of_conv_image_fst map_of_bt_insert option.distinct(1))

lemma bt_ok_insert [simp]: "bt_ok m \<Longrightarrow> bt_ok (bt_insert k v m)"
  by (induction m) (force simp: bt_ok_Cons not_less_iff_gr_or_eq keys_bt_insert)+

lemma map_of_bt_remove [simp]: "map_of (bt_remove k m) = (map_of m)(k := None)"
  by (simp add: bt_remove_def)

lemma keys_bt_remove [simp]: "keys (bt_remove k m) = keys m - {k}"
  by (simp add: bt_remove_def)

lemma bt_ok_remove [simp]: "bt_ok m \<Longrightarrow> bt_ok (bt_remove k m)"
  by (auto simp: bt_ok_def bt_remove_def AList.delete_eq strict_sorted_iff sorted_filter
      distinct_map_filter filter_map[symmetric] comp_def)

lemma bt_ok_map_of_iff: "bt_ok m \<Longrightarrow> map_of m k = Some v \<longleftrightarrow> (k, v) \<in> set m"
  by (simp add: bt_ok_unique)

lemma bt_ok_append:
  "bt_ok (xs @ ys) \<longleftrightarrow> bt_ok xs \<and> bt_ok ys \<and> (\<forall>k \<in> keys xs. \<forall>k' \<in> keys ys. k < k')"
  by (auto simp: bt_ok_def sorted_wrt_append)

text \<open>The first entry of an ordered map with a property is the one with the least key.\<close>

lemma bt_find_Some:
  assumes "bt_ok m" and "List.find P m = Some (k, v)"
  shows "(k, v) \<in> set m \<and> P (k, v) \<and> (\<forall>(k', v') \<in> set m. P (k', v') \<longrightarrow> k \<le> k')"
  using assms
proof (induction m)
  case (Cons e m)
  obtain k' v' where "e = (k', v')" by (cases e)
  with Cons show ?case
    by (auto simp: bt_ok_Cons less_imp_le keys_in split: if_splits)
qed simp

lemma find_None: "List.find P m = None \<longleftrightarrow> (\<forall>x \<in> set m. \<not> P x)"
  by (auto simp: find_None_iff)

section \<open>Successors\<close>

text \<open>The least element of \<open>D\<close> after \<open>k\<close> and, when a bound is given, before it.\<close>

definition next_key :: "'k::linorder set \<Rightarrow> 'k \<Rightarrow> 'k option \<Rightarrow> 'k option" where
  "next_key D k bound =
     (let S = {x \<in> D. k < x \<and> (case bound of None \<Rightarrow> True | Some l \<Rightarrow> x < l)}
      in if S = {} then None else Some (Min S))"

lemma next_key_eqI:
  fixes D :: "'k::linorder set"
  assumes "finite D"
    and "\<And>c. r = Some c \<Longrightarrow> c \<in> D \<and> k < c \<and> (\<forall>l. bound = Some l \<longrightarrow> c < l) \<and> (\<forall>x \<in> D. k < x \<longrightarrow> c \<le> x)"
    and "r = None \<Longrightarrow> \<forall>x \<in> D. k < x \<longrightarrow> (\<exists>l. bound = Some l \<and> l \<le> x)"
  shows "next_key D k bound = r"
proof (cases r)
  case None
  then show ?thesis
    using assms(3) by (fastforce simp: next_key_def Let_def split: option.splits)
next
  case (Some c)
  let ?S = "{x \<in> D. k < x \<and> (case bound of None \<Rightarrow> True | Some l \<Rightarrow> x < l)}"
  have "Min ?S = c"
    using assms(1,2) Some by (intro Min_eqI) (auto split: option.splits)
  moreover have "c \<in> ?S"
    using assms(2) Some by (auto split: option.splits)
  ultimately show ?thesis
    using Some by (auto simp: next_key_def Let_def)
qed

lemma next_key_SomeD:
  assumes "finite D" and "next_key D k bound = Some c"
  shows "c \<in> D" "k < c" "\<And>l. bound = Some l \<Longrightarrow> c < l" "\<And>x. x \<in> D \<Longrightarrow> k < x \<Longrightarrow> c \<le> x"
proof -
  let ?S = "{x \<in> D. k < x \<and> (case bound of None \<Rightarrow> True | Some l \<Rightarrow> x < l)}"
  have c: "c = Min ?S" "?S \<noteq> {}"
    using assms(2) by (auto simp: next_key_def Let_def split: if_splits)
  then have mem: "c \<in> ?S"
    using assms(1) Min_in [of ?S] by auto
  then show "c \<in> D" "k < c" and l: "\<And>l. bound = Some l \<Longrightarrow> c < l"
    by auto
  fix x assume x: "x \<in> D" "k < x"
  show "c \<le> x"
  proof (cases "x \<in> ?S")
    case True
    then show ?thesis using c assms(1) by simp
  next
    case False
    then obtain l where "bound = Some l" "l \<le> x" using x by (auto split: option.splits)
    then show ?thesis using l by fastforce
  qed
qed

lemma next_key_NoneD:
  assumes "finite D" and "next_key D k bound = None" and "x \<in> D" and "k < x"
  shows "\<exists>l. bound = Some l \<and> l \<le> x"
  using assms by (auto simp: next_key_def Let_def split: if_splits option.splits)

end
