(* ===== verification/Ledger_View.thy ===== *)
theory Ledger_View
  imports Ordered_Map
begin

text \<open>
  The vocabulary of the ledger views (\<open>xrpld/ledger/src/views\<close>): ledger entries and keylets, the
  errors and effects of a view, the interfaces \<open>ReadView\<close>, \<open>RawView\<close> and \<open>ApplyView\<close>, and the
  contracts of the last two. The contract says that a view behaves like a finite map from keys to
  ledger entries together with the amount of XRP destroyed through it.
\<close>

section \<open>Ledger entries and keylets\<close>

text \<open>A \<open>Uint256\<close> compares as big-endian bytes, which is the order of the number it stands for.\<close>

type_synonym uint256 = "256 word"

datatype ledger_entry_type =
  Any | NFTokenOffer | Check | DID | NegativeUnl | NFTokenPage | SignerList | Ticket | AccountRoot
| Contract | DirectoryNode | Amendments | GeneratorMap | LedgerHashes | Nickname | Offer
| DepositPreauth | RippleState | FeeSettings | Escrow | PayChannel | AMM | MPTokenIssuance | MPToken
| Oracle | Credential | PermissionedDomain | Delegate | Vault | LoanBroker | Loan | Sponsorship | Child

record keylet =
  kl_key :: uint256
  kl_type :: ledger_entry_type

text \<open>An \<open>STLedgerEntry\<close>; its serialized object is of an arbitrary type.\<close>

record 'o sle =
  sle_object :: 'o
  sle_key :: uint256
  sle_type :: ledger_entry_type

definition check_entry_type :: "keylet \<Rightarrow> ledger_entry_type \<Rightarrow> bool" where
  "check_entry_type kl actual =
     (case kl_type kl of
        Any \<Rightarrow> True
      | Child \<Rightarrow> actual \<noteq> DirectoryNode
      | expected \<Rightarrow> expected = actual)"

definition concrete_type :: "ledger_entry_type \<Rightarrow> bool" where
  "concrete_type t \<longleftrightarrow> t \<noteq> Any \<and> t \<noteq> Child"

definition check_ledger_entry :: "keylet \<Rightarrow> ledger_entry_type \<Rightarrow> uint256 \<Rightarrow> bool outcome" where
  "check_ledger_entry kl actual_type actual_key =
     (if \<not> concrete_type actual_type then Panic
      else Done (case kl_type kl of
          Any \<Rightarrow> True
        | Child \<Rightarrow> actual_type \<noteq> DirectoryNode
        | expected \<Rightarrow> expected = actual_type \<and> kl_key kl = actual_key))"

lemma check_ledger_entry_same_key:
  "concrete_type t \<Longrightarrow> check_ledger_entry kl t (kl_key kl) = Done (check_entry_type kl t)"
  by (auto simp: check_ledger_entry_def check_entry_type_def split: ledger_entry_type.splits)

section \<open>Errors and effects\<close>

text \<open>\<open>ViewError\<close>; what the three errors of the state tree carry is left out.\<close>

datatype view_error =
  Traversal | TxRead | Mutation | DuplicateTx uint256 | MissingMetadata uint256 | InvalidFee int
| Conversion string

type_synonym 'a vresult = "(view_error + 'a) outcome"

abbreviation vok :: "'a \<Rightarrow> 'a vresult" where
  "vok x \<equiv> Done (Inr x)"

abbreviation verr :: "view_error \<Rightarrow> 'a vresult" where
  "verr e \<equiv> Done (Inl e)"

definition vbind :: "'a vresult \<Rightarrow> ('a \<Rightarrow> 'b vresult) \<Rightarrow> 'b vresult" where
  "vbind m f = bind_outcome m (\<lambda>r. case r of Inl e \<Rightarrow> verr e | Inr x \<Rightarrow> f x)"

lemma vbind_simps [simp]:
  "vbind (vok x) f = f x" "vbind (verr e) f = verr e" "vbind Panic f = Panic"
  "vbind OutOfFuel f = OutOfFuel"
  by (simp_all add: vbind_def)

text \<open>
  A method with \<open>&mut self\<close> that returns a \<open>Result\<close>: the state it leaves behind is kept when it
  returns an error.
\<close>

type_synonym ('s, 'a) vm = "'s \<Rightarrow> ((view_error + 'a) \<times> 's) outcome"

definition mret :: "'a \<Rightarrow> ('s, 'a) vm" where
  "mret x s = Done (Inr x, s)"

definition mfail :: "view_error \<Rightarrow> ('s, 'a) vm" where
  "mfail e s = Done (Inl e, s)"

definition mbind :: "('s, 'a) vm \<Rightarrow> ('a \<Rightarrow> ('s, 'b) vm) \<Rightarrow> ('s, 'b) vm" where
  "mbind m f s = bind_outcome (m s) (\<lambda>(r, s'). case r of Inl e \<Rightarrow> Done (Inl e, s') | Inr x \<Rightarrow> f x s')"

definition mread :: "('s \<Rightarrow> 'a vresult) \<Rightarrow> ('s, 'a) vm" where
  "mread f s = bind_outcome (f s) (\<lambda>r. Done (r, s))"

fun mfor :: "('x \<Rightarrow> ('s, unit) vm) \<Rightarrow> 'x list \<Rightarrow> ('s, unit) vm" where
  "mfor f [] = mret ()"
| "mfor f (x # xs) = mbind (f x) (\<lambda>_. mfor f xs)"

lemma mret_apply [simp]: "mret x s = Done (Inr x, s)"
  by (simp add: mret_def)

lemma mfail_apply [simp]: "mfail e s = Done (Inl e, s)"
  by (simp add: mfail_def)

lemma mbind_Done [simp]:
  "m s = Done (Inr x, s') \<Longrightarrow> mbind m f s = f x s'"
  "m s = Done (Inl e, s') \<Longrightarrow> mbind m f s = Done (Inl e, s')"
  by (simp_all add: mbind_def)

lemma mread_ok [simp]:
  "f s = vok x \<Longrightarrow> mread f s = Done (Inr x, s)" "f s = verr e \<Longrightarrow> mread f s = Done (Inl e, s)"
  by (simp_all add: mread_def)

text \<open>A method of a part of the state, lifted to the whole.\<close>

definition mlift :: "('s \<Rightarrow> 't) \<Rightarrow> ('t \<Rightarrow> 's \<Rightarrow> 's) \<Rightarrow> ('t, 'a) vm \<Rightarrow> ('s, 'a) vm" where
  "mlift get put m s = bind_outcome (m (get s)) (\<lambda>(r, t). Done (r, put t s))"

lemma mlift_Done [simp]: "m (get s) = Done (r, t) \<Longrightarrow> mlift get put m s = Done (r, put t s)"
  by (simp add: mlift_def)

section \<open>Amounts of XRP\<close>

definition in_i64 :: "int \<Rightarrow> bool" where
  "in_i64 x \<longleftrightarrow> - (2 ^ 63) \<le> x \<and> x < 2 ^ 63"

definition wrap_i64 :: "int \<Rightarrow> int" where
  "wrap_i64 x = sint (word_of_int x :: 64 word)"

text \<open>
  \<open>XRPAmount::add_assign\<close>: an overflow panics when the amendment fixCleanup3_5_0 is in force, and
  wraps otherwise.
\<close>

definition xrp_add_assign :: "bool \<Rightarrow> int \<Rightarrow> int \<Rightarrow> int outcome" where
  "xrp_add_assign fix_cleanup a b =
     (if in_i64 (a + b) then Done (a + b) else if fix_cleanup then Panic else Done (wrap_i64 (a + b)))"

lemma xrp_add_assign_in_range [simp]: "in_i64 (a + b) \<Longrightarrow> xrp_add_assign f a b = Done (a + b)"
  by (simp add: xrp_add_assign_def)

section \<open>The interfaces\<close>

record ledger_header =
  seq :: u32
  drops :: "64 word"
  hash :: uint256
  parent_hash :: uint256
  tx_hash :: uint256
  account_hash :: uint256
  parent_close_time :: u32
  close_time :: u32
  validated :: bool
  accepted :: bool
  close_time_resolution :: "8 word"
  close_flags :: "8 word"

text \<open>The part of \<open>ReadView\<close> that concerns the header and the state.\<close>

record 'o read_view =
  rv_open :: bool
  rv_header :: ledger_header
  rv_exists :: "keylet \<Rightarrow> bool vresult"
  rv_succ :: "uint256 \<Rightarrow> uint256 option \<Rightarrow> uint256 option vresult"
  rv_read :: "keylet \<Rightarrow> 'o sle option vresult"

record ('s, 'o) raw_view =
  rw_erase :: "'o sle \<Rightarrow> ('s, unit) vm"
  rw_insert :: "'o sle \<Rightarrow> ('s, unit) vm"
  rw_replace :: "'o sle \<Rightarrow> ('s, unit) vm"
  rw_destroy_xrp :: "int \<Rightarrow> ('s, unit) vm"

datatype batch_op = B_Insert | B_Update | B_Delete

definition raw_batch_step :: "('s, 'o, 'm) raw_view_scheme \<Rightarrow> batch_op \<times> 'o sle \<Rightarrow> ('s, unit) vm" where
  "raw_batch_step R op =
     (case op of
        (B_Insert, x) \<Rightarrow> rw_insert R x
      | (B_Update, x) \<Rightarrow> rw_replace R x
      | (B_Delete, x) \<Rightarrow> rw_erase R x)"

definition raw_apply_sle_batch ::
  "('s, 'o, 'm) raw_view_scheme \<Rightarrow> (batch_op \<times> 'o sle) list \<Rightarrow> ('s, unit) vm" where
  "raw_apply_sle_batch R ops = mfor (raw_batch_step R) ops"

record ('s, 'o) apply_view =
  av_flags :: "'s \<Rightarrow> u32"
  av_exists :: "keylet \<Rightarrow> 's \<Rightarrow> bool vresult"
  av_succ :: "uint256 \<Rightarrow> uint256 option \<Rightarrow> 's \<Rightarrow> uint256 option vresult"
  av_read :: "keylet \<Rightarrow> 's \<Rightarrow> 'o sle option vresult"
  av_peek :: "keylet \<Rightarrow> ('s, 'o sle option) vm"
  av_insert :: "'o sle \<Rightarrow> ('s, unit) vm"
  av_update :: "'o sle \<Rightarrow> ('s, unit) vm"
  av_erase :: "'o sle \<Rightarrow> ('s, unit) vm"
  av_destroy_xrp :: "int \<Rightarrow> ('s, unit) vm"

section \<open>Skipping erased entries\<close>

text \<open>
  The loop with which the tables look for the next key of the view below that they have not erased.
  Every round but the last lands on another erased entry, so that one round more than the table has
  entries is enough.
\<close>

fun skip_erased ::
  "nat \<Rightarrow> (uint256 \<Rightarrow> uint256 option vresult) \<Rightarrow> (uint256 \<Rightarrow> bool) \<Rightarrow> uint256 \<Rightarrow> uint256 option vresult"
where
  "skip_erased 0 below erased k = OutOfFuel"
| "skip_erased (Suc n) below erased k =
     vbind (below k) (\<lambda>r. case r of
         None \<Rightarrow> vok None
       | Some c \<Rightarrow> if erased c then skip_erased n below erased c else vok (Some c))"

lemma skip_erased_spec:
  fixes D E :: "uint256 set"
  assumes "\<And>k. below k = vok (next_key D k bound)" and "\<And>c. erased c \<longleftrightarrow> c \<in> E"
    and "card {c \<in> E. k < c} < n"
  shows "skip_erased n below erased k = vok (next_key (D - E) k bound)"
  using assms(3)
proof (induction n arbitrary: k)
  case (Suc n)
  show ?case
  proof (cases "next_key D k bound")
    case None
    then have "next_key (D - E) k bound = None"
      by (intro next_key_eqI) (auto dest: next_key_NoneD [rotated])
    then show ?thesis using None by (simp add: assms)
  next
    case (Some c)
    note c = next_key_SomeD [OF finite Some]
    show ?thesis
    proof (cases "c \<in> E")
      case True
      have "{x \<in> E. c < x} \<subset> {x \<in> E. k < x}"
        using c(2) True by auto
      then have "card {x \<in> E. c < x} < card {x \<in> E. k < x}"
        by (rule psubset_card_mono [OF finite])
      then have "card {x \<in> E. c < x} < n"
        using Suc.prems by linarith
      moreover have "next_key (D - E) c bound = next_key (D - E) k bound"
      proof -
        have "{x \<in> D - E. c < x \<and> P x} = {x \<in> D - E. k < x \<and> P x}" for P
          using c(2,4) True by (metis (lifting) DiffE order.strict_trans order_le_imp_less_or_eq)
        then show ?thesis by (simp add: next_key_def)
      qed
      ultimately show ?thesis using Some True Suc.IH [of c] by (simp add: assms(1,2))
    next
      case False
      then have "next_key (D - E) k bound = Some c"
        using c by (intro next_key_eqI) auto
      then show ?thesis using Some False by (simp add: assms)
    qed
  qed
qed simp

section \<open>Overlays\<close>

text \<open>
  The contents of a table over the view below: an entry of the table hides the entry below;
  \<open>shown\<close> is what an entry of the table shows, nothing for an erased one.
\<close>

definition overlay ::
  "('e \<Rightarrow> 'o sle option) \<Rightarrow> (uint256 \<times> 'e) list \<Rightarrow> (uint256 \<Rightarrow> 'o sle option) \<Rightarrow> uint256 \<Rightarrow> 'o sle option"
where
  "overlay shown items B k = (case map_of items k of None \<Rightarrow> B k | Some e \<Rightarrow> shown e)"

definition first_shown :: "('e \<Rightarrow> bool) \<Rightarrow> (uint256 \<times> 'e) list \<Rightarrow> uint256 \<Rightarrow> uint256 option" where
  "first_shown erased items k = map_option fst (List.find (\<lambda>(_, e). \<not> erased e) (bt_after k items))"

text \<open>The smaller of the two candidates, unless it reaches the bound.\<close>

definition merge_next :: "uint256 option \<Rightarrow> uint256 option \<Rightarrow> uint256 option \<Rightarrow> uint256 option" where
  "merge_next bound below local =
     (let n = (case (below, local) of
                 (Some n, Some l) \<Rightarrow> Some (min n l)
               | (Some n, None) \<Rightarrow> Some n
               | (None, l) \<Rightarrow> l)
      in case (n, bound) of (Some c, Some b) \<Rightarrow> if b \<le> c then None else n | _ \<Rightarrow> n)"

lemma first_shown_spec:
  assumes "bt_ok items"
  shows "first_shown erased items k =
    next_key {c. \<exists>e. map_of items c = Some e \<and> \<not> erased e} k None"
proof -
  let ?L = "{c. \<exists>e. map_of items c = Some e \<and> \<not> erased e}"
  let ?find = "List.find (\<lambda>(_, e). \<not> erased e) (bt_after k items)"
  have ok: "bt_ok (bt_after k items)"
    using assms by (auto simp: bt_after_def bt_ok_def sorted_wrt_map intro: sorted_wrt_filter)
  have mem: "(c, e) \<in> set (bt_after k items) \<longleftrightarrow> k < c \<and> map_of items c = Some e" for c e
    using assms by (auto simp: bt_after_def bt_ok_map_of_iff)
  show ?thesis
  proof (cases ?find)
    case None
    then have "x \<notin> ?L" if "k < x" for x
      using that by (auto simp: find_None mem)
    then have "next_key ?L k None = None"
      by (intro next_key_eqI) auto
    then show ?thesis using None by (simp add: first_shown_def)
  next
    case (Some ce)
    obtain c e where [simp]: "ce = (c, e)" by (cases ce)
    have "(c, e) \<in> set (bt_after k items)" "\<not> erased e"
      "\<forall>(k', v') \<in> set (bt_after k items). \<not> erased v' \<longrightarrow> c \<le> k'"
      using bt_find_Some [OF ok, of _ c e] Some by auto
    then have "next_key ?L k None = Some c"
      by (intro next_key_eqI) (auto simp: mem)
    then show ?thesis using Some by (simp add: first_shown_def)
  qed
qed

lemma next_key_bound:
  fixes D :: "uint256 set"
  shows "next_key D k (Some b) = (case next_key D k None of
      None \<Rightarrow> None | Some c \<Rightarrow> if b \<le> c then None else Some c)"
proof (cases "next_key D k None")
  case None
  then show ?thesis
    using next_key_NoneD [OF finite None] by (simp, intro next_key_eqI) auto
next
  case (Some c)
  note c = next_key_SomeD [OF finite Some]
  have "next_key D k (Some b) = (if b \<le> c then None else Some c)"
  proof (rule next_key_eqI)
    show "\<forall>x \<in> D. k < x \<longrightarrow> (\<exists>l. Some b = Some l \<and> l \<le> x)" if "(if b \<le> c then None else Some c) = None"
      using that c(4) by (fastforce split: if_splits)
  qed (use c in \<open>auto split: if_splits\<close>)
  then show ?thesis using Some by simp
qed

lemma next_key_Un:
  fixes D L :: "uint256 set"
  shows "next_key (D \<union> L) k None = (case (next_key D k None, next_key L k None) of
      (Some n, Some l) \<Rightarrow> Some (min n l) | (Some n, None) \<Rightarrow> Some n | (None, l) \<Rightarrow> l)"
proof -
  have none: "\<not> k < x" if "next_key A k None = None" "x \<in> A" for A and x :: uint256
    using next_key_NoneD [OF finite that(1) that(2)] by auto
  show ?thesis
  proof (cases "next_key D k None"; cases "next_key L k None")
    fix n l assume a: "next_key D k None = Some n" "next_key L k None = Some l"
    show ?thesis
      using a next_key_SomeD [OF finite a(1)] next_key_SomeD [OF finite a(2)]
      by (simp, intro next_key_eqI) (force simp: min_def intro: order.trans [OF less_imp_le])+
  qed (auto intro!: next_key_eqI dest: none next_key_SomeD [OF finite])
qed

lemma merge_next_spec:
  fixes D L :: "uint256 set"
  shows "merge_next bound (next_key D k bound) (next_key L k None) = next_key (D \<union> L) k bound"
  by (cases "next_key D k None"; cases "next_key L k None"; cases bound)
    (auto simp: merge_next_def next_key_bound next_key_Un min_def)

lemma overlay_succ:
  assumes "bt_ok items" and "\<And>k. below k = vok (next_key (dom B) k bound)"
    and "\<And>e. erased e \<longleftrightarrow> shown e = None"
  shows "vbind (skip_erased (Suc (length items)) below
        (\<lambda>c. case map_of items c of None \<Rightarrow> False | Some e \<Rightarrow> erased e) k)
      (\<lambda>r. vok (merge_next bound r (first_shown erased items k))) =
    vok (next_key (dom (overlay shown items B)) k bound)"
proof -
  let ?E = "{c. \<exists>e. map_of items c = Some e \<and> erased e}"
  let ?L = "{c. \<exists>e. map_of items c = Some e \<and> \<not> erased e}"
  have "card {c \<in> ?E. k < c} \<le> card (keys items)"
    by (rule card_mono) (auto dest: map_of_in keys_in)
  also have "\<dots> \<le> length items"
    using card_length [of "map fst items"] by simp
  finally have "skip_erased (Suc (length items)) below
      (\<lambda>c. case map_of items c of None \<Rightarrow> False | Some e \<Rightarrow> erased e) k = vok (next_key (dom B - ?E) k bound)"
    by (intro skip_erased_spec) (auto simp: assms(2) split: option.splits)
  moreover have "dom (overlay shown items B) = (dom B - ?E) \<union> ?L"
    by (auto simp: overlay_def assms(3) split: option.splits)
  ultimately show ?thesis
    by (simp add: first_shown_spec [OF assms(1)] merge_next_spec)
qed

lemma overlay_insert [simp]: "overlay shown (bt_insert k e m) B = (overlay shown m B)(k := shown e)"
  by (auto simp: overlay_def)

lemma overlay_remove: "overlay shown (bt_remove k m) B = (overlay shown m B)(k := B k)"
  by (auto simp: overlay_def)

section \<open>Contents of a view\<close>

text \<open>
  The key of a ledger entry is a hash that includes the kind of the entry, so that a key determines
  the type of the entry stored under it. \<open>kt\<close> is this assignment; a keylet fits if its type admits
  the entries of its key.
\<close>

definition typed :: "(uint256 \<Rightarrow> ledger_entry_type) \<Rightarrow> 'o sle \<Rightarrow> bool" where
  "typed kt x \<longleftrightarrow> sle_type x = kt (sle_key x) \<and> concrete_type (sle_type x) \<and> sle_key x \<noteq> 0"

definition typed_map :: "(uint256 \<Rightarrow> ledger_entry_type) \<Rightarrow> (uint256 \<Rightarrow> 'o sle option) \<Rightarrow> bool" where
  "typed_map kt m \<longleftrightarrow> (\<forall>k x. m k = Some x \<longrightarrow> sle_key x = k \<and> typed kt x)"

definition fits :: "(uint256 \<Rightarrow> ledger_entry_type) \<Rightarrow> keylet \<Rightarrow> bool" where
  "fits kt kl \<longleftrightarrow> check_entry_type kl (kt (kl_key kl))"

lemma typed_mapD: "typed_map kt m \<Longrightarrow> m k = Some x \<Longrightarrow> sle_key x = k \<and> typed kt x"
  by (simp add: typed_map_def)

lemma typed_map_upd [simp]: "typed_map kt m \<Longrightarrow> typed kt x \<Longrightarrow> typed_map kt (m(sle_key x \<mapsto> x))"
  by (auto simp: typed_map_def)

lemma typed_map_del [simp]: "typed_map kt m \<Longrightarrow> typed_map kt (m(k := None))"
  by (auto simp: typed_map_def)

lemma fits_own_type [simp]:
  "typed kt x \<Longrightarrow> fits kt \<lparr>kl_key = sle_key x, kl_type = sle_type x\<rparr>"
  by (auto simp: fits_def typed_def check_entry_type_def concrete_type_def
      split: ledger_entry_type.splits)

lemma fits_any [simp]: "fits kt \<lparr>kl_key = k, kl_type = Any\<rparr>"
  by (simp add: fits_def check_entry_type_def)

text \<open>A read view that shows the contents \<open>B\<close>.\<close>

definition reads_map ::
  "(uint256 \<Rightarrow> ledger_entry_type) \<Rightarrow> 'o read_view \<Rightarrow> (uint256 \<Rightarrow> 'o sle option) \<Rightarrow> bool" where
  "reads_map kt rv B \<longleftrightarrow>
     typed_map kt B \<and>
     (\<forall>kl. fits kt kl \<longrightarrow> rv_read rv kl = vok (B (kl_key kl))) \<and>
     (\<forall>kl. fits kt kl \<longrightarrow> rv_exists rv kl = vok (B (kl_key kl) \<noteq> None)) \<and>
     (\<forall>k bound. rv_succ rv k bound = vok (next_key (dom B) k bound))"

definition base_map :: "'o read_view \<Rightarrow> uint256 \<Rightarrow> 'o sle option" where
  "base_map rv k = (case rv_read rv \<lparr>kl_key = k, kl_type = Any\<rparr> of Done (Inr x) \<Rightarrow> x | _ \<Rightarrow> None)"

lemma reads_map_typed: "reads_map kt rv B \<Longrightarrow> typed_map kt B"
  by (simp add: reads_map_def)

lemma reads_map_base: "reads_map kt rv B \<Longrightarrow> base_map rv = B"
  by (auto simp: reads_map_def base_map_def)

section \<open>The contract of an apply view\<close>

text \<open>
  The operations of \<open>ApplyView\<close> as data, and what they do to the contents of a view, the entries
  checked out of it and the XRP destroyed. \<open>update\<close> and \<open>erase\<close> need the entry to be checked out
  with \<open>peek\<close> or inserted before.
\<close>

datatype 'o view_op =
  V_Peek keylet | V_Insert "'o sle" | V_Update "'o sle" | V_Erase "'o sle" | V_Destroy int

fun run_op :: "('s, 'o) apply_view \<Rightarrow> 'o view_op \<Rightarrow> ('s, unit) vm" where
  "run_op V (V_Peek kl) = mbind (av_peek V kl) (\<lambda>_. mret ())"
| "run_op V (V_Insert x) = av_insert V x"
| "run_op V (V_Update x) = av_update V x"
| "run_op V (V_Erase x) = av_erase V x"
| "run_op V (V_Destroy fee) = av_destroy_xrp V fee"

record 'o ideal =
  contents :: "uint256 \<Rightarrow> 'o sle option"
  checked_out :: "uint256 set"
  destroyed :: int

fun ideal_op :: "'o view_op \<Rightarrow> 'o ideal \<Rightarrow> 'o ideal" where
  "ideal_op (V_Peek kl) a =
     (if contents a (kl_key kl) = None then a
      else a\<lparr>checked_out := insert (kl_key kl) (checked_out a)\<rparr>)"
| "ideal_op (V_Insert x) a =
     a\<lparr>contents := (contents a)(sle_key x \<mapsto> x), checked_out := insert (sle_key x) (checked_out a)\<rparr>"
| "ideal_op (V_Update x) a = a\<lparr>contents := (contents a)(sle_key x \<mapsto> x)\<rparr>"
| "ideal_op (V_Erase x) a =
     a\<lparr>contents := (contents a)(sle_key x := None), checked_out := checked_out a - {sle_key x}\<rparr>"
| "ideal_op (V_Destroy fee) a = a\<lparr>destroyed := destroyed a + fee\<rparr>"

fun legal_op :: "(uint256 \<Rightarrow> ledger_entry_type) \<Rightarrow> 'o view_op \<Rightarrow> 'o ideal \<Rightarrow> bool" where
  "legal_op kt (V_Peek kl) a \<longleftrightarrow> fits kt kl"
| "legal_op kt (V_Insert x) a \<longleftrightarrow> typed kt x \<and> contents a (sle_key x) = None"
| "legal_op kt (V_Update x) a \<longleftrightarrow>
     typed kt x \<and> sle_key x \<in> checked_out a \<and> contents a (sle_key x) \<noteq> None"
| "legal_op kt (V_Erase x) a \<longleftrightarrow>
     typed kt x \<and> sle_key x \<in> checked_out a \<and> contents a (sle_key x) \<noteq> None"
| "legal_op kt (V_Destroy fee) a \<longleftrightarrow> 0 \<le> fee \<and> in_i64 (destroyed a + fee)"

fun legal_ops :: "(uint256 \<Rightarrow> ledger_entry_type) \<Rightarrow> 'o view_op list \<Rightarrow> 'o ideal \<Rightarrow> bool" where
  "legal_ops kt [] a = True"
| "legal_ops kt (op # ops) a \<longleftrightarrow> legal_op kt op a \<and> legal_ops kt ops (ideal_op op a)"

text \<open>The second state offers at least what the first one promises.\<close>

definition covers :: "'o ideal \<Rightarrow> 'o ideal \<Rightarrow> bool" where
  "covers a b \<longleftrightarrow>
     contents b = contents a \<and> destroyed b = destroyed a \<and> checked_out a \<subseteq> checked_out b"

lemma covers_refl [simp]: "covers a a"
  by (simp add: covers_def)

lemma covers_trans: "covers a b \<Longrightarrow> covers b c \<Longrightarrow> covers a c"
  by (auto simp: covers_def)

lemma legal_op_covers: "covers a b \<Longrightarrow> legal_op kt op a \<Longrightarrow> legal_op kt op b"
  by (cases op) (auto simp: covers_def)

lemma ideal_op_covers: "covers a b \<Longrightarrow> covers (ideal_op op a) (ideal_op op b)"
  by (cases op) (auto simp: covers_def)

text \<open>A state of the view in which nothing has been written.\<close>

definition frozen ::
  "('s, 'o) apply_view \<Rightarrow> ('s \<Rightarrow> bool) \<Rightarrow> ('s \<Rightarrow> 'o ideal) \<Rightarrow> 'o ideal \<Rightarrow> u32 \<Rightarrow> 's \<Rightarrow> bool" where
  "frozen V I A a flags s \<longleftrightarrow>
     I s \<and> contents (A s) = contents a \<and> destroyed (A s) = destroyed a \<and> av_flags V s = flags"

text \<open>Reading, and checking entries out.\<close>

locale checkout_view =
  fixes kt :: "uint256 \<Rightarrow> ledger_entry_type"
    and V :: "('s, 'o) apply_view"
    and inv :: "'s \<Rightarrow> bool"
    and abs :: "'s \<Rightarrow> 'o ideal"
  assumes keyed: "inv s \<Longrightarrow> typed_map kt (contents (abs s))"
    and read_law: "inv s \<Longrightarrow> fits kt kl \<Longrightarrow> av_read V kl s = vok (contents (abs s) (kl_key kl))"
    and exists_law: "inv s \<Longrightarrow> fits kt kl \<Longrightarrow>
      av_exists V kl s = vok (contents (abs s) (kl_key kl) \<noteq> None)"
    and succ_law: "inv s \<Longrightarrow> av_succ V k bound s = vok (next_key (dom (contents (abs s))) k bound)"
    and flags_law: "av_peek V kl s = Done (r, s') \<Longrightarrow> av_flags V s' = av_flags V s"
    and peek_law: "inv s \<Longrightarrow> fits kt kl \<Longrightarrow>
      \<exists>s'. av_peek V kl s = Done (Inr (contents (abs s) (kl_key kl)), s') \<and> inv s' \<and>
        covers (ideal_op (V_Peek kl) (abs s)) (abs s')"

text \<open>Writing as well.\<close>

locale ledger_view = checkout_view kt V inv abs
  for kt :: "uint256 \<Rightarrow> ledger_entry_type"
    and V :: "('s, 'o) apply_view"
    and inv :: "'s \<Rightarrow> bool"
    and abs :: "'s \<Rightarrow> 'o ideal" +
  assumes flags_op_law: "run_op V op s = Done (r, s') \<Longrightarrow> av_flags V s' = av_flags V s"
    and insert_law: "inv s \<Longrightarrow> legal_op kt (V_Insert x) (abs s) \<Longrightarrow>
      \<exists>s'. av_insert V x s = Done (Inr (), s') \<and> inv s' \<and> covers (ideal_op (V_Insert x) (abs s)) (abs s')"
    and update_law: "inv s \<Longrightarrow> legal_op kt (V_Update x) (abs s) \<Longrightarrow>
      \<exists>s'. av_update V x s = Done (Inr (), s') \<and> inv s' \<and> covers (ideal_op (V_Update x) (abs s)) (abs s')"
    and erase_law: "inv s \<Longrightarrow> legal_op kt (V_Erase x) (abs s) \<Longrightarrow>
      \<exists>s'. av_erase V x s = Done (Inr (), s') \<and> inv s' \<and> covers (ideal_op (V_Erase x) (abs s)) (abs s')"
    and destroy_law: "inv s \<Longrightarrow> legal_op kt (V_Destroy fee) (abs s) \<Longrightarrow>
      \<exists>s'. av_destroy_xrp V fee s = Done (Inr (), s') \<and> inv s' \<and>
        covers (ideal_op (V_Destroy fee) (abs s)) (abs s')"
begin

lemma frozen_checkout: "checkout_view kt V (frozen V inv abs a flags) abs"
proof
  show "typed_map kt (contents (abs s))" if "frozen V inv abs a flags s" for s
    using that keyed [of s] by (simp add: frozen_def)
next
  fix s kl assume s: "frozen V inv abs a flags s" and kl: "fits kt kl"
  then obtain s' where s': "av_peek V kl s = Done (Inr (contents (abs s) (kl_key kl)), s')" "inv s'"
    "covers (ideal_op (V_Peek kl) (abs s)) (abs s')"
    using peek_law [of s kl] by (auto simp: frozen_def)
  then show "\<exists>s'. av_peek V kl s = Done (Inr (contents (abs s) (kl_key kl)), s') \<and>
      frozen V inv abs a flags s' \<and> covers (ideal_op (V_Peek kl) (abs s)) (abs s')"
    using s flags_law [OF s'(1)] by (auto simp: frozen_def covers_def split: if_splits)
qed (use read_law exists_law succ_law flags_law in \<open>auto simp: frozen_def\<close>)

lemma run_op_refines:
  assumes "inv s" and "covers a (abs s)" and "legal_op kt op a"
  shows "\<exists>s'. run_op V op s = Done (Inr (), s') \<and> inv s' \<and> covers (ideal_op op a) (abs s')"
proof -
  have l: "legal_op kt op (abs s)" and c: "covers (ideal_op op a) (ideal_op op (abs s))"
    using assms legal_op_covers ideal_op_covers by auto
  have "\<exists>s'. run_op V op s = Done (Inr (), s') \<and> inv s' \<and> covers (ideal_op op (abs s)) (abs s')"
  proof (cases op)
    case (V_Peek kl)
    then show ?thesis
      using peek_law [OF assms(1), of kl] l by auto
  next
    case (V_Insert x)
    then show ?thesis using insert_law [OF assms(1)] l by auto
  next
    case (V_Update x)
    then show ?thesis using update_law [OF assms(1)] l by auto
  next
    case (V_Erase x)
    then show ?thesis using erase_law [OF assms(1)] l by auto
  next
    case (V_Destroy fee)
    then show ?thesis using destroy_law [OF assms(1)] l by auto
  qed
  then show ?thesis
    using c covers_trans by blast
qed

lemma run_ops_refine:
  assumes "inv s" and "covers a (abs s)" and "legal_ops kt ops a"
  shows "\<exists>s'. mfor (run_op V) ops s = Done (Inr (), s') \<and> inv s' \<and>
    covers (fold ideal_op ops a) (abs s')"
  using assms
proof (induction ops arbitrary: s a)
  case (Cons op ops)
  then obtain s1 where "run_op V op s = Done (Inr (), s1)" "inv s1" "covers (ideal_op op a) (abs s1)"
    using run_op_refines [of s a op] by auto
  with Cons show ?case by auto
qed auto

end

section \<open>The contract of a raw view\<close>

text \<open>The contents after a sequence of changes, and when the sequence may be made.\<close>

definition batch_change ::
  "batch_op \<Rightarrow> 'o sle \<Rightarrow> (uint256 \<Rightarrow> 'o sle option) \<Rightarrow> uint256 \<Rightarrow> 'o sle option" where
  "batch_change op x m = m(sle_key x := (if op = B_Delete then None else Some x))"

fun ideal_batch ::
  "(batch_op \<times> 'o sle) list \<Rightarrow> (uint256 \<Rightarrow> 'o sle option) \<Rightarrow> uint256 \<Rightarrow> 'o sle option" where
  "ideal_batch [] m = m"
| "ideal_batch ((op, x) # ops) m =
     ideal_batch ops (batch_change op x m)"

fun legal_batch ::
  "(uint256 \<Rightarrow> ledger_entry_type) \<Rightarrow> (batch_op \<times> 'o sle) list \<Rightarrow> (uint256 \<Rightarrow> 'o sle option) \<Rightarrow> bool"
where
  "legal_batch kt [] m = True"
| "legal_batch kt ((op, x) # ops) m \<longleftrightarrow>
     typed kt x \<and> (m (sle_key x) = None) = (op = B_Insert) \<and>
     legal_batch kt ops (batch_change op x m)"

text \<open>Changes of different keys can be checked against the contents they start from.\<close>

lemma distinct_batch:
  assumes "distinct (map (\<lambda>(_, x). sle_key x) ops)"
    and "\<And>op x. (op, x) \<in> set ops \<Longrightarrow> typed kt x \<and> (m (sle_key x) = None) = (op = B_Insert)"
  shows "legal_batch kt ops m \<and> ideal_batch ops m = overlay (\<lambda>(op, x). if op = B_Delete then None else Some x)
      (map (\<lambda>(op, x). (sle_key x, (op, x))) ops) m"
  using assms
proof (induction ops arbitrary: m)
  case (Cons opx ops)
  obtain op x where opx: "opx = (op, x)" by (cases opx)
  have fresh: "sle_key y \<noteq> sle_key x" if "(op', y) \<in> set ops" for op' y
    using Cons.prems(1) that by (force simp: opx)
  then have none: "map_of (map (\<lambda>(op, x). (sle_key x, (op, x))) ops) (sle_key x) = None"
    by (force simp: map_of_eq_None_iff)
  let ?m = "batch_change op x m"
  have prems: "distinct (map (\<lambda>(_, x). sle_key x) ops)"
    "\<And>op x. (op, x) \<in> set ops \<Longrightarrow> typed kt x \<and> (?m (sle_key x) = None) = (op = B_Insert)"
    using Cons.prems fresh by (auto simp: opx batch_change_def)
  let ?shown = "\<lambda>(op, x). if op = B_Delete then None else Some x"
  let ?items = "\<lambda>ops. map (\<lambda>(op, x). (sle_key x, (op, x))) ops"
  have "overlay ?shown (?items ops) ?m = overlay ?shown (?items (opx # ops)) m"
    using none by (auto simp: opx overlay_def batch_change_def fun_eq_iff split: option.splits)
  then show ?case
    using Cons.IH [OF prems] Cons.prems(2) [of op x] by (simp add: opx)
qed (auto simp: overlay_def)

text \<open>
  A raw view takes changes without a check-out: an insertion of a new entry, the replacement and
  removal of an existing one, and the destruction of XRP.
\<close>

locale raw_target =
  fixes kt :: "uint256 \<Rightarrow> ledger_entry_type"
    and R :: "('s, 'o, 'm) raw_view_scheme"
    and inv :: "'s \<Rightarrow> bool"
    and shows_map :: "'s \<Rightarrow> uint256 \<Rightarrow> 'o sle option"
    and burnt :: "'s \<Rightarrow> int"
  assumes raw_keyed: "inv s \<Longrightarrow> typed_map kt (shows_map s)"
    and raw_insert_law: "inv s \<Longrightarrow> typed kt x \<Longrightarrow> shows_map s (sle_key x) = None \<Longrightarrow>
      \<exists>s'. rw_insert R x s = Done (Inr (), s') \<and> inv s' \<and>
        shows_map s' = (shows_map s)(sle_key x \<mapsto> x) \<and> burnt s' = burnt s"
    and raw_replace_law: "inv s \<Longrightarrow> typed kt x \<Longrightarrow> shows_map s (sle_key x) \<noteq> None \<Longrightarrow>
      \<exists>s'. rw_replace R x s = Done (Inr (), s') \<and> inv s' \<and>
        shows_map s' = (shows_map s)(sle_key x \<mapsto> x) \<and> burnt s' = burnt s"
    and raw_erase_law: "inv s \<Longrightarrow> typed kt x \<Longrightarrow> shows_map s (sle_key x) \<noteq> None \<Longrightarrow>
      \<exists>s'. rw_erase R x s = Done (Inr (), s') \<and> inv s' \<and>
        shows_map s' = (shows_map s)(sle_key x := None) \<and> burnt s' = burnt s"
    and raw_destroy_law: "inv s \<Longrightarrow> 0 \<le> fee \<Longrightarrow> in_i64 (burnt s + fee) \<Longrightarrow>
      \<exists>s'. rw_destroy_xrp R fee s = Done (Inr (), s') \<and> inv s' \<and>
        shows_map s' = shows_map s \<and> burnt s' = burnt s + fee"
begin

text \<open>What a change does to the contents, and when it may be made.\<close>

lemma batch_step_law:
  assumes "inv s" and "typed kt x" and "(shows_map s (sle_key x) = None) = (op = B_Insert)"
  shows "\<exists>s'. raw_batch_step R (op, x) s = Done (Inr (), s') \<and> inv s' \<and> burnt s' = burnt s \<and>
    shows_map s' = batch_change op x (shows_map s)"
  using assms raw_insert_law [OF assms(1,2)] raw_replace_law [OF assms(1,2)]
    raw_erase_law [OF assms(1,2)]
  by (cases op) (auto simp: raw_batch_step_def batch_change_def)

lemma batch_run:
  assumes "inv s" and "legal_batch kt ops (shows_map s)"
  shows "\<exists>s'. raw_apply_sle_batch R ops s = Done (Inr (), s') \<and> inv s' \<and> burnt s' = burnt s \<and>
    shows_map s' = ideal_batch ops (shows_map s)"
  using assms
proof (induction ops arbitrary: s)
  case (Cons opx ops)
  obtain op x where opx: "opx = (op, x)" by (cases opx)
  obtain s1 where s1: "raw_batch_step R (op, x) s = Done (Inr (), s1)" "inv s1" "burnt s1 = burnt s"
    "shows_map s1 = batch_change op x (shows_map s)"
    using batch_step_law [of s x op] Cons.prems by (auto simp: opx)
  have "legal_batch kt ops (shows_map s1)"
    using Cons.prems(2) by (simp add: opx s1(4))
  from Cons.IH [OF s1(2) this] show ?case
    by (simp add: opx raw_apply_sle_batch_def s1)
qed (auto simp: raw_apply_sle_batch_def)

end

end
