(* ===== verification/Raw_State_Table.thy ===== *)
theory Raw_State_Table
  imports Ledger_View
begin

text \<open>
  \<open>RawStateTable\<close> (\<open>views/raw_state_table.rs\<close>), the changes an open ledger has made to its base, and
  \<open>OpenView\<close> (\<open>views/open_view.rs\<close>) which adds the transactions. The table over a lawful base shows
  the contents that the changes ask for, an open view is again a lawful base and a lawful target for
  changes, and applying the table to a view with the contents of the base gives it the contents of
  the table.
\<close>

section \<open>The table\<close>

datatype raw_action = R_Erase | R_Insert | R_Replace

record 'o sle_action =
  ra_action :: raw_action
  ra_sle :: "'o sle"

record 'o raw_state_table =
  rt_items :: "(uint256 \<times> 'o sle_action) list"
  rt_drops_destroyed :: int

definition rt_new :: "'o raw_state_table" where
  "rt_new = \<lparr>rt_items = [], rt_drops_destroyed = 0\<rparr>"

definition rt_exists :: "'o read_view \<Rightarrow> keylet \<Rightarrow> 'o raw_state_table \<Rightarrow> bool vresult" where
  "rt_exists base k t =
     (case map_of (rt_items t) (kl_key k) of
        Some e \<Rightarrow>
          if ra_action e = R_Erase then vok False
          else bind_outcome (check_ledger_entry k (sle_type (ra_sle e)) (sle_key (ra_sle e))) vok
      | None \<Rightarrow> rv_exists base k)"

definition rt_succ ::
  "'o read_view \<Rightarrow> uint256 \<Rightarrow> uint256 option \<Rightarrow> 'o raw_state_table \<Rightarrow> uint256 option vresult" where
  "rt_succ base k bound t =
     vbind (skip_erased (Suc (length (rt_items t))) (\<lambda>c. rv_succ base c bound)
         (\<lambda>c. case map_of (rt_items t) c of None \<Rightarrow> False | Some e \<Rightarrow> ra_action e = R_Erase) k)
       (\<lambda>below.
         let next = (case first_shown (\<lambda>e. ra_action e = R_Erase) (rt_items t) k of
               None \<Rightarrow> below
             | Some overlay_key \<Rightarrow>
                 (case below of
                    None \<Rightarrow> Some overlay_key
                  | Some candidate \<Rightarrow> if overlay_key < candidate then Some overlay_key else below))
         in case (bound, next) of
              (Some last_key, Some candidate) \<Rightarrow> vok (if last_key \<le> candidate then None else next)
            | _ \<Rightarrow> vok next)"

definition rt_read :: "'o read_view \<Rightarrow> keylet \<Rightarrow> 'o raw_state_table \<Rightarrow> 'o sle option vresult" where
  "rt_read base k t =
     (case map_of (rt_items t) (kl_key k) of
        Some e \<Rightarrow>
          if ra_action e = R_Erase then vok None
          else bind_outcome (check_ledger_entry k (sle_type (ra_sle e)) (sle_key (ra_sle e)))
            (\<lambda>ok. vok (if ok then Some (ra_sle e) else None))
      | None \<Rightarrow> rv_read base k)"

definition rt_put :: "raw_action \<Rightarrow> 'o sle \<Rightarrow> ('o raw_state_table, unit) vm" where
  "rt_put a x t = mret () (t\<lparr>rt_items := bt_insert (sle_key x) \<lparr>ra_action = a, ra_sle = x\<rparr> (rt_items t)\<rparr>)"

definition rt_erase :: "'o sle \<Rightarrow> ('o raw_state_table, unit) vm" where
  "rt_erase x t =
     (case map_option ra_action (map_of (rt_items t) (sle_key x)) of
        None \<Rightarrow> rt_put R_Erase x t
      | Some R_Erase \<Rightarrow> mfail (Conversion ''RawStateTable::erase: already erased'') t
      | Some R_Insert \<Rightarrow> mret () (t\<lparr>rt_items := bt_remove (sle_key x) (rt_items t)\<rparr>)
      | Some R_Replace \<Rightarrow> rt_put R_Erase x t)"

definition rt_insert :: "'o sle \<Rightarrow> ('o raw_state_table, unit) vm" where
  "rt_insert x t =
     (case map_option ra_action (map_of (rt_items t) (sle_key x)) of
        None \<Rightarrow> rt_put R_Insert x t
      | Some R_Erase \<Rightarrow> rt_put R_Replace x t
      | Some R_Insert \<Rightarrow> mfail (Conversion ''RawStateTable::insert: already inserted'') t
      | Some R_Replace \<Rightarrow> mfail (Conversion ''RawStateTable::insert: already exists'') t)"

definition rt_replace :: "'o sle \<Rightarrow> ('o raw_state_table, unit) vm" where
  "rt_replace x t =
     (case map_option ra_action (map_of (rt_items t) (sle_key x)) of
        Some R_Erase \<Rightarrow> mfail (Conversion ''RawStateTable::replace: was erased'') t
      | Some R_Insert \<Rightarrow> rt_put R_Insert x t
      | _ \<Rightarrow> rt_put R_Replace x t)"

text \<open>\<open>fixed\<close> says whether the amendment that makes overflow an error is in force.\<close>

definition rt_destroy_xrp :: "bool \<Rightarrow> int \<Rightarrow> ('o raw_state_table, unit) vm" where
  "rt_destroy_xrp fixed fee t =
     bind_outcome (xrp_add_assign fixed (rt_drops_destroyed t) fee)
       (\<lambda>d. mret () (t\<lparr>rt_drops_destroyed := d\<rparr>))"

definition rt_apply_entry :: "('s, 'o, 'm) raw_view_scheme \<Rightarrow> uint256 \<times> 'o sle_action \<Rightarrow> ('s, unit) vm" where
  "rt_apply_entry R ke =
     (case ra_action (snd ke) of
        R_Erase \<Rightarrow> rw_erase R (ra_sle (snd ke))
      | R_Insert \<Rightarrow> rw_insert R (ra_sle (snd ke))
      | R_Replace \<Rightarrow> rw_replace R (ra_sle (snd ke)))"

definition rt_apply :: "'o raw_state_table \<Rightarrow> ('s, 'o, 'm) raw_view_scheme \<Rightarrow> ('s, unit) vm" where
  "rt_apply t R =
     mbind (rw_destroy_xrp R (rt_drops_destroyed t)) (\<lambda>_. mfor (rt_apply_entry R) (rt_items t))"

section \<open>The open view\<close>

record tx_entry =
  te_txn :: "8 word list"
  te_metadata :: "8 word list option"

record ('s, 'o) txs_raw_view = "('s, 'o) raw_view" +
  rw_tx_insert :: "uint256 \<Rightarrow> 8 word list \<Rightarrow> 8 word list option \<Rightarrow> ('s, unit) vm"

text \<open>The rules in force, which the view only hands on, are left out.\<close>

record 'o open_view =
  ov_base :: "'o read_view"
  ov_header :: ledger_header
  ov_items :: "'o raw_state_table"
  ov_txs :: "(uint256 \<times> tx_entry) list"
  ov_base_tx_count :: nat
  ov_open :: bool

definition ov_new_open :: "'o read_view \<Rightarrow> 'o open_view" where
  "ov_new_open base =
     (let h = rv_header base
      in \<lparr>ov_base = base,
          ov_header = h\<lparr>validated := False, accepted := False, seq := seq h + 1,
            parent_close_time := close_time h, parent_hash := hash h\<rparr>,
          ov_items = rt_new, ov_txs = [], ov_base_tx_count = 0, ov_open = True\<rparr>)"

definition ov_new_closed :: "'o read_view \<Rightarrow> 'o open_view" where
  "ov_new_closed base =
     \<lparr>ov_base = base, ov_header = rv_header base, ov_items = rt_new, ov_txs = [],
      ov_base_tx_count = 0, ov_open = rv_open base\<rparr>"

text \<open>A clone forgets the number of transactions below.\<close>

definition ov_clone :: "'o open_view \<Rightarrow> 'o open_view" where
  "ov_clone v = v\<lparr>ov_base_tx_count := 0\<rparr>"

definition ov_exists :: "keylet \<Rightarrow> 'o open_view \<Rightarrow> bool vresult" where
  "ov_exists k v = rt_exists (ov_base v) k (ov_items v)"

definition ov_succ :: "uint256 \<Rightarrow> uint256 option \<Rightarrow> 'o open_view \<Rightarrow> uint256 option vresult" where
  "ov_succ k bound v = rt_succ (ov_base v) k bound (ov_items v)"

definition ov_read :: "keylet \<Rightarrow> 'o open_view \<Rightarrow> 'o sle option vresult" where
  "ov_read k v = rt_read (ov_base v) k (ov_items v)"

definition ov_read_view :: "'o open_view \<Rightarrow> 'o read_view" where
  "ov_read_view v =
     \<lparr>rv_open = ov_open v, rv_header = ov_header v, rv_exists = (\<lambda>k. ov_exists k v),
      rv_succ = (\<lambda>k bound. ov_succ k bound v), rv_read = (\<lambda>k. ov_read k v)\<rparr>"

definition ov_tx_count :: "'o open_view \<Rightarrow> nat" where
  "ov_tx_count v = ov_base_tx_count v + length (ov_txs v)"

definition ov_batch_from :: "'o open_view \<Rightarrow> 'o open_view" where
  "ov_batch_from base =
     \<lparr>ov_base = ov_read_view base, ov_header = ov_header base, ov_items = rt_new, ov_txs = [],
      ov_base_tx_count = ov_tx_count base, ov_open = False\<rparr>"

text \<open>\<open>OpenView::sles\<close>: the loop over the successors, with a bound on the number of rounds.\<close>

fun ov_sles_from :: "nat \<Rightarrow> 'o open_view \<Rightarrow> uint256 \<Rightarrow> 'o sle list vresult" where
  "ov_sles_from 0 v current = OutOfFuel"
| "ov_sles_from (Suc n) v current =
     vbind (ov_succ current None v) (\<lambda>r. case r of
         None \<Rightarrow> vok []
       | Some next \<Rightarrow>
           vbind (ov_read \<lparr>kl_key = next, kl_type = Any\<rparr> v) (\<lambda>sle.
             vbind (ov_sles_from n v next) (\<lambda>rest.
               vok (case sle of None \<Rightarrow> rest | Some x \<Rightarrow> x # rest))))"

definition ov_sles :: "nat \<Rightarrow> 'o open_view \<Rightarrow> 'o sle list vresult" where
  "ov_sles n v = ov_sles_from n v 0"

definition ov_tx_exists :: "uint256 \<Rightarrow> 'o open_view \<Rightarrow> bool" where
  "ov_tx_exists k v \<longleftrightarrow> map_of (ov_txs v) k \<noteq> None"

definition ov_raw_tx_insert ::
  "uint256 \<Rightarrow> 8 word list \<Rightarrow> 8 word list option \<Rightarrow> ('o open_view, unit) vm" where
  "ov_raw_tx_insert k txn meta v =
     (case map_of (ov_txs v) k of
        None \<Rightarrow> mret () (v\<lparr>ov_txs := bt_insert k \<lparr>te_txn = txn, te_metadata = meta\<rparr> (ov_txs v)\<rparr>)
      | Some _ \<Rightarrow> mfail (DuplicateTx k) v)"

abbreviation ov_table :: "('o raw_state_table, 'a) vm \<Rightarrow> ('o open_view, 'a) vm" where
  "ov_table m \<equiv> mlift ov_items (\<lambda>t v. v\<lparr>ov_items := t\<rparr>) m"

definition ov_raw_view :: "bool \<Rightarrow> ('o open_view, 'o) txs_raw_view" where
  "ov_raw_view fixed =
     \<lparr>rw_erase = (\<lambda>x. ov_table (rt_erase x)), rw_insert = (\<lambda>x. ov_table (rt_insert x)),
      rw_replace = (\<lambda>x. ov_table (rt_replace x)),
      rw_destroy_xrp = (\<lambda>fee. ov_table (rt_destroy_xrp fixed fee)),
      rw_tx_insert = ov_raw_tx_insert\<rparr>"

definition ov_apply :: "'o open_view \<Rightarrow> ('s, 'o) txs_raw_view \<Rightarrow> ('s, unit) vm" where
  "ov_apply v R =
     mbind (rt_apply (ov_items v) R) (\<lambda>_.
       mfor (\<lambda>(k, item). rw_tx_insert R k (te_txn item) (te_metadata item)) (ov_txs v))"

definition ov_apply_state_only :: "'o open_view \<Rightarrow> ('s, 'o, 'm) raw_view_scheme \<Rightarrow> ('s, unit) vm" where
  "ov_apply_state_only v R = rt_apply (ov_items v) R"

section \<open>Contents of the table\<close>

definition rt_shown :: "'o sle_action \<Rightarrow> 'o sle option" where
  "rt_shown e = (if ra_action e = R_Erase then None else Some (ra_sle e))"

definition rt_contents ::
  "'o raw_state_table \<Rightarrow> (uint256 \<Rightarrow> 'o sle option) \<Rightarrow> uint256 \<Rightarrow> 'o sle option" where
  "rt_contents t B = overlay rt_shown (rt_items t) B"

text \<open>
  The table is consistent with the base: an entry is filed under its key, an inserted entry is not in
  the base, a replaced or erased one is.
\<close>

definition rt_ok ::
  "(uint256 \<Rightarrow> ledger_entry_type) \<Rightarrow> (uint256 \<Rightarrow> 'o sle option) \<Rightarrow> 'o raw_state_table \<Rightarrow> bool" where
  "rt_ok kt B t \<longleftrightarrow>
     bt_ok (rt_items t) \<and> 0 \<le> rt_drops_destroyed t \<and>
     (\<forall>k e. map_of (rt_items t) k = Some e \<longrightarrow>
        sle_key (ra_sle e) = k \<and> typed kt (ra_sle e) \<and> (B k = None \<longleftrightarrow> ra_action e = R_Insert))"

lemma rt_ok_new [simp]: "rt_ok kt B rt_new"
  by (simp add: rt_ok_def rt_new_def)

lemma rt_contents_new [simp]: "rt_contents rt_new B = B"
  by (auto simp: rt_contents_def rt_new_def overlay_def)

lemma rt_contents_typed: "typed_map kt B \<Longrightarrow> rt_ok kt B t \<Longrightarrow> typed_map kt (rt_contents t B)"
  by (auto simp: typed_map_def rt_ok_def rt_contents_def overlay_def rt_shown_def
      split: option.splits if_splits)

lemma rt_entryD:
  assumes "rt_ok kt B t" and "map_of (rt_items t) k = Some e"
  shows "sle_key (ra_sle e) = k" "typed kt (ra_sle e)" "B k = None \<longleftrightarrow> ra_action e = R_Insert"
  using assms by (auto simp: rt_ok_def)

lemma rt_check:
  assumes "rt_ok kt B t" and "map_of (rt_items t) (kl_key kl) = Some e" and "fits kt kl"
  shows "check_ledger_entry kl (sle_type (ra_sle e)) (sle_key (ra_sle e)) = Done True"
  using rt_entryD [OF assms(1,2)] assms(3)
  by (auto simp: typed_def fits_def check_ledger_entry_same_key)

lemma rt_read_spec:
  assumes "reads_map kt base B" and "rt_ok kt B t" and "fits kt kl"
  shows "rt_read base kl t = vok (rt_contents t B (kl_key kl))"
  using assms rt_check [OF assms(2) _ assms(3)]
  by (auto simp: rt_read_def rt_contents_def overlay_def rt_shown_def reads_map_def
      split: option.split)

lemma rt_exists_spec:
  assumes "reads_map kt base B" and "rt_ok kt B t" and "fits kt kl"
  shows "rt_exists base kl t = vok (rt_contents t B (kl_key kl) \<noteq> None)"
  using assms rt_check [OF assms(2) _ assms(3)]
  by (auto simp: rt_exists_def rt_contents_def overlay_def rt_shown_def reads_map_def
      split: option.split)

lemma rt_merge:
  "(let next = (case local of None \<Rightarrow> below
        | Some overlay_key \<Rightarrow> (case below of None \<Rightarrow> Some overlay_key
            | Some candidate \<Rightarrow> if overlay_key < candidate then Some overlay_key else below))
    in case (bound, next) of
         (Some last_key, Some candidate) \<Rightarrow> vok (if last_key \<le> candidate then None else next)
       | _ \<Rightarrow> vok next) = vok (merge_next bound below local)"
  by (auto simp: merge_next_def Let_def min_def split: option.splits)

lemma rt_succ_spec:
  assumes "reads_map kt base B" and "rt_ok kt B t"
  shows "rt_succ base k bound t = vok (next_key (dom (rt_contents t B)) k bound)"
  unfolding rt_succ_def rt_merge rt_contents_def
  using assms by (intro overlay_succ) (auto simp: rt_ok_def reads_map_def rt_shown_def)

text \<open>The operations do what they say on the contents.\<close>

lemma rt_put_ok:
  assumes "rt_ok kt B t" and "typed kt x" and "B (sle_key x) = None \<longleftrightarrow> a = R_Insert"
  shows "\<exists>t'. rt_put a x t = Done (Inr (), t') \<and> rt_ok kt B t' \<and>
    rt_contents t' B = (rt_contents t B)(sle_key x := (if a = R_Erase then None else Some x)) \<and>
    rt_drops_destroyed t' = rt_drops_destroyed t"
  using assms by (auto simp: rt_put_def rt_ok_def rt_contents_def rt_shown_def)

lemma rt_contents_base:
  "map_of (rt_items t) k = None \<Longrightarrow> rt_contents t B k = B k"
  "map_of (rt_items t) k = Some e \<Longrightarrow> rt_contents t B k = rt_shown e"
  by (simp_all add: rt_contents_def overlay_def)

lemma rt_insert_ok:
  assumes "rt_ok kt B t" and "typed kt x" and "rt_contents t B (sle_key x) = None"
  shows "\<exists>t'. rt_insert x t = Done (Inr (), t') \<and> rt_ok kt B t' \<and>
    rt_contents t' B = (rt_contents t B)(sle_key x \<mapsto> x) \<and> rt_drops_destroyed t' = rt_drops_destroyed t"
proof (cases "map_of (rt_items t) (sle_key x)")
  case None
  then show ?thesis
    using assms rt_put_ok [OF assms(1,2), of R_Insert] by (auto simp: rt_insert_def rt_contents_base)
next
  case (Some e)
  then have "ra_action e = R_Erase"
    using assms(3) by (auto simp: rt_contents_base rt_shown_def split: if_splits)
  then show ?thesis
    using Some rt_entryD [OF assms(1) Some] rt_put_ok [OF assms(1,2), of R_Replace]
    by (auto simp: rt_insert_def)
qed

lemma rt_replace_ok:
  assumes "rt_ok kt B t" and "typed kt x" and "rt_contents t B (sle_key x) \<noteq> None"
  shows "\<exists>t'. rt_replace x t = Done (Inr (), t') \<and> rt_ok kt B t' \<and>
    rt_contents t' B = (rt_contents t B)(sle_key x \<mapsto> x) \<and> rt_drops_destroyed t' = rt_drops_destroyed t"
proof (cases "map_of (rt_items t) (sle_key x)")
  case None
  then show ?thesis
    using assms rt_put_ok [OF assms(1,2), of R_Replace] by (auto simp: rt_replace_def rt_contents_base)
next
  case (Some e)
  then have "ra_action e \<noteq> R_Erase"
    using assms(3) by (auto simp: rt_contents_base rt_shown_def split: if_splits)
  then show ?thesis
    using Some rt_entryD [OF assms(1) Some] rt_put_ok [OF assms(1,2), of "ra_action e"]
    by (cases "ra_action e") (auto simp: rt_replace_def)
qed

lemma rt_erase_ok:
  assumes "rt_ok kt B t" and "typed kt x" and "rt_contents t B (sle_key x) \<noteq> None"
  shows "\<exists>t'. rt_erase x t = Done (Inr (), t') \<and> rt_ok kt B t' \<and>
    rt_contents t' B = (rt_contents t B)(sle_key x := None) \<and> rt_drops_destroyed t' = rt_drops_destroyed t"
proof (cases "map_of (rt_items t) (sle_key x)")
  case None
  then show ?thesis
    using assms rt_put_ok [OF assms(1,2), of R_Erase] by (auto simp: rt_erase_def rt_contents_base)
next
  case (Some e)
  then have ne: "ra_action e \<noteq> R_Erase"
    using assms(3) by (auto simp: rt_contents_base rt_shown_def split: if_splits)
  note e = rt_entryD [OF assms(1) Some]
  show ?thesis
  proof (cases "ra_action e")
    case R_Insert
    then show ?thesis
      using Some e assms(1)
      by (auto simp: rt_erase_def rt_contents_def overlay_remove rt_ok_def)
  next
    case R_Replace
    then show ?thesis
      using Some e rt_put_ok [OF assms(1,2), of R_Erase] by (auto simp: rt_erase_def)
  qed (use ne in simp)
qed

section \<open>The open view is lawful\<close>

definition ov_contents :: "'o open_view \<Rightarrow> uint256 \<Rightarrow> 'o sle option" where
  "ov_contents v = rt_contents (ov_items v) (base_map (ov_base v))"

definition ov_inv :: "(uint256 \<Rightarrow> ledger_entry_type) \<Rightarrow> 'o open_view \<Rightarrow> bool" where
  "ov_inv kt v \<longleftrightarrow>
     reads_map kt (ov_base v) (base_map (ov_base v)) \<and> rt_ok kt (base_map (ov_base v)) (ov_items v)"

lemma ov_reads_map:
  assumes "ov_inv kt v"
  shows "reads_map kt (ov_read_view v) (ov_contents v)"
proof -
  have base: "reads_map kt (ov_base v) (base_map (ov_base v))"
    and ok: "rt_ok kt (base_map (ov_base v)) (ov_items v)"
    using assms by (simp_all add: ov_inv_def)
  show ?thesis
    unfolding reads_map_def [of kt "ov_read_view v"] ov_contents_def
    using rt_contents_typed [OF reads_map_typed [OF base] ok]
    by (simp add: ov_read_view_def ov_exists_def ov_succ_def ov_read_def rt_read_spec [OF base ok]
        rt_exists_spec [OF base ok] rt_succ_spec [OF base ok])
qed

lemma ov_inv_new:
  assumes "reads_map kt base B"
  shows "ov_inv kt (ov_new_open base)" "ov_contents (ov_new_open base) = B"
    "ov_inv kt (ov_new_closed base)" "ov_contents (ov_new_closed base) = B"
  using assms reads_map_base [OF assms]
  by (auto simp: ov_inv_def ov_contents_def ov_new_open_def ov_new_closed_def Let_def)

lemma ov_inv_batch_from:
  assumes "ov_inv kt v"
  shows "ov_inv kt (ov_batch_from v)" "ov_contents (ov_batch_from v) = ov_contents v"
  using ov_reads_map [OF assms] reads_map_base [OF ov_reads_map [OF assms]]
  by (auto simp: ov_inv_def ov_contents_def ov_batch_from_def)

abbreviation ov_destroyed :: "'o open_view \<Rightarrow> int" where
  "ov_destroyed v \<equiv> rt_drops_destroyed (ov_items v)"

interpretation open_target: raw_target kt "ov_raw_view fixed" "ov_inv kt" ov_contents ov_destroyed
  for kt fixed
proof
  fix v :: "'a open_view" and x :: "'a sle" and fee
  assume v: "ov_inv kt v"
  then have ok: "rt_ok kt (base_map (ov_base v)) (ov_items v)"
    by (simp add: ov_inv_def)
  show "typed_map kt (ov_contents v)"
    using ov_reads_map [OF v] by (simp add: reads_map_def)
  show "\<exists>s'. rw_insert (ov_raw_view fixed) x v = Done (Inr (), s') \<and> ov_inv kt s' \<and>
      ov_contents s' = (ov_contents v)(sle_key x \<mapsto> x) \<and> ov_destroyed s' = ov_destroyed v"
    if "typed kt x" "ov_contents v (sle_key x) = None"
    using rt_insert_ok [OF ok that(1)] that(2) v
    by (auto simp: ov_raw_view_def ov_inv_def ov_contents_def)
  show "\<exists>s'. rw_replace (ov_raw_view fixed) x v = Done (Inr (), s') \<and> ov_inv kt s' \<and>
      ov_contents s' = (ov_contents v)(sle_key x \<mapsto> x) \<and> ov_destroyed s' = ov_destroyed v"
    if "typed kt x" "ov_contents v (sle_key x) \<noteq> None"
    using rt_replace_ok [OF ok that(1)] that(2) v
    by (auto simp: ov_raw_view_def ov_inv_def ov_contents_def)
  show "\<exists>s'. rw_erase (ov_raw_view fixed) x v = Done (Inr (), s') \<and> ov_inv kt s' \<and>
      ov_contents s' = (ov_contents v)(sle_key x := None) \<and> ov_destroyed s' = ov_destroyed v"
    if "typed kt x" "ov_contents v (sle_key x) \<noteq> None"
    using rt_erase_ok [OF ok that(1)] that(2) v
    by (auto simp: ov_raw_view_def ov_inv_def ov_contents_def)
  show "\<exists>s'. rw_destroy_xrp (ov_raw_view fixed) fee v = Done (Inr (), s') \<and> ov_inv kt s' \<and>
      ov_contents s' = ov_contents v \<and> ov_destroyed s' = ov_destroyed v + fee"
    if "0 \<le> fee" "in_i64 (ov_destroyed v + fee)"
    using that v
    by (auto simp: ov_raw_view_def rt_destroy_xrp_def ov_inv_def ov_contents_def rt_ok_def
        rt_contents_def)
qed

section \<open>Committing a table\<close>

text \<open>The changes of a table as a batch.\<close>

definition rt_batch :: "'o raw_state_table \<Rightarrow> (batch_op \<times> 'o sle) list" where
  "rt_batch t = map (\<lambda>(k, e). (case ra_action e of
      R_Erase \<Rightarrow> B_Delete | R_Insert \<Rightarrow> B_Insert | R_Replace \<Rightarrow> B_Update, ra_sle e)) (rt_items t)"

lemma mfor_map: "mfor f (map g xs) = mfor (\<lambda>x. f (g x)) xs"
  by (induction xs) simp_all

lemma rt_apply_batch:
  "mfor (rt_apply_entry R) (rt_items t) = raw_apply_sle_batch R (rt_batch t)"
  unfolding raw_apply_sle_batch_def rt_batch_def mfor_map
  by (rule arg_cong [where f = "\<lambda>f. mfor f (rt_items t)"])
    (auto simp: rt_apply_entry_def raw_batch_step_def fun_eq_iff split: raw_action.splits)

lemma rt_batch_legal:
  assumes "rt_ok kt B t"
  shows "legal_batch kt (rt_batch t) B \<and> ideal_batch (rt_batch t) B = rt_contents t B"
proof -
  let ?op = "\<lambda>e. case ra_action e of R_Erase \<Rightarrow> B_Delete | R_Insert \<Rightarrow> B_Insert | R_Replace \<Rightarrow> B_Update"
  let ?shown = "\<lambda>(op, x). if op = B_Delete then None else Some x"
  have bt: "bt_ok (rt_items t)"
    using assms by (simp add: rt_ok_def)
  have item: "sle_key (ra_sle e) = k" "typed kt (ra_sle e)" "(B k = None) = (?op e = B_Insert)"
    if "(k, e) \<in> set (rt_items t)" for k e
    using rt_entryD [OF assms, of k e] that
    by (auto simp: bt_ok_map_of_iff [OF bt] split: raw_action.splits)
  have "map (\<lambda>(_, x). sle_key x) (rt_batch t) = map fst (rt_items t)"
    using item(1) by (auto simp: rt_batch_def)
  then have d: "distinct (map (\<lambda>(_, x). sle_key x) (rt_batch t))"
    using bt_ok_unique [OF bt] by simp
  have l: "typed kt x \<and> (B (sle_key x) = None) = (op = B_Insert)" if "(op, x) \<in> set (rt_batch t)" for op x
    using that item by (fastforce simp: rt_batch_def)
  have items: "map (\<lambda>(op, x). (sle_key x, (op, x))) (rt_batch t) =
      map (\<lambda>(k, e). (k, (?op e, ra_sle e))) (rt_items t)"
    using item(1) by (auto simp: rt_batch_def)
  have lookup: "map_of (map (\<lambda>(k, e). (k, (?op e, ra_sle e))) m) k =
      map_option (\<lambda>e. (?op e, ra_sle e)) (map_of m k)" for m :: "(uint256 \<times> 'a sle_action) list" and k
    by (induction m) auto
  have "overlay ?shown (map (\<lambda>(k, e). (k, (?op e, ra_sle e))) (rt_items t)) B = rt_contents t B"
    by (auto simp: rt_contents_def overlay_def rt_shown_def lookup fun_eq_iff
        split: option.splits raw_action.splits)
  then show ?thesis
    using distinct_batch [OF d l] items by simp
qed

context raw_target
begin

lemma rt_apply_commits:
  assumes "inv s" and "rt_ok kt (shows_map s) t" and "in_i64 (burnt s + rt_drops_destroyed t)"
  shows "\<exists>s'. rt_apply t R s = Done (Inr (), s') \<and> inv s' \<and>
    shows_map s' = rt_contents t (shows_map s) \<and> burnt s' = burnt s + rt_drops_destroyed t"
proof -
  obtain s1 where s1: "rw_destroy_xrp R (rt_drops_destroyed t) s = Done (Inr (), s1)" "inv s1"
    "shows_map s1 = shows_map s" "burnt s1 = burnt s + rt_drops_destroyed t"
    using raw_destroy_law [OF assms(1) _ assms(3)] assms(2) by (auto simp: rt_ok_def)
  have "\<exists>s'. raw_apply_sle_batch R (rt_batch t) s1 = Done (Inr (), s') \<and> inv s' \<and>
      burnt s' = burnt s1 \<and> shows_map s' = rt_contents t (shows_map s)"
    using batch_run [OF s1(2), of "rt_batch t"] rt_batch_legal [OF assms(2)] s1(3) by simp
  then show ?thesis
    using s1 by (auto simp: rt_apply_def rt_apply_batch)
qed

end

section \<open>An example\<close>

text \<open>An empty ledger and two entries, used to show that the hypotheses below can be met.\<close>

definition empty_view :: "'o read_view" where
  "empty_view =
     \<lparr>rv_open = False,
      rv_header = \<lparr>seq = 5, drops = 100, hash = 1, parent_hash = 2, tx_hash = 3, account_hash = 4,
        parent_close_time = 10, close_time = 20, validated = True, accepted = True,
        close_time_resolution = 30, close_flags = 0\<rparr>,
      rv_exists = (\<lambda>_. vok False), rv_succ = (\<lambda>_ _. vok None), rv_read = (\<lambda>_. vok None)\<rparr>"

definition demo_sle :: "uint256 \<Rightarrow> nat \<Rightarrow> nat sle" where
  "demo_sle k n = \<lparr>sle_object = n, sle_key = k, sle_type = Offer\<rparr>"

definition demo_open_view :: "nat open_view" where
  "demo_open_view = (ov_new_open empty_view)
     \<lparr>ov_items := \<lparr>rt_items = [(3, \<lparr>ra_action = R_Insert, ra_sle = demo_sle 3 30\<rparr>)],
        rt_drops_destroyed = 12\<rparr>,
      ov_txs := [(9, \<lparr>te_txn = [1, 2], te_metadata = None\<rparr>)]\<rparr>"

lemma empty_view_reads: "reads_map kt empty_view (\<lambda>_. None)"
  by (auto simp: reads_map_def empty_view_def typed_map_def next_key_def)

lemma typed_demo_sle: "k \<noteq> 0 \<Longrightarrow> typed (\<lambda>_. Offer) (demo_sle k n)"
  by (simp add: typed_def demo_sle_def concrete_type_def)

lemma demo_open_view_inv: "ov_inv (\<lambda>_. Offer) demo_open_view"
  using ov_inv_new [OF empty_view_reads [of "\<lambda>_. Offer"]] typed_demo_sle [of 3 30]
  by (auto simp: ov_inv_def demo_open_view_def ov_new_open_def rt_ok_def bt_ok_def Let_def
      base_map_def empty_view_def demo_sle_def split: if_splits)

lemma demo_open_view_contents: "ov_contents demo_open_view = [3 \<mapsto> demo_sle 3 30]"
  by (auto simp: ov_contents_def demo_open_view_def ov_new_open_def rt_contents_def overlay_def
      rt_shown_def Let_def base_map_def empty_view_def fun_eq_iff)

section \<open>Properties\<close>

lemma ov_sles_from_spec:
  assumes v: "ov_inv kt v" and "card {k \<in> dom (ov_contents v). current < k} < n"
  shows "ov_sles_from n v current =
    vok (map (\<lambda>k. the (ov_contents v k)) (sorted_list_of_set {k \<in> dom (ov_contents v). current < k}))"
  using assms(2)
proof (induction n arbitrary: current)
  case (Suc n)
  let ?D = "dom (ov_contents v)"
  have reads: "reads_map kt (ov_read_view v) (ov_contents v)"
    by (rule ov_reads_map [OF v])
  have succ: "ov_succ current None v = vok (next_key ?D current None)"
    using reads by (simp add: reads_map_def ov_read_view_def)
  show ?case
  proof (cases "next_key ?D current None")
    case None
    then have "{k \<in> ?D. current < k} = {}"
      using next_key_NoneD [OF finite None] by auto
    then show ?thesis using None by (simp add: succ)
  next
    case (Some nxt)
    note nxt = next_key_SomeD [OF finite Some]
    have S: "{k \<in> ?D. current < k} \<noteq> {}" and rest: "{k \<in> ?D. current < k} - {nxt} = {k \<in> ?D. nxt < k}"
      using nxt(1,2,4) by (auto simp: order.strict_iff_order)
    have min: "Min {k \<in> ?D. current < k} = nxt"
      using nxt(1,2,4) by (intro Min_eqI) auto
    have "card {k \<in> ?D. nxt < k} < card {k \<in> ?D. current < k}"
      using nxt(1,2) by (intro psubset_card_mono [OF finite]) auto
    then have IH: "ov_sles_from n v nxt =
        vok (map (\<lambda>k. the (ov_contents v k)) (sorted_list_of_set {k \<in> ?D. nxt < k}))"
      using Suc by simp
    have "rv_read (ov_read_view v) \<lparr>kl_key = nxt, kl_type = Any\<rparr> = vok (ov_contents v nxt)"
      using reads by (simp add: reads_map_def)
    moreover obtain x where "ov_contents v nxt = Some x"
      using nxt(1) by auto
    ultimately have "ov_read \<lparr>kl_key = nxt, kl_type = Any\<rparr> v = vok (Some x)" "ov_contents v nxt = Some x"
      by (simp_all add: ov_read_view_def)
    then show ?thesis
      using Some IH sorted_list_of_set_nonempty [OF finite S] by (simp add: succ min rest)
  qed
qed simp

lemma sles_domain:
  assumes "ov_inv kt v"
  shows "{k \<in> dom (ov_contents v). 0 < k} = dom (ov_contents v)"
  using reads_map_typed [OF ov_reads_map [OF assms]]
  by (auto simp: typed_map_def typed_def word_gt_0)

lemma ov_tx_inserts:
  assumes "unique_keys txs" and "keys txs \<inter> keys (ov_txs w) = {}"
  shows "\<exists>w'. mfor (\<lambda>(k, item). ov_raw_tx_insert k (te_txn item) (te_metadata item)) txs w =
      Done (Inr (), w') \<and> map_of (ov_txs w') = map_of (ov_txs w) ++ map_of txs \<and>
    ov_base w' = ov_base w \<and> ov_items w' = ov_items w"
  using assms
proof (induction txs arbitrary: w)
  case (Cons kt txs)
  obtain k item where kt: "kt = (k, item)" by (cases kt)
  let ?w = "w\<lparr>ov_txs := bt_insert k item (ov_txs w)\<rparr>"
  have item: "item = \<lparr>te_txn = te_txn item, te_metadata = te_metadata item\<rparr>"
    by simp
  have "map_of (ov_txs w) k = None"
    using Cons.prems(2) by (auto simp: kt map_of_None_keys)
  then have "ov_raw_tx_insert k (te_txn item) (te_metadata item) w = Done (Inr (), ?w)"
    by (simp add: ov_raw_tx_insert_def flip: item)
  moreover have k: "k \<notin> keys txs" "map_of txs k = None" and u: "unique_keys txs"
    using Cons.prems(1) by (auto simp: kt map_of_None_keys)
  moreover have "keys txs \<inter> keys (ov_txs ?w) = {}"
    using Cons.prems(2) k by (auto simp: kt)
  from Cons.IH [OF u this]
  obtain w' where "mfor (\<lambda>(k, item). ov_raw_tx_insert k (te_txn item) (te_metadata item)) txs ?w =
      Done (Inr (), w')" "map_of (ov_txs w') = map_of (ov_txs ?w) ++ map_of txs"
      "ov_base w' = ov_base ?w" "ov_items w' = ov_items ?w"
    by blast
  moreover have "(map_of (ov_txs w))(k \<mapsto> item) ++ map_of txs = map_of (ov_txs w) ++ map_of (kt # txs)"
    using k(2) by (auto simp: kt map_add_def fun_eq_iff split: option.splits)
  ultimately show ?case
    unfolding kt by (intro exI [of _ w']) (simp del: map_of.simps)
qed auto

lemma mfor_keeps:
  assumes "mfor f xs s = Done (r, s')" and "P s"
    and "\<And>x s r s'. f x s = Done (r, s') \<Longrightarrow> P s \<Longrightarrow> P s'"
  shows "P s'"
  using assms(1,2)
proof (induction xs arbitrary: s)
  case (Cons x xs)
  then obtain r1 s1 where "f x s = Done (r1, s1)"
    by (auto simp: mbind_def bind_outcome_Done_iff)
  with Cons assms(3) show ?case by (cases r1) auto
qed auto

lemma ov_table_keeps_txs: "ov_table m w = Done (r, w') \<Longrightarrow> ov_txs w' = ov_txs w"
  by (auto simp: mlift_def bind_outcome_Done_iff)

lemma rt_apply_keeps_txs:
  assumes "rt_apply t (ov_raw_view fixed) w = Done (Inr (), w')"
  shows "ov_txs w' = ov_txs w"
proof -
  obtain r1 w1 where w1: "rw_destroy_xrp (ov_raw_view fixed) (rt_drops_destroyed t) w = Done (r1, w1)"
    using assms by (auto simp: rt_apply_def mbind_def bind_outcome_Done_iff)
  then have "r1 = Inr ()" and r: "mfor (rt_apply_entry (ov_raw_view fixed)) (rt_items t) w1 = Done (Inr (), w')"
    using assms by (cases r1; simp add: rt_apply_def)+
  show ?thesis
    using r
    by (rule mfor_keeps)
      (use w1 in \<open>auto simp: ov_raw_view_def rt_apply_entry_def dest!: ov_table_keeps_txs split: raw_action.splits\<close>)
qed

text \<open>
  C17: An open view over a lawful base takes every legal sequence of insertions, replacements and
  removals, and then reads, tests and enumerates exactly the contents that the sequence describes.
\<close>

theorem open_view_refines:
  assumes "reads_map kt base B" and "legal_batch kt ops B"
  shows "\<exists>v. raw_apply_sle_batch (ov_raw_view fixed) ops (ov_new_open base) = Done (Inr (), v) \<and>
    reads_map kt (ov_read_view v) (ideal_batch ops B)"
proof -
  note new = ov_inv_new [OF assms(1)]
  obtain v where "raw_apply_sle_batch (ov_raw_view fixed) ops (ov_new_open base) = Done (Inr (), v)"
    "ov_inv kt v" "ov_contents v = ideal_batch ops B"
    using open_target.batch_run [OF new(1), of ops fixed] assms(2) by (auto simp: new(2))
  then show ?thesis
    using ov_reads_map [of kt v] by auto
qed

theorem open_view_refines_witness:
  "\<exists>v. raw_apply_sle_batch (ov_raw_view True)
       [(B_Insert, demo_sle 3 30), (B_Update, demo_sle 3 31), (B_Insert, demo_sle 4 40),
        (B_Delete, demo_sle 3 31)] (ov_new_open empty_view) = Done (Inr (), v) \<and>
     reads_map (\<lambda>_. Offer) (ov_read_view v) [4 \<mapsto> demo_sle 4 40]"
proof -
  let ?ops = "[(B_Insert, demo_sle 3 30), (B_Update, demo_sle 3 31), (B_Insert, demo_sle 4 40),
    (B_Delete, demo_sle 3 31)]"
  have "ideal_batch ?ops (\<lambda>_. None) = [4 \<mapsto> demo_sle 4 40]"
    by (auto simp: batch_change_def demo_sle_def fun_eq_iff)
  then show ?thesis
    using open_view_refines [OF empty_view_reads, of "\<lambda>_. Offer" ?ops True]
    by (simp add: typed_demo_sle batch_change_def) (simp add: demo_sle_def)
qed

text \<open>
  C18: Applying an open view to another one that shows the contents of its base makes the second
  show the contents of the first, adds up the destroyed XRP and takes over the transactions.
\<close>

theorem open_view_commits:
  assumes "ov_inv kt v" and "ov_inv kt w" and "ov_contents w = base_map (ov_base v)"
    and "in_i64 (ov_destroyed w + ov_destroyed v)"
    and "unique_keys (ov_txs v)" and "keys (ov_txs v) \<inter> keys (ov_txs w) = {}"
  shows "\<exists>w'. ov_apply v (ov_raw_view fixed) w = Done (Inr (), w') \<and>
    reads_map kt (ov_read_view w') (ov_contents v) \<and>
    ov_destroyed w' = ov_destroyed w + ov_destroyed v \<and>
    map_of (ov_txs w') = map_of (ov_txs w) ++ map_of (ov_txs v)"
proof -
  obtain w1 where w1: "rt_apply (ov_items v) (ov_raw_view fixed) w = Done (Inr (), w1)" "ov_inv kt w1"
    "ov_contents w1 = ov_contents v" "ov_destroyed w1 = ov_destroyed w + ov_destroyed v"
    using open_target.rt_apply_commits [OF assms(2), of "ov_items v" fixed] assms(1,3,4)
    by (auto simp: ov_inv_def ov_contents_def)
  have txs: "ov_txs w1 = ov_txs w"
    by (rule rt_apply_keeps_txs [OF w1(1)])
  obtain w2 where w2: "mfor (\<lambda>(k, item). ov_raw_tx_insert k (te_txn item) (te_metadata item)) (ov_txs v) w1 =
      Done (Inr (), w2)" "map_of (ov_txs w2) = map_of (ov_txs w) ++ map_of (ov_txs v)"
      "ov_base w2 = ov_base w1" "ov_items w2 = ov_items w1"
    using ov_tx_inserts [OF assms(5), of w1] assms(6) txs by auto
  have "ov_inv kt w2" "ov_contents w2 = ov_contents v"
    using w1(2,3) w2(3,4) by (auto simp: ov_inv_def ov_contents_def)
  then show ?thesis
    using w1 w2 ov_reads_map [of kt w2] by (auto simp: ov_apply_def ov_raw_view_def)
qed

theorem open_view_commits_witness:
  "\<exists>w. ov_apply demo_open_view (ov_raw_view True) (ov_new_open empty_view) = Done (Inr (), w) \<and>
     reads_map (\<lambda>_. Offer) (ov_read_view w) [3 \<mapsto> demo_sle 3 30] \<and> ov_destroyed w = 12 \<and>
     map_of (ov_txs w) = [9 \<mapsto> \<lparr>te_txn = [1, 2], te_metadata = None\<rparr>]"
proof -
  note new = ov_inv_new [OF empty_view_reads [of "\<lambda>_. Offer"]]
  have base: "base_map (ov_base demo_open_view) = (\<lambda>_. None)"
    by (auto simp: demo_open_view_def ov_new_open_def Let_def base_map_def empty_view_def)
  have drops: "ov_destroyed demo_open_view = 12" "ov_destroyed (ov_new_open empty_view) = 0"
    and txs: "ov_txs demo_open_view = [(9, \<lparr>te_txn = [1, 2], te_metadata = None\<rparr>)]"
      "ov_txs (ov_new_open empty_view) = []"
    by (auto simp: demo_open_view_def ov_new_open_def Let_def rt_new_def)
  show ?thesis
    using open_view_commits [OF demo_open_view_inv new(1), of True]
    by (simp add: new(2) base drops txs in_i64_def demo_open_view_contents)
qed

text \<open>
  C33: The enumeration of an open view ends and returns its entries in increasing order of their keys.
\<close>

theorem open_view_sles:
  assumes "ov_inv kt v" and "card (dom (ov_contents v)) < n"
  shows "ov_sles n v =
    vok (map (\<lambda>k. the (ov_contents v k)) (sorted_list_of_set (dom (ov_contents v))))"
  using ov_sles_from_spec [OF assms(1), of 0 n] assms(2) sles_domain [OF assms(1)]
  by (simp add: ov_sles_def)

theorem open_view_sles_witness: "ov_sles 2 demo_open_view = vok [demo_sle 3 30]"
  using open_view_sles [OF demo_open_view_inv, of 2] by (simp add: demo_open_view_contents)

end
