(* ===== verification/Apply_State_Table.thy ===== *)
theory Apply_State_Table
  imports Raw_State_Table
begin

text \<open>
  \<open>ApplyStateTable\<close> (\<open>views/apply_state_table.rs\<close>), the changes of a transaction with the entries it
  has checked out, and \<open>Sandbox\<close> (\<open>views/sandbox.rs\<close>), the table over a base. A sandbox over a lawful
  base fulfils the contract of an apply view, and applying its table to a view with the contents of
  the base gives it the contents of the sandbox.
\<close>

section \<open>The table\<close>

datatype apply_action = A_Cache | A_Erase | A_Insert | A_Modify

record 'o state_entry =
  se_action :: apply_action
  se_sle :: "'o sle"

record 'o apply_state_table =
  at_items :: "(uint256 \<times> 'o state_entry) list"
  at_drops_destroyed :: int

definition at_new :: "'o apply_state_table" where
  "at_new = \<lparr>at_items = [], at_drops_destroyed = 0\<rparr>"

definition at_destroy_xrp :: "bool \<Rightarrow> int \<Rightarrow> ('o apply_state_table, unit) vm" where
  "at_destroy_xrp fixed fee t =
     bind_outcome (xrp_add_assign fixed (at_drops_destroyed t) fee)
       (\<lambda>d. mret () (t\<lparr>at_drops_destroyed := d\<rparr>))"

definition at_succ ::
  "'o read_view \<Rightarrow> uint256 \<Rightarrow> uint256 option \<Rightarrow> 'o apply_state_table \<Rightarrow> uint256 option vresult" where
  "at_succ base k bound t =
     vbind (skip_erased (Suc (length (at_items t))) (\<lambda>c. rv_succ base c bound)
         (\<lambda>c. case map_of (at_items t) c of None \<Rightarrow> False | Some e \<Rightarrow> se_action e = A_Erase) k)
       (\<lambda>next. vok (merge_next bound next (first_shown (\<lambda>e. se_action e = A_Erase) (at_items t) k)))"

definition at_exists :: "'o read_view \<Rightarrow> keylet \<Rightarrow> 'o apply_state_table \<Rightarrow> bool vresult" where
  "at_exists base k t =
     (case map_of (at_items t) (kl_key k) of
        Some e \<Rightarrow> vok (se_action e \<noteq> A_Erase)
      | None \<Rightarrow> rv_exists base k)"

definition at_read :: "'o read_view \<Rightarrow> keylet \<Rightarrow> 'o apply_state_table \<Rightarrow> 'o sle option vresult" where
  "at_read base k t =
     (case map_of (at_items t) (kl_key k) of
        Some e \<Rightarrow> vok (if se_action e = A_Erase then None else Some (se_sle e))
      | None \<Rightarrow> rv_read base k)"

definition at_put ::
  "uint256 \<Rightarrow> apply_action \<Rightarrow> 'o sle \<Rightarrow> 'o apply_state_table \<Rightarrow> 'o apply_state_table" where
  "at_put k a x t = t\<lparr>at_items := bt_insert k \<lparr>se_action = a, se_sle = x\<rparr> (at_items t)\<rparr>"

definition at_peek :: "'o read_view \<Rightarrow> keylet \<Rightarrow> ('o apply_state_table, 'o sle option) vm" where
  "at_peek base k t =
     (case map_of (at_items t) (kl_key k) of
        Some e \<Rightarrow> mret (if se_action e = A_Erase then None else Some (se_sle e)) t
      | None \<Rightarrow>
          mbind (mread (\<lambda>_. rv_read base k)) (\<lambda>sle t.
            case sle of
              None \<Rightarrow> mret None t
            | Some x \<Rightarrow> mret (Some x) (at_put (kl_key k) A_Cache x t)) t)"

definition at_insert :: "'o sle \<Rightarrow> ('o apply_state_table, unit) vm" where
  "at_insert x t =
     (case map_option se_action (map_of (at_items t) (sle_key x)) of
        Some A_Cache \<Rightarrow> mfail (Conversion ''ApplyStateTable::insert: already cached'') t
      | Some A_Insert \<Rightarrow> mfail (Conversion ''ApplyStateTable::insert: already inserted'') t
      | Some A_Modify \<Rightarrow> mfail (Conversion ''ApplyStateTable::insert: already modified'') t
      | Some A_Erase \<Rightarrow> mret () (at_put (sle_key x) A_Modify x t)
      | None \<Rightarrow> mret () (at_put (sle_key x) A_Insert x t))"

definition at_replace :: "'o sle \<Rightarrow> ('o apply_state_table, unit) vm" where
  "at_replace x t =
     (case map_option se_action (map_of (at_items t) (sle_key x)) of
        Some A_Erase \<Rightarrow> mfail (Conversion ''ApplyStateTable::replace: already erased'') t
      | Some A_Cache \<Rightarrow> mret () (at_put (sle_key x) A_Modify x t)
      | Some a \<Rightarrow> mret () (at_put (sle_key x) a x t)
      | None \<Rightarrow> mret () (at_put (sle_key x) A_Modify x t))"

definition at_update :: "'o sle \<Rightarrow> ('o apply_state_table, unit) vm" where
  "at_update x t =
     (case map_option se_action (map_of (at_items t) (sle_key x)) of
        None \<Rightarrow> mfail (Conversion ''ApplyStateTable::update: missing key'') t
      | Some A_Erase \<Rightarrow> mfail (Conversion ''ApplyStateTable::update: erased'') t
      | Some A_Cache \<Rightarrow> mret () (at_put (sle_key x) A_Modify x t)
      | Some a \<Rightarrow> mret () (at_put (sle_key x) a x t))"

definition at_erase :: "'o sle \<Rightarrow> ('o apply_state_table, unit) vm" where
  "at_erase x t =
     (case map_option se_action (map_of (at_items t) (sle_key x)) of
        None \<Rightarrow> mfail (Conversion ''ApplyStateTable::erase: missing key'') t
      | Some A_Erase \<Rightarrow> mfail (Conversion ''ApplyStateTable::erase: double erase'') t
      | Some A_Insert \<Rightarrow> mret () (t\<lparr>at_items := bt_remove (sle_key x) (at_items t)\<rparr>)
      | Some _ \<Rightarrow> mret () (at_put (sle_key x) A_Erase x t))"

definition at_batch_op :: "apply_action \<Rightarrow> batch_op option" where
  "at_batch_op a =
     (case a of
        A_Erase \<Rightarrow> Some B_Delete | A_Insert \<Rightarrow> Some B_Insert | A_Modify \<Rightarrow> Some B_Update
      | A_Cache \<Rightarrow> None)"

definition at_batch_ops :: "'o apply_state_table \<Rightarrow> (batch_op \<times> 'o sle) list" where
  "at_batch_ops t =
     concat (map (\<lambda>(_, e). case at_batch_op (se_action e) of None \<Rightarrow> [] | Some op \<Rightarrow> [(op, se_sle e)])
       (at_items t))"

definition at_apply :: "'o apply_state_table \<Rightarrow> ('s, 'o, 'm) raw_view_scheme \<Rightarrow> ('s, unit) vm" where
  "at_apply t R =
     mbind (raw_apply_sle_batch R (at_batch_ops t)) (\<lambda>_. rw_destroy_xrp R (at_drops_destroyed t))"

section \<open>The sandbox\<close>

record 'o sandbox =
  sb_base :: "'o read_view"
  sb_table :: "'o apply_state_table"
  sb_flags :: u32

definition sb_new :: "'o read_view \<Rightarrow> u32 \<Rightarrow> 'o sandbox" where
  "sb_new base flags = \<lparr>sb_base = base, sb_table = at_new, sb_flags = flags\<rparr>"

definition sb_apply :: "'o sandbox \<Rightarrow> ('s, 'o, 'm) raw_view_scheme \<Rightarrow> ('s, unit) vm" where
  "sb_apply s R = at_apply (sb_table s) R"

definition sb_read_view :: "'o sandbox \<Rightarrow> 'o read_view" where
  "sb_read_view s =
     \<lparr>rv_open = rv_open (sb_base s), rv_header = rv_header (sb_base s),
      rv_exists = (\<lambda>k. at_exists (sb_base s) k (sb_table s)),
      rv_succ = (\<lambda>k bound. at_succ (sb_base s) k bound (sb_table s)),
      rv_read = (\<lambda>k. at_read (sb_base s) k (sb_table s))\<rparr>"

abbreviation sb_lift :: "('o apply_state_table, 'a) vm \<Rightarrow> ('o sandbox, 'a) vm" where
  "sb_lift m \<equiv> mlift sb_table (\<lambda>t s. s\<lparr>sb_table := t\<rparr>) m"

definition sb_raw_view :: "bool \<Rightarrow> ('o sandbox, 'o) raw_view" where
  "sb_raw_view fixed =
     \<lparr>rw_erase = (\<lambda>x. sb_lift (at_erase x)), rw_insert = (\<lambda>x. sb_lift (at_insert x)),
      rw_replace = (\<lambda>x. sb_lift (at_replace x)),
      rw_destroy_xrp = (\<lambda>fee. sb_lift (at_destroy_xrp fixed fee))\<rparr>"

definition sb_apply_view :: "bool \<Rightarrow> ('o sandbox, 'o) apply_view" where
  "sb_apply_view fixed =
     \<lparr>av_flags = sb_flags,
      av_exists = (\<lambda>k s. at_exists (sb_base s) k (sb_table s)),
      av_succ = (\<lambda>k bound s. at_succ (sb_base s) k bound (sb_table s)),
      av_read = (\<lambda>k s. at_read (sb_base s) k (sb_table s)),
      av_peek = (\<lambda>k s. sb_lift (at_peek (sb_base s) k) s),
      av_insert = rw_insert (sb_raw_view fixed),
      av_update = (\<lambda>x. sb_lift (at_update x)),
      av_erase = rw_erase (sb_raw_view fixed),
      av_destroy_xrp = rw_destroy_xrp (sb_raw_view fixed)\<rparr>"

section \<open>Contents of the table\<close>

definition at_shown :: "'o state_entry \<Rightarrow> 'o sle option" where
  "at_shown e = (if se_action e = A_Erase then None else Some (se_sle e))"

definition at_contents ::
  "'o apply_state_table \<Rightarrow> (uint256 \<Rightarrow> 'o sle option) \<Rightarrow> uint256 \<Rightarrow> 'o sle option" where
  "at_contents t B = overlay at_shown (at_items t) B"

text \<open>
  The table is consistent with the base: entries are filed under their keys, exactly the inserted
  ones are not in the base, and a cached entry is that of the base.
\<close>

definition at_ok ::
  "(uint256 \<Rightarrow> ledger_entry_type) \<Rightarrow> (uint256 \<Rightarrow> 'o sle option) \<Rightarrow> 'o apply_state_table \<Rightarrow> bool" where
  "at_ok kt B t \<longleftrightarrow>
     bt_ok (at_items t) \<and> 0 \<le> at_drops_destroyed t \<and>
     (\<forall>k e. map_of (at_items t) k = Some e \<longrightarrow>
        sle_key (se_sle e) = k \<and> typed kt (se_sle e) \<and> (B k = None \<longleftrightarrow> se_action e = A_Insert) \<and>
        (se_action e = A_Cache \<longrightarrow> B k = Some (se_sle e)))"

lemma at_ok_new [simp]: "at_ok kt B at_new"
  by (simp add: at_ok_def at_new_def)

lemma at_contents_new [simp]: "at_contents at_new B = B"
  by (auto simp: at_contents_def at_new_def overlay_def)

lemma at_entryD:
  assumes "at_ok kt B t" and "map_of (at_items t) k = Some e"
  shows "sle_key (se_sle e) = k" "typed kt (se_sle e)" "B k = None \<longleftrightarrow> se_action e = A_Insert"
    "se_action e = A_Cache \<Longrightarrow> B k = Some (se_sle e)"
  using assms by (auto simp: at_ok_def)

lemma at_contents_base:
  "map_of (at_items t) k = None \<Longrightarrow> at_contents t B k = B k"
  "map_of (at_items t) k = Some e \<Longrightarrow> at_contents t B k = at_shown e"
  by (simp_all add: at_contents_def overlay_def)

lemma at_shown_None: "at_shown e = None \<longleftrightarrow> se_action e = A_Erase"
  by (simp add: at_shown_def)

lemma at_contents_typed: "typed_map kt B \<Longrightarrow> at_ok kt B t \<Longrightarrow> typed_map kt (at_contents t B)"
  by (auto simp: typed_map_def at_ok_def at_contents_def overlay_def at_shown_def
      split: option.splits if_splits)

lemma at_read_spec:
  "reads_map kt base B \<Longrightarrow> fits kt kl \<Longrightarrow> at_read base kl t = vok (at_contents t B (kl_key kl))"
  by (auto simp: at_read_def at_contents_def overlay_def at_shown_def reads_map_def
      split: option.split)

lemma at_exists_spec:
  "reads_map kt base B \<Longrightarrow> fits kt kl \<Longrightarrow> at_exists base kl t = vok (at_contents t B (kl_key kl) \<noteq> None)"
  by (auto simp: at_exists_def at_contents_def overlay_def at_shown_def reads_map_def
      split: option.split)

lemma at_succ_spec:
  "reads_map kt base B \<Longrightarrow> at_ok kt B t \<Longrightarrow>
     at_succ base k bound t = vok (next_key (dom (at_contents t B)) k bound)"
  unfolding at_succ_def at_contents_def
  by (intro overlay_succ) (auto simp: at_ok_def reads_map_def at_shown_None)

text \<open>What the table offers to its user.\<close>

definition at_ideal :: "(uint256 \<Rightarrow> 'o sle option) \<Rightarrow> 'o apply_state_table \<Rightarrow> 'o ideal" where
  "at_ideal B t =
     \<lparr>contents = at_contents t B, checked_out = keys (at_items t), destroyed = at_drops_destroyed t\<rparr>"

lemma at_put_ok:
  assumes "at_ok kt B t" and "typed kt x" and "B (sle_key x) = None \<longleftrightarrow> a = A_Insert"
    and "a = A_Cache \<Longrightarrow> B (sle_key x) = Some x"
  shows "at_ok kt B (at_put (sle_key x) a x t)"
    and "at_ideal B (at_put (sle_key x) a x t) = (at_ideal B t)
      \<lparr>contents := (at_contents t B)(sle_key x := (if a = A_Erase then None else Some x)),
       checked_out := insert (sle_key x) (keys (at_items t))\<rparr>"
  using assms by (auto simp: at_put_def at_ok_def at_ideal_def at_contents_def at_shown_def)

lemma at_peek_ok:
  assumes "reads_map kt base B" and "at_ok kt B t" and "fits kt kl"
  shows "\<exists>t'. at_peek base kl t = Done (Inr (at_contents t B (kl_key kl)), t') \<and> at_ok kt B t' \<and>
    covers (ideal_op (V_Peek kl) (at_ideal B t)) (at_ideal B t')"
proof (cases "map_of (at_items t) (kl_key kl)")
  case (Some e)
  then show ?thesis
    using assms(2) map_of_in [OF Some]
    by (auto simp: at_peek_def at_contents_base at_shown_def covers_def at_ideal_def keys_in)
next
  case None
  have read: "rv_read base kl = vok (B (kl_key kl))"
    using assms(1,3) by (simp add: reads_map_def)
  show ?thesis
  proof (cases "B (kl_key kl)")
    case B: None
    then show ?thesis
      using None read assms(2) by (auto simp: at_peek_def at_contents_base at_ideal_def)
  next
    case B: (Some x)
    then have x: "sle_key x = kl_key kl" "typed kt x"
      using typed_mapD [OF reads_map_typed [OF assms(1)]] by auto
    note put = at_put_ok [OF assms(2) x(2), of A_Cache, unfolded x(1)]
    show ?thesis
      using B None read put by (auto simp: at_peek_def at_contents_base at_ideal_def covers_def)
  qed
qed

lemma at_insert_ok:
  assumes "at_ok kt B t" and "legal_op kt (V_Insert x) (at_ideal B t)"
  shows "\<exists>t'. at_insert x t = Done (Inr (), t') \<and> at_ok kt B t' \<and>
    covers (ideal_op (V_Insert x) (at_ideal B t)) (at_ideal B t')"
proof (cases "map_of (at_items t) (sle_key x)")
  case None
  then show ?thesis
    using assms at_put_ok [OF assms(1), of x A_Insert]
    by (auto simp: at_insert_def at_ideal_def at_contents_base covers_def)
next
  case (Some e)
  then have "se_action e = A_Erase"
    using assms(2) by (simp add: at_ideal_def at_contents_base at_shown_None)
  then show ?thesis
    using Some assms at_entryD [OF assms(1) Some] at_put_ok [OF assms(1), of x A_Modify]
    by (auto simp: at_insert_def at_ideal_def covers_def)
qed

lemma at_held_entry:
  assumes "sle_key x \<in> checked_out (at_ideal B t)" and "contents (at_ideal B t) (sle_key x) \<noteq> None"
  obtains e where "map_of (at_items t) (sle_key x) = Some e" "se_action e \<noteq> A_Erase"
proof -
  obtain e where e: "map_of (at_items t) (sle_key x) = Some e"
    using assms(1) map_of_None_keys [of "at_items t" "sle_key x"] by (auto simp: at_ideal_def)
  then show ?thesis
    using that assms(2) by (auto simp: at_ideal_def at_contents_base at_shown_def split: if_splits)
qed

lemma at_update_ok:
  assumes "at_ok kt B t" and "legal_op kt (V_Update x) (at_ideal B t)"
  shows "\<exists>t'. at_update x t = Done (Inr (), t') \<and> at_ok kt B t' \<and>
    covers (ideal_op (V_Update x) (at_ideal B t)) (at_ideal B t')"
proof -
  obtain e where e: "map_of (at_items t) (sle_key x) = Some e" "se_action e \<noteq> A_Erase"
    using at_held_entry [of x B t] assms(2) by auto
  define a where "a = (if se_action e = A_Cache then A_Modify else se_action e)"
  have "at_update x t = Done (Inr (), at_put (sle_key x) a x t)"
    using e by (cases "se_action e") (auto simp: at_update_def a_def)
  then show ?thesis
    using e at_entryD [OF assms(1) e(1)] at_put_ok [OF assms(1), of x a] assms(2)
    by (auto simp: a_def covers_def at_ideal_def split: if_splits)
qed

lemma at_erase_ok:
  assumes "at_ok kt B t" and "legal_op kt (V_Erase x) (at_ideal B t)"
  shows "\<exists>t'. at_erase x t = Done (Inr (), t') \<and> at_ok kt B t' \<and>
    covers (ideal_op (V_Erase x) (at_ideal B t)) (at_ideal B t')"
proof -
  obtain e where e: "map_of (at_items t) (sle_key x) = Some e" "se_action e \<noteq> A_Erase"
    using at_held_entry [of x B t] assms(2) by auto
  show ?thesis
  proof (cases "se_action e = A_Insert")
    case True
    then show ?thesis
      using e at_entryD [OF assms(1) e(1)] assms
      by (auto simp: at_erase_def at_ideal_def at_contents_def overlay_remove at_ok_def covers_def)
  next
    case False
    then have "at_erase x t = Done (Inr (), at_put (sle_key x) A_Erase x t)"
      using e by (cases "se_action e") (auto simp: at_erase_def)
    then show ?thesis
      using False at_entryD [OF assms(1) e(1)] at_put_ok [OF assms(1), of x A_Erase] assms(2)
      by (auto simp: covers_def at_ideal_def)
  qed
qed

section \<open>The sandbox is lawful\<close>

definition sb_ideal :: "'o sandbox \<Rightarrow> 'o ideal" where
  "sb_ideal s = at_ideal (base_map (sb_base s)) (sb_table s)"

definition sb_inv :: "(uint256 \<Rightarrow> ledger_entry_type) \<Rightarrow> 'o read_view \<Rightarrow> 'o sandbox \<Rightarrow> bool" where
  "sb_inv kt base s \<longleftrightarrow>
     sb_base s = base \<and> reads_map kt base (base_map base) \<and> at_ok kt (base_map base) (sb_table s)"

lemma contents_sb_ideal [simp]: "contents (sb_ideal s) = at_contents (sb_table s) (base_map (sb_base s))"
  by (simp add: sb_ideal_def at_ideal_def)

lemma sb_inv_new:
  assumes "reads_map kt base B"
  shows "sb_inv kt base (sb_new base flags)"
    and "sb_ideal (sb_new base flags) = \<lparr>contents = B, checked_out = {}, destroyed = 0\<rparr>"
  using assms reads_map_base [OF assms]
  by (auto simp: sb_inv_def sb_ideal_def sb_new_def at_ideal_def) (auto simp: at_new_def)

lemma sb_reads_map:
  assumes "sb_inv kt base s"
  shows "reads_map kt (sb_read_view s) (contents (sb_ideal s))"
proof -
  have base: "reads_map kt (sb_base s) (base_map (sb_base s))"
    and ok: "at_ok kt (base_map (sb_base s)) (sb_table s)"
    using assms by (simp_all add: sb_inv_def)
  show ?thesis
    unfolding reads_map_def [of kt "sb_read_view s"]
    using at_contents_typed [OF reads_map_typed [OF base] ok]
    by (simp add: sb_read_view_def at_read_spec [OF base] at_exists_spec [OF base]
        at_succ_spec [OF base ok])
qed

lemma mbind_mret_Done: "mbind m (\<lambda>_. mret ()) s = Done (r, s') \<Longrightarrow> \<exists>r'. m s = Done (r', s')"
  by (cases "m s") (auto simp: mbind_def split: sum.splits prod.splits)

lemma sb_run_op_keeps:
  assumes "run_op (sb_apply_view fixed) op s = Done (r, s')"
  shows "sb_base s' = sb_base s \<and> sb_flags s' = sb_flags s"
  using assms
  by (cases op)
    (auto simp: sb_apply_view_def sb_raw_view_def mlift_def bind_outcome_Done_iff
      dest!: mbind_mret_Done)

interpretation sandbox_view: ledger_view kt "sb_apply_view fixed" "sb_inv kt base" sb_ideal
  for kt fixed base
proof
  show "av_flags (sb_apply_view fixed) s' = av_flags (sb_apply_view fixed) s"
    if "av_peek (sb_apply_view fixed) kl s = Done (r, s')" for s s' :: "'a sandbox" and kl r
    using that by (auto simp: sb_apply_view_def mlift_def bind_outcome_Done_iff)
  show "av_flags (sb_apply_view fixed) s' = av_flags (sb_apply_view fixed) s"
    if "run_op (sb_apply_view fixed) op s = Done (r, s')" for op r and s s' :: "'a sandbox"
    using sb_run_op_keeps [OF that] by (simp add: sb_apply_view_def)
next
  fix s :: "'a sandbox" and x :: "'a sle" and fee kl k bound
  assume s: "sb_inv kt base s"
  then have bs: "sb_base s = base" and base: "reads_map kt (sb_base s) (base_map (sb_base s))"
    and ok: "at_ok kt (base_map (sb_base s)) (sb_table s)"
    by (simp_all add: sb_inv_def)
  note reads = sb_reads_map [OF s, unfolded reads_map_def]
  show "typed_map kt (contents (sb_ideal s))"
    using reads by simp
  show "av_read (sb_apply_view fixed) kl s = vok (contents (sb_ideal s) (kl_key kl))" if "fits kt kl"
    using reads that by (simp add: sb_apply_view_def sb_read_view_def)
  show "av_exists (sb_apply_view fixed) kl s = vok (contents (sb_ideal s) (kl_key kl) \<noteq> None)"
    if "fits kt kl"
    using reads that by (simp add: sb_apply_view_def sb_read_view_def)
  show "av_succ (sb_apply_view fixed) k bound s = vok (next_key (dom (contents (sb_ideal s))) k bound)"
    using reads by (simp add: sb_apply_view_def sb_read_view_def)
  show "\<exists>s'. av_peek (sb_apply_view fixed) kl s = Done (Inr (contents (sb_ideal s) (kl_key kl)), s') \<and>
      sb_inv kt base s' \<and> covers (ideal_op (V_Peek kl) (sb_ideal s)) (sb_ideal s')" if "fits kt kl"
    using at_peek_ok [OF base ok that] base
    by (auto simp: sb_apply_view_def sb_inv_def sb_ideal_def at_ideal_def bs)
  show "\<exists>s'. av_insert (sb_apply_view fixed) x s = Done (Inr (), s') \<and>
      sb_inv kt base s' \<and> covers (ideal_op (V_Insert x) (sb_ideal s)) (sb_ideal s')"
    if "legal_op kt (V_Insert x) (sb_ideal s)"
    using at_insert_ok [OF ok] that base
    by (fastforce simp: sb_apply_view_def sb_raw_view_def sb_inv_def sb_ideal_def bs)
  show "\<exists>s'. av_update (sb_apply_view fixed) x s = Done (Inr (), s') \<and>
      sb_inv kt base s' \<and> covers (ideal_op (V_Update x) (sb_ideal s)) (sb_ideal s')"
    if "legal_op kt (V_Update x) (sb_ideal s)"
    using at_update_ok [OF ok] that base
    by (fastforce simp: sb_apply_view_def sb_raw_view_def sb_inv_def sb_ideal_def bs)
  show "\<exists>s'. av_erase (sb_apply_view fixed) x s = Done (Inr (), s') \<and>
      sb_inv kt base s' \<and> covers (ideal_op (V_Erase x) (sb_ideal s)) (sb_ideal s')"
    if "legal_op kt (V_Erase x) (sb_ideal s)"
    using at_erase_ok [OF ok] that base
    by (fastforce simp: sb_apply_view_def sb_raw_view_def sb_inv_def sb_ideal_def bs)
  show "\<exists>s'. av_destroy_xrp (sb_apply_view fixed) fee s = Done (Inr (), s') \<and>
      sb_inv kt base s' \<and> covers (ideal_op (V_Destroy fee) (sb_ideal s)) (sb_ideal s')"
    if "legal_op kt (V_Destroy fee) (sb_ideal s)"
    using that base ok
    by (auto simp: sb_apply_view_def sb_raw_view_def sb_inv_def sb_ideal_def bs at_destroy_xrp_def
        at_ideal_def at_ok_def at_contents_def covers_def)
qed

section \<open>Committing a table\<close>

lemma at_items_batch:
  assumes "unique_keys items"
    and "\<And>k e. (k, e) \<in> set items \<Longrightarrow>
      sle_key (se_sle e) = k \<and> typed kt (se_sle e) \<and> (B k = None \<longleftrightarrow> se_action e = A_Insert) \<and>
      (se_action e = A_Cache \<longrightarrow> B k = Some (se_sle e))"
  shows "legal_batch kt (at_batch_ops \<lparr>at_items = items, at_drops_destroyed = d\<rparr>) B \<and>
    ideal_batch (at_batch_ops \<lparr>at_items = items, at_drops_destroyed = d\<rparr>) B = overlay at_shown items B"
  using assms
proof (induction items arbitrary: B)
  case (Cons ke items)
  obtain k e where ke: "ke = (k, e)" by (cases ke)
  have e: "sle_key (se_sle e) = k" "typed kt (se_sle e)" "B k = None \<longleftrightarrow> se_action e = A_Insert"
    "se_action e = A_Cache \<Longrightarrow> B k = Some (se_sle e)"
    using Cons.prems(2) [of k e] by (auto simp: ke)
  have k: "map_of items k = None" "k' \<noteq> k" if "(k', e') \<in> set items" for k' e'
    using Cons.prems(1) that by (auto simp: ke map_of_None_keys dest: keys_in)
  have none: "map_of items k = None"
    using Cons.prems(1) by (auto simp: ke map_of_None_keys)
  define B' where "B' = B(k := at_shown e)"
  have rest: "legal_batch kt (at_batch_ops \<lparr>at_items = items, at_drops_destroyed = d\<rparr>) B' \<and>
    ideal_batch (at_batch_ops \<lparr>at_items = items, at_drops_destroyed = d\<rparr>) B' = overlay at_shown items B'"
    using Cons.prems k by (intro Cons.IH) (auto simp: ke B'_def)
  have over: "overlay at_shown (ke # items) B = overlay at_shown items B'"
    using none by (auto simp: ke overlay_def B'_def split: option.splits)
  show ?case
  proof (cases "at_batch_op (se_action e)")
    case None
    then have "B' = B"
      using e(4) by (auto simp: B'_def at_batch_op_def at_shown_def split: apply_action.splits)
    then show ?thesis
      using None rest over by (simp add: ke at_batch_ops_def)
  next
    case (Some op)
    then have "batch_change op (se_sle e) B = B'" and "op = B_Insert \<longleftrightarrow> se_action e = A_Insert"
      using e(1) by (auto simp: B'_def batch_change_def at_batch_op_def at_shown_def split: apply_action.splits)
    then show ?thesis
      using Some rest over e by (simp add: ke at_batch_ops_def)
  qed
qed (auto simp: at_batch_ops_def overlay_def)

lemma at_batch_legal:
  assumes "at_ok kt B t"
  shows "legal_batch kt (at_batch_ops t) B \<and> ideal_batch (at_batch_ops t) B = at_contents t B"
proof -
  have bt: "bt_ok (at_items t)"
    using assms by (simp add: at_ok_def)
  have "at_batch_ops t = at_batch_ops \<lparr>at_items = at_items t, at_drops_destroyed = 0\<rparr>"
    by (simp add: at_batch_ops_def)
  then show ?thesis
    using at_items_batch [OF bt_ok_unique [OF bt], of kt B 0] assms
    by (simp add: at_ok_def bt_ok_map_of_iff [OF bt] at_contents_def)
qed

context raw_target
begin

lemma at_apply_commits:
  assumes "inv s" and "at_ok kt (shows_map s) t" and "in_i64 (burnt s + at_drops_destroyed t)"
  shows "\<exists>s'. at_apply t R s = Done (Inr (), s') \<and> inv s' \<and>
    shows_map s' = at_contents t (shows_map s) \<and> burnt s' = burnt s + at_drops_destroyed t"
proof -
  obtain s1 where s1: "raw_apply_sle_batch R (at_batch_ops t) s = Done (Inr (), s1)" "inv s1"
    "shows_map s1 = at_contents t (shows_map s)" "burnt s1 = burnt s"
    using batch_run [OF assms(1), of "at_batch_ops t"] at_batch_legal [OF assms(2)] by auto
  then show ?thesis
    using raw_destroy_law [OF s1(2), of "at_drops_destroyed t"] assms(2,3)
    by (auto simp: at_apply_def at_ok_def)
qed

end

lemma sandbox_apply_commits:
  assumes "ov_inv kt v" and "sb_inv kt (ov_read_view v) s"
    and "in_i64 (ov_destroyed v + destroyed (sb_ideal s))"
  shows "\<exists>v'. sb_apply s (ov_raw_view fixed) v = Done (Inr (), v') \<and> ov_inv kt v' \<and>
    ov_contents v' = contents (sb_ideal s) \<and> ov_destroyed v' = ov_destroyed v + destroyed (sb_ideal s)"
  using open_target.at_apply_commits [OF assms(1), of "sb_table s" fixed] assms(2,3)
    reads_map_base [OF ov_reads_map [OF assms(1)]]
  by (simp add: sb_apply_def sb_inv_def sb_ideal_def at_ideal_def)

section \<open>An example\<close>

definition demo_ops :: "nat view_op list" where
  "demo_ops = [V_Peek \<lparr>kl_key = 3, kl_type = Offer\<rparr>, V_Update (demo_sle 3 31), V_Insert (demo_sle 4 40),
     V_Destroy 10, V_Erase (demo_sle 3 31)]"

definition demo_ideal :: "nat ideal" where
  "demo_ideal = \<lparr>contents = [4 \<mapsto> demo_sle 4 40], checked_out = {4}, destroyed = 10\<rparr>"

lemma demo_ops_legal:
  "legal_ops (\<lambda>_. Offer) demo_ops \<lparr>contents = [3 \<mapsto> demo_sle 3 30], checked_out = {}, destroyed = 0\<rparr>"
  "fold ideal_op demo_ops \<lparr>contents = [3 \<mapsto> demo_sle 3 30], checked_out = {}, destroyed = 0\<rparr> = demo_ideal"
proof -
  have keys: "sle_key (demo_sle k n) = k" for k n
    by (simp add: demo_sle_def)
  show "legal_ops (\<lambda>_. Offer) demo_ops \<lparr>contents = [3 \<mapsto> demo_sle 3 30], checked_out = {}, destroyed = 0\<rparr>"
    by (simp add: demo_ops_def keys typed_demo_sle fits_def check_entry_type_def in_i64_def)
  show "fold ideal_op demo_ops \<lparr>contents = [3 \<mapsto> demo_sle 3 30], checked_out = {}, destroyed = 0\<rparr> = demo_ideal"
    by (auto simp: demo_ops_def demo_ideal_def keys fun_eq_iff)
qed

section \<open>Properties\<close>

text \<open>
  C16: A transaction that works on a sandbox over an open view sees the contents that its operations
  describe, and applying the sandbox to the open view installs exactly these contents and the XRP
  it destroyed.
\<close>

theorem sandbox_commits:
  assumes "ov_inv kt v" and "legal_ops kt ops \<lparr>contents = ov_contents v, checked_out = {}, destroyed = 0\<rparr>"
    and "a = fold ideal_op ops \<lparr>contents = ov_contents v, checked_out = {}, destroyed = 0\<rparr>"
    and "in_i64 (ov_destroyed v + destroyed a)"
  shows "\<exists>s v'. mfor (run_op (sb_apply_view fixed)) ops (sb_new (ov_read_view v) flags) = Done (Inr (), s) \<and>
    reads_map kt (sb_read_view s) (contents a) \<and>
    sb_apply s (ov_raw_view fixed) v = Done (Inr (), v') \<and>
    reads_map kt (ov_read_view v') (contents a) \<and> ov_destroyed v' = ov_destroyed v + destroyed a"
proof -
  note new = sb_inv_new [OF ov_reads_map [OF assms(1)], of flags]
  obtain s where s: "mfor (run_op (sb_apply_view fixed)) ops (sb_new (ov_read_view v) flags) = Done (Inr (), s)"
    "sb_inv kt (ov_read_view v) s" "covers a (sb_ideal s)"
    using sandbox_view.run_ops_refine [OF new(1) _ assms(2), of fixed] new(2) assms(3) by auto
  then have a: "contents (sb_ideal s) = contents a" "destroyed (sb_ideal s) = destroyed a"
    by (auto simp: covers_def)
  obtain v' where "sb_apply s (ov_raw_view fixed) v = Done (Inr (), v')" "ov_inv kt v'"
    "ov_contents v' = contents a" "ov_destroyed v' = ov_destroyed v + destroyed a"
    using sandbox_apply_commits [OF assms(1) s(2), of fixed] a assms(4) by auto
  then show ?thesis
    using s a(1) sb_reads_map [OF s(2)] ov_reads_map [of kt v'] by auto
qed

theorem sandbox_commits_witness:
  "\<exists>s v'. mfor (run_op (sb_apply_view True))
       [V_Peek \<lparr>kl_key = 3, kl_type = Offer\<rparr>, V_Update (demo_sle 3 31), V_Insert (demo_sle 4 40),
        V_Destroy 10, V_Erase (demo_sle 3 31)]
       (sb_new (ov_read_view demo_open_view) 0) = Done (Inr (), s) \<and>
     reads_map (\<lambda>_. Offer) (sb_read_view s) [4 \<mapsto> demo_sle 4 40] \<and>
     sb_apply s (ov_raw_view True) demo_open_view = Done (Inr (), v') \<and>
     reads_map (\<lambda>_. Offer) (ov_read_view v') [4 \<mapsto> demo_sle 4 40] \<and> ov_destroyed v' = 22"
proof -
  have "ov_destroyed demo_open_view = 12"
    by (simp add: demo_open_view_def)
  then show ?thesis
    using sandbox_commits [OF demo_open_view_inv, of demo_ops demo_ideal True 0] demo_ops_legal
    by (simp add: demo_open_view_contents demo_ideal_def in_i64_def demo_ops_def
        del: mfor.simps legal_ops.simps fold_simps)
qed

end
