(* ===== verification/Flow_Sandbox.thy ===== *)
theory Flow_Sandbox
  imports Apply_State_Table
begin

text \<open>
  \<open>FlowSandbox\<close> (\<open>views/flow_sandbox.rs\<close>): a child of any apply view that keeps its writes to itself
  until it is applied to the parent. A child of a lawful view is again a lawful view, so that they
  nest; applying it installs its contents in the parent, and an application that would not fit the
  parent is refused before the parent is changed.
\<close>

section \<open>The child view\<close>

datatype flow_action = F_Insert | F_Modify | F_Erase

record 'o flow_entry =
  fe_action :: flow_action
  fe_sle :: "'o sle"

record ('s, 'o) flow_sandbox =
  fs_parent :: 's
  fs_items :: "(uint256 \<times> 'o flow_entry) list"
  fs_drops_destroyed :: int
  fs_flags :: "u32 option"

definition fs_new :: "'s \<Rightarrow> ('s, 'o) flow_sandbox" where
  "fs_new parent = \<lparr>fs_parent = parent, fs_items = [], fs_drops_destroyed = 0, fs_flags = None\<rparr>"

definition fs_new_with_flags :: "'s \<Rightarrow> u32 \<Rightarrow> ('s, 'o) flow_sandbox" where
  "fs_new_with_flags parent flags =
     \<lparr>fs_parent = parent, fs_items = [], fs_drops_destroyed = 0, fs_flags = Some flags\<rparr>"

definition fs_get_flags :: "('s, 'o) apply_view \<Rightarrow> ('s, 'o) flow_sandbox \<Rightarrow> u32" where
  "fs_get_flags P f = (case fs_flags f of Some flags \<Rightarrow> flags | None \<Rightarrow> av_flags P (fs_parent f))"

definition fs_exists :: "('s, 'o) apply_view \<Rightarrow> keylet \<Rightarrow> ('s, 'o) flow_sandbox \<Rightarrow> bool vresult" where
  "fs_exists P k f =
     (case map_of (fs_items f) (kl_key k) of
        Some e \<Rightarrow> vok (fe_action e \<noteq> F_Erase)
      | None \<Rightarrow> av_exists P k (fs_parent f))"

definition fs_succ ::
  "('s, 'o) apply_view \<Rightarrow> uint256 \<Rightarrow> uint256 option \<Rightarrow> ('s, 'o) flow_sandbox \<Rightarrow> uint256 option vresult"
where
  "fs_succ P k bound f =
     vbind (skip_erased (Suc (length (fs_items f))) (\<lambda>c. av_succ P c bound (fs_parent f))
         (\<lambda>c. case map_of (fs_items f) c of None \<Rightarrow> False | Some e \<Rightarrow> fe_action e = F_Erase) k)
       (\<lambda>below.
         let next = (case first_shown (\<lambda>e. fe_action e = F_Erase) (fs_items f) k of
               None \<Rightarrow> below
             | Some item_key \<Rightarrow>
                 (case below of
                    None \<Rightarrow> Some item_key
                  | Some n \<Rightarrow> if item_key < n then Some item_key else below))
         in case (bound, next) of
              (Some l, Some n) \<Rightarrow> vok (if l \<le> n then None else next)
            | _ \<Rightarrow> vok next)"

definition fs_read ::
  "('s, 'o) apply_view \<Rightarrow> keylet \<Rightarrow> ('s, 'o) flow_sandbox \<Rightarrow> 'o sle option vresult" where
  "fs_read P k f =
     (case map_of (fs_items f) (kl_key k) of
        Some e \<Rightarrow> vok (if fe_action e = F_Erase then None else Some (fe_sle e))
      | None \<Rightarrow> av_read P k (fs_parent f))"

abbreviation fs_with_parent :: "('s, 'a) vm \<Rightarrow> (('s, 'o) flow_sandbox, 'a) vm" where
  "fs_with_parent m \<equiv> mlift fs_parent (\<lambda>p f. f\<lparr>fs_parent := p\<rparr>) m"

definition fs_peek ::
  "('s, 'o) apply_view \<Rightarrow> keylet \<Rightarrow> (('s, 'o) flow_sandbox, 'o sle option) vm" where
  "fs_peek P k f =
     (case map_of (fs_items f) (kl_key k) of
        Some e \<Rightarrow> mret (if fe_action e = F_Erase then None else Some (fe_sle e)) f
      | None \<Rightarrow> fs_with_parent (av_peek P k) f)"

definition fs_put :: "flow_action \<Rightarrow> 'o sle \<Rightarrow> ('s, 'o) flow_sandbox \<Rightarrow> ('s, 'o) flow_sandbox" where
  "fs_put a x f = f\<lparr>fs_items := bt_insert (sle_key x) \<lparr>fe_action = a, fe_sle = x\<rparr> (fs_items f)\<rparr>"

definition fs_raw_insert :: "'o sle \<Rightarrow> (('s, 'o) flow_sandbox, unit) vm" where
  "fs_raw_insert x f =
     (let a = (case map_of (fs_items f) (sle_key x) of
           Some e \<Rightarrow> if fe_action e = F_Erase then F_Modify else F_Insert
         | None \<Rightarrow> F_Insert)
      in mret () (fs_put a x f))"

definition fs_raw_replace :: "'o sle \<Rightarrow> (('s, 'o) flow_sandbox, unit) vm" where
  "fs_raw_replace x f =
     (case map_of (fs_items f) (sle_key x) of
        Some e \<Rightarrow> mret () (fs_put (if fe_action e = F_Insert then F_Insert else F_Modify) x f)
      | None \<Rightarrow> mret () (fs_put F_Modify x f))"

definition fs_raw_erase :: "'o sle \<Rightarrow> (('s, 'o) flow_sandbox, unit) vm" where
  "fs_raw_erase x f =
     (case map_of (fs_items f) (sle_key x) of
        Some e \<Rightarrow>
          if fe_action e = F_Insert then mret () (f\<lparr>fs_items := bt_remove (sle_key x) (fs_items f)\<rparr>)
          else mret () (fs_put F_Erase x f)
      | None \<Rightarrow> mret () (fs_put F_Erase x f))"

definition fs_raw_destroy_xrp :: "int \<Rightarrow> (('s, 'o) flow_sandbox, unit) vm" where
  "fs_raw_destroy_xrp fee f =
     (if in_i64 (fs_drops_destroyed f + fee)
      then mret () (f\<lparr>fs_drops_destroyed := fs_drops_destroyed f + fee\<rparr>)
      else Panic)"

definition fs_apply_view :: "('s, 'o) apply_view \<Rightarrow> (('s, 'o) flow_sandbox, 'o) apply_view" where
  "fs_apply_view P =
     \<lparr>av_flags = fs_get_flags P, av_exists = fs_exists P, av_succ = fs_succ P, av_read = fs_read P,
      av_peek = fs_peek P, av_insert = fs_raw_insert, av_update = fs_raw_replace,
      av_erase = fs_raw_erase, av_destroy_xrp = fs_raw_destroy_xrp\<rparr>"

section \<open>Applying the child\<close>

definition fs_entry_keylet :: "uint256 \<Rightarrow> 'o flow_entry \<Rightarrow> keylet" where
  "fs_entry_keylet k e = \<lparr>kl_key = k, kl_type = sle_type (fe_sle e)\<rparr>"

definition fs_validate_entry ::
  "('s, 'o) apply_view \<Rightarrow> string \<Rightarrow> uint256 \<times> 'o flow_entry \<Rightarrow> ('s, unit) vm" where
  "fs_validate_entry P operation ke =
     (let (k, e) = ke; kl = fs_entry_keylet k e
      in mbind (mread (av_read P kl)) (\<lambda>existing.
           case (fe_action e, existing) of
             (F_Insert, Some _) \<Rightarrow>
               mfail (Conversion (operation @ '': inserted parent entry already exists''))
           | (F_Insert, None) \<Rightarrow> mret ()
           | (_, None) \<Rightarrow> mfail (Conversion (operation @ '': parent entry disappeared''))
           | _ \<Rightarrow> mbind (av_peek P kl) (\<lambda>_. mret ())))"

definition fs_validate_parent_commit ::
  "('s, 'o) apply_view \<Rightarrow> string \<Rightarrow> (uint256 \<times> 'o flow_entry) list \<Rightarrow> ('s, unit) vm" where
  "fs_validate_parent_commit P operation items = mfor (fs_validate_entry P operation) items"

definition dry_run_flag :: u32 where
  "dry_run_flag = 0x1000"

definition is_dry_run :: "u32 \<Rightarrow> bool" where
  "is_dry_run flags \<longleftrightarrow> and flags dry_run_flag \<noteq> 0"

definition fs_apply_entry :: "('s, 'o) apply_view \<Rightarrow> uint256 \<times> 'o flow_entry \<Rightarrow> ('s, unit) vm" where
  "fs_apply_entry P ke =
     (let (k, e) = ke; kl = fs_entry_keylet k e
      in case fe_action e of
           F_Insert \<Rightarrow> av_insert P (fe_sle e)
         | F_Modify \<Rightarrow> mbind (av_peek P kl) (\<lambda>found. case found of
               None \<Rightarrow> mfail (Conversion ''FlowSandbox::apply: modified parent entry disappeared'')
             | Some _ \<Rightarrow> av_update P (fe_sle e))
         | F_Erase \<Rightarrow> mbind (av_peek P kl) (\<lambda>found. case found of
               None \<Rightarrow> mfail (Conversion ''FlowSandbox::apply: erased parent entry disappeared'')
             | Some _ \<Rightarrow> av_erase P (fe_sle e)))"

text \<open>\<open>apply_state_only\<close> consumes the child and returns the parent.\<close>

definition fs_apply_state_only ::
  "('s, 'o) apply_view \<Rightarrow> ('s, 'o) flow_sandbox \<Rightarrow> ((view_error + unit) \<times> 's) outcome" where
  "fs_apply_state_only P f =
     mbind (fs_validate_parent_commit P ''FlowSandbox::apply'' (fs_items f)) (\<lambda>_.
       mbind (\<lambda>s. if 0 < fs_drops_destroyed f \<and> \<not> is_dry_run (fs_get_flags P (f\<lparr>fs_parent := s\<rparr>))
                 then av_destroy_xrp P (fs_drops_destroyed f) s
                 else mret () s) (\<lambda>_.
         mfor (fs_apply_entry P) (fs_items f))) (fs_parent f)"

section \<open>The child of a lawful view\<close>

definition fs_shown :: "'o flow_entry \<Rightarrow> 'o sle option" where
  "fs_shown e = (if fe_action e = F_Erase then None else Some (fe_sle e))"

text \<open>Entries are filed under their keys, and exactly the inserted ones are not in the parent.\<close>

definition fs_items_ok ::
  "(uint256 \<Rightarrow> ledger_entry_type) \<Rightarrow> (uint256 \<Rightarrow> 'o sle option) \<Rightarrow> (uint256 \<times> 'o flow_entry) list \<Rightarrow> bool"
where
  "fs_items_ok kt B items \<longleftrightarrow>
     bt_ok items \<and>
     (\<forall>k e. map_of items k = Some e \<longrightarrow>
        sle_key (fe_sle e) = k \<and> typed kt (fe_sle e) \<and> (B k = None \<longleftrightarrow> fe_action e = F_Insert))"

definition fs_inv ::
  "(uint256 \<Rightarrow> ledger_entry_type) \<Rightarrow> ('s \<Rightarrow> bool) \<Rightarrow> ('s \<Rightarrow> 'o ideal) \<Rightarrow> ('s, 'o) flow_sandbox \<Rightarrow> bool" where
  "fs_inv kt pinv pabs f \<longleftrightarrow>
     pinv (fs_parent f) \<and> fs_items_ok kt (contents (pabs (fs_parent f))) (fs_items f) \<and>
     0 \<le> fs_drops_destroyed f"

definition fs_ideal :: "('s \<Rightarrow> 'o ideal) \<Rightarrow> ('s, 'o) flow_sandbox \<Rightarrow> 'o ideal" where
  "fs_ideal pabs f =
     \<lparr>contents = overlay fs_shown (fs_items f) (contents (pabs (fs_parent f))), checked_out = UNIV,
      destroyed = fs_drops_destroyed f\<rparr>"

lemma fs_ideal_simps [simp]:
  "contents (fs_ideal pabs f) = overlay fs_shown (fs_items f) (contents (pabs (fs_parent f)))"
  "checked_out (fs_ideal pabs f) = UNIV" "destroyed (fs_ideal pabs f) = fs_drops_destroyed f"
  by (simp_all add: fs_ideal_def)

lemma fs_items_entryD:
  assumes "fs_items_ok kt B items" and "map_of items k = Some e"
  shows "sle_key (fe_sle e) = k" "typed kt (fe_sle e)" "B k = None \<longleftrightarrow> fe_action e = F_Insert"
  using assms by (auto simp: fs_items_ok_def)

lemma fs_overlay_base:
  "map_of items k = None \<Longrightarrow> overlay fs_shown items B k = B k"
  "map_of items k = Some e \<Longrightarrow> overlay fs_shown items B k = fs_shown e"
  by (simp_all add: overlay_def)

lemma fs_shown_None: "fs_shown e = None \<longleftrightarrow> fe_action e = F_Erase"
  by (simp add: fs_shown_def)

lemma fs_items_put:
  assumes "fs_items_ok kt B (fs_items f)" and "typed kt x" and "B (sle_key x) = None \<longleftrightarrow> a = F_Insert"
  shows "fs_items_ok kt B (fs_items (fs_put a x f))"
    and "overlay fs_shown (fs_items (fs_put a x f)) B =
      (overlay fs_shown (fs_items f) B)(sle_key x := (if a = F_Erase then None else Some x))"
  using assms by (auto simp: fs_put_def fs_items_ok_def fs_shown_def)

lemma fs_put_simps [simp]:
  "fs_parent (fs_put a x f) = fs_parent f" "fs_drops_destroyed (fs_put a x f) = fs_drops_destroyed f"
  by (simp_all add: fs_put_def)

lemma fs_items_ok_del:
  assumes "fs_items_ok kt B items" and "map_of items k = Some e" and "fe_action e = F_Insert"
  shows "fs_items_ok kt B (bt_remove k items)"
    and "overlay fs_shown (bt_remove k items) B = (overlay fs_shown items B)(k := None)"
  using assms by (auto simp: fs_items_ok_def overlay_remove)

lemma fs_overlay_typed:
  "typed_map kt B \<Longrightarrow> fs_items_ok kt B items \<Longrightarrow> typed_map kt (overlay fs_shown items B)"
  by (auto simp: typed_map_def fs_items_ok_def overlay_def fs_shown_def split: option.splits if_splits)

context checkout_view
begin

lemma fs_insert_law:
  assumes "fs_inv kt inv abs f" and "legal_op kt (V_Insert x) (fs_ideal abs f)"
  shows "\<exists>f'. fs_raw_insert x f = Done (Inr (), f') \<and> fs_inv kt inv abs f' \<and>
    covers (ideal_op (V_Insert x) (fs_ideal abs f)) (fs_ideal abs f')"
proof -
  let ?B = "contents (abs (fs_parent f))"
  have ok: "fs_items_ok kt ?B (fs_items f)" and x: "typed kt x"
    and none: "overlay fs_shown (fs_items f) ?B (sle_key x) = None"
    using assms by (auto simp: fs_inv_def)
  obtain a where a: "fs_raw_insert x f = Done (Inr (), fs_put a x f)" "a \<noteq> F_Erase"
    "?B (sle_key x) = None \<longleftrightarrow> a = F_Insert"
  proof (cases "map_of (fs_items f) (sle_key x)")
    case None
    then show ?thesis
      using that [of F_Insert] none by (simp add: fs_raw_insert_def fs_overlay_base)
  next
    case (Some e)
    then show ?thesis
      using that [of F_Modify] none fs_items_entryD(3) [OF ok Some]
      by (simp add: fs_raw_insert_def fs_overlay_base fs_shown_None)
  qed
  then show ?thesis
    using assms(1) fs_items_put [OF ok x, of a] by (auto simp: fs_inv_def covers_def)
qed

lemma fs_update_law:
  assumes "fs_inv kt inv abs f" and "legal_op kt (V_Update x) (fs_ideal abs f)"
  shows "\<exists>f'. fs_raw_replace x f = Done (Inr (), f') \<and> fs_inv kt inv abs f' \<and>
    covers (ideal_op (V_Update x) (fs_ideal abs f)) (fs_ideal abs f')"
proof -
  let ?B = "contents (abs (fs_parent f))"
  have ok: "fs_items_ok kt ?B (fs_items f)" and x: "typed kt x"
    and some: "overlay fs_shown (fs_items f) ?B (sle_key x) \<noteq> None"
    using assms by (auto simp: fs_inv_def)
  obtain a where a: "fs_raw_replace x f = Done (Inr (), fs_put a x f)" "a \<noteq> F_Erase"
    "?B (sle_key x) = None \<longleftrightarrow> a = F_Insert"
  proof (cases "map_of (fs_items f) (sle_key x)")
    case None
    then show ?thesis
      using that [of F_Modify] some by (auto simp: fs_raw_replace_def fs_overlay_base)
  next
    case (Some e)
    then show ?thesis
      using that [of "if fe_action e = F_Insert then F_Insert else F_Modify"]
        fs_items_entryD(3) [OF ok Some]
      by (auto simp: fs_raw_replace_def)
  qed
  then show ?thesis
    using assms(1) fs_items_put [OF ok x, of a] by (auto simp: fs_inv_def covers_def)
qed

lemma fs_erase_law:
  assumes "fs_inv kt inv abs f" and "legal_op kt (V_Erase x) (fs_ideal abs f)"
  shows "\<exists>f'. fs_raw_erase x f = Done (Inr (), f') \<and> fs_inv kt inv abs f' \<and>
    covers (ideal_op (V_Erase x) (fs_ideal abs f)) (fs_ideal abs f')"
proof -
  let ?B = "contents (abs (fs_parent f))"
  have ok: "fs_items_ok kt ?B (fs_items f)" and x: "typed kt x"
    and some: "overlay fs_shown (fs_items f) ?B (sle_key x) \<noteq> None"
    using assms by (auto simp: fs_inv_def)
  show ?thesis
  proof (cases "\<exists>e. map_of (fs_items f) (sle_key x) = Some e \<and> fe_action e = F_Insert")
    case True
    then obtain e where e: "map_of (fs_items f) (sle_key x) = Some e" "fe_action e = F_Insert"
      by blast
    then show ?thesis
      using assms(1) fs_items_ok_del [OF ok e]
      by (auto simp: fs_raw_erase_def fs_inv_def covers_def)
  next
    case False
    then have put: "fs_raw_erase x f = Done (Inr (), fs_put F_Erase x f)"
      by (auto simp: fs_raw_erase_def split: option.splits)
    have "?B (sle_key x) \<noteq> None"
      using False some fs_items_entryD(3) [OF ok]
      by (cases "map_of (fs_items f) (sle_key x)") (auto simp: fs_overlay_base)
    then show ?thesis
      using assms(1) put fs_items_put [OF ok x, of F_Erase] by (auto simp: fs_inv_def covers_def)
  qed
qed

lemma fs_peek_law:
  assumes "fs_inv kt inv abs f" and "fits kt kl"
  shows "\<exists>f'. fs_peek V kl f = Done (Inr (contents (fs_ideal abs f) (kl_key kl)), f') \<and>
    fs_inv kt inv abs f' \<and> covers (ideal_op (V_Peek kl) (fs_ideal abs f)) (fs_ideal abs f')"
proof (cases "map_of (fs_items f) (kl_key kl)")
  case (Some e)
  then show ?thesis
    using assms(1) by (auto simp: fs_peek_def fs_overlay_base fs_shown_def covers_def)
next
  case None
  obtain s' where "av_peek V kl (fs_parent f) = Done (Inr (contents (abs (fs_parent f)) (kl_key kl)), s')"
    "inv s'" "covers (ideal_op (V_Peek kl) (abs (fs_parent f))) (abs s')"
    using peek_law [OF _ assms(2), of "fs_parent f"] assms(1) by (auto simp: fs_inv_def)
  then show ?thesis
    using None assms(1)
    by (auto simp: fs_peek_def fs_overlay_base fs_inv_def covers_def split: if_splits)
qed

theorem child_is_ledger_view:
  "ledger_view kt (fs_apply_view V) (fs_inv kt inv abs) (fs_ideal abs)"
proof
  show "av_flags (fs_apply_view V) f' = av_flags (fs_apply_view V) f"
    if "av_peek (fs_apply_view V) kl f = Done (r, f')" for f f' :: "('s, 'o) flow_sandbox" and kl r
    using that flags_law
    by (auto simp: fs_apply_view_def fs_peek_def fs_get_flags_def mlift_def bind_outcome_Done_iff
        split: option.splits)
  show "av_flags (fs_apply_view V) f' = av_flags (fs_apply_view V) f"
    if "run_op (fs_apply_view V) op f = Done (r, f')" for op r and f f' :: "('s, 'o) flow_sandbox"
    using that flags_law
    by (cases op)
      (auto simp: fs_apply_view_def fs_peek_def fs_get_flags_def mlift_def bind_outcome_Done_iff
        fs_raw_insert_def fs_raw_replace_def fs_raw_erase_def fs_raw_destroy_xrp_def fs_put_def Let_def
        dest!: mbind_mret_Done split: option.splits if_splits)
next
  fix f :: "('s, 'o) flow_sandbox" and kl k bound and x :: "'o sle" and fee
  assume f: "fs_inv kt inv abs f"
  then have p: "inv (fs_parent f)" and ok: "fs_items_ok kt (contents (abs (fs_parent f))) (fs_items f)"
    by (simp_all add: fs_inv_def)
  show "typed_map kt (contents (fs_ideal abs f))"
    using keyed [OF p] ok by (simp add: fs_overlay_typed)
  show "av_read (fs_apply_view V) kl f = vok (contents (fs_ideal abs f) (kl_key kl))" if "fits kt kl"
    using read_law [OF p that]
    by (auto simp: fs_apply_view_def fs_read_def overlay_def fs_shown_def split: option.splits)
  show "av_exists (fs_apply_view V) kl f = vok (contents (fs_ideal abs f) (kl_key kl) \<noteq> None)"
    if "fits kt kl"
    using exists_law [OF p that]
    by (auto simp: fs_apply_view_def fs_exists_def overlay_def fs_shown_def split: option.splits)
  show "av_succ (fs_apply_view V) k bound f = vok (next_key (dom (contents (fs_ideal abs f))) k bound)"
    unfolding fs_apply_view_def fs_ideal_simps apply_view.simps fs_succ_def rt_merge
    using ok by (intro overlay_succ) (auto simp: fs_items_ok_def succ_law [OF p] fs_shown_None)
  show "\<exists>f'. av_peek (fs_apply_view V) kl f = Done (Inr (contents (fs_ideal abs f) (kl_key kl)), f') \<and>
      fs_inv kt inv abs f' \<and> covers (ideal_op (V_Peek kl) (fs_ideal abs f)) (fs_ideal abs f')"
    if "fits kt kl"
    using fs_peek_law [OF f that] by (simp add: fs_apply_view_def)
  show "\<exists>f'. av_insert (fs_apply_view V) x f = Done (Inr (), f') \<and>
      fs_inv kt inv abs f' \<and> covers (ideal_op (V_Insert x) (fs_ideal abs f)) (fs_ideal abs f')"
    if "legal_op kt (V_Insert x) (fs_ideal abs f)"
    using fs_insert_law [OF f that] by (simp add: fs_apply_view_def)
  show "\<exists>f'. av_update (fs_apply_view V) x f = Done (Inr (), f') \<and>
      fs_inv kt inv abs f' \<and> covers (ideal_op (V_Update x) (fs_ideal abs f)) (fs_ideal abs f')"
    if "legal_op kt (V_Update x) (fs_ideal abs f)"
    using fs_update_law [OF f that] by (simp add: fs_apply_view_def)
  show "\<exists>f'. av_erase (fs_apply_view V) x f = Done (Inr (), f') \<and>
      fs_inv kt inv abs f' \<and> covers (ideal_op (V_Erase x) (fs_ideal abs f)) (fs_ideal abs f')"
    if "legal_op kt (V_Erase x) (fs_ideal abs f)"
    using fs_erase_law [OF f that] by (simp add: fs_apply_view_def)
  show "\<exists>f'. av_destroy_xrp (fs_apply_view V) fee f = Done (Inr (), f') \<and>
      fs_inv kt inv abs f' \<and> covers (ideal_op (V_Destroy fee) (fs_ideal abs f)) (fs_ideal abs f')"
    if "legal_op kt (V_Destroy fee) (fs_ideal abs f)"
    using that f by (auto simp: fs_apply_view_def fs_raw_destroy_xrp_def fs_inv_def covers_def)
qed

end

context ledger_view
begin

lemma validate_entry_law:
  assumes "inv s" and "sle_key (fe_sle e) = k" and "typed kt (fe_sle e)"
  shows "\<exists>r s'. fs_validate_entry V op (k, e) s = Done (r, s') \<and> inv s' \<and>
    contents (abs s') = contents (abs s) \<and> destroyed (abs s') = destroyed (abs s) \<and>
    av_flags V s' = av_flags V s \<and>
    (r = Inr () \<longleftrightarrow> (contents (abs s) k = None \<longleftrightarrow> fe_action e = F_Insert))"
proof -
  have fit: "fits kt (fs_entry_keylet k e)"
    using fits_own_type [OF assms(3)] assms(2) by (simp add: fs_entry_keylet_def)
  obtain s' where s': "av_peek V (fs_entry_keylet k e) s = Done (Inr (contents (abs s) k), s')" "inv s'"
    "contents (abs s') = contents (abs s)" "destroyed (abs s') = destroyed (abs s)"
    using peek_law [OF assms(1) fit] by (auto simp: covers_def fs_entry_keylet_def split: if_splits)
  note fl = flags_law [OF s'(1)]
  show ?thesis
    using read_law [OF assms(1) fit] s' fl assms(1)
    by (cases "fe_action e"; cases "contents (abs s) k")
      (auto simp: fs_validate_entry_def Let_def fs_entry_keylet_def)
qed

lemma validate_law:
  assumes "inv s" and "\<And>k e. (k, e) \<in> set items \<Longrightarrow> sle_key (fe_sle e) = k \<and> typed kt (fe_sle e)"
  shows "\<exists>r s'. fs_validate_parent_commit V op items s = Done (r, s') \<and> inv s' \<and>
    contents (abs s') = contents (abs s) \<and> destroyed (abs s') = destroyed (abs s) \<and>
    av_flags V s' = av_flags V s \<and>
    (r = Inr () \<longleftrightarrow> (\<forall>(k, e) \<in> set items. contents (abs s) k = None \<longleftrightarrow> fe_action e = F_Insert))"
  using assms unfolding fs_validate_parent_commit_def
proof (induction items arbitrary: s)
  case (Cons ke items)
  obtain k e where ke: "ke = (k, e)" by (cases ke)
  obtain r1 s1 where s1: "fs_validate_entry V op (k, e) s = Done (r1, s1)" "inv s1"
    "contents (abs s1) = contents (abs s)" "destroyed (abs s1) = destroyed (abs s)"
    "av_flags V s1 = av_flags V s"
    "r1 = Inr () \<longleftrightarrow> (contents (abs s) k = None \<longleftrightarrow> fe_action e = F_Insert)"
    using validate_entry_law [OF Cons.prems(1), of e k op] Cons.prems(2) [of k e]
    by (auto simp: ke simp del: not_None_eq)
  show ?case
  proof (cases r1)
    case (Inl err)
    then show ?thesis
      using s1 by (auto simp: ke)
  next
    case (Inr u)
    then show ?thesis
      using s1 Cons.IH [OF s1(2) Cons.prems(2)] by (simp add: ke)
  qed
qed auto

lemma apply_entry_law:
  assumes "inv s" and "sle_key (fe_sle e) = k" and "typed kt (fe_sle e)"
    and "contents (abs s) k = None \<longleftrightarrow> fe_action e = F_Insert"
  shows "\<exists>s'. fs_apply_entry V (k, e) s = Done (Inr (), s') \<and> inv s' \<and>
    contents (abs s') = (contents (abs s))(k := fs_shown e) \<and> destroyed (abs s') = destroyed (abs s) \<and>
    av_flags V s' = av_flags V s"
proof (cases "fe_action e = F_Insert")
  case True
  then show ?thesis
    using insert_law [OF assms(1), of "fe_sle e"] assms flags_op_law [of "V_Insert (fe_sle e)" s]
    by (auto simp: fs_apply_entry_def Let_def covers_def fs_shown_def)
next
  case False
  have fit: "fits kt (fs_entry_keylet k e)"
    using fits_own_type [OF assms(3)] assms(2) by (simp add: fs_entry_keylet_def)
  obtain y where y: "contents (abs s) k = Some y"
    using False assms(4) by auto
  obtain s1 where s1: "av_peek V (fs_entry_keylet k e) s = Done (Inr (Some y), s1)" "inv s1"
    "contents (abs s1) = contents (abs s)" "destroyed (abs s1) = destroyed (abs s)"
    "k \<in> checked_out (abs s1)"
    using peek_law [OF assms(1) fit] y by (auto simp: covers_def fs_entry_keylet_def)
  show ?thesis
    using False s1 y assms(2,3) update_law [OF s1(2), of "fe_sle e"] erase_law [OF s1(2), of "fe_sle e"]
      flags_op_law [of "V_Update (fe_sle e)" s1] flags_op_law [of "V_Erase (fe_sle e)" s1]
      flags_law [OF s1(1)]
    by (cases "fe_action e") (auto simp: fs_apply_entry_def Let_def fs_shown_def covers_def)
qed

lemma apply_entries_law:
  assumes "inv s" and "unique_keys items"
    and "\<And>k e. (k, e) \<in> set items \<Longrightarrow> sle_key (fe_sle e) = k \<and> typed kt (fe_sle e) \<and>
      (contents (abs s) k = None \<longleftrightarrow> fe_action e = F_Insert)"
  shows "\<exists>s'. mfor (fs_apply_entry V) items s = Done (Inr (), s') \<and> inv s' \<and>
    contents (abs s') = overlay fs_shown items (contents (abs s)) \<and> destroyed (abs s') = destroyed (abs s) \<and>
    av_flags V s' = av_flags V s"
  using assms
proof (induction items arbitrary: s)
  case (Cons ke items)
  obtain k e where ke: "ke = (k, e)" by (cases ke)
  obtain s1 where s1: "fs_apply_entry V (k, e) s = Done (Inr (), s1)" "inv s1"
    "contents (abs s1) = (contents (abs s))(k := fs_shown e)" "destroyed (abs s1) = destroyed (abs s)"
    "av_flags V s1 = av_flags V s"
    using apply_entry_law [OF Cons.prems(1), of e k] Cons.prems(3) [of k e] by (auto simp: ke)
  have none: "map_of items k = None" and fresh: "\<And>k' e'. (k', e') \<in> set items \<Longrightarrow> k' \<noteq> k"
    using Cons.prems(2) by (auto simp: ke map_of_None_keys dest: keys_in)
  have "\<exists>s'. mfor (fs_apply_entry V) items s1 = Done (Inr (), s') \<and> inv s' \<and>
      contents (abs s') = overlay fs_shown items (contents (abs s1)) \<and> destroyed (abs s') = destroyed (abs s1) \<and>
      av_flags V s' = av_flags V s1"
    using Cons.prems fresh by (intro Cons.IH [OF s1(2)]) (auto simp: ke s1(3))
  moreover have "overlay fs_shown items (contents (abs s1)) = overlay fs_shown (ke # items) (contents (abs s))"
    using none by (auto simp: ke s1(3) overlay_def fun_eq_iff split: option.splits)
  ultimately show ?case
    using s1 by (auto simp: ke)
qed (auto simp: overlay_def)

lemma child_commits:
  assumes "fs_inv kt inv abs f" and "in_i64 (destroyed (abs (fs_parent f)) + fs_drops_destroyed f)"
  shows "\<exists>s'. fs_apply_state_only V f = Done (Inr (), s') \<and> inv s' \<and>
    contents (abs s') = contents (fs_ideal abs f) \<and>
    destroyed (abs s') = destroyed (abs (fs_parent f)) +
      (if is_dry_run (fs_get_flags V f) then 0 else fs_drops_destroyed f) \<and>
    av_flags V s' = av_flags V (fs_parent f)"
proof -
  let ?s = "fs_parent f" and ?d = "fs_drops_destroyed f"
  have p: "inv ?s" and ok: "fs_items_ok kt (contents (abs ?s)) (fs_items f)" and d: "0 \<le> ?d"
    using assms(1) by (auto simp: fs_inv_def)
  have bt: "bt_ok (fs_items f)"
    using ok by (simp add: fs_items_ok_def)
  have item: "sle_key (fe_sle e) = k \<and> typed kt (fe_sle e) \<and>
      (contents (abs ?s) k = None \<longleftrightarrow> fe_action e = F_Insert)" if "(k, e) \<in> set (fs_items f)" for k e
    using that ok by (simp add: fs_items_ok_def bt_ok_map_of_iff [OF bt])
  obtain s1 where s1: "fs_validate_parent_commit V ''FlowSandbox::apply'' (fs_items f) ?s = Done (Inr (), s1)"
    "inv s1" "contents (abs s1) = contents (abs ?s)" "destroyed (abs s1) = destroyed (abs ?s)"
    "av_flags V s1 = av_flags V ?s"
    using validate_law [OF p, of "fs_items f" "''FlowSandbox::apply''"] item by fastforce
  have fl: "fs_get_flags V (f\<lparr>fs_parent := s1\<rparr>) = fs_get_flags V f"
    by (simp add: fs_get_flags_def s1(5) cong: option.case_cong)
  define burn where "burn = (0 < ?d \<and> \<not> is_dry_run (fs_get_flags V f))"
  obtain s2 where s2: "(if burn then av_destroy_xrp V ?d s1 else mret () s1) = Done (Inr (), s2)"
    "inv s2" "contents (abs s2) = contents (abs ?s)"
    "destroyed (abs s2) = destroyed (abs ?s) + (if burn then ?d else 0)"
    "av_flags V s2 = av_flags V ?s"
    using destroy_law [OF s1(2), of ?d] s1 assms(2) d flags_op_law [of "V_Destroy ?d" s1] by (cases burn) (auto simp: covers_def)
  have "(if burn then ?d else 0) = (if is_dry_run (fs_get_flags V f) then 0 else ?d)"
    using d by (auto simp: burn_def)
  moreover obtain s3 where "mfor (fs_apply_entry V) (fs_items f) s2 = Done (Inr (), s3)" "inv s3"
    "contents (abs s3) = overlay fs_shown (fs_items f) (contents (abs ?s))"
    "destroyed (abs s3) = destroyed (abs s2)" "av_flags V s3 = av_flags V s2"
    using apply_entries_law [OF s2(2) bt_ok_unique [OF bt]] item s2(3) by auto
  ultimately show ?thesis
    using s1 s2 unfolding fs_apply_state_only_def
    by (intro exI [of _ s3]) (simp add: fl flip: burn_def)
qed

end

context ledger_view
begin

lemma child_refused:
  assumes "inv (fs_parent f)" and "bt_ok (fs_items f)"
    and "\<And>k e. (k, e) \<in> set (fs_items f) \<Longrightarrow> sle_key (fe_sle e) = k \<and> typed kt (fe_sle e)"
    and "(k, e) \<in> set (fs_items f)"
    and "contents (abs (fs_parent f)) k = None \<longleftrightarrow> fe_action e \<noteq> F_Insert"
  shows "\<exists>err s'. fs_apply_state_only V f = Done (Inl err, s') \<and> inv s' \<and>
    contents (abs s') = contents (abs (fs_parent f)) \<and> destroyed (abs s') = destroyed (abs (fs_parent f))"
proof -
  obtain r s' where s': "fs_validate_parent_commit V ''FlowSandbox::apply'' (fs_items f) (fs_parent f) = Done (r, s')"
    "inv s'" "contents (abs s') = contents (abs (fs_parent f))"
    "destroyed (abs s') = destroyed (abs (fs_parent f))" "r \<noteq> Inr ()"
    using validate_law [OF assms(1), of "fs_items f" "''FlowSandbox::apply''"] assms(3,4,5) by fastforce
  then show ?thesis
    by (cases r) (auto simp: fs_apply_state_only_def)
qed

lemma child_of_frozen:
  "ledger_view kt (fs_apply_view V) (fs_inv kt (frozen V inv abs a flags) abs) (fs_ideal abs)"
  by (rule checkout_view.child_is_ledger_view [OF frozen_checkout])

lemma child_session:
  assumes s: "inv s" and "legal_ops kt ops a" and "contents a = contents (abs s)" and "destroyed a = 0"
    and "\<not> is_dry_run (av_flags V s)"
    and "in_i64 (destroyed (abs s) + destroyed (fold ideal_op ops a))"
  shows "\<exists>f s'. mfor (run_op (fs_apply_view V)) ops (fs_new s) = Done (Inr (), f) \<and>
    fs_apply_state_only V f = Done (Inr (), s') \<and> inv s' \<and>
    contents (abs s') = contents (fold ideal_op ops a) \<and>
    destroyed (abs s') = destroyed (abs s) + destroyed (fold ideal_op ops a) \<and>
    av_flags V s' = av_flags V s"
proof -
  let ?I = "frozen V inv abs (abs s) (av_flags V s)"
  note child = child_of_frozen [of "abs s" "av_flags V s"]
  have "fs_inv kt ?I abs (fs_new s)"
    using s by (simp add: fs_inv_def fs_new_def frozen_def fs_items_ok_def)
  moreover have "covers a (fs_ideal abs (fs_new s))"
    using assms(3,4) by (auto simp: covers_def fs_new_def overlay_def)
  ultimately obtain f where f: "mfor (run_op (fs_apply_view V)) ops (fs_new s) = Done (Inr (), f)"
    "fs_inv kt ?I abs f" "covers (fold ideal_op ops a) (fs_ideal abs f)"
    using ledger_view.run_ops_refine [OF child _ _ assms(2)] by blast
  have "av_flags (fs_apply_view V) f = av_flags (fs_apply_view V) (fs_new s)"
    using f(1) by (rule mfor_keeps) (auto dest: ledger_view.flags_op_law [OF child])
  then have flags: "fs_get_flags V f = av_flags V s"
    by (simp add: fs_apply_view_def) (simp add: fs_get_flags_def fs_new_def)
  have parent: "fs_inv kt inv abs f" "destroyed (abs (fs_parent f)) = destroyed (abs s)"
    "av_flags V (fs_parent f) = av_flags V s"
    using f(2) by (auto simp: fs_inv_def frozen_def)
  have a: "contents (fs_ideal abs f) = contents (fold ideal_op ops a)"
    "fs_drops_destroyed f = destroyed (fold ideal_op ops a)"
    using f(3) by (auto simp: covers_def)
  obtain s' where "fs_apply_state_only V f = Done (Inr (), s')" "inv s'"
    "contents (abs s') = contents (fs_ideal abs f)"
    "destroyed (abs s') = destroyed (abs s) + fs_drops_destroyed f" "av_flags V s' = av_flags V s"
    using child_commits [OF parent(1)] parent(2,3) flags assms(5,6) a(2) by auto
  then show ?thesis
    using f(1) a by auto
qed

end

text \<open>Children of sandboxes and children of children.\<close>

interpretation child_view: ledger_view kt "fs_apply_view (sb_apply_view fixed)"
    "fs_inv kt (sb_inv kt base) sb_ideal" "fs_ideal sb_ideal"
  for kt fixed base
  by (rule sandbox_view.child_is_ledger_view)

section \<open>Properties\<close>

text \<open>The XRP that legal operations destroy is not negative.\<close>

lemma legal_ops_destroyed: "legal_ops kt ops a \<Longrightarrow> destroyed a \<le> destroyed (fold ideal_op ops a)"
proof (induction ops arbitrary: a)
  case (Cons op ops)
  have "destroyed a \<le> destroyed (ideal_op op a)"
    using Cons.prems by (cases op) auto
  then show ?case
    using Cons by fastforce
qed simp

lemma ov_destroyed_nonneg: "ov_inv kt v \<Longrightarrow> 0 \<le> ov_destroyed v"
  by (simp add: ov_inv_def rt_ok_def)

text \<open>
  C7: Operations on a child of a sandbox over an open view reach the open view unchanged: the child
  takes every legal sequence of operations, it applies to the sandbox, the sandbox applies to the
  open view, and the open view then has the contents the operations describe and has destroyed the
  XRP they destroy.
\<close>

theorem nested_views_commit:
  assumes "ov_inv kt v" and "legal_ops kt ops \<lparr>contents = ov_contents v, checked_out = {}, destroyed = 0\<rparr>"
    and "a = fold ideal_op ops \<lparr>contents = ov_contents v, checked_out = {}, destroyed = 0\<rparr>"
    and "in_i64 (ov_destroyed v + destroyed a)" and "\<not> is_dry_run flags"
  shows "\<exists>f s v'.
    mfor (run_op (fs_apply_view (sb_apply_view fixed))) ops (fs_new (sb_new (ov_read_view v) flags)) =
      Done (Inr (), f) \<and>
    fs_apply_state_only (sb_apply_view fixed) f = Done (Inr (), s) \<and>
    sb_apply s (ov_raw_view fixed) v = Done (Inr (), v') \<and>
    reads_map kt (ov_read_view v') (contents a) \<and> ov_destroyed v' = ov_destroyed v + destroyed a"
proof -
  note new = sb_inv_new [OF ov_reads_map [OF assms(1)], of flags]
  let ?s = "sb_new (ov_read_view v) flags"
  have "0 \<le> destroyed a"
    using legal_ops_destroyed [OF assms(2)] assms(3) by simp
  then have "in_i64 (destroyed a)"
    using assms(4) ov_destroyed_nonneg [OF assms(1)] by (simp add: in_i64_def)
  moreover have "av_flags (sb_apply_view fixed) ?s = flags"
    by (simp add: sb_apply_view_def sb_new_def)
  ultimately obtain f s where f: "mfor (run_op (fs_apply_view (sb_apply_view fixed))) ops (fs_new ?s) = Done (Inr (), f)"
    "fs_apply_state_only (sb_apply_view fixed) f = Done (Inr (), s)" "sb_inv kt (ov_read_view v) s"
    "contents (sb_ideal s) = contents a" "destroyed (sb_ideal s) = destroyed a"
    using sandbox_view.child_session [OF new(1) assms(2), of fixed] assms(3,5) by (auto simp: new(2))
  obtain v' where "sb_apply s (ov_raw_view fixed) v = Done (Inr (), v')" "ov_inv kt v'"
    "ov_contents v' = contents a" "ov_destroyed v' = ov_destroyed v + destroyed a"
    using sandbox_apply_commits [OF assms(1) f(3), of fixed] f(4,5) assms(4) by auto
  then show ?thesis
    using f ov_reads_map [of kt v'] by auto
qed

text \<open>
  C19: A child whose changes do not fit its parent (it inserts an entry the parent has, or modifies or
  erases one it does not have) is refused with an error, and the parent keeps its contents and its
  destroyed XRP.
\<close>

theorem flow_commit_refused:
  assumes "sb_inv kt base (fs_parent f)" and "bt_ok (fs_items f)"
    and "\<And>k e. (k, e) \<in> set (fs_items f) \<Longrightarrow> sle_key (fe_sle e) = k \<and> typed kt (fe_sle e)"
    and "(k, e) \<in> set (fs_items f)"
    and "contents (sb_ideal (fs_parent f)) k = None \<longleftrightarrow> fe_action e \<noteq> F_Insert"
  shows "\<exists>err s. fs_apply_state_only (sb_apply_view fixed) f = Done (Inl err, s) \<and>
    reads_map kt (sb_read_view s) (contents (sb_ideal (fs_parent f))) \<and>
    destroyed (sb_ideal s) = destroyed (sb_ideal (fs_parent f))"
  using sandbox_view.child_refused [OF assms, of fixed] sb_reads_map by fastforce

theorem nested_views_commit_witness:
  "\<exists>f s v'. mfor (run_op (fs_apply_view (sb_apply_view True)))
       [V_Peek \<lparr>kl_key = 3, kl_type = Offer\<rparr>, V_Update (demo_sle 3 31), V_Insert (demo_sle 4 40),
        V_Destroy 10, V_Erase (demo_sle 3 31)]
       (fs_new (sb_new (ov_read_view demo_open_view) 0)) = Done (Inr (), f) \<and>
     fs_apply_state_only (sb_apply_view True) f = Done (Inr (), s) \<and>
     sb_apply s (ov_raw_view True) demo_open_view = Done (Inr (), v') \<and>
     reads_map (\<lambda>_. Offer) (ov_read_view v') [4 \<mapsto> demo_sle 4 40] \<and> ov_destroyed v' = 22"
proof -
  have "ov_destroyed demo_open_view = 12" and "\<not> is_dry_run 0"
    by (simp_all add: demo_open_view_def is_dry_run_def)
  then show ?thesis
    using nested_views_commit [OF demo_open_view_inv, of demo_ops demo_ideal 0 True] demo_ops_legal
    by (simp add: demo_open_view_contents demo_ideal_def in_i64_def demo_ops_def
        del: mfor.simps legal_ops.simps fold_simps)
qed

theorem flow_commit_refused_witness:
  "\<exists>err s. fs_apply_state_only (sb_apply_view True)
       \<lparr>fs_parent = sb_new (ov_read_view demo_open_view) 0,
        fs_items = [(3, \<lparr>fe_action = F_Erase, fe_sle = demo_sle 3 30\<rparr>),
          (5, \<lparr>fe_action = F_Modify, fe_sle = demo_sle 5 50\<rparr>)],
        fs_drops_destroyed = 10, fs_flags = None\<rparr> = Done (Inl err, s) \<and>
     reads_map (\<lambda>_. Offer) (sb_read_view s) [3 \<mapsto> demo_sle 3 30] \<and> destroyed (sb_ideal s) = 0"
proof -
  let ?f = "\<lparr>fs_parent = sb_new (ov_read_view demo_open_view) 0,
    fs_items = [(3, \<lparr>fe_action = F_Erase, fe_sle = demo_sle 3 30\<rparr>),
      (5, \<lparr>fe_action = F_Modify, fe_sle = demo_sle 5 50\<rparr>)],
    fs_drops_destroyed = 10, fs_flags = None\<rparr>"
  note new = sb_inv_new [OF ov_reads_map [OF demo_open_view_inv], of 0]
  have "contents (sb_ideal (fs_parent ?f)) = [3 \<mapsto> demo_sle 3 30]" "destroyed (sb_ideal (fs_parent ?f)) = 0"
    using new(2) by (simp_all add: demo_open_view_contents del: contents_sb_ideal)
  moreover have "sle_key (fe_sle e) = k \<and> typed (\<lambda>_. Offer) (fe_sle e)" if "(k, e) \<in> set (fs_items ?f)" for k e
    using that typed_demo_sle [of 3 30] typed_demo_sle [of 5 50] by (auto simp: demo_sle_def)
  moreover have "sb_inv (\<lambda>_. Offer) (ov_read_view demo_open_view) (fs_parent ?f)" "bt_ok (fs_items ?f)"
    using new(1) by (simp_all add: bt_ok_def)
  ultimately show ?thesis
    using flow_commit_refused [of "\<lambda>_. Offer" "ov_read_view demo_open_view" ?f 5
        "\<lparr>fe_action = F_Modify, fe_sle = demo_sle 5 50\<rparr>" True]
    by (simp del: contents_sb_ideal)
qed

end
