(* ===== verification/Serializer.thy ===== *)
theory Serializer
  imports Ledger_View
begin

unbundle bit_operations_syntax

text \<open>
  \<open>Serializer\<close> and \<open>SerialIter\<close> (\<open>serialization/serializer.rs\<close>) and the codec of ledger headers
  (\<open>ledger/ledger_header.rs\<close>). What is written is read back: integers and hashes in big-endian
  order, field identifiers, length-prefixed data and headers; and only the canonical encoding of a
  field identifier or of a length is accepted.
\<close>

section \<open>Big-endian numbers\<close>

type_synonym byte = "8 word"

fun be_bytes :: "nat \<Rightarrow> nat \<Rightarrow> byte list" where
  "be_bytes 0 v = []"
| "be_bytes (Suc n) v = be_bytes n (v div 256) @ [word_of_nat v]"

definition be_value :: "byte list \<Rightarrow> nat" where
  "be_value bs = foldl (\<lambda>a b. a * 256 + unat b) 0 bs"

lemma length_be_bytes [simp]: "length (be_bytes n v) = n"
  by (induction n arbitrary: v) auto

lemma be_value_snoc [simp]: "be_value (bs @ [b]) = be_value bs * 256 + unat b"
  by (simp add: be_value_def)

lemma be_value_Nil [simp]: "be_value [] = 0"
  by (simp add: be_value_def)

lemma unat_byte_of_nat: "unat (word_of_nat v :: byte) = v mod 256"
  by (simp add: unat_of_nat)

lemma be_value_be_bytes: "be_value (be_bytes n v) = v mod 256 ^ n"
proof (induction n arbitrary: v)
  case (Suc n)
  have "v mod 256 ^ Suc n = (v div 256 mod 256 ^ n) * 256 + v mod 256"
    by (simp add: mod_mult2_eq mult.commute)
  then show ?case
    by (simp add: Suc unat_byte_of_nat)
qed simp

lemma be_bytes_be_value: "be_bytes (length bs) (be_value bs) = bs"
proof (induction bs rule: rev_induct)
  case (snoc b bs)
  have "unat b < 256"
    using unsigned_less [of b] by simp
  then have "(be_value bs * 256 + unat b) div 256 = be_value bs"
    and "word_of_nat (be_value bs * 256 + unat b) = b"
    by (simp, simp only: word_unat_eq_iff unat_byte_of_nat) simp
  then show ?case
    using snoc by (simp del: of_nat_add)
qed simp

lemma be_word_roundtrip:
  fixes w :: "'a::len word"
  assumes "2 ^ LENGTH('a) \<le> (256::nat) ^ n"
  shows "word_of_nat (be_value (be_bytes n (unat w))) = w"
proof -
  have "unat w < 256 ^ n"
    by (rule less_le_trans [OF unsigned_less assms])
  then show ?thesis
    by (simp add: be_value_be_bytes)
qed

section \<open>Writing\<close>

record serializer =
  sz_data :: "byte list"

definition sz_new :: serializer where
  "sz_new = \<lparr>sz_data = []\<rparr>"

definition add_raw :: "byte list \<Rightarrow> serializer \<Rightarrow> int \<times> serializer" where
  "add_raw bs s = (as_i32 (int (length (sz_data s))), s\<lparr>sz_data := sz_data s @ bs\<rparr>)"

definition add8 :: "byte \<Rightarrow> serializer \<Rightarrow> int \<times> serializer" where
  "add8 v s = (as_i32 (int (length (sz_data s))), s\<lparr>sz_data := sz_data s @ [v]\<rparr>)"

definition add16 :: "16 word \<Rightarrow> serializer \<Rightarrow> int \<times> serializer" where
  "add16 v s = (as_i32 (int (length (sz_data s))), s\<lparr>sz_data := sz_data s @ be_bytes 2 (unat v)\<rparr>)"

definition add32 :: "u32 \<Rightarrow> serializer \<Rightarrow> int \<times> serializer" where
  "add32 v s = (as_i32 (int (length (sz_data s))), s\<lparr>sz_data := sz_data s @ be_bytes 4 (unat v)\<rparr>)"

definition add64 :: "64 word \<Rightarrow> serializer \<Rightarrow> int \<times> serializer" where
  "add64 v s = (as_i32 (int (length (sz_data s))), s\<lparr>sz_data := sz_data s @ be_bytes 8 (unat v)\<rparr>)"

definition add_integer :: "nat \<Rightarrow> int \<Rightarrow> serializer \<Rightarrow> int \<times> serializer" where
  "add_integer BYTES v s =
     (as_i32 (int (length (sz_data s))),
      s\<lparr>sz_data := sz_data s @ be_bytes BYTES (nat (v mod 256 ^ BYTES))\<rparr>)"

definition add_bit_string :: "nat \<Rightarrow> 'a::len word \<Rightarrow> serializer \<Rightarrow> int \<times> serializer" where
  "add_bit_string BYTES v s = add_raw (be_bytes BYTES (unat v)) s"

definition encode_length_length :: "nat \<Rightarrow> nat outcome" where
  "encode_length_length n =
     (if n \<le> 192 then Done 1 else if n \<le> 12480 then Done 2 else if n \<le> 918744 then Done 3 else Panic)"

definition encoded_length :: "nat \<Rightarrow> byte list outcome" where
  "encoded_length n =
     (if n \<le> 192 then Done [word_of_nat n]
      else if n \<le> 12480 then
        (let adjusted = n - 193
         in Done [word_of_nat (193 + drop_bit 8 adjusted), word_of_nat (adjusted AND 0xff)])
      else if n \<le> 918744 then
        (let adjusted = n - 12481
         in Done [word_of_nat (241 + drop_bit 16 adjusted), word_of_nat (drop_bit 8 adjusted AND 0xff),
              word_of_nat (adjusted AND 0xff)])
      else Panic)"

definition add_encoded :: "nat \<Rightarrow> serializer \<Rightarrow> (int \<times> serializer) outcome" where
  "add_encoded n s =
     (let ret = as_i32 (int (length (sz_data s)))
      in bind_outcome (encoded_length n) (\<lambda>bs.
        bind_outcome (encode_length_length n) (\<lambda>l.
          if int (length (sz_data s @ bs)) = ret mod 2 ^ 64 + int l
          then Done (ret, s\<lparr>sz_data := sz_data s @ bs\<rparr>)
          else Panic)))"

fun add_chunks :: "byte list list \<Rightarrow> nat \<Rightarrow> serializer \<Rightarrow> serializer outcome" where
  "add_chunks [] remaining s = (if remaining = 0 then Done s else Panic)"
| "add_chunks (bs # chunks) remaining s =
     (if remaining < length bs then Panic
      else add_chunks chunks (remaining - length bs) (snd (add_raw bs s)))"

definition add_vl_chunks :: "byte list list \<Rightarrow> nat \<Rightarrow> serializer \<Rightarrow> (int \<times> serializer) outcome" where
  "add_vl_chunks chunks n s =
     bind_outcome (add_encoded n s) (\<lambda>(ret, s').
       bind_outcome (add_chunks chunks n s') (\<lambda>s''. Done (ret, s'')))"

definition add_vl :: "byte list \<Rightarrow> serializer \<Rightarrow> (int \<times> serializer) outcome" where
  "add_vl bs s =
     bind_outcome (add_encoded (length bs) s) (\<lambda>(ret, s').
       Done (ret, if bs \<noteq> [] then snd (add_raw bs s') else s'))"

definition field_id_bytes :: "int \<Rightarrow> int \<Rightarrow> byte list" where
  "field_id_bytes type name =
     (if type < 16 then
        if name < 16 then [word_of_int (push_bit 4 type OR name)]
        else [word_of_int (push_bit 4 type), word_of_int name]
      else if name < 16 then [word_of_int name, word_of_int type]
      else [0, word_of_int type, word_of_int name])"

definition add_field_id :: "int \<Rightarrow> int \<Rightarrow> serializer \<Rightarrow> int \<times> serializer" where
  "add_field_id type name s =
     (if \<not> (1 \<le> type \<and> type < 256) \<or> \<not> (1 \<le> name \<and> name < 256) then (0, s)
      else (as_i32 (int (length (sz_data s))),
            s\<lparr>sz_data := sz_data s @ field_id_bytes type name\<rparr>))"

definition sz_chop :: "nat \<Rightarrow> serializer \<Rightarrow> bool \<times> serializer" where
  "sz_chop n s =
     (if length (sz_data s) < n then (False, s)
      else (True, s\<lparr>sz_data := take (length (sz_data s) - n) (sz_data s)\<rparr>))"

definition sz_erase :: "serializer \<Rightarrow> serializer" where
  "sz_erase s = s\<lparr>sz_data := []\<rparr>"

definition sz_resize :: "nat \<Rightarrow> serializer \<Rightarrow> serializer" where
  "sz_resize n s = s\<lparr>sz_data := take n (sz_data s) @ replicate (n - length (sz_data s)) 0\<rparr>"

definition sz_get8 :: "nat \<Rightarrow> serializer \<Rightarrow> byte option" where
  "sz_get8 offset s = (if offset < length (sz_data s) then Some (sz_data s ! offset) else None)"

definition sz_get_integer :: "nat \<Rightarrow> nat \<Rightarrow> serializer \<Rightarrow> nat option" where
  "sz_get_integer BYTES offset s =
     (if length (sz_data s) < offset + BYTES then None
      else Some (be_value (take BYTES (drop offset (sz_data s)))))"

section \<open>Reading\<close>

record serial_iter =
  si_data :: "byte list"
  si_used :: nat

definition si_new :: "byte list \<Rightarrow> serial_iter" where
  "si_new bs = \<lparr>si_data = bs, si_used = 0\<rparr>"

definition si_empty :: "serial_iter \<Rightarrow> bool" where
  "si_empty it \<longleftrightarrow> si_used it = length (si_data it)"

definition si_reset :: "serial_iter \<Rightarrow> serial_iter" where
  "si_reset it = it\<lparr>si_used := 0\<rparr>"

definition si_adv :: "nat \<Rightarrow> serial_iter \<Rightarrow> serial_iter" where
  "si_adv n it = it\<lparr>si_used := si_used it + n\<rparr>"

definition si_left :: "serial_iter \<Rightarrow> nat" where
  "si_left it = length (si_data it) - si_used it"

definition si_skip :: "nat \<Rightarrow> serial_iter \<Rightarrow> serial_iter" where
  "si_skip n it =
     (if si_left it < n then it\<lparr>si_used := length (si_data it)\<rparr> else si_adv n it)"

definition get8 :: "serial_iter \<Rightarrow> byte \<times> serial_iter" where
  "get8 it =
     (if si_left it < 1 then (0, it) else (si_data it ! si_used it, si_adv 1 it))"

definition read_integer :: "nat \<Rightarrow> serial_iter \<Rightarrow> nat \<times> serial_iter" where
  "read_integer BYTES it =
     (if si_left it < BYTES then (be_value (replicate BYTES 0), it)
      else (be_value (take BYTES (drop (si_used it) (si_data it))), si_adv BYTES it))"

definition get16 :: "serial_iter \<Rightarrow> 16 word \<times> serial_iter" where
  "get16 it = apfst word_of_nat (read_integer 2 it)"

definition get32 :: "serial_iter \<Rightarrow> u32 \<times> serial_iter" where
  "get32 it = apfst word_of_nat (read_integer 4 it)"

definition get64 :: "serial_iter \<Rightarrow> 64 word \<times> serial_iter" where
  "get64 it = apfst word_of_nat (read_integer 8 it)"

definition geti32 :: "serial_iter \<Rightarrow> int \<times> serial_iter" where
  "geti32 it = apfst (\<lambda>n. sint (word_of_nat n :: 32 word)) (read_integer 4 it)"

definition geti64 :: "serial_iter \<Rightarrow> int \<times> serial_iter" where
  "geti64 it = apfst (\<lambda>n. sint (word_of_nat n :: 64 word)) (read_integer 8 it)"

definition get_bit_string :: "nat \<Rightarrow> serial_iter \<Rightarrow> 'a::len word \<times> serial_iter" where
  "get_bit_string BYTES it =
     (if si_left it < BYTES then (0, it)
      else (word_of_nat (be_value (take BYTES (drop (si_used it) (si_data it)))),
            si_adv BYTES it))"

definition get256 :: "serial_iter \<Rightarrow> uint256 \<times> serial_iter" where
  "get256 it = get_bit_string 32 it"

definition get_field_name :: "int \<Rightarrow> int \<Rightarrow> serial_iter \<Rightarrow> (int \<times> int) \<times> serial_iter" where
  "get_field_name type name it =
     (if name = 0 then
        (let (b, it) = get8 it in ((type, if uint b < 16 then -1 else uint b), it))
      else ((type, name), it))"

definition get_field_id :: "serial_iter \<Rightarrow> (int \<times> int) \<times> serial_iter" where
  "get_field_id it =
     (let (b, it) = get8 it;
          name = uint b AND 15;
          type = drop_bit 4 (uint b)
      in if type = 0 then
           (let (b, it) = get8 it
            in if uint b < 16 then ((-1, name), it) else get_field_name (uint b) name it)
         else get_field_name type name it)"

definition decode_length_length :: "int \<Rightarrow> int outcome" where
  "decode_length_length b1 =
     (if b1 < 0 then Panic else if b1 \<le> 192 then Done 1 else if b1 \<le> 240 then Done 2
      else if b1 \<le> 254 then Done 3 else Panic)"

definition decode_vl_length_1 :: "int \<Rightarrow> int outcome" where
  "decode_vl_length_1 b1 = (if b1 < 0 then Panic else if b1 > 192 then Panic else Done b1)"

definition decode_vl_length_2 :: "int \<Rightarrow> int \<Rightarrow> int outcome" where
  "decode_vl_length_2 b1 b2 =
     (if b1 < 193 then Panic else if b1 > 240 then Panic else Done (193 + (b1 - 193) * 256 + b2))"

definition decode_vl_length_3 :: "int \<Rightarrow> int \<Rightarrow> int \<Rightarrow> int outcome" where
  "decode_vl_length_3 b1 b2 b3 =
     (if b1 < 241 then Panic else if b1 > 254 then Panic
      else Done (12481 + (b1 - 241) * 65536 + b2 * 256 + b3))"

definition get_vl_data_length :: "serial_iter \<Rightarrow> (int \<times> serial_iter) outcome" where
  "get_vl_data_length it =
     (let (b1, it) = map_prod uint id (get8 it)
      in bind_outcome (decode_length_length b1) (\<lambda>len_len.
        if len_len = 1 then bind_outcome (decode_vl_length_1 b1) (\<lambda>n. Done (n, it))
        else if len_len = 2 then
          (let (b2, it) = map_prod uint id (get8 it)
           in bind_outcome (decode_vl_length_2 b1 b2) (\<lambda>n. Done (n, it)))
        else if len_len = 3 then
          (let (b2, it) = map_prod uint id (get8 it); (b3, it) = map_prod uint id (get8 it)
           in bind_outcome (decode_vl_length_3 b1 b2 b3) (\<lambda>n. Done (n, it)))
        else Panic))"

definition get_raw :: "nat \<Rightarrow> serial_iter \<Rightarrow> (byte list \<times> serial_iter) outcome" where
  "get_raw n it =
     (if length (si_data it) < si_used it then Panic
      else if length (si_data it) - si_used it < n then Panic
      else Done (take n (drop (si_used it) (si_data it)), si_adv n it))"

definition get_raw_buffer :: "nat \<Rightarrow> serial_iter \<Rightarrow> byte list \<times> serial_iter" where
  "get_raw_buffer n it =
     (if si_left it < n then ([], it\<lparr>si_used := length (si_data it)\<rparr>)
      else (take n (drop (si_used it) (si_data it)), si_adv n it))"

definition get_vl :: "serial_iter \<Rightarrow> (byte list \<times> serial_iter) outcome" where
  "get_vl it = bind_outcome (get_vl_data_length it) (\<lambda>(n, it). get_raw (nat n) it)"

definition get_vl_buffer :: "serial_iter \<Rightarrow> (byte list \<times> serial_iter) outcome" where
  "get_vl_buffer it =
     bind_outcome (get_vl_data_length it) (\<lambda>(n, it). Done (get_raw_buffer (nat n) it))"

definition get_slice :: "nat \<Rightarrow> serial_iter \<Rightarrow> byte list \<times> serial_iter" where
  "get_slice n it =
     (if si_left it < n then ([], it)
      else (take n (drop (si_used it) (si_data it)), si_adv n it))"


section \<open>What a reader sees\<close>

definition si_ok :: "serial_iter \<Rightarrow> bool" where
  "si_ok it \<longleftrightarrow> si_used it \<le> length (si_data it)"

definition si_rest :: "serial_iter \<Rightarrow> byte list" where
  "si_rest it = drop (si_used it) (si_data it)"

named_theorems reader

lemma si_left_rest: "si_left it = length (si_rest it)"
  by (simp add: si_left_def si_rest_def)

lemma si_adv_0 [simp]: "si_adv 0 it = it"
  by (simp add: si_adv_def)

lemma si_adv_adv [simp]: "si_adv m (si_adv n it) = si_adv (n + m) it"
  by (simp add: si_adv_def)

lemma si_rest_adv [simp]: "si_rest (si_adv n it) = drop n (si_rest it)"
  by (simp add: si_adv_def si_rest_def add.commute)

lemma si_ok_adv: "si_ok it \<Longrightarrow> n \<le> length (si_rest it) \<Longrightarrow> si_ok (si_adv n it)"
  by (simp add: si_adv_def si_rest_def si_ok_def)

lemma get8_Nil [reader]: "si_rest it = [] \<Longrightarrow> get8 it = (0, it)"
  by (simp add: get8_def si_left_rest)

lemma get8_Cons [reader]: "si_rest it = b # r \<Longrightarrow> get8 it = (b, si_adv 1 it)"
  by (simp add: get8_def si_left_rest) (simp add: si_rest_def nth_via_drop)

lemma read_integer_rest:
  "si_rest it = bs @ r \<Longrightarrow> length bs = n \<Longrightarrow> read_integer n it = (be_value bs, si_adv n it)"
  by (simp add: read_integer_def si_left_rest) (simp add: si_rest_def)

lemma geti64_rest:
  assumes "- (2 ^ 63) \<le> v" and "v < 2 ^ 63" and "si_rest it = be_bytes 8 (nat (v mod 256 ^ 8)) @ r"
  shows "geti64 it = (v, si_adv 8 it)"
proof -
  have "0 \<le> v mod 256 ^ 8" and "v mod 256 ^ 8 < 256 ^ 8"
    by simp_all
  then have "be_value (be_bytes 8 (nat (v mod 256 ^ 8))) = nat (v mod 256 ^ 8)"
    by (simp add: be_value_be_bytes nat_less_iff del: be_bytes.simps)
  moreover have "(word_of_nat (nat (v mod 256 ^ 8)) :: 64 word) = word_of_int v"
    by (simp add: word_of_nat_eq_iff word_of_int_eq_iff take_bit_eq_mod flip: word_of_int_nat)
  moreover have "sint (word_of_int v :: 64 word) = v"
    using assms(1,2) by (simp add: sint_sbintrunc' signed_take_bit_int_eq_self)
  ultimately show ?thesis
    using assms(3) by (simp add: geti64_def read_integer_rest del: be_bytes.simps)
qed

lemma get_bit_string_rest:
  "si_rest it = bs @ r \<Longrightarrow> length bs = n \<Longrightarrow> get_bit_string n it = (word_of_nat (be_value bs), si_adv n it)"
  by (simp add: get_bit_string_def si_left_rest) (simp add: si_rest_def)

lemma get_raw_rest:
  "si_ok it \<Longrightarrow> get_raw n it =
     (if length (si_rest it) < n then Panic else Done (take n (si_rest it), si_adv n it))"
  by (auto simp: get_raw_def si_rest_def si_ok_def)

lemma get_raw_buffer_rest:
  "get_raw_buffer n it =
     (if length (si_rest it) < n then ([], it\<lparr>si_used := length (si_data it)\<rparr>)
      else (take n (si_rest it), si_adv n it))"
  by (simp add: get_raw_buffer_def si_left_rest) (simp add: si_rest_def)

lemma get8_ok: "si_ok it \<Longrightarrow> si_ok (snd (get8 it))"
  by (cases "si_rest it") (auto simp: reader intro!: si_ok_adv)

section \<open>Field identifiers\<close>

lemma nibbles:
  assumes "0 \<le> t" "t < 16" "0 \<le> n" "n < (16::int)"
  shows "uint (word_of_int (push_bit 4 t OR n) :: byte) = 16 * t + n"
proof -
  have "push_bit 4 t OR n = push_bit 4 t + n"
  proof (rule disjunctive_add [symmetric])
    fix i
    show "\<not> bit (push_bit 4 t) i \<or> \<not> bit n i"
    proof (cases "i < 4")
      case False
      have "n = take_bit 4 n"
        using assms by (simp add: take_bit_int_eq_self)
      then show ?thesis
        using False by (metis bit_take_bit_iff)
    qed (simp add: bit_push_bit_iff)
  qed
  then have "push_bit 4 t OR n = 16 * t + n"
    by (simp add: push_bit_eq_mult)
  moreover have "(16 * t + n) mod 256 = 16 * t + n"
    using assms by (intro mod_pos_pos_trivial) auto
  ultimately show ?thesis
    by (simp only: uint_word_of_int) simp
qed

lemma and_15: "x AND 15 = (x::int) mod 16"
  using take_bit_eq_mask [of 4 x] by (simp add: mask_eq_exp_minus_1 take_bit_eq_mod)

lemma uint_byte: "0 \<le> x \<Longrightarrow> x < 256 \<Longrightarrow> uint (word_of_int x :: byte) = x"
  by (simp add: uint_word_of_int)

definition field_code :: "int \<Rightarrow> int \<Rightarrow> bool" where
  "field_code t n \<longleftrightarrow> 1 \<le> t \<and> t < 256 \<and> 1 \<le> n \<and> n < 256"

lemma push_4_byte: "0 \<le> t \<Longrightarrow> t < 16 \<Longrightarrow> uint (word_of_int (push_bit 4 t) :: byte) = 16 * t + 0"
  using nibbles [of t 0] by simp

lemma field_id_bytes_shape:
  assumes "field_code t n"
  obtains b where "t < 16" "n < 16" "field_id_bytes t n = [b]" "uint b = 16 * t + n"
  | b c where "t < 16" "16 \<le> n" "field_id_bytes t n = [b, c]" "uint b = 16 * t" "uint c = n"
  | b c where "16 \<le> t" "n < 16" "field_id_bytes t n = [b, c]" "uint b = n" "uint c = t"
  | b c where "16 \<le> t" "16 \<le> n" "field_id_bytes t n = [0, b, c]" "uint b = t" "uint c = n"
proof -
  consider "t < 16" "n < 16" | "t < 16" "16 \<le> n" | "16 \<le> t" "n < 16" | "16 \<le> t" "16 \<le> n"
    by linarith
  then show thesis
    using assms that nibbles [of t n] push_4_byte [of t] uint_byte [of t] uint_byte [of n]
    by cases (simp_all add: field_code_def field_id_bytes_def del: push_bit_of_0 add_0_right)
qed

lemma get_field_id_div:
  "get_field_id it =
     (let (b, it) = get8 it; name = uint b mod 16; type = uint b div 16
      in if type = 0 then
           (let (b, it) = get8 it
            in if uint b < 16 then ((-1, name), it) else get_field_name (uint b) name it)
         else get_field_name type name it)"
  by (simp add: get_field_id_def and_15 drop_bit_eq_div)

lemma get_field_id_read:
  assumes code: "field_code t n" and rest: "si_rest it = field_id_bytes t n @ r"
  shows "get_field_id it = ((t, n), si_adv (length (field_id_bytes t n)) it)"
  using code
  by (rule field_id_bytes_shape)
    (use code rest in \<open>simp_all add: field_code_def get_field_id_div get_field_name_def reader\<close>)

lemma get_field_name_read:
  assumes "get_field_name t n it = ((t', n'), it')" and "n' \<noteq> -1" and "0 \<le> n"
  shows "t' = t" and "n \<noteq> 0 \<Longrightarrow> n' = n \<and> it' = it"
    and "n = 0 \<Longrightarrow> \<exists>b r. 16 \<le> n' \<and> uint b = n' \<and> si_rest it = b # r \<and> it' = si_adv 1 it"
  using assms by (cases "si_rest it"; auto simp: get_field_name_def reader split: if_splits)+


lemma field_id_bytes_one:
  "0 \<le> t \<Longrightarrow> t < 16 \<Longrightarrow> 0 \<le> n \<Longrightarrow> n < 16 \<Longrightarrow> uint b = 16 * t + n \<Longrightarrow> field_id_bytes t n = [b]"
  using nibbles [of t n] by (simp add: field_id_bytes_def word_uint_eq_iff)

lemma field_id_bytes_two:
  "0 \<le> t \<Longrightarrow> t < 16 \<Longrightarrow> uint b = 16 * t \<Longrightarrow> 16 \<le> uint c \<Longrightarrow> field_id_bytes t (uint c) = [b, c]"
  using push_4_byte [of t] by (simp add: field_id_bytes_def word_uint_eq_iff)

lemma uint_byte_less: "uint b < 256" for b :: byte
  using uint_lt2p [of b] by simp

lemma byte_nibbles:
  fixes b :: byte
  obtains h l where "uint b = 16 * h + l" "0 \<le> h" "h < 16" "0 \<le> l" "l < 16"
proof -
  have "uint b div 16 < 16" and "0 \<le> uint b div 16"
    using uint_byte_less [of b] by (auto simp: div_int_pos_iff)
  then show thesis
    by (intro that [of "uint b div 16" "uint b mod 16"]) auto
qed

text \<open>The bytes consumed by a successful read of an identifier, by the high half of the first one.\<close>

definition read_canonically :: "serial_iter \<Rightarrow> int \<Rightarrow> int \<Rightarrow> serial_iter \<Rightarrow> bool" where
  "read_canonically it t n it' \<longleftrightarrow> field_code t n \<and> si_rest it = field_id_bytes t n @ si_rest it' \<and>
     it' = si_adv (length (field_id_bytes t n)) it"

lemma canonical_short_type:
  assumes rest: "si_rest it = b # r" and b: "uint b = 16 * h + l" and h: "1 \<le> h" "h < 16"
    and l: "0 \<le> l" "l < 16" and n: "n \<noteq> -1"
    and name: "get_field_name h l (si_adv 1 it) = ((t, n), it')"
  shows "read_canonically it t n it'"
proof (cases "l = 0")
  note name = get_field_name_read [OF name n l(1)]
  case True
  then obtain c r' where "16 \<le> n" "uint c = n" "r = c # r'" "it' = si_adv 2 it"
    using name(3) rest by (auto simp: numeral_2_eq_2 numeral_3_eq_3)
  then show ?thesis
    using name(1) h b True rest field_id_bytes_two [of h b c] uint_byte_less [of c]
    by (auto simp: field_code_def read_canonically_def numeral_2_eq_2)
next
  note name = get_field_name_read [OF name n l(1)]
  case False
  then show ?thesis
    using name(1) name(2) [OF False] h l b rest field_id_bytes_one [of h l b]
    by (auto simp: field_code_def read_canonically_def numeral_2_eq_2)
qed

lemma canonical_long_type:
  assumes rest: "si_rest it = b # c # r" and b: "uint b = l" and l: "0 \<le> l" "l < 16"
    and c: "16 \<le> uint c" and n: "n \<noteq> -1"
    and name: "get_field_name (uint c) l (si_adv 2 it) = ((t, n), it')"
  shows "read_canonically it t n it'"
proof (cases "l = 0")
  note name = get_field_name_read [OF name n l(1)]
  case True
  then obtain d r' where "16 \<le> n" "uint d = n" "r = d # r'" "it' = si_adv 3 it"
    using name(3) rest by (auto simp: numeral_2_eq_2 numeral_3_eq_3)
  moreover have "b = 0"
    using True b by (simp add: word_uint_eq_iff)
  ultimately show ?thesis
    using name(1) rest c uint_byte_less [of c] uint_byte_less [of d]
    by (auto simp: field_code_def field_id_bytes_def read_canonically_def numeral_2_eq_2 numeral_3_eq_3)
next
  note name = get_field_name_read [OF name n l(1)]
  case False
  have "word_of_int l = b"
    using b by (metis word_of_int_uint)
  then show ?thesis
    using name(1) name(2) [OF False] False l rest c uint_byte_less [of c]
    by (auto simp: field_code_def field_id_bytes_def read_canonically_def numeral_2_eq_2 numeral_3_eq_3)
qed

lemma get_field_id_canonical:
  assumes get: "get_field_id it = ((t, n), it')" and t: "t \<noteq> -1" and n: "n \<noteq> -1"
  shows "read_canonically it t n it'"
proof (cases "si_rest it")
  case Nil
  then show ?thesis
    using get t by (simp add: get_field_id_div reader)
next
  case (Cons b r)
  obtain h l where b: "uint b = 16 * h + l" and h: "0 \<le> h" "h < 16" and l: "0 \<le> l" "l < 16"
    by (rule byte_nibbles)
  show ?thesis
  proof (cases "h = 0")
    case False
    then show ?thesis
      using get Cons b h l
      by (intro canonical_short_type [OF Cons b _ h(2) l n]) (simp_all add: get_field_id_div reader)
  next
    case True
    then obtain c r' where r: "r = c # r'" and c: "16 \<le> uint c"
      and name: "get_field_name (uint c) l (si_adv 2 it) = ((t, n), it')"
      using get Cons t b l by (cases r) (auto simp: get_field_id_div reader Let_def numeral_2_eq_2 split: if_splits)
    show ?thesis
      using canonical_long_type [OF _ _ l c n name] Cons r b True by simp
  qed
qed


section \<open>Length prefixes\<close>

lemma and_ff: "x AND 0xff = (x::nat) mod 256"
  using take_bit_eq_mask [of 8 x] by (simp add: mask_eq_exp_minus_1 take_bit_eq_mod)

lemma uint_byte_mod: "uint (word_of_nat n :: byte) = int (n mod 256)"
  unfolding unat_byte_of_nat [symmetric] by (rule uint_nat)

lemma uint_byte_of_nat: "n < 256 \<Longrightarrow> uint (word_of_nat n :: byte) = int n"
  by (simp only: uint_byte_mod mod_less)

lemma encoded_length_short: "n \<le> 192 \<Longrightarrow> encoded_length n = Done [word_of_nat n]"
  by (simp add: encoded_length_def)

lemma encoded_length_medium:
  "a \<le> 12287 \<Longrightarrow> encoded_length (193 + a) =
     Done [word_of_nat (193 + a div 256), word_of_nat (a mod 256)]"
  by (simp add: encoded_length_def and_ff drop_bit_eq_div Let_def del: of_nat_add)

lemma encoded_length_long:
  "a \<le> 906263 \<Longrightarrow> encoded_length (12481 + a) =
     Done [word_of_nat (241 + a div 65536), word_of_nat (a div 256 mod 256), word_of_nat (a mod 256)]"
  by (simp add: encoded_length_def and_ff drop_bit_eq_div Let_def del: of_nat_add)

lemma byte_div: "b + a div c < 256 \<Longrightarrow> uint (word_of_nat (b + a div c) :: byte) = int b + int a div int c"
  using uint_byte_of_nat [of "b + a div c"] by (simp add: zdiv_int)

lemma byte_mod: "uint (word_of_nat (a mod 256) :: byte) = int a mod 256"
  by (simp only: uint_byte_mod mod_mod_trivial) (simp add: zmod_int)

lemma byte_div_mod: "uint (word_of_nat (a div 256 mod 256) :: byte) = int a div 256 mod 256"
  by (simp only: byte_mod zdiv_int) simp

lemma encoded_length_shape:
  assumes "n \<le> 918744"
  obtains b where "n \<le> 192" "encoded_length n = Done [b]" "uint b = int n"
  | a b c where "a \<le> 12287" "encoded_length n = Done [b, c]" "n = 193 + a"
      "uint b = 193 + int a div 256" "uint c = int a mod 256"
  | a b c d where "a \<le> 906263" "encoded_length n = Done [b, c, d]" "n = 12481 + a"
      "uint b = 241 + int a div 65536" "uint c = int a div 256 mod 256" "uint d = int a mod 256"
proof -
  consider "n \<le> 192" | a where "n = 193 + a" "a \<le> 12287" | a where "n = 12481 + a" "a \<le> 906263"
  proof -
    have "n \<le> 192 \<or> n = 193 + (n - 193) \<and> n - 193 \<le> 12287 \<or> n = 12481 + (n - 12481) \<and> n - 12481 \<le> 906263"
      using assms by linarith
    then show thesis
      using that by blast
  qed
  then show thesis
  proof cases
    case 1
    show ?thesis
      by (rule that(1) [OF 1 encoded_length_short [OF 1]]) (use 1 in \<open>simp only: uint_byte_of_nat\<close>)
  next
    case (2 a)
    have "uint (word_of_nat (193 + a div 256) :: byte) = 193 + int a div 256"
      using 2 byte_div [of 193 a 256] by simp
    then show ?thesis
      using that(2) [OF 2(2) _ 2(1) _ byte_mod] encoded_length_medium [OF 2(2)] 2(1) by metis
  next
    case (3 a)
    have "uint (word_of_nat (241 + a div 65536) :: byte) = 241 + int a div 65536"
      using 3 byte_div [of 241 a 65536] by simp
    then show ?thesis
      using that(3) [OF 3(2) _ 3(1) _ byte_div_mod byte_mod] encoded_length_long [OF 3(2)] 3(1) by metis
  qed
qed

lemmas vl_decoders = get_vl_data_length_def decode_length_length_def decode_vl_length_1_def
  decode_vl_length_2_def decode_vl_length_3_def

lemma vl_length_1:
  "si_rest it = b # r \<Longrightarrow> uint b \<le> 192 \<Longrightarrow> get_vl_data_length it = Done (uint b, si_adv 1 it)"
  by (simp add: vl_decoders reader)

lemma vl_length_2:
  "si_rest it = b # c # r \<Longrightarrow> 193 \<le> uint b \<Longrightarrow> uint b \<le> 240 \<Longrightarrow>
     get_vl_data_length it = Done (193 + (uint b - 193) * 256 + uint c, si_adv 2 it)"
  by (simp add: vl_decoders reader numeral_2_eq_2)

lemma vl_length_3:
  "si_rest it = b # c # d # r \<Longrightarrow> 241 \<le> uint b \<Longrightarrow> uint b \<le> 254 \<Longrightarrow>
     get_vl_data_length it = Done (12481 + (uint b - 241) * 65536 + uint c * 256 + uint d, si_adv 3 it)"
  by (simp add: vl_decoders reader numeral_3_eq_3)

lemma base_256: "int a div 65536 * 65536 + int a div 256 mod 256 * 256 + int a mod 256 = int a"
proof -
  have "int a div 65536 = int a div 256 div 256"
    by (simp flip: zdiv_zmult2_eq)
  then show ?thesis
    using div_mult_mod_eq [of "int a div 256" 256] div_mult_mod_eq [of "int a" 256] by linarith
qed

lemma div_range: "a \<le> m \<Longrightarrow> 0 < c \<Longrightarrow> 0 \<le> int a div c \<and> int a div c \<le> int m div c"
  by (simp add: div_int_pos_iff zdiv_mono1)

lemma get_vl_data_length_read:
  assumes n: "n \<le> 918744" and bs: "encoded_length n = Done bs" and rest: "si_rest it = bs @ r"
  shows "get_vl_data_length it = Done (int n, si_adv (length bs) it)"
  using n
proof (rule encoded_length_shape)
  fix b assume "n \<le> 192" "encoded_length n = Done [b]" "uint b = int n"
  then show ?thesis
    using bs rest vl_length_1 [of it b r] by simp
next
  fix a b c
  assume b: "a \<le> 12287" "encoded_length n = Done [b, c]" "n = 193 + a"
    "uint b = 193 + int a div 256" "uint c = int a mod 256"
  then have "bs = [b, c]" and "193 \<le> uint b" and "uint b \<le> 240"
    and "193 + (uint b - 193) * 256 + uint c = int n"
    using bs div_range [of a 12287 256] by simp_all
  then show ?thesis
    using rest vl_length_2 [of it b c r] by (simp add: numeral_2_eq_2)
next
  fix a b c d
  assume b: "a \<le> 906263" "encoded_length n = Done [b, c, d]" "n = 12481 + a"
    "uint b = 241 + int a div 65536" "uint c = int a div 256 mod 256" "uint d = int a mod 256"
  then have "bs = [b, c, d]" and "241 \<le> uint b" and "uint b \<le> 254"
    and "12481 + (uint b - 241) * 65536 + uint c * 256 + uint d = int n"
    using bs base_256 [of a] div_range [of a 906263 65536] by simp_all
  then show ?thesis
    using rest vl_length_3 [of it b c d r] by (simp add: numeral_3_eq_3)
qed


text \<open>The position of the reader that stands at the end of \<open>s\<close> in the bytes of \<open>s'\<close> and those after.\<close>

definition reader_after :: "serializer \<Rightarrow> serializer \<Rightarrow> byte list \<Rightarrow> serial_iter" where
  "reader_after s s' r = \<lparr>si_data = sz_data s' @ r, si_used = length (sz_data s)\<rparr>"

lemma si_ok_reader_after: "length (sz_data s) \<le> length (sz_data s') \<Longrightarrow> si_ok (reader_after s s' r)"
  by (simp add: si_ok_def reader_after_def)

lemma si_rest_reader_after:
  "sz_data s' = sz_data s @ bs \<Longrightarrow> si_rest (reader_after s s' r) = bs @ r"
  by (simp add: si_rest_def reader_after_def)

lemma si_adv_reader_after:
  "sz_data s' = sz_data s @ bs \<Longrightarrow> si_adv (length bs) (reader_after s s' r) = reader_after s' s' r"
  by (simp add: si_adv_def reader_after_def)

lemma encoded_length_done:
  assumes "n \<le> 918744"
  obtains bs where "encoded_length n = Done bs" and "encode_length_length n = Done (length bs)"
proof -
  have "\<exists>bs. encoded_length n = Done bs \<and> encode_length_length n = Done (length bs)"
    by (rule encoded_length_shape [OF assms]) (auto simp: encode_length_length_def)
  then show thesis
    using that by blast
qed

lemma add_encoded_done:
  assumes "encoded_length n = Done bs" and "encode_length_length n = Done (length bs)"
    and "length (sz_data s) < 2 ^ 31"
  shows "add_encoded n s = Done (int (length (sz_data s)), s\<lparr>sz_data := sz_data s @ bs\<rparr>)"
  using assms by (simp add: add_encoded_def Let_def as_i32_small)

lemma add_encoded_panic: "918744 < n \<Longrightarrow> add_encoded n s = Panic"
  by (simp add: add_encoded_def encoded_length_def Let_def)

lemma add_vl_done:
  assumes "length bs \<le> 918744" and "length (sz_data s) < 2 ^ 31"
  obtains pre s' where "encoded_length (length bs) = Done pre"
    and "add_vl bs s = Done (int (length (sz_data s)), s')" and "sz_data s' = sz_data s @ pre @ bs"
proof -
  obtain pre where pre: "encoded_length (length bs) = Done pre"
    "encode_length_length (length bs) = Done (length pre)"
    using assms(1) by (rule encoded_length_done)
  show thesis
    by (rule that [of pre "s\<lparr>sz_data := sz_data s @ pre @ bs\<rparr>"])
      (simp_all add: pre add_vl_def add_encoded_done [OF pre assms(2)] add_raw_def)
qed

lemma get_vl_read:
  assumes "length bs \<le> 918744" and "encoded_length (length bs) = Done pre"
    and "si_ok it" and "si_rest it = pre @ bs @ r"
  shows "get_vl it = Done (bs, si_adv (length (pre @ bs)) it)"
    and "get_vl_buffer it = Done (bs, si_adv (length (pre @ bs)) it)"
  using assms get_vl_data_length_read [of "length bs" pre it "bs @ r"]
  by (simp_all add: get_vl_def get_vl_buffer_def get_raw_rest get_raw_buffer_rest si_ok_adv)

lemma add_chunks_iff:
  "add_chunks chunks n s =
     (if n = length (concat chunks) then Done (s\<lparr>sz_data := sz_data s @ concat chunks\<rparr>) else Panic)"
  by (induction chunks arbitrary: n s) (auto simp: add_raw_def)


text \<open>A length is read from one, two or three bytes; bytes that are missing read as zero.\<close>

definition si_byte :: "nat \<Rightarrow> serial_iter \<Rightarrow> int" where
  "si_byte i it = (if i < length (si_rest it) then uint (si_rest it ! i) else 0)"

lemma get8_byte: "get8 it = (if si_rest it = [] then 0 else si_rest it ! 0,
    si_adv (min 1 (length (si_rest it))) it)"
  by (cases "si_rest it") (simp_all add: reader)

lemma uint_get8: "map_prod uint id (get8 it) = (si_byte 0 it, si_adv (min 1 (length (si_rest it))) it)"
  by (simp add: get8_byte si_byte_def)

lemma si_byte_adv: "si_byte i (si_adv n it) = si_byte (n + i) it"
  by (simp add: si_byte_def less_diff_conv add.commute)

lemma si_byte_range: "0 \<le> si_byte i it" "si_byte i it \<le> 255"
  using uint_byte_less [of "si_rest it ! i"] by (auto simp: si_byte_def)

lemma si_byte_end: "length (si_rest it) \<le> i \<Longrightarrow> si_byte i it = 0"
  by (simp add: si_byte_def)

lemma si_byte_adv_min: "si_byte 0 (si_adv (min n (length (si_rest it))) it) = si_byte n it"
  by (simp add: si_byte_adv min_def si_byte_end)

lemma adv_min:
  "si_adv (min 1 (length (si_rest (si_adv (min n (length (si_rest it))) it)))) (si_adv (min n (length (si_rest it))) it) =
     si_adv (min (n + 1) (length (si_rest it))) it"
  by (simp add: min_def) (metis le_antisym not_less_eq_eq)

lemma get_vl_data_length_bytes:
  "get_vl_data_length it =
     (let b1 = si_byte 0 it; b2 = si_byte 1 it; b3 = si_byte 2 it; left = length (si_rest it)
      in if b1 \<le> 192 then Done (b1, si_adv (min 1 left) it)
         else if b1 \<le> 240 then Done (193 + (b1 - 193) * 256 + b2, si_adv (min 2 left) it)
         else if b1 \<le> 254 then Done (12481 + (b1 - 241) * 65536 + b2 * 256 + b3, si_adv (min 3 left) it)
         else Panic)"
  using si_byte_range(1) [of 0 it]
  by (simp add: vl_decoders Let_def uint_get8 si_byte_adv_min adv_min [unfolded One_nat_def] numeral_2_eq_2 numeral_3_eq_3
      del: si_adv_adv si_rest_adv)


lemma byte_of_unat: "word_of_nat (unat b) = b" for b :: byte
  by simp

lemma encoded_length_bytes:
  "unat b \<le> 192 \<Longrightarrow> encoded_length (unat b) = Done [b]"
  "193 \<le> unat b \<Longrightarrow> unat b \<le> 240 \<Longrightarrow>
     encoded_length (193 + ((unat b - 193) * 256 + unat c)) = Done [b, c]"
  for b c :: byte
proof -
  show "unat b \<le> 192 \<Longrightarrow> encoded_length (unat b) = Done [b]"
    by (simp add: encoded_length_short)
  assume b: "193 \<le> unat b" "unat b \<le> 240"
  have c: "unat c < 256"
    using unsigned_less [of c] by simp
  have "(unat b - 193) * 256 \<le> 47 * 256"
    using b by (intro mult_le_mono1) simp
  then have a: "(unat b - 193) * 256 + unat c \<le> 12287"
    using c by linarith
  have "193 + ((unat b - 193) * 256 + unat c) div 256 = unat b" and "((unat b - 193) * 256 + unat c) mod 256 = unat c"
    using b c by simp_all
  then show "encoded_length (193 + ((unat b - 193) * 256 + unat c)) = Done [b, c]"
    by (simp only: encoded_length_medium [OF a] byte_of_unat)
qed

lemma encoded_length_three_bytes:
  fixes b c d :: byte
  assumes b: "241 \<le> unat b" "unat b \<le> 254"
    and a: "(unat b - 241) * 65536 + unat c * 256 + unat d \<le> 906263"
  shows "encoded_length (12481 + ((unat b - 241) * 65536 + unat c * 256 + unat d)) = Done [b, c, d]"
proof -
  have cd: "unat c < 256" "unat d < 256"
    using unsigned_less [of c] unsigned_less [of d] by simp_all
  let ?a = "(unat b - 241) * 65536 + unat c * 256 + unat d"
  have "?a = ((unat b - 241) * 256 + unat c) * 256 + unat d"
    by simp
  then have "?a div 256 = (unat b - 241) * 256 + unat c" and d: "?a mod 256 = unat d"
    using cd by (simp_all only: div_mult_self3 mod_mult_self3) simp_all
  then have c: "?a div 256 mod 256 = unat c" and "?a div 65536 = unat b - 241"
    using cd div_mult2_eq [of ?a 256 256] by simp_all
  then have "241 + ?a div 65536 = unat b"
    using b by simp
  then show ?thesis
    by (simp only: encoded_length_long [OF a] c d byte_of_unat)
qed


lemma encoded_length_length:
  assumes "encoded_length n = Done bs"
  shows "n \<le> 918744" and "length bs = (if n \<le> 192 then 1 else if n \<le> 12480 then 2 else 3)"
proof -
  show n: "n \<le> 918744"
    using assms by (simp add: encoded_length_def split: if_splits)
  show "length bs = (if n \<le> 192 then 1 else if n \<le> 12480 then 2 else 3)"
    by (rule encoded_length_done [OF n]) (use assms in \<open>auto simp: encode_length_length_def split: if_splits\<close>)
qed

lemma vl_length_range:
  assumes "get_vl_data_length it = Done (n, it')"
  shows "0 \<le> n" and "n \<le> 929984"
    and "si_byte 0 it \<le> 192 \<Longrightarrow> n = si_byte 0 it"
    and "193 \<le> si_byte 0 it \<Longrightarrow> si_byte 0 it \<le> 240 \<Longrightarrow> 193 \<le> n \<and> n \<le> 12480"
    and "241 \<le> si_byte 0 it \<Longrightarrow> 12481 \<le> n \<and> si_byte 0 it \<le> 254"
  using assms si_byte_range [of 0 it] si_byte_range [of 1 it] si_byte_range [of 2 it]
  by (auto simp: get_vl_data_length_bytes Let_def split: if_splits)

lemma vl_length_unat:
  "si_rest it = b # r \<Longrightarrow> unat b \<le> 192 \<Longrightarrow> get_vl_data_length it = Done (int (unat b), si_adv 1 it)"
  "si_rest it = b # c # r \<Longrightarrow> 193 \<le> unat b \<Longrightarrow> unat b \<le> 240 \<Longrightarrow>
     get_vl_data_length it = Done (int (193 + ((unat b - 193) * 256 + unat c)), si_adv 2 it)"
  "si_rest it = b # c # d # r \<Longrightarrow> 241 \<le> unat b \<Longrightarrow> unat b \<le> 254 \<Longrightarrow>
     get_vl_data_length it =
       Done (int (12481 + ((unat b - 241) * 65536 + unat c * 256 + unat d)), si_adv 3 it)"
  using vl_length_1 [of it b r] vl_length_2 [of it b c r] vl_length_3 [of it b c d r]
  by (simp_all add: uint_nat of_nat_diff del: of_nat_unat)

lemma long_enough:
  assumes "n \<le> length xs"
  shows "n = Suc 0 \<Longrightarrow> \<exists>a r. xs = a # r" and "n = 2 \<Longrightarrow> \<exists>a b r. xs = a # b # r"
    and "n = 3 \<Longrightarrow> \<exists>a b c r. xs = a # b # c # r"
  using assms by (auto simp: numeral_2_eq_2 numeral_3_eq_3 Suc_le_length_iff)

lemma vl_length_canonical:
  assumes get: "get_vl_data_length it = Done (n, it')" and bs: "encoded_length (nat n) = Done bs"
    and left: "length bs \<le> si_left it"
  shows "si_rest it = bs @ si_rest it'"
proof -
  note range = vl_length_range [OF get] and len = encoded_length_length [OF bs]
  note rest = long_enough [OF left [unfolded si_left_rest]]
  have byte: "si_byte 0 it = int (unat b)" if "si_rest it = b # r" for b r
    using that by (simp add: si_byte_def)
  consider "si_byte 0 it \<le> 192" | "193 \<le> si_byte 0 it" "si_byte 0 it \<le> 240" | "241 \<le> si_byte 0 it"
    by linarith
  then show ?thesis
  proof cases
    case 1
    then obtain b r where b: "si_rest it = b # r" "unat b \<le> 192"
      using range(3) len(2) rest(1) byte by (auto split: if_splits)
    then show ?thesis
      using vl_length_unat(1) [OF b] get bs encoded_length_bytes(1) [OF b(2)] by auto
  next
    case 2
    then have "193 \<le> nat n" "nat n \<le> 12480"
      using range(4) by linarith+
    then obtain b c r where b: "si_rest it = b # c # r"
      using len(2) rest(2) by auto
    have b: "si_rest it = b # c # r" "193 \<le> unat b" "unat b \<le> 240"
      using b 2 byte [OF b] by linarith+
    then have "bs = [b, c]" and "it' = si_adv 2 it"
      using vl_length_unat(2) [OF b] get bs encoded_length_bytes(2) [OF b(2,3), of c]
      by (simp_all only: outcome.inject prod.inject nat_int)
    then show ?thesis
      using b(1) by simp
  next
    case 3
    then have "12481 \<le> nat n" and upper: "si_byte 0 it \<le> 254"
      using range(5) by linarith+
    then obtain b c d r where b: "si_rest it = b # c # d # r"
      using len(2) rest(3) by auto
    have b: "si_rest it = b # c # d # r" "241 \<le> unat b" "unat b \<le> 254"
      using b 3 upper byte [OF b] by linarith+
    have n: "int (12481 + ((unat b - 241) * 65536 + unat c * 256 + unat d)) = n" and it': "it' = si_adv 3 it"
      using vl_length_unat(3) [OF b] get by simp_all
    then have n: "nat n = 12481 + ((unat b - 241) * 65536 + unat c * 256 + unat d)"
      by linarith
    then have "(unat b - 241) * 65536 + unat c * 256 + unat d \<le> 906263"
      using len(1) by linarith
    from encoded_length_three_bytes [OF b(2,3) this] have "bs = [b, c, d]"
      using bs n by simp
    then show ?thesis
      using b(1) it' by simp
  qed
qed


lemma byte_255: "uint b = 255 \<longleftrightarrow> b = 255" for b :: byte
  by (simp add: word_uint_eq_iff)

lemma vl_length_panics: "get_vl_data_length it = Panic \<longleftrightarrow> (\<exists>r. si_rest it = 255 # r)"
proof -
  have "get_vl_data_length it = Panic \<longleftrightarrow> si_byte 0 it = 255"
    using si_byte_range [of 0 it] by (auto simp: get_vl_data_length_bytes Let_def)
  then show ?thesis
    by (cases "si_rest it") (auto simp: si_byte_def byte_255)
qed

lemma vl_length_returns: "get_vl_data_length it \<noteq> OutOfFuel"
  by (simp add: get_vl_data_length_bytes Let_def)

lemma vl_length_ok: "get_vl_data_length it = Done (n, it') \<Longrightarrow> si_ok it \<Longrightarrow> si_ok it'"
  by (auto simp: get_vl_data_length_bytes Let_def si_ok_adv split: if_splits)

lemma si_ok_end: "si_ok (it\<lparr>si_used := length (si_data it)\<rparr>)"
  by (simp add: si_ok_def)


section \<open>Properties\<close>

text \<open>C36: A field identifier written with \<open>add_field_id\<close> is read back by \<open>get_field_id\<close>, whatever
  precedes and follows it, and the reader stops right behind it.\<close>

theorem field_id_roundtrip:
  assumes "field_code t n"
  shows "let s' = snd (add_field_id t n s)
    in get_field_id (reader_after s s' r) = ((t, n), reader_after s' s' r)"
proof -
  let ?s = "snd (add_field_id t n s)"
  have data: "sz_data ?s = sz_data s @ field_id_bytes t n"
    using assms by (auto simp: add_field_id_def field_code_def)
  show ?thesis
    using get_field_id_read [OF assms si_rest_reader_after [OF data]] si_adv_reader_after [OF data]
    by (simp add: Let_def)
qed

theorem field_id_roundtrip_witness:
  "field_code 16 1 \<and>
   get_field_id (reader_after sz_new (snd (add_field_id 16 1 sz_new)) [7]) =
     ((16, 1), reader_after (snd (add_field_id 16 1 sz_new)) (snd (add_field_id 16 1 sz_new)) [7])"
  using field_id_roundtrip [of 16 1 sz_new "[7]"] by (simp add: field_code_def Let_def)

text \<open>C23: Only the canonical encoding of a field identifier is accepted: when \<open>get_field_id\<close> reports
  a type and a name (neither is \<open>-1\<close>), both are between 1 and 255 and the bytes consumed are the ones
  \<open>add_field_id\<close> writes; truncated and over-long encodings are reported as invalid.\<close>

theorem field_id_canonical:
  assumes "get_field_id it = ((t, n), it')" and "t \<noteq> -1" and "n \<noteq> -1"
  shows "field_code t n \<and> si_rest it = sz_data (snd (add_field_id t n sz_new)) @ si_rest it'"
proof -
  have read: "read_canonically it t n it'"
    by (rule get_field_id_canonical [OF assms])
  then have "sz_data (snd (add_field_id t n sz_new)) = field_id_bytes t n"
    by (auto simp: read_canonically_def add_field_id_def field_code_def sz_new_def)
  then show ?thesis
    using read unfolding read_canonically_def by metis
qed

theorem field_id_canonical_witness:
  "si_rest (si_new [0x10, 0x20, 9]) = sz_data (snd (add_field_id 1 32 sz_new)) @ si_rest (si_adv 2 (si_new [0x10, 0x20, 9]))"
proof -
  have "get_field_id (si_new [0x10, 0x20, 9]) = ((1, 32), si_adv 2 (si_new [0x10, 0x20, 9]))"
    by code_simp
  from field_id_canonical [OF this] show ?thesis
    by simp
qed

text \<open>C37: Data of at most 918744 bytes written with \<open>add_vl\<close> is read back by \<open>get_vl\<close> and by
  \<open>get_vl_buffer\<close>, and the reader stops right behind it; longer data makes \<open>add_vl\<close> panic.\<close>

theorem vl_roundtrip:
  assumes "length (sz_data s) < 2 ^ 31"
  shows "if length bs \<le> 918744
    then \<exists>s'. add_vl bs s = Done (int (length (sz_data s)), s') \<and>
      get_vl (reader_after s s' r) = Done (bs, reader_after s' s' r) \<and>
      get_vl_buffer (reader_after s s' r) = Done (bs, reader_after s' s' r)
    else add_vl bs s = Panic"
proof (cases "length bs \<le> 918744")
  case True
  then obtain pre s' where pre: "encoded_length (length bs) = Done pre"
    and add: "add_vl bs s = Done (int (length (sz_data s)), s')" and data: "sz_data s' = sz_data s @ pre @ bs"
    using assms by (rule add_vl_done)
  have "si_ok (reader_after s s' r)" and "si_rest (reader_after s s' r) = pre @ bs @ r"
    using si_rest_reader_after [OF data] by (simp_all add: si_ok_reader_after data)
  from get_vl_read [OF True pre this] show ?thesis
    using True add si_adv_reader_after [OF data] by simp
qed (simp add: add_vl_def add_encoded_panic)

theorem vl_roundtrip_witness:
  "\<exists>s'. add_vl [1, 2, 3] sz_new = Done (0, s') \<and>
     get_vl (reader_after sz_new s' [9]) = Done ([1, 2, 3], reader_after s' s' [9])"
  using vl_roundtrip [of sz_new "[1, 2, 3]" "[9]"] by (auto simp: sz_new_def)



text \<open>C40: \<open>get_vl_buffer\<close> panics exactly when the first byte is 255, and \<open>get_vl\<close> panics then and
  when fewer bytes are left than announced; neither runs past the end of the data.\<close>

theorem vl_read_panics:
  assumes "si_ok it"
  shows "(get_vl_buffer it = Panic \<longleftrightarrow> (\<exists>r. si_rest it = 255 # r)) \<and>
    (get_vl it = Panic \<longleftrightarrow> (\<exists>r. si_rest it = 255 # r) \<or>
       (\<exists>n it'. get_vl_data_length it = Done (n, it') \<and> si_left it' < nat n)) \<and>
    (\<forall>bs it'. get_vl it = Done (bs, it') \<longrightarrow> si_ok it') \<and>
    (\<forall>bs it'. get_vl_buffer it = Done (bs, it') \<longrightarrow> si_ok it')"
proof -
  have panic: "get_vl_data_length it = Panic \<longleftrightarrow> (\<exists>r. si_rest it = 255 # r)"
    by (rule vl_length_panics)
  have ok: "si_ok it'" if "get_vl_data_length it = Done (n, it')" for n it'
    using vl_length_ok [OF that assms] .
  show ?thesis
    using panic ok vl_length_returns [of it]
    by (cases "get_vl_data_length it")
      (auto simp: get_vl_def get_vl_buffer_def get_raw_rest get_raw_buffer_rest si_left_rest si_ok_adv si_ok_end
        split: if_splits)
qed

theorem vl_read_panics_witness:
  "si_ok (si_new [5, 1]) \<and> get_vl (si_new [5, 1]) = Panic \<and> get_vl_buffer (si_new [5, 1]) \<noteq> Panic"
proof -
  have ok: "si_ok (si_new [5, 1])"
    by (simp add: si_ok_def si_new_def)
  have "si_rest (si_new [5, 1]) = [5, 1]"
    by (simp add: si_rest_def si_new_def)
  then have rest: "\<nexists>r. si_rest (si_new [5, 1]) = 255 # r"
    by simp
  have get: "get_vl_data_length (si_new [5, 1]) = Done (5, si_adv 1 (si_new [5, 1]))"
    by code_simp
  have "si_left (si_adv 1 (si_new [5, 1])) < nat 5"
    by (simp add: si_left_def si_adv_def si_new_def)
  then show ?thesis
    using vl_read_panics [OF ok] ok rest get by blast
qed

end
