(* ===== verification/Ledger_Header.thy ===== *)
theory Ledger_Header
  imports Serializer
begin

text \<open>
  The codec and the hash of ledger headers (\<open>ledger/ledger_header.rs\<close>), over the serializer. The
  wire form of a header is the fixed-width concatenation of its fields: reading inverts writing in
  both directions, short input is refused, and the ledger hash is the SHA-512 half of the prefixed
  wire form. SHA-512 itself is a package outside the repository: its three operations are arguments.
\<close>

section \<open>Hash prefixes and the half hasher\<close>

definition make_hash_prefix :: "nat \<Rightarrow> nat \<Rightarrow> nat \<Rightarrow> u32" where
  "make_hash_prefix a b c =
     push_bit 24 (word_of_nat a) + push_bit 16 (word_of_nat b) + push_bit 8 (word_of_nat c)"

definition ledger_master_prefix :: u32 where
  "ledger_master_prefix = make_hash_prefix 76 87 82"

record 'h sha_ops =
  sha_new :: 'h
  sha_update :: "'h \<Rightarrow> byte list \<Rightarrow> 'h"
  sha_result :: "'h \<Rightarrow> byte list"

definition half_result :: "'h sha_ops \<Rightarrow> 'h \<Rightarrow> uint256" where
  "half_result sha st = word_of_nat (be_value (take 32 (sha_result sha st)))"

definition sha512_half :: "'h sha_ops \<Rightarrow> byte list \<Rightarrow> uint256" where
  "sha512_half sha bs = half_result sha (sha_update sha (sha_new sha) bs)"

definition sha512_half_slices :: "'h sha_ops \<Rightarrow> byte list list \<Rightarrow> uint256" where
  "sha512_half_slices sha parts = half_result sha (foldl (sha_update sha) (sha_new sha) parts)"

section \<open>The codec\<close>

datatype ledger_header_codec_error = TooShort

definition get_close_agree :: "ledger_header \<Rightarrow> bool" where
  "get_close_agree h \<longleftrightarrow> close_flags h AND 1 = 0"

definition header_default :: ledger_header where
  "header_default =
     \<lparr>seq = 0, drops = 0, hash = 0, parent_hash = 0, tx_hash = 0, account_hash = 0,
      parent_close_time = 0, close_time = 0, validated = False, accepted = False,
      close_time_resolution = 0, close_flags = 0\<rparr>"

definition add_raw_ledger_header :: "ledger_header \<Rightarrow> serializer \<Rightarrow> bool \<Rightarrow> serializer" where
  "add_raw_ledger_header h s include_hash =
     (let s = snd (add32 (seq h) s);
          s = snd (add64 (drops h) s);
          s = snd (add_bit_string 32 (parent_hash h) s);
          s = snd (add_bit_string 32 (tx_hash h) s);
          s = snd (add_bit_string 32 (account_hash h) s);
          s = snd (add32 (parent_close_time h) s);
          s = snd (add32 (close_time h) s);
          s = snd (add8 (close_time_resolution h) s);
          s = snd (add8 (close_flags h) s)
      in if include_hash then snd (add_bit_string 32 (hash h) s) else s)"

definition serialize_ledger_header :: "ledger_header \<Rightarrow> bool \<Rightarrow> byte list" where
  "serialize_ledger_header h include_hash = sz_data (add_raw_ledger_header h sz_new include_hash)"

definition serialize_prefixed_ledger_header :: "ledger_header \<Rightarrow> bool \<Rightarrow> byte list" where
  "serialize_prefixed_ledger_header h include_hash =
     sz_data (add_raw_ledger_header h (snd (add32 ledger_master_prefix sz_new)) include_hash)"

definition header_wire_size :: "bool \<Rightarrow> nat" where
  "header_wire_size has_hash = (if has_hash then 150 else 118)"

definition deserialize_ledger_header ::
  "byte list \<Rightarrow> bool \<Rightarrow> ledger_header_codec_error + ledger_header" where
  "deserialize_ledger_header bs has_hash =
     (let required = header_wire_size has_hash
      in if length bs < required then Inl TooShort
         else
           (let it = si_new (take required bs);
                (sq, it) = get32 it;
                (dr, it) = get64 it;
                (ph, it) = get256 it;
                (th, it) = get256 it;
                (ah, it) = get256 it;
                (pct, it) = get32 it;
                (ct, it) = get32 it;
                (res, it) = get8 it;
                (fl, it) = get8 it;
                h = header_default
                  \<lparr>seq := sq, drops := dr, parent_hash := ph, tx_hash := th, account_hash := ah,
                   parent_close_time := pct, close_time := ct, close_time_resolution := res,
                   close_flags := fl\<rparr>
            in Inr (if has_hash then h\<lparr>hash := fst (get256 it)\<rparr> else h)))"

definition deserialize_prefixed_ledger_header ::
  "byte list \<Rightarrow> bool \<Rightarrow> ledger_header_codec_error + ledger_header" where
  "deserialize_prefixed_ledger_header bs has_hash =
     (if length bs < 4 then Inl TooShort else deserialize_ledger_header (drop 4 bs) has_hash)"

definition calculate_ledger_hash :: "'h sha_ops \<Rightarrow> ledger_header \<Rightarrow> uint256" where
  "calculate_ledger_hash sha h =
     (let st = sha_new sha;
          st = sha_update sha st (be_bytes 4 (unat ledger_master_prefix));
          st = sha_update sha st (be_bytes 4 (unat (seq h)));
          st = sha_update sha st (be_bytes 8 (unat (drops h)));
          st = sha_update sha st (be_bytes 32 (unat (parent_hash h)));
          st = sha_update sha st (be_bytes 32 (unat (tx_hash h)));
          st = sha_update sha st (be_bytes 32 (unat (account_hash h)));
          st = sha_update sha st (be_bytes 4 (unat (parent_close_time h)));
          st = sha_update sha st (be_bytes 4 (unat (close_time h)));
          st = sha_update sha st [close_time_resolution h];
          st = sha_update sha st [close_flags h]
      in half_result sha st)"

section \<open>The wire form\<close>

definition header_bytes :: "ledger_header \<Rightarrow> bool \<Rightarrow> byte list" where
  "header_bytes h include_hash =
     be_bytes 4 (unat (seq h)) @ be_bytes 8 (unat (drops h)) @ be_bytes 32 (unat (parent_hash h)) @
     be_bytes 32 (unat (tx_hash h)) @ be_bytes 32 (unat (account_hash h)) @
     be_bytes 4 (unat (parent_close_time h)) @ be_bytes 4 (unat (close_time h)) @
     [close_time_resolution h] @ [close_flags h] @
     (if include_hash then be_bytes 32 (unat (hash h)) else [])"

lemmas writers = add8_def add32_def add64_def add_bit_string_def add_raw_def

lemma add_raw_header_data: "sz_data (add_raw_ledger_header h s b) = sz_data s @ header_bytes h b"
  by (simp add: add_raw_ledger_header_def header_bytes_def writers Let_def del: be_bytes.simps)

lemma length_header_bytes [simp]: "length (header_bytes h b) = header_wire_size b"
  by (simp add: header_bytes_def header_wire_size_def del: be_bytes.simps)

lemma serialize_bytes:
  "serialize_ledger_header h b = header_bytes h b"
  "serialize_prefixed_ledger_header h b = be_bytes 4 (unat ledger_master_prefix) @ header_bytes h b"
  by (simp_all add: serialize_ledger_header_def serialize_prefixed_ledger_header_def add_raw_header_data
      sz_new_def writers del: be_bytes.simps)

lemma get32_rest: "si_rest it = be_bytes 4 (unat w) @ r \<Longrightarrow> get32 it = (w, si_adv 4 it)"
  by (simp add: get32_def read_integer_rest be_word_roundtrip del: be_bytes.simps)

lemma get64_rest: "si_rest it = be_bytes 8 (unat w) @ r \<Longrightarrow> get64 it = (w, si_adv 8 it)"
  by (simp add: get64_def read_integer_rest be_word_roundtrip del: be_bytes.simps)

lemma get256_rest: "si_rest it = be_bytes 32 (unat w) @ r \<Longrightarrow> get256 it = (w, si_adv 32 it)"
  by (simp add: get256_def get_bit_string_rest be_word_roundtrip del: be_bytes.simps)

lemma get8_rest: "si_rest it = [b] @ r \<Longrightarrow> get8 it = (b, si_adv 1 it)"
  by (simp add: reader)

lemma si_rest_new [simp]: "si_rest (si_new bs) = bs"
  by (simp add: si_rest_def si_new_def)

definition wire_part :: "ledger_header \<Rightarrow> bool \<Rightarrow> ledger_header" where
  "wire_part h b = h\<lparr>hash := if b then hash h else 0, validated := False, accepted := False\<rparr>"

lemma get256_end: "si_rest it = be_bytes 32 (unat w) \<Longrightarrow> get256 it = (w, si_adv 32 it)"
  using get256_rest [of it w "[]"] by simp

lemma deserialize_header_bytes: "deserialize_ledger_header (header_bytes h b @ r) b = Inr (wire_part h b)"
  by (cases h) (simp add: deserialize_ledger_header_def Let_def get32_rest get64_rest get256_rest get256_end
      get8_rest header_bytes_def wire_part_def header_default_def header_wire_size_def del: be_bytes.simps)

lemma be_value_bound: "be_value bs < 256 ^ length bs"
proof -
  have "be_value bs = be_value (be_bytes (length bs) (be_value bs))"
    by (simp only: be_bytes_be_value)
  also have "\<dots> < 256 ^ length bs"
    by (simp add: be_value_be_bytes del: be_bytes.simps)
  finally show ?thesis .
qed

lemma be_word_exists:
  assumes "length bs = n" and "256 ^ n = (2::nat) ^ LENGTH('a::len)"
  obtains w :: "'a::len word" where "bs = be_bytes n (unat w)"
proof
  have "unat (word_of_nat (be_value bs) :: 'a word) = be_value bs"
    using be_value_bound [of bs] assms by (simp add: unat_of_nat)
  then show "bs = be_bytes n (unat (word_of_nat (be_value bs) :: 'a word))"
    using be_bytes_be_value [of bs] assms(1) by simp
qed

lemma split_word:
  assumes "n \<le> length bs" and "256 ^ n = (2::nat) ^ LENGTH('a::len)"
  obtains w :: "'a::len word" and r where "bs = be_bytes n (unat w) @ r" and "length r = length bs - n"
proof -
  have "length (take n bs) = n"
    using assms(1) by simp
  then obtain w :: "'a word" where "take n bs = be_bytes n (unat w)"
    using assms(2) by (rule be_word_exists)
  then show thesis
    using that [of w "drop n bs"] append_take_drop_id [of n bs] by simp
qed

lemma header_of_bytes:
  assumes "length bs = header_wire_size b"
  obtains h where "bs = header_bytes h b"
proof -
  have n: "118 \<le> length bs"
    using assms by (simp add: header_wire_size_def)
  have "4 \<le> length bs"
    using n by simp
  then obtain sq :: u32 and r1 where 1: "bs = be_bytes 4 (unat sq) @ r1" "length r1 = length bs - 4"
    by (rule split_word [where 'a = 32]) (simp, rule that)
  have "8 \<le> length r1"
    using n 1(2) by simp
  then obtain dr :: "64 word" and r2 where 2: "r1 = be_bytes 8 (unat dr) @ r2" "length r2 = length r1 - 8"
    by (rule split_word [where 'a = 64]) (simp, rule that)
  have "32 \<le> length r2"
    using n 1(2) 2(2) by simp
  then obtain ph :: uint256 and r3 where 3: "r2 = be_bytes 32 (unat ph) @ r3" "length r3 = length r2 - 32"
    by (rule split_word [where 'a = 256]) (simp, rule that)
  have "32 \<le> length r3"
    using n 1(2) 2(2) 3(2) by simp
  then obtain th :: uint256 and r4 where 4: "r3 = be_bytes 32 (unat th) @ r4" "length r4 = length r3 - 32"
    by (rule split_word [where 'a = 256]) (simp, rule that)
  have "32 \<le> length r4"
    using n 1(2) 2(2) 3(2) 4(2) by simp
  then obtain ah :: uint256 and r5 where 5: "r4 = be_bytes 32 (unat ah) @ r5" "length r5 = length r4 - 32"
    by (rule split_word [where 'a = 256]) (simp, rule that)
  have "4 \<le> length r5"
    using n 1(2) 2(2) 3(2) 4(2) 5(2) by simp
  then obtain pct :: u32 and r6 where 6: "r5 = be_bytes 4 (unat pct) @ r6" "length r6 = length r5 - 4"
    by (rule split_word [where 'a = 32]) (simp, rule that)
  have "4 \<le> length r6"
    using n 1(2) 2(2) 3(2) 4(2) 5(2) 6(2) by simp
  then obtain ct :: u32 and r7 where 7: "r6 = be_bytes 4 (unat ct) @ r7" "length r7 = length r6 - 4"
    by (rule split_word [where 'a = 32]) (simp, rule that)
  have "2 \<le> length r7"
    using n 1(2) 2(2) 3(2) 4(2) 5(2) 6(2) 7(2) by simp
  then obtain res fl r8 where 8: "r7 = res # fl # r8"
    using long_enough(2) [of 2 r7] by blast
  have len: "length r8 = length bs - 118"
    using 8 n 1(2) 2(2) 3(2) 4(2) 5(2) 6(2) 7(2) by simp
  obtain hs :: uint256 where 9: "r8 = (if b then be_bytes 32 (unat hs) else [])"
  proof (cases b)
    case True
    then have "length r8 = 32"
      using len assms by (simp add: header_wire_size_def)
    then show ?thesis
      using that True by (auto elim: be_word_exists [where 'a = 256])
  qed (use that len assms in \<open>auto simp: header_wire_size_def\<close>)
  show thesis
    by (rule that [of "\<lparr>seq = sq, drops = dr, hash = hs, parent_hash = ph, tx_hash = th, account_hash = ah,
          parent_close_time = pct, close_time = ct, validated = False, accepted = False,
          close_time_resolution = res, close_flags = fl\<rparr>"])
      (simp add: header_bytes_def 1(1) 2(1) 3(1) 4(1) 5(1) 6(1) 7(1) 8 9 del: be_bytes.simps)
qed


section \<open>Properties\<close>

text \<open>C22: A ledger header that is written, plain or with its prefix, is read back up to the fields that
  are not on the wire (\<open>validated\<close>, \<open>accepted\<close>, and \<open>hash\<close> unless it was included); bytes behind it are
  ignored, and the wire sizes are the published ones.\<close>

theorem header_roundtrip:
  "deserialize_ledger_header (serialize_ledger_header h b @ r) b =
     Inr (h\<lparr>hash := if b then hash h else 0, validated := False, accepted := False\<rparr>) \<and>
   deserialize_prefixed_ledger_header (serialize_prefixed_ledger_header h b @ r) b =
     Inr (h\<lparr>hash := if b then hash h else 0, validated := False, accepted := False\<rparr>) \<and>
   length (serialize_ledger_header h b) = (if b then 150 else 118) \<and>
   length (serialize_prefixed_ledger_header h b) = (if b then 154 else 122)"
proof -
  have "deserialize_prefixed_ledger_header (serialize_prefixed_ledger_header h b @ r) b = Inr (wire_part h b)"
    by (simp add: deserialize_prefixed_ledger_header_def serialize_bytes deserialize_header_bytes del: be_bytes.simps)
  then show ?thesis
    using deserialize_header_bytes [of h b r] length_header_bytes [of h b]
    by (simp add: serialize_bytes wire_part_def header_wire_size_def del: be_bytes.simps)
qed

text \<open>C34: Reading a header fails exactly on input shorter than the wire form, with \<open>TooShort\<close>; on any
  other input it succeeds, and writing the header that was read gives back the bytes it was read
  from, so two different wire forms never denote the same header.\<close>

theorem header_deserialize_total:
  "if length bs < header_wire_size b then deserialize_ledger_header bs b = Inl TooShort
   else \<exists>h. deserialize_ledger_header bs b = Inr h \<and>
     serialize_ledger_header h b = take (header_wire_size b) bs"
proof (cases "length bs < header_wire_size b")
  case False
  then have "length (take (header_wire_size b) bs) = header_wire_size b"
    by simp
  then obtain h where h: "take (header_wire_size b) bs = header_bytes h b"
    by (rule header_of_bytes)
  have "header_bytes (wire_part h b) b = header_bytes h b"
    by (simp add: header_bytes_def wire_part_def del: be_bytes.simps)
  moreover have "deserialize_ledger_header bs b = Inr (wire_part h b)"
    using deserialize_header_bytes [of h b "drop (header_wire_size b) bs"] by (simp flip: h)
  ultimately show ?thesis
    using False h by (simp add: serialize_bytes)
qed (simp add: deserialize_ledger_header_def Let_def)

text \<open>C35: The hash of a ledger is the SHA-512 half of the prefixed wire form without the hash. The
  hypothesis is the documented behaviour of the digest package: hashing in pieces is hashing the
  concatenation.\<close>

theorem ledger_hash_of_wire_form:
  assumes "\<And>st a c. sha_update sha (sha_update sha st a) c = sha_update sha st (a @ c)"
  shows "calculate_ledger_hash sha h = sha512_half sha (serialize_prefixed_ledger_header h False)"
  by (simp add: calculate_ledger_hash_def sha512_half_def serialize_bytes header_bytes_def Let_def assms
      del: be_bytes.simps)

definition demo_sha :: "byte list sha_ops" where
  "demo_sha = \<lparr>sha_new = [], sha_update = (@), sha_result = (\<lambda>bs. drop (length bs - 32) bs)\<rparr>"

theorem ledger_hash_of_wire_form_witness:
  "calculate_ledger_hash demo_sha header_default =
     sha512_half demo_sha (serialize_prefixed_ledger_header header_default False)"
  by (rule ledger_hash_of_wire_form) (simp add: demo_sha_def)

end
