(* ===== verification/Shamap_Node_Id.thy ===== *)
theory Shamap_Node_Id
  imports Serializer
begin

unbundle bit_operations_syntax

text \<open>
  Positions in the Merkle radix tree of the ledger (\<open>xrpl/shamap/src/nodes/node_id.rs\<close>): a depth and the
  nibbles of the key above it. The nibbles of a key determine it, and comparing keys is comparing their
  nibbles from the left.
\<close>

section \<open>Identifiers\<close>

definition SHAMAP_BRANCH_FACTOR :: nat where
  "SHAMAP_BRANCH_FACTOR = 16"

definition SHAMAP_LEAF_DEPTH :: nat where
  "SHAMAP_LEAF_DEPTH = 64"

datatype shamap_node_id_error = InvalidDepth | HashDoesNotMatchDepth | InvalidBranch | LeafHasNoChildren

record shamap_node_id =
  nid_id :: uint256
  nid_depth :: nat

definition u256_data :: "uint256 \<Rightarrow> byte list" where
  "u256_data w = be_bytes 32 (unat w)"

definition u256_from_array :: "byte list \<Rightarrow> uint256" where
  "u256_from_array bs = word_of_nat (be_value bs)"

definition depth_mask_bytes :: "nat \<Rightarrow> byte list" where
  "depth_mask_bytes d =
     fold (\<lambda>n bs. bs[n div 2 := bs ! (n div 2) OR (if n AND 1 = 0 then 0xF0 else 0x0F)]) [0..<d] (replicate 32 0)"

definition depth_mask :: "nat \<Rightarrow> uint256" where
  "depth_mask d = u256_from_array (depth_mask_bytes d)"

definition nid_default :: shamap_node_id where
  "nid_default = \<lparr>nid_id = 0, nid_depth = 0\<rparr>"

definition nid_new :: "nat \<Rightarrow> uint256 \<Rightarrow> shamap_node_id_error + shamap_node_id" where
  "nid_new d h =
     (if SHAMAP_LEAF_DEPTH < d then Inl InvalidDepth
      else if h \<noteq> h AND depth_mask d then Inl HashDoesNotMatchDepth
      else Inr \<lparr>nid_id = h, nid_depth = d\<rparr>)"

definition nid_is_root :: "shamap_node_id \<Rightarrow> bool" where
  "nid_is_root n = (nid_depth n = 0)"

definition get_raw_string :: "shamap_node_id \<Rightarrow> byte list" where
  "get_raw_string n = u256_data (nid_id n) @ [word_of_nat (nid_depth n)]"

definition get_child_node_id :: "shamap_node_id \<Rightarrow> nat \<Rightarrow> shamap_node_id_error + shamap_node_id" where
  "get_child_node_id n branch =
     (if SHAMAP_BRANCH_FACTOR \<le> branch then Inl InvalidBranch
      else if SHAMAP_LEAF_DEPTH \<le> nid_depth n then Inl LeafHasNoChildren
      else if nid_id n \<noteq> nid_id n AND depth_mask (nid_depth n) then Inl HashDoesNotMatchDepth
      else let bytes = u256_data (nid_id n);
               depth = nid_depth n;
               i = depth div 2;
               bytes = (if depth AND 1 = 1 then bytes[i := bytes ! i OR word_of_nat branch]
                        else bytes[i := bytes ! i OR push_bit 4 (word_of_nat branch)])
           in Inr \<lparr>nid_id = u256_from_array bytes, nid_depth = depth + 1\<rparr>)"

definition create_id :: "nat \<Rightarrow> uint256 \<Rightarrow> shamap_node_id_error + shamap_node_id" where
  "create_id d k = (if SHAMAP_LEAF_DEPTH < d then Inl InvalidDepth else nid_new d (k AND depth_mask d))"

definition deserialize_shamap_node_id :: "byte list \<Rightarrow> shamap_node_id option" where
  "deserialize_shamap_node_id data =
     (if length data \<noteq> 33 then None
      else let depth = unat (data ! 32)
           in if SHAMAP_LEAF_DEPTH < depth then None
              else (case nid_new depth (u256_from_array (take 32 data)) of Inl _ \<Rightarrow> None | Inr n \<Rightarrow> Some n))"

definition select_branch :: "shamap_node_id \<Rightarrow> uint256 \<Rightarrow> nat" where
  "select_branch n k =
     (let depth = min (nid_depth n) (SHAMAP_LEAF_DEPTH - 1);
          branch = unat (u256_data k ! (depth div 2))
      in if depth AND 1 = 1 then branch AND 0x0F else drop_bit 4 branch)"

section \<open>Nibbles\<close>

definition nibble :: "uint256 \<Rightarrow> nat \<Rightarrow> nat" where
  "nibble k d = unat k div 16 ^ (63 - d) mod 16"

lemma nth_be_bytes: "i < n \<Longrightarrow> be_bytes n v ! i = word_of_nat (v div 256 ^ (n - 1 - i))"
proof (induction n arbitrary: v)
  case (Suc n)
  then show ?case
  proof (cases "i = n")
    case False
    then have "i < n" and *: "n - i = Suc (n - 1 - i)"
      using Suc.prems by auto
    then show ?thesis
      by (simp add: nth_append Suc.IH * flip: div_mult2_eq)
  qed (simp add: nth_append)
qed simp

lemma length_u256_data [simp]: "length (u256_data k) = 32"
  by (simp add: u256_data_def)

lemma nth_u256_data: "i < 32 \<Longrightarrow> unat (u256_data k ! i) = unat k div 256 ^ (31 - i) mod 256"
  by (simp add: u256_data_def nth_be_bytes unat_byte_of_nat)

lemma u256_from_array_data [simp]: "u256_from_array (u256_data k) = k"
  unfolding u256_from_array_def u256_data_def by (rule be_word_roundtrip) simp

lemma u256_data_from_array: "length bs = 32 \<Longrightarrow> u256_data (u256_from_array bs) = bs"
proof -
  assume "length bs = 32"
  moreover have "be_value bs < 256 ^ length bs"
    using be_value_be_bytes [of "length bs" "be_value bs"] be_bytes_be_value [of bs]
    by (metis mod_less_divisor zero_less_numeral zero_less_power)
  ultimately show ?thesis
    using be_bytes_be_value [of bs] by (simp add: u256_data_def u256_from_array_def unat_of_nat)
qed

lemma nibble_less [simp]: "nibble k d < 16"
  by (simp add: nibble_def)

lemma nibble_byte:
  assumes "d < 64"
  shows "nibble k d = (if odd d then unat (u256_data k ! (d div 2)) mod 16 else unat (u256_data k ! (d div 2)) div 16)"
proof -
  have i: "d div 2 < 32" using assms by simp
  let ?u = "unat k"
  show ?thesis
  proof (cases "odd d")
    case True
    then obtain m where m: "d = 2 * m + 1" by (auto elim: oddE)
    then have "63 - d = 2 * (31 - m)" "m < 32" using assms by auto
    then have "(16::nat) ^ (63 - d) = 256 ^ (31 - m)"
      by (simp add: power_mult)
    then show ?thesis
      using True m i by (simp add: nibble_def nth_u256_data mod_mod_cancel)
  next
    case False
    then obtain m where m: "d = 2 * m" by (auto elim: evenE)
    then have "63 - d = Suc (2 * (31 - m))" "m < 32" using assms by auto
    then have *: "(16::nat) ^ (63 - d) = 256 ^ (31 - m) * 16"
      by (simp add: power_mult)
    have "x mod 256 div 16 = x div 16 mod 16" for x :: nat
      using mod_mult2_eq [of x 16 16] by simp
    then show ?thesis
      using False m i by (simp add: nibble_def nth_u256_data * [unfolded m] div_mult2_eq)
  qed
qed


lemma nat_and_15: "(n::nat) AND 15 = n mod 16"
  using take_bit_eq_mask [of 4 n] by (simp add: take_bit_eq_mod mask_eq_exp_minus_1)

lemma select_branch_nibble: "select_branch n k = nibble k (min (nid_depth n) 63)"
proof -
  let ?d = "min (nid_depth n) 63"
  have "?d < 64" by simp
  from nibble_byte [OF this, of k] show ?thesis
    by (simp add: select_branch_def SHAMAP_LEAF_DEPTH_def Let_def nat_and_15 and_one_eq drop_bit_eq_div
        odd_iff_mod_2_eq_one)
qed

definition key_prefix :: "uint256 \<Rightarrow> nat \<Rightarrow> nat" where
  "key_prefix k d = unat k div 16 ^ (64 - d)"

lemma key_prefix_0 [simp]: "key_prefix k 0 = 0"
proof -
  have "unat k < 16 ^ 64"
    using unsigned_less [of k] by simp
  then show ?thesis by (simp add: key_prefix_def)
qed

lemma key_prefix_64: "key_prefix k 64 = unat k"
  by (simp add: key_prefix_def)

lemma key_prefix_Suc: "d < 64 \<Longrightarrow> key_prefix k (Suc d) = key_prefix k d * 16 + nibble k d"
proof -
  assume "d < 64"
  then have "64 - d = Suc (63 - d)" "64 - Suc d = 63 - d" by auto
  then show ?thesis
    by (simp add: key_prefix_def nibble_def div_mult2_eq mult.commute [of 16])
qed

lemma key_prefix_eq_iff:
  assumes "d \<le> 64"
  shows "key_prefix a d = key_prefix b d \<longleftrightarrow> (\<forall>i<d. nibble a i = nibble b i)"
  using assms
proof (induction d)
  case (Suc d)
  have "x * 16 + r = y * 16 + s \<longleftrightarrow> x = y \<and> r = s" if "r < 16" "s < 16" for x y r s :: nat
    using that by (auto dest: arg_cong [where f = "\<lambda>n. n div 16"] arg_cong [where f = "\<lambda>n. n mod 16"])
  then show ?case
    using Suc by (auto simp: key_prefix_Suc less_Suc_eq)
qed simp

lemma key_eq_iff: "a = b \<longleftrightarrow> (\<forall>i<64. nibble a i = nibble b i)"
  using key_prefix_eq_iff [of 64 a b] by (simp add: key_prefix_64 word_unat_eq_iff)

lemma key_prefix_less:
  assumes "key_prefix a d < key_prefix b d"
  shows "a < b"
proof (rule ccontr)
  assume "\<not> a < b"
  then have "unat b \<le> unat a"
    by (simp add: word_le_nat_alt not_less)
  then have "key_prefix b d \<le> key_prefix a d"
    unfolding key_prefix_def by (rule div_le_mono)
  with assms show False by simp
qed

lemma key_lessI:
  assumes "d < 64" and "key_prefix a d = key_prefix b d" and "nibble a d < nibble b d"
  shows "a < b"
  by (rule key_prefix_less [of _ "Suc d"]) (use assms in \<open>simp add: key_prefix_Suc\<close>)

section \<open>Masks\<close>

lemma bit_byte_ge: "8 \<le> n \<Longrightarrow> \<not> bit (b::byte) n"
  by (auto dest: bit_imp_le_length)

lemma nibble_from_array:
  assumes "length bs = 32" and "d < 64"
  shows "nibble (u256_from_array bs) d = (if odd d then unat (bs ! (d div 2)) mod 16 else unat (bs ! (d div 2)) div 16)"
  by (simp add: nibble_byte [OF assms(2)] u256_data_from_array [OF assms(1)])

lemma length_depth_mask_bytes [simp]: "length (depth_mask_bytes d) = 32"
proof -
  have "length (fold (\<lambda>n bs. bs[n div 2 := bs ! (n div 2) OR f n]) ns bs) = length bs"
    for f :: "nat \<Rightarrow> byte" and ns bs
    by (induction ns arbitrary: bs) auto
  then show ?thesis by (simp add: depth_mask_bytes_def)
qed

lemma depth_mask_bytes_Suc:
  "depth_mask_bytes (Suc d) =
     (depth_mask_bytes d)[d div 2 := depth_mask_bytes d ! (d div 2) OR (if even d then 0xF0 else 0x0F)]"
  by (simp add: depth_mask_bytes_def and_one_eq even_iff_mod_2_eq_zero)

lemma nth_depth_mask_bytes:
  assumes "d \<le> 64" and "i < 32"
  shows "depth_mask_bytes d ! i = (if 2 * i + 1 < d then 0xFF else if 2 * i < d then 0xF0 else 0)"
  using assms(1)
proof (induction d)
  case 0
  then show ?case using assms(2) by (simp add: depth_mask_bytes_def)
next
  case (Suc d)
  show ?case
  proof (cases "i = d div 2")
    case True
    then show ?thesis
      using Suc assms(2) by (cases "even d") (auto simp: depth_mask_bytes_Suc elim!: evenE oddE)
  next
    case False
    then have "2 * i + 1 < Suc d \<longleftrightarrow> 2 * i + 1 < d" "2 * i < Suc d \<longleftrightarrow> 2 * i < d"
      by auto
    then show ?thesis
      using False Suc by (simp add: depth_mask_bytes_Suc)
  qed
qed


lemma nibble_bits: "nibble k d = take_bit 4 (drop_bit (4 * (63 - d)) (unat k))"
  by (simp add: nibble_def take_bit_eq_mod drop_bit_eq_div power_mult)

lemma nibble_and: "nibble (a AND b) d = nibble a d AND nibble b d"
  by (simp add: nibble_bits unsigned_and_eq)

lemma nibble_depth_mask: "d \<le> 64 \<Longrightarrow> i < 64 \<Longrightarrow> nibble (depth_mask d) i = (if i < d then 15 else 0)"
  unfolding depth_mask_def
  by (subst nibble_from_array) (auto simp: nth_depth_mask_bytes elim!: evenE oddE)

lemma nibble_masked: "d \<le> 64 \<Longrightarrow> i < 64 \<Longrightarrow> nibble (k AND depth_mask d) i = (if i < d then nibble k i else 0)"
  by (simp add: nibble_and nibble_depth_mask nat_and_15)

definition nid_ok :: "shamap_node_id \<Rightarrow> bool" where
  "nid_ok n \<longleftrightarrow> nid_depth n \<le> 64 \<and> nid_id n = nid_id n AND depth_mask (nid_depth n)"

lemma nid_ok_nibbles: "nid_ok n \<longleftrightarrow> nid_depth n \<le> 64 \<and> (\<forall>i<64. nid_depth n \<le> i \<longrightarrow> nibble (nid_id n) i = 0)"
  unfolding nid_ok_def key_eq_iff [of "nid_id n"] by (auto simp: nibble_masked)

definition nid_at :: "uint256 \<Rightarrow> nat \<Rightarrow> shamap_node_id" where
  "nid_at k d = \<lparr>nid_id = k AND depth_mask d, nid_depth = d\<rparr>"

lemma nid_at_0: "nid_at k 0 = nid_default"
  by (simp add: nid_at_def nid_default_def key_eq_iff nibble_masked) (simp add: nibble_def)

lemma nid_depth_at [simp]: "nid_depth (nid_at k d) = d"
  by (simp add: nid_at_def)

lemma select_branch_at [simp]: "d < 64 \<Longrightarrow> select_branch (nid_at k d) l = nibble l d"
  by (simp add: select_branch_nibble min_def)

lemma nid_ok_at: "d \<le> 64 \<Longrightarrow> nid_ok (nid_at k d)"
  by (simp add: nid_ok_def nid_at_def and.assoc)

lemma create_id_at: "d \<le> 64 \<Longrightarrow> create_id d k = Inr (nid_at k d)"
  by (simp add: create_id_def nid_new_def SHAMAP_LEAF_DEPTH_def nid_at_def and.assoc)

lemma unat_or_nibbles:
  fixes a b :: byte
  shows "unat (a OR b) mod 16 = (unat a mod 16) OR (unat b mod 16)"
    and "unat (a OR b) div 16 = (unat a div 16) OR (unat b div 16)"
proof -
  have *: "x mod 16 = take_bit 4 x" "x div 16 = drop_bit 4 x" for x :: nat
    by (simp_all add: take_bit_eq_mod drop_bit_eq_div)
  show "unat (a OR b) mod 16 = (unat a mod 16) OR (unat b mod 16)"
    "unat (a OR b) div 16 = (unat a div 16) OR (unat b div 16)"
    by (simp_all add: * unsigned_or_eq)
qed

lemma unat_branch: "b < 16 \<Longrightarrow> unat (word_of_nat b :: byte) = b"
  by (simp add: unat_byte_of_nat)

lemma unat_branch_high: "b < 16 \<Longrightarrow> unat (push_bit 4 (word_of_nat b :: byte)) = b * 16"
  by (simp add: push_bit_eq_mult unat_word_ariths unat_branch)

lemma get_child_node_id_ok:
  assumes n: "nid_ok n" "nid_depth n < 64" and b: "b < 16"
  obtains c where "get_child_node_id n b = Inr c" and "nid_depth c = Suc (nid_depth n)" and "nid_ok c"
    and "\<And>i. i < 64 \<Longrightarrow> nibble (nid_id c) i = (if i = nid_depth n then b else nibble (nid_id n) i)"
proof -
  define d where "d = nid_depth n"
  define i where "i = d div 2"
  define v where "v = (if odd d then word_of_nat b else push_bit 4 (word_of_nat b) :: byte)"
  define bs where "bs = (u256_data (nid_id n))[i := u256_data (nid_id n) ! i OR v]"
  define c where "c = \<lparr>nid_id = u256_from_array bs, nid_depth = d + 1\<rparr>"
  have d: "d < 64" "i < 32" "length bs = 32"
    using n by (simp_all add: d_def i_def bs_def)
  have zero: "nibble (nid_id n) j = 0" if "j < 64" "d \<le> j" for j
    using n that by (simp add: nid_ok_nibbles d_def)
  have nib: "nibble (nid_id c) j = (if j = d then b else nibble (nid_id n) j)" if j: "j < 64" for j
  proof (cases "j div 2 = i")
    case False
    then have "j \<noteq> d" by (auto simp: i_def)
    moreover have "bs ! (j div 2) = u256_data (nid_id n) ! (j div 2)"
      using False by (simp add: bs_def)
    ultimately show ?thesis
      by (simp add: c_def nibble_from_array [OF d(3) j] nibble_byte [OF j, of "nid_id n"])
  next
    case True
    have "nibble (nid_id c) j = (if odd j then (unat (u256_data (nid_id n) ! i) mod 16) OR (unat v mod 16)
        else (unat (u256_data (nid_id n) ! i) div 16) OR (unat v div 16))"
      using j True d by (simp add: c_def nibble_from_array bs_def unat_or_nibbles)
    also have "\<dots> = nibble (nid_id n) j OR (if odd j then unat v mod 16 else unat v div 16)"
      using j True by (simp add: nibble_byte)
    also have "(if odd j then unat v mod 16 else unat v div 16) = (if j = d then b else 0)"
    proof -
      have "odd j = odd d \<longleftrightarrow> j = d"
        using True by (auto simp: i_def elim!: oddE evenE)
      then show ?thesis
        using b by (auto simp: v_def unat_branch unat_branch_high)
    qed
    finally show ?thesis
      using j zero [of d] d by auto
  qed
  have "get_child_node_id n b = Inr c"
    using n b by (simp add: get_child_node_id_def SHAMAP_BRANCH_FACTOR_def SHAMAP_LEAF_DEPTH_def Let_def c_def bs_def
        nid_ok_def d_def i_def v_def and_one_eq odd_iff_mod_2_eq_one)
  moreover have "nid_depth c = Suc (nid_depth n)"
    by (simp add: c_def d_def)
  moreover have "nid_ok c"
    using d nib zero by (simp add: nid_ok_nibbles) (simp add: c_def)
  ultimately show thesis
    using nib that by (simp add: d_def)
qed

lemma get_child_node_id_at:
  assumes "d < 64"
  shows "get_child_node_id (nid_at k d) (nibble k d) = Inr (nid_at k (Suc d))"
proof -
  obtain c where c: "get_child_node_id (nid_at k d) (nibble k d) = Inr c" "nid_depth c = Suc d"
    and nib: "\<And>i. i < 64 \<Longrightarrow> nibble (nid_id c) i = (if i = d then nibble k d else nibble (nid_id (nid_at k d)) i)"
    using get_child_node_id_ok [of "nid_at k d" "nibble k d"] assms by (auto simp: nid_ok_at)
  have "nid_id c = nid_id (nid_at k (Suc d))"
    unfolding key_eq_iff [of "nid_id c"] using nib assms by (auto simp: nid_at_def nibble_masked)
  then show ?thesis
    using c by (simp add: nid_at_def)
qed

text \<open>
  C24: Reading a node identifier from its wire form succeeds exactly on the bytes written for a valid identifier,
  one of depth at most 64 whose key is zero below its depth, and returns that identifier.
\<close>

theorem node_id_roundtrip:
  "deserialize_shamap_node_id bs = Some n \<longleftrightarrow> nid_ok n \<and> bs = get_raw_string n"
proof
  assume *: "deserialize_shamap_node_id bs = Some n"
  then have l: "length bs = 33" and d: "unat (bs ! 32) \<le> 64"
    by (auto simp: deserialize_shamap_node_id_def Let_def SHAMAP_LEAF_DEPTH_def split: if_splits)
  then have "nid_new (unat (bs ! 32)) (u256_from_array (take 32 bs)) = Inr n"
    using * by (simp add: deserialize_shamap_node_id_def SHAMAP_LEAF_DEPTH_def split: sum.splits)
  then have n: "n = \<lparr>nid_id = u256_from_array (take 32 bs), nid_depth = unat (bs ! 32)\<rparr>" and ok: "nid_ok n"
    using d by (auto simp: nid_new_def nid_ok_def SHAMAP_LEAF_DEPTH_def split: if_splits)
  have "bs = take 32 bs @ [bs ! 32]"
    using take_Suc_conv_app_nth [of 32 bs] l by simp
  then have "bs = get_raw_string n"
    using l by (simp add: n get_raw_string_def u256_data_from_array)
  with ok show "nid_ok n \<and> bs = get_raw_string n" by simp
next
  assume "nid_ok n \<and> bs = get_raw_string n"
  then show "deserialize_shamap_node_id bs = Some n"
    by (simp add: deserialize_shamap_node_id_def get_raw_string_def nth_append nid_ok_def nid_new_def unat_byte_of_nat
        SHAMAP_LEAF_DEPTH_def)
qed

end
