(* ===== verification/Shamap_Arrays.thy ===== *)
theory Shamap_Arrays
  imports Shamap_Node_Id
begin

unbundle bit_operations_syntax

text \<open>
  The packed arrays of an inner node of the Merkle radix tree (\<open>TaggedPointer\<close> of
  \<open>xrpl/shamap/src/nodes/tree_node.rs\<close>): the hashes and the loaded children of the branches are kept in a pair
  of arrays of one of four sizes. Below sixteen entries only the branches in use have an index, counted by the
  bits below them. The lemmas show that the arrays are a table from branches to a hash and a child.
  Every caller passes a branch below sixteen, from \<open>select_branch\<close> or a loop over the branches, so the
  assertion of \<open>validate_branch\<close> is left out.
\<close>

section \<open>Packed arrays\<close>

definition BRANCH_FACTOR :: nat where
  "BRANCH_FACTOR = 16"

definition TAGGED_POINTER_BOUNDARIES :: "nat list" where
  "TAGGED_POINTER_BOUNDARIES = [2, 4, 6, 16]"

definition count_ones :: "16 word \<Rightarrow> nat" where
  "count_ones w = length (filter (bit w) [0..<16])"

definition boundary_index :: "nat \<Rightarrow> nat" where
  "boundary_index n = length (takeWhile (\<lambda>c. \<not> n \<le> c) TAGGED_POINTER_BOUNDARIES)"

definition capacity_for_children :: "nat \<Rightarrow> nat" where
  "capacity_for_children n = hd (dropWhile (\<lambda>c. \<not> n \<le> c) TAGGED_POINTER_BOUNDARIES)"

record 'a tagged_pointer =
  tp_tag :: nat
  tp_hashes :: "uint256 list"
  tp_children :: "'a option list"

definition tp_new :: "nat \<Rightarrow> 'a tagged_pointer" where
  "tp_new num_children =
     (let tag = boundary_index num_children; capacity = TAGGED_POINTER_BOUNDARIES ! tag
      in \<lparr>tp_tag = tag, tp_hashes = replicate capacity 0, tp_children = replicate capacity None\<rparr>)"

definition tp_capacity :: "'a tagged_pointer \<Rightarrow> nat" where
  "tp_capacity t = TAGGED_POINTER_BOUNDARIES ! tp_tag t"

definition tp_is_dense :: "'a tagged_pointer \<Rightarrow> bool" where
  "tp_is_dense t \<longleftrightarrow> tp_capacity t = BRANCH_FACTOR"

definition bits_below :: "16 word \<Rightarrow> nat \<Rightarrow> nat" where
  "bits_below w branch = count_ones (w AND (push_bit branch 1 - 1))"

definition tp_child_index :: "'a tagged_pointer \<Rightarrow> 16 word \<Rightarrow> nat \<Rightarrow> nat option" where
  "tp_child_index t is_branch branch =
     (if tp_is_dense t then Some branch
      else if is_branch AND push_bit branch 1 = 0 then None
      else Some (bits_below is_branch branch))"

definition tp_get_hash :: "'a tagged_pointer \<Rightarrow> 16 word \<Rightarrow> nat \<Rightarrow> uint256" where
  "tp_get_hash t is_branch branch =
     (case tp_child_index t is_branch branch of None \<Rightarrow> 0 | Some index \<Rightarrow> tp_hashes t ! index)"

definition set_hash_at_index :: "nat \<Rightarrow> uint256 \<Rightarrow> 'a tagged_pointer \<Rightarrow> 'a tagged_pointer" where
  "set_hash_at_index index h t = t\<lparr>tp_hashes := (tp_hashes t)[index := h]\<rparr>"

definition get_child_at_index :: "'a tagged_pointer \<Rightarrow> nat \<Rightarrow> 'a option" where
  "get_child_at_index t index = tp_children t ! index"

definition set_child_at_index :: "nat \<Rightarrow> 'a option \<Rightarrow> 'a tagged_pointer \<Rightarrow> 'a tagged_pointer" where
  "set_child_at_index index c t = t\<lparr>tp_children := (tp_children t)[index := c]\<rparr>"

definition iter_children :: "'a tagged_pointer \<Rightarrow> 16 word \<Rightarrow> uint256 list" where
  "iter_children t is_branch =
     (if tp_is_dense t then map (\<lambda>branch. tp_hashes t ! branch) [0..<BRANCH_FACTOR]
      else rev (snd (fold (\<lambda>branch (compact_index, out).
             if is_branch AND push_bit branch 1 \<noteq> 0
             then (compact_index + 1, tp_hashes t ! compact_index # out)
             else (compact_index, 0 # out)) [0..<BRANCH_FACTOR] (0, []))))"

definition iter_non_empty_child_indexes :: "'a tagged_pointer \<Rightarrow> 16 word \<Rightarrow> (nat \<times> nat) list" where
  "iter_non_empty_child_indexes t is_branch =
     (if tp_is_dense t
      then map (\<lambda>branch. (branch, branch)) (filter (\<lambda>branch. is_branch AND push_bit branch 1 \<noteq> 0) [0..<BRANCH_FACTOR])
      else rev (snd (fold (\<lambda>branch (compact_index, out).
             if is_branch AND push_bit branch 1 \<noteq> 0
             then (compact_index + 1, (branch, compact_index) # out)
             else (compact_index, out)) [0..<BRANCH_FACTOR] (0, []))))"

definition tp_rebuild :: "16 word \<Rightarrow> 16 word \<Rightarrow> nat \<Rightarrow> 'a tagged_pointer \<Rightarrow> 'a tagged_pointer" where
  "tp_rebuild src_branches dst_branches to_allocate t =
     (let new_capacity = capacity_for_children to_allocate
      in if new_capacity = tp_capacity t \<and> src_branches = dst_branches then t
         else fold (\<lambda>branch next.
                if dst_branches AND push_bit branch 1 = 0 then next
                else case tp_child_index next dst_branches branch of
                    None \<Rightarrow> next
                  | Some dst_index \<Rightarrow>
                      if src_branches AND push_bit branch 1 = 0 then next
                      else let src_index = (if tp_is_dense t then branch else bits_below src_branches branch);
                               effective_dst_index = (if tp_is_dense next then branch else dst_index)
                           in set_child_at_index effective_dst_index (tp_children t ! src_index)
                                (set_hash_at_index effective_dst_index (tp_hashes t ! src_index) next))
              [0..<BRANCH_FACTOR] (tp_new to_allocate))"

section \<open>The arrays as a table\<close>

lemma bit_16_less: "bit (w::16 word) b \<Longrightarrow> b < 16"
  using bit_imp_le_length [of w b] by simp

lemma and_bit_eq_0_iff [simp]: "(w::16 word) AND 2 ^ b = 0 \<longleftrightarrow> \<not> bit w b"
  unfolding bit_eq_iff [of "w AND 2 ^ b" 0] by (simp add: bit_and_iff bit_exp_iff) (blast dest: bit_16_less)

lemma bit_below_iff [simp]: "bit (2 ^ b - 1 :: 16 word) i \<longleftrightarrow> i < b \<and> i < 16"
proof -
  have "2 ^ b - 1 = (mask b :: 16 word)"
    by (simp add: mask_eq_exp_minus_1)
  then show ?thesis
    by (auto simp: bit_mask_iff)
qed

lemma bits_below_card: "bits_below w b = card {i. i < b \<and> i < 16 \<and> bit w i}"
proof -
  have "bits_below w b = card (set (filter (\<lambda>i. bit w i \<and> i < b) [0..<16]))"
    unfolding bits_below_def count_ones_def
    by (subst distinct_card) (auto simp: bit_and_iff bit_below_iff intro!: arg_cong [where f = length] filter_cong)
  then show ?thesis
    by (auto intro: arg_cong [where f = card])
qed

lemma count_ones_card: "count_ones w = card {i. i < 16 \<and> bit w i}"
proof -
  have "count_ones w = card (set (filter (bit w) [0..<16]))"
    unfolding count_ones_def by (subst distinct_card) auto
  then show ?thesis
    by (auto intro: arg_cong [where f = card])
qed

lemma bits_below_Suc: "b < 16 \<Longrightarrow> bits_below w (Suc b) = bits_below w b + of_bool (bit w b)"
proof -
  assume "b < 16"
  then have "{i. i < Suc b \<and> i < 16 \<and> bit w i} = {i. i < b \<and> i < 16 \<and> bit w i} \<union> (if bit w b then {b} else {})"
    by (auto simp: less_Suc_eq)
  then show ?thesis
    by (simp add: bits_below_card card_Un_disjoint split: if_splits)
qed

lemma bits_below_0 [simp]: "bits_below w 0 = 0"
  by (simp add: bits_below_card)

lemma bits_below_less:
  assumes "bit w b" "b < c" "b < 16"
  shows "bits_below w b < bits_below w c"
  unfolding bits_below_card by (rule psubset_card_mono) (use assms in auto)

lemma bits_below_count: "bit w b \<Longrightarrow> b < 16 \<Longrightarrow> bits_below w b < count_ones w"
  using bits_below_less [of w b 16] by (simp add: bits_below_card count_ones_card)

lemma bits_below_inj: "bit w a \<Longrightarrow> bit w b \<Longrightarrow> a < 16 \<Longrightarrow> b < 16 \<Longrightarrow> bits_below w a = bits_below w b \<longleftrightarrow> a = b"
  by (metis bits_below_less less_irrefl linorder_neqE_nat)

lemma count_ones_le: "count_ones w \<le> 16"
  unfolding count_ones_def using length_filter_le [of "bit w" "[0..<16]"] by simp

lemma capacity_boundary:
  "n \<le> 16 \<Longrightarrow> TAGGED_POINTER_BOUNDARIES ! boundary_index n = capacity_for_children n \<and> n \<le> capacity_for_children n \<and> boundary_index n < 4"
  by (auto simp: TAGGED_POINTER_BOUNDARIES_def boundary_index_def capacity_for_children_def)

definition tp_index :: "'a tagged_pointer \<Rightarrow> 16 word \<Rightarrow> nat \<Rightarrow> nat" where
  "tp_index t w b = (if tp_is_dense t then b else bits_below w b)"

definition tp_slot :: "'a tagged_pointer \<Rightarrow> 16 word \<Rightarrow> nat \<Rightarrow> (uint256 \<times> 'a option) option" where
  "tp_slot t w b = (if bit w b then Some (tp_hashes t ! tp_index t w b, tp_children t ! tp_index t w b) else None)"

definition tp_ok :: "16 word \<Rightarrow> 'a tagged_pointer \<Rightarrow> bool" where
  "tp_ok w t \<longleftrightarrow> tp_tag t < 4 \<and> length (tp_hashes t) = tp_capacity t \<and> length (tp_children t) = tp_capacity t
     \<and> count_ones w \<le> tp_capacity t
     \<and> (tp_is_dense t \<longrightarrow> (\<forall>b<16. \<not> bit w b \<longrightarrow> tp_hashes t ! b = 0 \<and> tp_children t ! b = None))"

lemma tp_index_less: "tp_ok w t \<Longrightarrow> bit w b \<Longrightarrow> b < 16 \<Longrightarrow> tp_index t w b < tp_capacity t"
  using bits_below_count [of w b] by (auto simp: tp_ok_def tp_index_def tp_is_dense_def BRANCH_FACTOR_def)

lemma tp_index_inj: "bit w a \<Longrightarrow> bit w b \<Longrightarrow> a < 16 \<Longrightarrow> b < 16 \<Longrightarrow> tp_index t w a = tp_index t w b \<longleftrightarrow> a = b"
  by (simp add: tp_index_def bits_below_inj)

lemma tp_child_index_bit: "bit w b \<Longrightarrow> b < 16 \<Longrightarrow> tp_child_index t w b = Some (tp_index t w b)"
  by (simp add: tp_child_index_def tp_index_def)

lemma tp_get_hash_slot:
  "tp_ok w t \<Longrightarrow> b < 16 \<Longrightarrow> tp_get_hash t w b = (case tp_slot t w b of None \<Rightarrow> 0 | Some (h, c) \<Rightarrow> h)"
  by (auto simp: tp_get_hash_def tp_slot_def tp_child_index_def tp_index_def tp_ok_def)

lemma tp_get_child_slot:
  "tp_ok w t \<Longrightarrow> b < 16 \<Longrightarrow>
     Option.bind (tp_child_index t w b) (get_child_at_index t) = (case tp_slot t w b of None \<Rightarrow> None | Some (h, c) \<Rightarrow> c)"
  by (auto simp: get_child_at_index_def tp_slot_def tp_child_index_def tp_index_def tp_ok_def)

lemma tp_set_slot:
  assumes ok: "tp_ok w t" and b: "bit w b" "b < 16"
  shows "tp_ok w (set_child_at_index (tp_index t w b) c t)"
    and "tp_ok w (set_hash_at_index (tp_index t w b) h t)"
    and "a < 16 \<Longrightarrow> tp_slot (set_child_at_index (tp_index t w b) c t) w a =
           (if a = b then Some (tp_hashes t ! tp_index t w b, c) else tp_slot t w a)"
    and "a < 16 \<Longrightarrow> tp_slot (set_hash_at_index (tp_index t w b) h t) w a =
           (if a = b then Some (h, tp_children t ! tp_index t w b) else tp_slot t w a)"
proof -
  have l: "tp_index t w b < length (tp_hashes t)" "tp_index t w b < length (tp_children t)"
    using tp_index_less [OF ok b] ok by (simp_all add: tp_ok_def)
  have i: "tp_index (t\<lparr>tp_hashes := x\<rparr>) = tp_index t" "tp_index (t\<lparr>tp_children := y\<rparr>) = tp_index t" for x y
    by (simp_all add: tp_index_def tp_is_dense_def tp_capacity_def fun_eq_iff)
  have d: "tp_index t w b \<noteq> a" if "tp_is_dense t" "\<not> bit w a" for a
    using that b by (auto simp: tp_index_def)
  show "tp_ok w (set_child_at_index (tp_index t w b) c t)" "tp_ok w (set_hash_at_index (tp_index t w b) h t)"
    using ok d by (auto simp: tp_ok_def set_child_at_index_def set_hash_at_index_def tp_capacity_def tp_is_dense_def)
  show "tp_slot (set_child_at_index (tp_index t w b) c t) w a =
      (if a = b then Some (tp_hashes t ! tp_index t w b, c) else tp_slot t w a)" if "a < 16"
    using l b that by (auto simp: tp_slot_def set_child_at_index_def i nth_list_update tp_index_inj)
  show "tp_slot (set_hash_at_index (tp_index t w b) h t) w a =
      (if a = b then Some (h, tp_children t ! tp_index t w b) else tp_slot t w a)" if "a < 16"
    using l b that by (auto simp: tp_slot_def set_hash_at_index_def i nth_list_update tp_index_inj)
qed


lemma tp_new_ok: "count_ones w \<le> n \<Longrightarrow> n \<le> 16 \<Longrightarrow> tp_ok w (tp_new n)"
  using capacity_boundary [of n] by (auto simp: tp_ok_def tp_new_def Let_def tp_capacity_def tp_is_dense_def BRANCH_FACTOR_def)

lemma tp_new_slot:
  assumes "count_ones w \<le> n" and "n \<le> 16" and "b < 16"
  shows "tp_slot (tp_new n :: 'a tagged_pointer) w b = (if bit w b then Some (0, None) else None)"
proof (cases "bit w b")
  case True
  have "tp_index (tp_new n :: 'a tagged_pointer) w b < tp_capacity (tp_new n :: 'a tagged_pointer)"
    by (rule tp_index_less [OF tp_new_ok [OF assms(1,2)] True assms(3)])
  then show ?thesis
    by (auto simp: tp_slot_def tp_new_def Let_def tp_capacity_def)
qed (simp add: tp_slot_def)

definition rebuild_step :: "16 word \<Rightarrow> 16 word \<Rightarrow> 'a tagged_pointer \<Rightarrow> nat \<Rightarrow> 'a tagged_pointer \<Rightarrow> 'a tagged_pointer" where
  "rebuild_step src dst t b nx =
     (if bit dst b \<and> bit src b
      then set_child_at_index (tp_index nx dst b) (tp_children t ! tp_index t src b)
             (set_hash_at_index (tp_index nx dst b) (tp_hashes t ! tp_index t src b) nx)
      else nx)"

lemma tp_rebuild_steps:
  "tp_rebuild src dst n t =
     (if capacity_for_children n = tp_capacity t \<and> src = dst then t
      else fold (rebuild_step src dst t) [0..<16] (tp_new n))"
proof -
  have "fold (\<lambda>branch next.
          if dst AND push_bit branch 1 = 0 then next
          else case tp_child_index next dst branch of
              None \<Rightarrow> next
            | Some dst_index \<Rightarrow>
                if src AND push_bit branch 1 = 0 then next
                else let src_index = (if tp_is_dense t then branch else bits_below src branch);
                         effective_dst_index = (if tp_is_dense next then branch else dst_index)
                     in set_child_at_index effective_dst_index (tp_children t ! src_index)
                          (set_hash_at_index effective_dst_index (tp_hashes t ! src_index) next))
        [0..<BRANCH_FACTOR] (tp_new n) = fold (rebuild_step src dst t) [0..<16] (tp_new n)"
    by (rule fold_cong) (auto simp: BRANCH_FACTOR_def rebuild_step_def tp_child_index_bit tp_index_def fun_eq_iff Let_def)
  then show ?thesis
    by (simp add: tp_rebuild_def)
qed

lemma rebuild_step_ok:
  assumes "tp_ok dst nx" and "b < 16"
  shows "tp_ok dst (rebuild_step src dst t b nx)"
    and "a < 16 \<Longrightarrow> tp_slot (rebuild_step src dst t b nx) dst a =
           (if a = b \<and> bit dst b \<and> bit src b then tp_slot t src b else tp_slot nx dst a)"
proof -
  let ?h = "set_hash_at_index (tp_index nx dst b) (tp_hashes t ! tp_index t src b) nx"
  have i: "tp_index ?h = tp_index nx"
    by (simp add: tp_index_def set_hash_at_index_def tp_is_dense_def tp_capacity_def fun_eq_iff)
  have *: "tp_ok dst ?h" "tp_ok dst (set_child_at_index (tp_index nx dst b) c ?h)"
    and slot: "a < 16 \<Longrightarrow> tp_slot (set_child_at_index (tp_index nx dst b) c ?h) dst a =
      (if a = b then Some (tp_hashes ?h ! tp_index nx dst b, c) else tp_slot nx dst a)" if "bit dst b" for c a
    using tp_set_slot [OF assms(1) that assms(2)] tp_set_slot [of dst ?h b] that assms by (simp_all add: i)
  have len: "tp_index nx dst b < length (tp_hashes nx)" if "bit dst b"
    using tp_index_less [OF assms(1) that assms(2)] assms(1) by (simp add: tp_ok_def)
  show "tp_ok dst (rebuild_step src dst t b nx)"
    using * assms by (simp add: rebuild_step_def)
  show "tp_slot (rebuild_step src dst t b nx) dst a =
      (if a = b \<and> bit dst b \<and> bit src b then tp_slot t src b else tp_slot nx dst a)" if "a < 16"
    using slot len that by (auto simp: rebuild_step_def tp_slot_def [of t] set_hash_at_index_def)
qed

lemma tp_rebuild_slot:
  assumes ok: "tp_ok src t" and n: "count_ones dst \<le> n" "n \<le> 16"
  shows "tp_ok dst (tp_rebuild src dst n t)"
    and "b < 16 \<Longrightarrow> tp_slot (tp_rebuild src dst n t) dst b =
           (if bit dst b then if bit src b then tp_slot t src b else Some (0, None) else None)"
proof -
  have fold: "tp_ok dst (fold (rebuild_step src dst t) [0..<k] (tp_new n)) \<and>
      (\<forall>b<16. tp_slot (fold (rebuild_step src dst t) [0..<k] (tp_new n)) dst b =
         (if b < k \<and> bit dst b \<and> bit src b then tp_slot t src b else if bit dst b then Some (0, None) else None))"
    if "k \<le> 16" for k
    using that
  proof (induction k)
    case 0
    then show ?case using n by (simp add: tp_new_ok tp_new_slot)
  next
    case (Suc k)
    then have "k < 16" by simp
    with Suc rebuild_step_ok [where dst = dst and nx = "fold (rebuild_step src dst t) [0..<k] (tp_new n)"
        and b = k and src = src and t = t] show ?case
      by (auto simp: less_Suc_eq)
  qed
  show "tp_ok dst (tp_rebuild src dst n t)"
    using fold [of 16] ok by (auto simp: tp_rebuild_steps)
  show "tp_slot (tp_rebuild src dst n t) dst b =
      (if bit dst b then if bit src b then tp_slot t src b else Some (0, None) else None)" if "b < 16"
    using fold [of 16] that by (auto simp: tp_rebuild_steps tp_slot_def)
qed

lemma fold_compact_all:
  "k \<le> 16 \<Longrightarrow> fold (\<lambda>branch (compact_index, out).
       if w AND push_bit branch 1 \<noteq> 0 then (compact_index + 1, f branch compact_index # out) else (compact_index, z # out))
     [0..<k] (0, []) = (bits_below w k, rev (map (\<lambda>b. if bit w b then f b (bits_below w b) else z) [0..<k]))"
  by (induction k) (auto simp: bits_below_Suc)

lemma fold_compact_used:
  "k \<le> 16 \<Longrightarrow> fold (\<lambda>branch (compact_index, out).
       if w AND push_bit branch 1 \<noteq> 0 then (compact_index + 1, f branch compact_index # out) else (compact_index, out))
     [0..<k] (0, []) = (bits_below w k, rev (map (\<lambda>b. f b (bits_below w b)) (filter (bit w) [0..<k])))"
  by (induction k) (auto simp: bits_below_Suc)

lemma iter_children_hashes: "iter_children t w = map (tp_get_hash t w) [0..<16]"
  unfolding iter_children_def BRANCH_FACTOR_def fold_compact_all [OF order_refl]
  by (auto simp: tp_get_hash_def tp_child_index_def)

lemma iter_indexes_used:
  "iter_non_empty_child_indexes t w = map (\<lambda>b. (b, tp_index t w b)) (filter (bit w) [0..<16])"
proof (cases "tp_is_dense t")
  case True
  then show ?thesis
    by (auto simp: iter_non_empty_child_indexes_def BRANCH_FACTOR_def tp_index_def intro!: map_cong filter_cong)
next
  case False
  then show ?thesis
    unfolding iter_non_empty_child_indexes_def BRANCH_FACTOR_def fold_compact_used [OF order_refl]
    by (simp add: tp_index_def)
qed

end
