(* ===== verification/Shamap_Node.thy ===== *)
theory Shamap_Node
  imports Shamap_Arrays Ledger_Header
begin

unbundle bit_operations_syntax

text \<open>
  The nodes of the Merkle radix tree (\<open>xrpl/shamap/src/nodes/tree_node.rs\<close>, \<open>item.rs\<close>). A child is the address of
  a node. Reference counts, locks, allocation statistics, the full-below generation and the persistence mark are
  left out. SHA-512 is an argument, as for ledger headers. The lemmas describe an inner node as a table: what each
  operation does to the table, the hash and the owner.
\<close>

section \<open>Nodes\<close>

datatype shamap_node_type = NT_Inner | NT_TransactionNm | NT_TransactionMd | NT_AccountState

record shamap_item =
  it_key :: uint256
  it_data :: "byte list"

type_synonym addr = nat

datatype tree_node =
    InnerNode (n_cowid: nat) (n_hash: uint256) (n_arrays: "addr tagged_pointer") (n_branches: "16 word")
  | LeafNode (n_cowid: nat) (n_hash: uint256) (n_leaf_type: shamap_node_type) (n_item: shamap_item)

definition HASH_PREFIX_TRANSACTION_ID :: nat where
  "HASH_PREFIX_TRANSACTION_ID = 0x54584E00"

definition HASH_PREFIX_TX_NODE :: nat where
  "HASH_PREFIX_TX_NODE = 0x534E4400"

definition HASH_PREFIX_LEAF_NODE :: nat where
  "HASH_PREFIX_LEAF_NODE = 0x4D4C4E00"

definition HASH_PREFIX_INNER_NODE :: nat where
  "HASH_PREFIX_INNER_NODE = 0x4D494E00"

definition MIN_SHAMAP_ITEM_BYTES :: nat where
  "MIN_SHAMAP_ITEM_BYTES = 12"

definition sha512_half_bytes :: "'h sha_ops \<Rightarrow> nat \<Rightarrow> byte list list \<Rightarrow> uint256" where
  "sha512_half_bytes sha prefix parts =
     half_result sha (foldl (sha_update sha) (sha_update sha (sha_new sha) (be_bytes 4 prefix)) parts)"

definition compute_inner_hash :: "'h sha_ops \<Rightarrow> 16 word \<Rightarrow> addr tagged_pointer \<Rightarrow> uint256" where
  "compute_inner_hash sha branches arrays =
     (if branches = 0 then 0
      else half_result sha (foldl (\<lambda>h x. sha_update sha h (u256_data x))
             (sha_update sha (sha_new sha) (be_bytes 4 HASH_PREFIX_INNER_NODE)) (iter_children arrays branches)))"

fun leaf_prefix :: "shamap_node_type \<Rightarrow> nat outcome" where
  "leaf_prefix NT_Inner = Panic"
| "leaf_prefix NT_TransactionNm = Done HASH_PREFIX_TRANSACTION_ID"
| "leaf_prefix NT_TransactionMd = Done HASH_PREFIX_TX_NODE"
| "leaf_prefix NT_AccountState = Done HASH_PREFIX_LEAF_NODE"

definition compute_leaf_hash :: "'h sha_ops \<Rightarrow> shamap_node_type \<Rightarrow> shamap_item \<Rightarrow> uint256 outcome" where
  "compute_leaf_hash sha ty item =
     bind_outcome (leaf_prefix ty) (\<lambda>prefix.
       Done (if ty = NT_TransactionNm then sha512_half_bytes sha prefix [it_data item]
             else sha512_half_bytes sha prefix [it_data item, u256_data (it_key item)]))"

definition new_inner :: "nat \<Rightarrow> tree_node" where
  "new_inner cowid = InnerNode cowid 0 (tp_new 0) 0"

definition new_leaf_with_hash :: "shamap_node_type \<Rightarrow> shamap_item \<Rightarrow> nat \<Rightarrow> uint256 \<Rightarrow> tree_node outcome" where
  "new_leaf_with_hash ty item cowid h =
     (if \<not> MIN_SHAMAP_ITEM_BYTES \<le> length (it_data item) then Panic
      else if ty = NT_Inner then Panic
      else Done (LeafNode cowid h ty item))"

definition new_leaf :: "'h sha_ops \<Rightarrow> shamap_node_type \<Rightarrow> shamap_item \<Rightarrow> nat \<Rightarrow> tree_node outcome" where
  "new_leaf sha ty item cowid =
     (if \<not> MIN_SHAMAP_ITEM_BYTES \<le> length (it_data item) then Panic
      else bind_outcome (compute_leaf_hash sha ty item) (new_leaf_with_hash ty item cowid))"

fun get_type :: "tree_node \<Rightarrow> shamap_node_type" where
  "get_type (InnerNode _ _ _ _) = NT_Inner"
| "get_type (LeafNode _ _ ty _) = ty"

fun is_inner :: "tree_node \<Rightarrow> bool" where
  "is_inner (InnerNode _ _ _ _) = True"
| "is_inner (LeafNode _ _ _ _) = False"

fun set_cowid :: "nat \<Rightarrow> tree_node \<Rightarrow> tree_node" where
  "set_cowid w (InnerNode _ h t b) = InnerNode w h t b"
| "set_cowid w (LeafNode _ h ty it) = LeafNode w h ty it"

definition unshare :: "tree_node \<Rightarrow> tree_node" where
  "unshare n = set_cowid 0 n"

fun set_hash :: "uint256 \<Rightarrow> tree_node \<Rightarrow> tree_node" where
  "set_hash h (InnerNode w _ t b) = InnerNode w h t b"
| "set_hash h (LeafNode w _ ty it) = LeafNode w h ty it"

fun clone_with_cowid :: "nat \<Rightarrow> tree_node \<Rightarrow> tree_node outcome" where
  "clone_with_cowid cowid (LeafNode _ h ty item) = new_leaf_with_hash ty item cowid h"
| "clone_with_cowid cowid (InnerNode _ h arrays branches) =
     bind_outcome (fold_outcome (\<lambda>branch dst.
         if branches AND push_bit branch 1 = 0 then Done dst
         else bind_outcome (expect (tp_child_index arrays branches branch)) (\<lambda>si.
              bind_outcome (expect (tp_child_index dst branches branch)) (\<lambda>di.
                let dst = set_hash_at_index di (tp_get_hash arrays branches branch) dst
                in Done (case get_child_at_index arrays si of
                     Some child \<Rightarrow> set_child_at_index di (Some child) dst
                   | None \<Rightarrow> dst))))
       [0..<BRANCH_FACTOR] (tp_new (count_ones branches)))
     (\<lambda>dst. Done (InnerNode cowid h dst branches))"

fun is_empty :: "tree_node \<Rightarrow> bool" where
  "is_empty (InnerNode _ _ _ branches) = (branches = 0)"
| "is_empty (LeafNode _ _ _ _) = False"

fun is_empty_branch :: "tree_node \<Rightarrow> nat \<Rightarrow> bool" where
  "is_empty_branch (InnerNode _ _ _ branches) branch = (branches AND push_bit branch 1 = 0)"
| "is_empty_branch (LeafNode _ _ _ _) branch = False"

fun branch_count :: "tree_node \<Rightarrow> nat" where
  "branch_count (InnerNode _ _ _ branches) = count_ones branches"
| "branch_count (LeafNode _ _ _ _) = 0"

fun get_child_hash :: "tree_node \<Rightarrow> nat \<Rightarrow> uint256" where
  "get_child_hash (InnerNode _ _ arrays branches) branch = tp_get_hash arrays branches branch"
| "get_child_hash (LeafNode _ _ _ _) branch = 0"

fun get_child :: "tree_node \<Rightarrow> nat \<Rightarrow> addr option" where
  "get_child (InnerNode _ _ arrays branches) branch =
     Option.bind (tp_child_index arrays branches branch) (get_child_at_index arrays)"
| "get_child (LeafNode _ _ _ _) branch = None"

fun set_child :: "nat \<Rightarrow> addr option \<Rightarrow> tree_node \<Rightarrow> tree_node outcome" where
  "set_child branch child (LeafNode _ _ _ _) = Panic"
| "set_child branch child (InnerNode cowid h arrays src) =
     (if cowid = 0 then Panic
      else let dst = (if child \<noteq> None then src OR push_bit branch 1 else src AND NOT (push_bit branch 1));
               arrays = tp_rebuild src dst (count_ones dst) arrays
           in (case child of
                 None \<Rightarrow> Done (InnerNode cowid 0 arrays dst)
               | Some c \<Rightarrow> bind_outcome (expect (tp_child_index arrays dst branch)) (\<lambda>n.
                   Done (InnerNode cowid 0 (set_child_at_index n (Some c) (set_hash_at_index n 0 arrays)) dst))))"

fun share_child :: "nat \<Rightarrow> addr \<Rightarrow> tree_node \<Rightarrow> tree_node outcome" where
  "share_child branch child (LeafNode _ _ _ _) = Panic"
| "share_child branch child (InnerNode cowid h arrays b) =
     (if cowid = 0 then Panic
      else bind_outcome (expect (tp_child_index arrays b branch)) (\<lambda>n.
        Done (InnerNode cowid h (set_child_at_index n (Some child) arrays) b)))"

fun canonicalize_child :: "nat \<Rightarrow> addr \<Rightarrow> uint256 \<Rightarrow> tree_node \<Rightarrow> (addr \<times> tree_node) outcome" where
  "canonicalize_child branch node node_hash (LeafNode _ _ _ _) = Panic"
| "canonicalize_child branch node node_hash (InnerNode cowid h arrays b) =
     (if node_hash \<noteq> tp_get_hash arrays b branch then Panic
      else bind_outcome (expect (tp_child_index arrays b branch)) (\<lambda>n.
        case get_child_at_index arrays n of
          Some old \<Rightarrow> Done (old, InnerNode cowid h arrays b)
        | None \<Rightarrow> Done (node, InnerNode cowid h (set_child_at_index n (Some node) arrays) b)))"

fun peek_item :: "tree_node \<Rightarrow> shamap_item option" where
  "peek_item (InnerNode _ _ _ _) = None"
| "peek_item (LeafNode _ _ _ item) = Some item"

fun set_item :: "'h sha_ops \<Rightarrow> shamap_item \<Rightarrow> tree_node \<Rightarrow> (bool \<times> tree_node) outcome" where
  "set_item sha item (InnerNode _ _ _ _) = Panic"
| "set_item sha item (LeafNode cowid old ty _) =
     (if cowid = 0 then Panic
      else bind_outcome (compute_leaf_hash sha ty item) (\<lambda>next. Done (old \<noteq> next, LeafNode cowid next ty item)))"

fun update_hash :: "'h sha_ops \<Rightarrow> tree_node \<Rightarrow> tree_node outcome" where
  "update_hash sha (InnerNode cowid _ arrays b) = Done (InnerNode cowid (compute_inner_hash sha b arrays) arrays b)"
| "update_hash sha (LeafNode cowid _ ty item) =
     bind_outcome (compute_leaf_hash sha ty item) (\<lambda>next. Done (LeafNode cowid next ty item))"

fun update_hash_deep :: "'h sha_ops \<Rightarrow> (addr \<Rightarrow> uint256) \<Rightarrow> tree_node \<Rightarrow> tree_node outcome" where
  "update_hash_deep sha get_hash (LeafNode _ _ _ _) = Panic"
| "update_hash_deep sha get_hash (InnerNode cowid _ arrays b) =
     (let arrays = fold (\<lambda>(_, n) arrays. case get_child_at_index arrays n of
              Some c \<Rightarrow> set_hash_at_index n (get_hash c) arrays
            | None \<Rightarrow> arrays) (iter_non_empty_child_indexes arrays b) arrays
      in Done (InnerNode cowid (compute_inner_hash sha b arrays) arrays b))"

section \<open>Inner nodes as tables\<close>

type_synonym branch_table = "nat \<Rightarrow> (uint256 \<times> addr option) option"

definition table :: "tree_node \<Rightarrow> nat \<Rightarrow> uint256 \<Rightarrow> branch_table \<Rightarrow> bool" where
  "table n w h f \<longleftrightarrow> (\<exists>t b. n = InnerNode w h t b \<and> tp_ok b t \<and> (\<forall>i<16. tp_slot t b i = f i))"

definition slot_hash :: "(uint256 \<times> addr option) option \<Rightarrow> uint256" where
  "slot_hash s = (case s of None \<Rightarrow> 0 | Some (h, c) \<Rightarrow> h)"

definition slot_child :: "(uint256 \<times> addr option) option \<Rightarrow> addr option" where
  "slot_child s = (case s of None \<Rightarrow> None | Some (h, c) \<Rightarrow> c)"

definition inner_hash :: "'h sha_ops \<Rightarrow> uint256 list \<Rightarrow> uint256" where
  "inner_hash sha hs = sha512_half_bytes sha HASH_PREFIX_INNER_NODE (map u256_data hs)"

lemma tp_slot_None: "tp_slot t b i = None \<longleftrightarrow> \<not> bit b i"
  by (simp add: tp_slot_def)

lemma branches_0_iff: "tp_ok b t \<Longrightarrow> (b = 0) = (\<forall>i<16. tp_slot t b i = None)"
  unfolding bit_eq_iff [of b 0] by (simp add: tp_slot_None)

lemma table_simps:
  assumes "table n w h f"
  shows "n_cowid n = w" and "n_hash n = h" and "is_inner n" and "get_type n = NT_Inner" and "peek_item n = None"
    and "is_empty n \<longleftrightarrow> (\<forall>i<16. f i = None)"
    and "i < 16 \<Longrightarrow> is_empty_branch n i \<longleftrightarrow> f i = None"
    and "i < 16 \<Longrightarrow> get_child_hash n i = slot_hash (f i)"
    and "i < 16 \<Longrightarrow> get_child n i = slot_child (f i)"
    and "branch_count n = card {i. i < 16 \<and> f i \<noteq> None}"
proof -
  obtain t b where n: "n = InnerNode w h t b" "tp_ok b t" "\<And>i. i < 16 \<Longrightarrow> tp_slot t b i = f i"
    using assms by (auto simp: table_def)
  show "n_cowid n = w" "n_hash n = h" "is_inner n" "get_type n = NT_Inner" "peek_item n = None"
    by (simp_all add: n(1))
  show "is_empty n \<longleftrightarrow> (\<forall>i<16. f i = None)"
    using branches_0_iff [OF n(2)] n(3) by (simp add: n(1))
  show "is_empty_branch n i \<longleftrightarrow> f i = None" if "i < 16"
    using n(3) [OF that] tp_slot_None [of t b i] by (simp add: n(1))
  show "get_child_hash n i = slot_hash (f i)" if "i < 16"
    using n(3) [OF that] tp_get_hash_slot [OF n(2) that] by (simp add: n(1) slot_hash_def)
  show "get_child n i = slot_child (f i)" if "i < 16"
    using n(3) [OF that] tp_get_child_slot [OF n(2) that] by (simp add: n(1) slot_child_def)
  have "{i. i < 16 \<and> bit b i} = {i. i < 16 \<and> f i \<noteq> None}"
    by (rule Collect_cong) (metis n(3) tp_slot_None)
  then show "branch_count n = card {i. i < 16 \<and> f i \<noteq> None}"
    by (simp add: n(1) count_ones_card)
qed


lemma tableI: "tp_ok b t \<Longrightarrow> (\<And>i. i < 16 \<Longrightarrow> tp_slot t b i = f i) \<Longrightarrow> table (InnerNode w h t b) w h f"
  by (auto simp: table_def)

lemma tableE:
  assumes "table n w h f"
  obtains t b where "n = InnerNode w h t b" and "tp_ok b t" and "\<And>i. i < 16 \<Longrightarrow> tp_slot t b i = f i"
  using assms by (auto simp: table_def)

lemma new_inner_table: "table (new_inner w) w 0 (\<lambda>_. None)"
proof -
  have "count_ones 0 = 0"
    by (simp add: count_ones_def)
  then show ?thesis
    unfolding new_inner_def by (intro tableI) (simp_all add: tp_new_ok tp_slot_None)
qed

lemma set_cowid_table: "table n w h f \<Longrightarrow> table (set_cowid v n) v h f"
  by (auto simp: table_def)

lemma bit_or_exp: "bit ((b::16 word) OR 2 ^ i) j \<longleftrightarrow> bit b j \<or> j = i \<and> j < 16"
  by (auto simp: bit_or_iff bit_exp_iff)

lemma bit_clear: "bit ((b::16 word) AND NOT (2 ^ i)) j \<longleftrightarrow> bit b j \<and> j \<noteq> i"
  by (auto simp: bit_and_iff bit_not_iff bit_exp_iff dest: bit_16_less)

lemma set_child_Some:
  assumes n: "table n w h f" and w: "w \<noteq> 0" and i: "i < 16"
  obtains n' where "set_child i (Some c) n = Done n'" and "table n' w 0 (f(i := Some (0, Some c)))"
proof -
  obtain t b where t: "n = InnerNode w h t b" "tp_ok b t" "\<And>i. i < 16 \<Longrightarrow> tp_slot t b i = f i"
    by (rule tableE [OF n]) blast
  let ?b = "b OR 2 ^ i" and ?t = "tp_rebuild b (b OR 2 ^ i) (count_ones (b OR 2 ^ i)) t"
  let ?h = "set_hash_at_index (tp_index ?t ?b i) 0 ?t"
  let ?c = "set_child_at_index (tp_index ?t ?b i) (Some c) ?h"
  have bit: "bit ?b i" using i by (simp add: bit_or_exp)
  note r = tp_rebuild_slot [where dst = ?b, OF t(2) order_refl count_ones_le]
  note s = tp_set_slot [OF r(1) bit i]
  have ix: "tp_index ?h ?b i = tp_index ?t ?b i"
    by (simp add: tp_index_def set_hash_at_index_def tp_is_dense_def tp_capacity_def)
  note s' = tp_set_slot [OF s(2) [where h = 0] bit i, unfolded ix]
  have "tp_hashes ?h ! tp_index ?t ?b i = 0"
    using tp_index_less [OF r(1) bit i] r(1) by (simp add: set_hash_at_index_def tp_ok_def)
  then have slot: "tp_slot ?c ?b j = (f(i := Some (0, Some c))) j" if "j < 16" for j
    using s'(3) [where c = "Some c", OF that] s(4) [where h = 0, OF that] r(2) [OF that] t(3) [OF that] tp_slot_None [of t b j] that
    by (auto simp: bit_or_exp)
  have "table (InnerNode w 0 ?c ?b) w 0 (f(i := Some (0, Some c)))"
    by (rule tableI [OF s'(1)]) (rule slot)
  moreover have "set_child i (Some c) n = Done (InnerNode w 0 ?c ?b)"
    using w bit i by (simp add: t(1) Let_def tp_child_index_bit)
  ultimately show thesis
    by (rule that [rotated])
qed

lemma set_child_None:
  assumes n: "table n w h f" and w: "w \<noteq> 0" and i: "i < 16"
  obtains n' where "set_child i None n = Done n'" and "table n' w 0 (f(i := None))"
proof -
  obtain t b where t: "n = InnerNode w h t b" "tp_ok b t" "\<And>i. i < 16 \<Longrightarrow> tp_slot t b i = f i"
    by (rule tableE [OF n]) blast
  let ?b = "b AND NOT (2 ^ i)"
  note r = tp_rebuild_slot [where dst = ?b, OF t(2) order_refl count_ones_le]
  have "table (InnerNode w 0 (tp_rebuild b ?b (count_ones ?b) t) ?b) w 0 (f(i := None))"
    by (rule tableI [OF r(1)]) (metis r(2) t(3) tp_slot_None bit_clear fun_upd_apply)
  moreover have "set_child i None n = Done (InnerNode w 0 (tp_rebuild b ?b (count_ones ?b) t) ?b)"
    using w by (simp add: t(1) Let_def)
  ultimately show thesis
    by (rule that [rotated])
qed


lemma share_child_table:
  assumes n: "table n w h f" and w: "w \<noteq> 0" and i: "i < 16" and f: "f i = Some (s, x)"
  obtains n' where "share_child i c n = Done n'" and "table n' w h (f(i := Some (s, Some c)))"
proof -
  obtain t b where t: "n = InnerNode w h t b" "tp_ok b t" "\<And>i. i < 16 \<Longrightarrow> tp_slot t b i = f i"
    by (rule tableE [OF n]) blast
  have bit: "bit b i" and s: "tp_hashes t ! tp_index t b i = s"
    using t(3) [OF i] f by (auto simp: tp_slot_def split: if_splits)
  note r = tp_set_slot [OF t(2) bit i]
  have "table (InnerNode w h (set_child_at_index (tp_index t b i) (Some c) t) b) w h (f(i := Some (s, Some c)))"
    by (rule tableI [OF r(1)]) (simp add: r(3) s t(3))
  moreover have "share_child i c n = Done (InnerNode w h (set_child_at_index (tp_index t b i) (Some c) t) b)"
    using w by (simp add: t(1) tp_child_index_bit [OF bit i])
  ultimately show thesis
    by (rule that [rotated])
qed

definition clone_step :: "addr tagged_pointer \<Rightarrow> 16 word \<Rightarrow> nat \<Rightarrow> addr tagged_pointer \<Rightarrow> addr tagged_pointer" where
  "clone_step t b i d =
     (if bit b i
      then let d = set_hash_at_index (tp_index d b i) (tp_hashes t ! tp_index t b i) d
           in (case tp_children t ! tp_index t b i of
                 Some c \<Rightarrow> set_child_at_index (tp_index d b i) (Some c) d
               | None \<Rightarrow> d)
      else d)"

lemma clone_step_slot:
  assumes d: "tp_ok b d" and i: "i < 16" and new: "bit b i \<Longrightarrow> tp_slot d b i = Some (0, None)"
  shows "tp_ok b (clone_step t b i d)"
    and "j < 16 \<Longrightarrow> tp_slot (clone_step t b i d) b j = (if j = i \<and> bit b i then tp_slot t b i else tp_slot d b j)"
proof -
  let ?d = "set_hash_at_index (tp_index d b i) (tp_hashes t ! tp_index t b i) d"
  note s = tp_set_slot [OF d _ i]
  note s' = tp_set_slot [OF s(2) [where h = "tp_hashes t ! tp_index t b i"] _ i]
  have len: "tp_index d b i < length (tp_hashes d)" and none: "tp_children d ! tp_index d b i = None" if "bit b i"
    using tp_index_less [OF d that i] new [OF that] d that by (simp_all add: tp_ok_def tp_slot_def)
  have ix: "tp_index ?d b i = tp_index d b i"
    by (simp add: tp_index_def set_hash_at_index_def tp_is_dense_def tp_capacity_def)
  show "tp_ok b (clone_step t b i d)"
    using d s s' by (auto simp: clone_step_def Let_def split: option.split)
  show "tp_slot (clone_step t b i d) b j = (if j = i \<and> bit b i then tp_slot t b i else tp_slot d b j)" if "j < 16"
  proof (cases "bit b i")
    case True
    have "tp_hashes ?d ! tp_index d b i = tp_hashes t ! tp_index t b i"
      using len [OF True] by (simp add: set_hash_at_index_def)
    then show ?thesis
      using True none [OF True] s(4) [OF True that, where h = "tp_hashes t ! tp_index t b i"] s'(3) [OF True True that]
      by (auto simp: clone_step_def Let_def ix tp_slot_def [of t] split: option.split)
  qed (simp add: clone_step_def)
qed

lemma fold_outcome_Done: "(\<And>x s. x \<in> set xs \<Longrightarrow> g x s = Done (f x s)) \<Longrightarrow> fold_outcome g xs s = Done (fold f xs s)"
  by (induction xs arbitrary: s) auto

lemma clone_table:
  assumes n: "table n w h f"
  obtains n' where "clone_with_cowid v n = Done n'" and "table n' v h f"
proof -
  obtain t b where t: "n = InnerNode w h t b" "tp_ok b t" "\<And>i. i < 16 \<Longrightarrow> tp_slot t b i = f i"
    by (rule tableE [OF n]) blast
  let ?d = "\<lambda>k. fold (clone_step t b) [0..<k] (tp_new (count_ones b))"
  have fold: "tp_ok b (?d k) \<and> (\<forall>i<16. tp_slot (?d k) b i = (if \<not> bit b i then None else if i < k then f i else Some (0, None)))"
    if "k \<le> 16" for k
    using that
  proof (induction k)
    case 0
    then show ?case by (simp add: tp_new_ok tp_new_slot count_ones_le)
  next
    case (Suc k)
    then have k: "tp_ok b (?d k)" "k < 16" "bit b k \<Longrightarrow> tp_slot (?d k) b k = Some (0, None)" by auto
    note c = clone_step_slot [OF k, where t = t]
    have "tp_slot (?d (Suc k)) b i = (if \<not> bit b i then None else if i < Suc k then f i else Some (0, None))" if "i < 16" for i
      using c(2) [OF _ that] Suc k(2) that t(3) [OF that] by (auto simp: less_Suc_eq)
    with c(1) show ?case by simp
  qed
  have "clone_with_cowid v n = Done (InnerNode v h (?d 16) b)"
    unfolding t(1) clone_with_cowid.simps BRANCH_FACTOR_def
    by (subst fold_outcome_Done [where f = "clone_step t b"])
      (auto simp: clone_step_def tp_child_index_bit get_child_at_index_def Let_def tp_get_hash_def set_hash_at_index_def
        tp_index_def tp_is_dense_def tp_capacity_def split: option.split)
  moreover have "table (InnerNode v h (?d 16) b) v h f"
    by (rule tableI) (use fold [of 16] in simp, metis fold order_refl t(3) tp_slot_None)
  ultimately show thesis
    by (rule that)
qed


definition fresh_slot :: "(addr \<Rightarrow> uint256) \<Rightarrow> (uint256 \<times> addr option) option \<Rightarrow> (uint256 \<times> addr option) option" where
  "fresh_slot g s = (case s of Some (h, Some c) \<Rightarrow> Some (g c, Some c) | _ \<Rightarrow> s)"

definition table_hash :: "'h sha_ops \<Rightarrow> branch_table \<Rightarrow> uint256" where
  "table_hash sha f = (if \<forall>i<16. f i = None then 0 else inner_hash sha (map (\<lambda>i. slot_hash (f i)) [0..<16]))"

lemma foldl_map: "foldl f a (map g xs) = foldl (\<lambda>a x. f a (g x)) a xs"
  by (induction xs arbitrary: a) auto

lemma compute_inner_hash_table:
  assumes "tp_ok b t" and "\<And>i. i < 16 \<Longrightarrow> tp_slot t b i = f i"
  shows "compute_inner_hash sha b t = table_hash sha f"
proof -
  have "map (tp_get_hash t b) [0..<16] = map (\<lambda>i. slot_hash (f i)) [0..<16]"
    by (rule map_cong) (use assms in \<open>auto simp: tp_get_hash_slot slot_hash_def\<close>)
  moreover have "b = 0 \<longleftrightarrow> (\<forall>i<16. f i = None)"
    using branches_0_iff [OF assms(1)] assms(2) by simp
  ultimately show ?thesis
    unfolding compute_inner_hash_def table_hash_def inner_hash_def sha512_half_bytes_def iter_children_hashes
    by (simp only: foldl_map [of "sha_update sha" _ u256_data])
qed

lemma deep_fold:
  fixes g :: "addr \<Rightarrow> uint256"
  assumes t: "tp_ok b t" and bs: "distinct is" "set is \<subseteq> {i. i < 16 \<and> bit b i}"
  defines "step \<equiv> \<lambda>(_, n) arrays. case get_child_at_index arrays n of Some c \<Rightarrow> set_hash_at_index n (g c) arrays | None \<Rightarrow> arrays"
  shows "tp_ok b (fold step (map (\<lambda>i. (i, tp_index t b i)) is) t) \<and>
    (\<forall>j<16. tp_slot (fold step (map (\<lambda>i. (i, tp_index t b i)) is) t) b j =
       (if j \<in> set is then fresh_slot g (tp_slot t b j) else tp_slot t b j))"
  using t bs
proof (induction "is" arbitrary: t)
  case (Cons i "is")
  let ?t = "step (i, tp_index t b i) t"
  have i: "i < 16" "bit b i" using Cons.prems by auto
  have ok: "tp_ok b ?t"
    using tp_set_slot(2) [OF Cons.prems(1) i(2,1)] Cons.prems(1) by (auto simp: step_def split: option.split)
  have ix: "tp_index ?t = tp_index t"
    by (auto simp: step_def tp_index_def set_hash_at_index_def tp_is_dense_def tp_capacity_def fun_eq_iff split: option.split)
  have slot: "tp_slot ?t b j = (if j = i then fresh_slot g (tp_slot t b j) else tp_slot t b j)" if "j < 16" for j
    using tp_set_slot(4) [OF Cons.prems(1) i(2,1) that] i
    by (auto simp: step_def get_child_at_index_def fresh_slot_def tp_slot_def [of t] split: option.split)
  show ?case
    using Cons.IH [OF ok] Cons.prems slot by (auto simp: ix)
qed simp

lemma update_hash_deep_table:
  assumes n: "table n w h f"
  obtains n' where "update_hash_deep sha g n = Done n'" and "table n' w (table_hash sha (\<lambda>i. fresh_slot g (f i))) (\<lambda>i. fresh_slot g (f i))"
proof -
  obtain t b where t: "n = InnerNode w h t b" "tp_ok b t" "\<And>i. i < 16 \<Longrightarrow> tp_slot t b i = f i"
    by (rule tableE [OF n]) blast
  let ?t = "fold (\<lambda>(_, n) arrays. case get_child_at_index arrays n of Some c \<Rightarrow> set_hash_at_index n (g c) arrays | None \<Rightarrow> arrays)
    (map (\<lambda>i. (i, tp_index t b i)) (filter (bit b) [0..<16])) t"
  have r: "tp_ok b ?t" "j < 16 \<Longrightarrow> tp_slot ?t b j = fresh_slot g (f j)" for j
    using deep_fold [OF t(2), of "filter (bit b) [0..<16]" g] t(3) tp_slot_None [of t b j] by (auto simp: fresh_slot_def)
  have eq: "compute_inner_hash sha b ?t = table_hash sha (\<lambda>i. fresh_slot g (f i))"
    by (rule compute_inner_hash_table [OF r(1)]) (rule r(2))
  have "update_hash_deep sha g n = Done (InnerNode w (compute_inner_hash sha b ?t) ?t b)"
    unfolding t(1) update_hash_deep.simps iter_indexes_used Let_def by (rule refl)
  moreover have "table (InnerNode w (compute_inner_hash sha b ?t) ?t b) w (table_hash sha (\<lambda>i. fresh_slot g (f i))) (\<lambda>i. fresh_slot g (f i))"
    unfolding eq by (rule tableI [OF r(1)]) (rule r(2))
  ultimately show thesis
    by (rule that)
qed

end
