(* ===== verification/Shamap_Mutation.thy ===== *)
theory Shamap_Mutation
  imports Shamap_Node
begin

unbundle bit_operations_syntax

text \<open>
  Searching and changing the Merkle radix tree: \<open>traverse/traversal.rs\<close>, \<open>operations/search.rs\<close> and
  \<open>operations/mutation.rs\<close> of \<open>xrpl/shamap/src\<close>. Nodes are shared between trees and changed in place, so they live
  in an explicit heap, a list of nodes whose positions are the addresses. A mutable tree is the address of its root
  and its owner number: nodes with that number are its own and changed in place, all others are copied first.
  The variants that take a family of caches are the ones modelled here with the lookup of the family as the
  fetch function.
\<close>

section \<open>Descending\<close>

type_synonym heap = "tree_node list"

type_synonym fetcher = "uint256 \<Rightarrow> heap \<Rightarrow> addr option \<times> heap"

datatype traversal_error = MissingNode uint256 | RootNotFound | TraversalView

definition alloc :: "tree_node \<Rightarrow> heap \<Rightarrow> addr \<times> heap" where
  "alloc n h = (length h, h @ [n])"

definition no_fetch :: fetcher where
  "no_fetch hs h = (None, h)"

definition descend :: "fetcher \<Rightarrow> bool \<Rightarrow> addr \<Rightarrow> nat \<Rightarrow> heap \<Rightarrow> (addr option \<times> heap) outcome" where
  "descend fetch backed parent branch h =
     (if \<not> is_inner (h ! parent) then Panic
      else let loaded = get_child (h ! parent) branch
           in if loaded \<noteq> None \<or> \<not> backed \<or> is_empty_branch (h ! parent) branch then Done (loaded, h)
              else case fetch (get_child_hash (h ! parent) branch) h of
                  (None, h) \<Rightarrow> Done (None, h)
                | (Some fetched, h) \<Rightarrow>
                    bind_outcome (canonicalize_child branch fetched (n_hash (h ! fetched)) (h ! parent))
                      (\<lambda>(c, n). Done (Some c, h[parent := n])))"

definition descend_throw ::
  "fetcher \<Rightarrow> bool \<Rightarrow> addr \<Rightarrow> nat \<Rightarrow> heap \<Rightarrow> ((traversal_error + addr option) \<times> heap) outcome" where
  "descend_throw fetch backed parent branch h =
     bind_outcome (descend fetch backed parent branch h) (\<lambda>(node, h).
       if node = None \<and> \<not> is_empty_branch (h ! parent) branch
       then Done (Inl (MissingNode (get_child_hash (h ! parent) branch)), h)
       else Done (Inr node, h))"

definition descend_no_store :: "fetcher \<Rightarrow> bool \<Rightarrow> addr \<Rightarrow> nat \<Rightarrow> heap \<Rightarrow> (addr option \<times> heap) outcome" where
  "descend_no_store fetch backed parent branch h =
     (if \<not> is_inner (h ! parent) then Panic
      else let loaded = get_child (h ! parent) branch
           in if loaded \<noteq> None \<or> \<not> backed \<or> is_empty_branch (h ! parent) branch then Done (loaded, h)
              else Done (fetch (get_child_hash (h ! parent) branch) h))"

section \<open>Searching\<close>

type_synonym node_path = "(addr \<times> shamap_node_id) list"

lemma bind_outcome_cong [fundef_cong]:
  "m = m' \<Longrightarrow> (\<And>x. m' = Done x \<Longrightarrow> f x = f' x) \<Longrightarrow> bind_outcome m f = bind_outcome m' f'"
  by (cases m') auto

function walk_towards_key_impl ::
  "fetcher \<Rightarrow> bool \<Rightarrow> uint256 \<Rightarrow> addr \<Rightarrow> shamap_node_id \<Rightarrow> node_path \<Rightarrow> heap \<Rightarrow>
   ((traversal_error + addr option \<times> node_path) \<times> heap) outcome" where
  "walk_towards_key_impl fetch backed key node node_id path h =
     (if is_inner (h ! node)
      then let path = path @ [(node, node_id)]; branch = select_branch node_id key
           in if is_empty_branch (h ! node) branch then Done (Inr (None, path), h)
              else bind_outcome (descend_throw fetch backed node branch h) (\<lambda>(r, h).
                case r of
                  Inl e \<Rightarrow> Done (Inl e, h)
                | Inr None \<Rightarrow> Panic
                | Inr (Some next) \<Rightarrow>
                    (case get_child_node_id node_id branch of
                       Inl _ \<Rightarrow> Panic
                     | Inr child_id \<Rightarrow> walk_towards_key_impl fetch backed key next child_id path h))
      else Done (Inr (Some node, path @ [(node, node_id)]), h))"
  by pat_completeness auto

lemma child_node_id_depth: "get_child_node_id n b = Inr c \<Longrightarrow> nid_depth c = Suc (nid_depth n) \<and> nid_depth n < 64"
  by (auto simp: get_child_node_id_def SHAMAP_LEAF_DEPTH_def Let_def split: if_splits)

termination walk_towards_key_impl
  by (relation "measure (\<lambda>(_, _, _, _, node_id, _, _). 65 - nid_depth node_id)") (auto dest: child_node_id_depth)

declare walk_towards_key_impl.simps [simp del]

definition walk_towards_key_with_path ::
  "fetcher \<Rightarrow> bool \<Rightarrow> addr \<Rightarrow> uint256 \<Rightarrow> heap \<Rightarrow> ((traversal_error + addr option \<times> node_path) \<times> heap) outcome" where
  "walk_towards_key_with_path fetch backed root key h = walk_towards_key_impl fetch backed key root nid_default [] h"

definition walk_towards_key ::
  "fetcher \<Rightarrow> bool \<Rightarrow> addr \<Rightarrow> uint256 \<Rightarrow> heap \<Rightarrow> ((traversal_error + addr option) \<times> heap) outcome" where
  "walk_towards_key fetch backed root key h =
     bind_outcome (walk_towards_key_impl fetch backed key root nid_default [] h) (\<lambda>(r, h).
       Done (map_sum (\<lambda>e. e) fst r, h))"

definition find_key ::
  "fetcher \<Rightarrow> bool \<Rightarrow> addr \<Rightarrow> uint256 \<Rightarrow> heap \<Rightarrow> ((traversal_error + addr option) \<times> heap) outcome" where
  "find_key fetch backed root key h =
     bind_outcome (walk_towards_key fetch backed root key h) (\<lambda>(r, h).
       case r of
         Inl e \<Rightarrow> Done (Inl e, h)
       | Inr None \<Rightarrow> Done (Inr None, h)
       | Inr (Some leaf) \<Rightarrow>
           Done (Inr (case peek_item (h ! leaf) of
                   Some item \<Rightarrow> if it_key item = key then Some leaf else None
                 | None \<Rightarrow> None), h))"

section \<open>Mutable trees\<close>

record mutable_tree =
  mt_root :: addr
  mt_cowid :: nat

datatype mutation_error =
    MutTraversal traversal_error
  | RootMustBeInner
  | InnerNodeMustBeOwned shamap_node_id
  | LeafNodeMustBeOwned shamap_node_id
  | DuplicateExactLeaf uint256
  | MissingExactLeaf uint256
  | CrossTypeChange shamap_node_type shamap_node_type

type_synonym mut_result = "((mutation_error + bool) \<times> mutable_tree \<times> heap) outcome"

definition mt_new :: "nat \<Rightarrow> heap \<Rightarrow> (mutable_tree \<times> heap) outcome" where
  "mt_new cowid h =
     (if cowid = 0 then Panic
      else case alloc (new_inner cowid) h of (root, h) \<Rightarrow> Done (\<lparr>mt_root = root, mt_cowid = cowid\<rparr>, h))"

definition from_loaded_root :: "addr \<Rightarrow> nat \<Rightarrow> heap \<Rightarrow> mutable_tree outcome" where
  "from_loaded_root root cowid h =
     (if cowid = 0 then Panic
      else if \<not> n_cowid (h ! root) \<le> cowid then Panic
      else Done \<lparr>mt_root = root, mt_cowid = cowid\<rparr>)"

definition unshare_node :: "addr \<Rightarrow> shamap_node_id \<Rightarrow> mutable_tree \<Rightarrow> heap \<Rightarrow> (addr \<times> mutable_tree \<times> heap) outcome" where
  "unshare_node node node_id mt h =
     (if \<not> n_cowid (h ! node) \<le> mt_cowid mt then Panic
      else if n_cowid (h ! node) = mt_cowid mt then Done (node, mt, h)
      else bind_outcome (clone_with_cowid (mt_cowid mt) (h ! node)) (\<lambda>n.
        case alloc n h of (cloned, h) \<Rightarrow>
          Done (cloned, if nid_is_root node_id then mt\<lparr>mt_root := cloned\<rparr> else mt, h)))"

definition dirty_step ::
  "uint256 \<Rightarrow> addr \<times> shamap_node_id \<Rightarrow> addr \<times> mutable_tree \<times> heap \<Rightarrow> (addr \<times> mutable_tree \<times> heap) outcome" where
  "dirty_step target entry st =
     (case entry of (node, node_id) \<Rightarrow> case st of (child, mt, h) \<Rightarrow>
        let branch = select_branch node_id target
        in bind_outcome (unshare_node node node_id mt h) (\<lambda>(n, mt, h).
             bind_outcome (set_child branch (Some child) (h ! n)) (\<lambda>nd. Done (n, mt, h[n := nd]))))"

definition dirty_up ::
  "node_path \<Rightarrow> uint256 \<Rightarrow> addr \<Rightarrow> mutable_tree \<Rightarrow> heap \<Rightarrow> (addr \<times> mutable_tree \<times> heap) outcome" where
  "dirty_up path target child mt h = fold_outcome (dirty_step target) (rev path) (child, mt, h)"

definition add_into_empty_branch ::
  "'h sha_ops \<Rightarrow> node_path \<Rightarrow> uint256 \<Rightarrow> shamap_node_type \<Rightarrow> shamap_item \<Rightarrow> mutable_tree \<Rightarrow> heap \<Rightarrow> mut_result" where
  "add_into_empty_branch sha path target ty item mt h =
     (if path = [] then Done (Inl RootMustBeInner, mt, h)
      else case last path of (node, node_id) \<Rightarrow>
        let branch = select_branch node_id target
        in bind_outcome (unshare_node node node_id mt h) (\<lambda>(parent, mt, h).
           bind_outcome (new_leaf sha ty item (mt_cowid mt)) (\<lambda>n.
             case alloc n h of (leaf, h) \<Rightarrow>
               bind_outcome (set_child branch (Some leaf) (h ! parent)) (\<lambda>nd.
               bind_outcome (dirty_up (butlast path) target parent mt (h[parent := nd])) (\<lambda>(root, mt, h).
                 Done (Inr True, mt\<lparr>mt_root := root\<rparr>, h))))))"

function split_loop ::
  "'h sha_ops \<Rightarrow> shamap_node_type \<Rightarrow> shamap_item \<Rightarrow> shamap_item \<Rightarrow> node_path \<Rightarrow> shamap_node_id \<Rightarrow> addr \<Rightarrow>
   mutable_tree \<Rightarrow> heap \<Rightarrow> mut_result" where
  "split_loop sha ty item existing graft_stack node_id split_node mt h =
     (let target = it_key item;
          new_branch = select_branch node_id target;
          old_branch = select_branch node_id (it_key existing)
      in if new_branch \<noteq> old_branch
         then bind_outcome (new_leaf sha ty item (mt_cowid mt)) (\<lambda>n1.
                case alloc n1 h of (leaf1, h) \<Rightarrow>
                  bind_outcome (set_child new_branch (Some leaf1) (h ! split_node)) (\<lambda>nd.
                  let h = h[split_node := nd]
                  in bind_outcome (new_leaf sha ty existing (mt_cowid mt)) (\<lambda>n2.
                     case alloc n2 h of (leaf2, h) \<Rightarrow>
                       bind_outcome (set_child old_branch (Some leaf2) (h ! split_node)) (\<lambda>nd.
                       bind_outcome (dirty_up graft_stack target split_node mt (h[split_node := nd])) (\<lambda>(root, mt, h).
                         Done (Inr True, mt\<lparr>mt_root := root\<rparr>, h))))))
         else (case get_child_node_id node_id new_branch of
                 Inl _ \<Rightarrow> Panic
               | Inr child_id \<Rightarrow>
                   (case alloc (new_inner (mt_cowid mt)) h of (next, h) \<Rightarrow>
                      split_loop sha ty item existing (graft_stack @ [(split_node, node_id)]) child_id next mt h)))"
  by pat_completeness auto

termination split_loop
  by (relation "measure (\<lambda>(_, _, _, _, _, node_id, _, _, _). 65 - nid_depth node_id)") (auto dest: child_node_id_depth)

declare split_loop.simps [simp del]

definition add_with_leaf_split ::
  "'h sha_ops \<Rightarrow> node_path \<Rightarrow> addr \<Rightarrow> shamap_node_type \<Rightarrow> shamap_item \<Rightarrow> mutable_tree \<Rightarrow> heap \<Rightarrow> mut_result" where
  "add_with_leaf_split sha path leaf ty item mt h =
     (let target = it_key item
      in if path = [] then Done (Inl RootMustBeInner, mt, h)
         else case last path of (_, leaf_id) \<Rightarrow>
           (case peek_item (h ! leaf) of
              None \<Rightarrow> Done (Inl (MissingExactLeaf target), mt, h)
            | Some existing \<Rightarrow>
                if it_key existing = target then Done (Inr False, mt, h)
                else let existing_type = get_type (h ! leaf)
                     in if existing_type \<noteq> ty then Done (Inl (CrossTypeChange ty existing_type), mt, h)
                        else case alloc (new_inner (mt_cowid mt)) h of (split_node, h) \<Rightarrow>
                          split_loop sha ty item existing (butlast path) leaf_id split_node mt h))"

definition add_item_with ::
  "fetcher \<Rightarrow> bool \<Rightarrow> 'h sha_ops \<Rightarrow> shamap_node_type \<Rightarrow> shamap_item \<Rightarrow> mutable_tree \<Rightarrow> heap \<Rightarrow> mut_result" where
  "add_item_with fetch backed sha ty item mt h =
     (if ty = NT_Inner then Panic
      else let target = it_key item
           in bind_outcome (walk_towards_key_with_path fetch backed (mt_root mt) target h) (\<lambda>(r, h).
                case r of
                  Inl e \<Rightarrow> Done (Inl (MutTraversal e), mt, h)
                | Inr (None, path) \<Rightarrow> add_into_empty_branch sha path target ty item mt h
                | Inr (Some leaf, path) \<Rightarrow> add_with_leaf_split sha path leaf ty item mt h))"

definition add_item :: "'h sha_ops \<Rightarrow> shamap_node_type \<Rightarrow> shamap_item \<Rightarrow> mutable_tree \<Rightarrow> heap \<Rightarrow> mut_result" where
  "add_item sha ty item mt h = add_item_with no_fetch False sha ty item mt h"

definition add_item_with_fetch ::
  "fetcher \<Rightarrow> 'h sha_ops \<Rightarrow> shamap_node_type \<Rightarrow> shamap_item \<Rightarrow> mutable_tree \<Rightarrow> heap \<Rightarrow> mut_result" where
  "add_item_with_fetch fetch sha ty item mt h = add_item_with fetch True sha ty item mt h"

definition update_item_with ::
  "fetcher \<Rightarrow> bool \<Rightarrow> 'h sha_ops \<Rightarrow> shamap_node_type \<Rightarrow> shamap_item \<Rightarrow> mutable_tree \<Rightarrow> heap \<Rightarrow> mut_result" where
  "update_item_with fetch backed sha ty item mt h =
     (if ty = NT_Inner then Panic
      else let target = it_key item
           in bind_outcome (walk_towards_key_with_path fetch backed (mt_root mt) target h) (\<lambda>(r, h).
                case r of
                  Inl e \<Rightarrow> Done (Inl (MutTraversal e), mt, h)
                | Inr (None, path) \<Rightarrow> Done (Inl (MissingExactLeaf target), mt, h)
                | Inr (Some leaf, path) \<Rightarrow>
                    if path = [] then Done (Inl (MissingExactLeaf target), mt, h)
                    else (case peek_item (h ! leaf) of
                            None \<Rightarrow> Done (Inl (MissingExactLeaf target), mt, h)
                          | Some existing \<Rightarrow>
                              if it_key existing \<noteq> target then Done (Inl (MissingExactLeaf target), mt, h)
                              else let existing_type = get_type (h ! leaf)
                                   in if existing_type \<noteq> ty then Done (Inl (CrossTypeChange ty existing_type), mt, h)
                                      else bind_outcome (unshare_node leaf (snd (last path)) mt h) (\<lambda>(leaf, mt, h).
                                           bind_outcome (set_item sha item (h ! leaf)) (\<lambda>(changed, nd).
                                             let h = h[leaf := nd]
                                             in if changed
                                                then bind_outcome (dirty_up (butlast path) target leaf mt h) (\<lambda>(root, mt, h).
                                                       Done (Inr True, mt\<lparr>mt_root := root\<rparr>, h))
                                                else Done (Inr True, mt, h))))))"

definition update_item :: "'h sha_ops \<Rightarrow> shamap_node_type \<Rightarrow> shamap_item \<Rightarrow> mutable_tree \<Rightarrow> heap \<Rightarrow> mut_result" where
  "update_item sha ty item mt h = update_item_with no_fetch False sha ty item mt h"

definition update_item_with_fetch ::
  "fetcher \<Rightarrow> 'h sha_ops \<Rightarrow> shamap_node_type \<Rightarrow> shamap_item \<Rightarrow> mutable_tree \<Rightarrow> heap \<Rightarrow> mut_result" where
  "update_item_with_fetch fetch sha ty item mt h = update_item_with fetch True sha ty item mt h"


text \<open>
  Deleting walks back up the path. The subtree below a position without an entry is gone; an inner node that
  keeps one branch, other than the root, is replaced by the only leaf below it.
\<close>

definition select_only_branch :: "tree_node \<Rightarrow> nat option" where
  "select_only_branch n = List.find (\<lambda>branch. \<not> is_empty_branch n branch) [0..<BRANCH_FACTOR]"

fun only_child :: "tree_node \<Rightarrow> nat list \<Rightarrow> addr option \<Rightarrow> addr option" where
  "only_child n [] next = next"
| "only_child n (branch # branches) next =
     (if is_empty_branch n branch then only_child n branches next
      else case get_child n branch of
          None \<Rightarrow> None
        | Some child \<Rightarrow> if next \<noteq> None then None else only_child n branches (Some child))"

fun only_below_loaded_leaf :: "nat \<Rightarrow> addr \<Rightarrow> heap \<Rightarrow> addr option outcome" where
  "only_below_loaded_leaf 0 node h = OutOfFuel"
| "only_below_loaded_leaf (Suc fuel) node h =
     (if is_inner (h ! node)
      then (case only_child (h ! node) [0..<BRANCH_FACTOR] None of
              None \<Rightarrow> Done None
            | Some child \<Rightarrow> only_below_loaded_leaf fuel child h)
      else Done (Some node))"

definition delete_step ::
  "'h sha_ops \<Rightarrow> uint256 \<Rightarrow> addr \<times> shamap_node_id \<Rightarrow> addr option \<times> mutable_tree \<times> heap \<Rightarrow>
   (addr option \<times> mutable_tree \<times> heap) outcome" where
  "delete_step sha target entry st =
     (case entry of (node, node_id) \<Rightarrow> case st of (prev_node, mt, h) \<Rightarrow>
        bind_outcome (unshare_node node node_id mt h) (\<lambda>(n, mt, h).
        let branch = select_branch node_id target
        in bind_outcome (set_child branch prev_node (h ! n)) (\<lambda>nd.
           let h = h[n := nd]
           in if nid_is_root node_id then Done (None, mt\<lparr>mt_root := n\<rparr>, h)
              else if branch_count (h ! n) = 0 then Done (None, mt, h)
              else if branch_count (h ! n) = 1
              then bind_outcome (only_below_loaded_leaf (SHAMAP_LEAF_DEPTH + 2) n h) (\<lambda>sole.
                     case sole of
                       None \<Rightarrow> Done (Some n, mt, h)
                     | Some sole_leaf \<Rightarrow>
                         bind_outcome (expect (select_only_branch (h ! n))) (\<lambda>sole_branch.
                         bind_outcome (expect (peek_item (h ! sole_leaf))) (\<lambda>sole_item.
                         let sole_type = get_type (h ! sole_leaf)
                         in bind_outcome (set_child sole_branch None (h ! n)) (\<lambda>nd.
                            let h = h[n := nd]
                            in bind_outcome (new_leaf sha sole_type sole_item (mt_cowid mt)) (\<lambda>lf.
                               case alloc lf h of (leaf, h) \<Rightarrow> Done (Some leaf, mt, h))))))
              else Done (Some n, mt, h))))"

definition delete_item :: "'h sha_ops \<Rightarrow> uint256 \<Rightarrow> mutable_tree \<Rightarrow> heap \<Rightarrow> mut_result" where
  "delete_item sha target mt h =
     bind_outcome (walk_towards_key_with_path no_fetch False (mt_root mt) target h) (\<lambda>(r, h).
       case r of
         Inl e \<Rightarrow> Done (Inl (MutTraversal e), mt, h)
       | Inr (None, path) \<Rightarrow> Done (Inr False, mt, h)
       | Inr (Some leaf, path) \<Rightarrow>
           (case peek_item (h ! leaf) of
              None \<Rightarrow> Done (Inr False, mt, h)
            | Some existing \<Rightarrow>
                if it_key existing \<noteq> target then Done (Inr False, mt, h)
                else bind_outcome (fold_outcome (delete_step sha target) (rev (butlast path)) (None, mt, h))
                       (\<lambda>(prev_node, mt, h). Done (Inr True, mt, h))))"

section \<open>Snapshots and flushing\<close>

fun clone_loaded_subtree_as_shareable :: "'h sha_ops \<Rightarrow> nat \<Rightarrow> addr \<Rightarrow> nat \<Rightarrow> heap \<Rightarrow> (addr \<times> heap) outcome" where
  "clone_loaded_subtree_as_shareable sha 0 node cowid h = OutOfFuel"
| "clone_loaded_subtree_as_shareable sha (Suc fuel) node cowid h =
     (if n_cowid (h ! node) = 0 then Done (node, h)
      else bind_outcome (clone_with_cowid cowid (h ! node)) (\<lambda>c.
        case alloc c h of (cloned, h) \<Rightarrow>
          bind_outcome
            (if is_inner (h ! cloned)
             then bind_outcome (fold_outcome (\<lambda>branch h.
                    if is_empty_branch (h ! cloned) branch then Done h
                    else case get_child (h ! node) branch of
                        None \<Rightarrow> Done h
                      | Some child \<Rightarrow>
                          bind_outcome (clone_loaded_subtree_as_shareable sha fuel child cowid h) (\<lambda>(cloned_child, h).
                          bind_outcome (set_child branch (Some cloned_child) (h ! cloned)) (\<lambda>nd.
                            Done (h[cloned := nd])))) [0..<BRANCH_FACTOR] h)
                  (\<lambda>h. bind_outcome (update_hash_deep sha (\<lambda>a. n_hash (h ! a)) (h ! cloned)) (\<lambda>nd. Done (h[cloned := nd])))
             else bind_outcome (update_hash sha (h ! cloned)) (\<lambda>nd. Done (h[cloned := nd])))
            (\<lambda>h. Done (cloned, h[cloned := unshare (h ! cloned)]))))"

definition mutable_snapshot :: "'h sha_ops \<Rightarrow> nat \<Rightarrow> mutable_tree \<Rightarrow> heap \<Rightarrow> (mutable_tree \<times> heap) outcome" where
  "mutable_snapshot sha next_cowid mt h =
     (if \<not> mt_cowid mt < next_cowid then Panic
      else bind_outcome (clone_loaded_subtree_as_shareable sha (SHAMAP_LEAF_DEPTH + 2) (mt_root mt) next_cowid h) (\<lambda>(root, h).
        Done (\<lparr>mt_root = root, mt_cowid = next_cowid\<rparr>, h)))"

text \<open>The writer of a flush may replace a node by one it has already, and keeps a state of its own.\<close>

type_synonym 's writer = "addr \<Rightarrow> 's \<Rightarrow> heap \<Rightarrow> (addr \<times> 's \<times> heap) outcome"

definition pre_flush_node :: "addr \<Rightarrow> nat \<Rightarrow> heap \<Rightarrow> (addr \<times> heap) outcome" where
  "pre_flush_node node owner_cowid h =
     (if n_cowid (h ! node) = owner_cowid then Done (node, h)
      else bind_outcome (clone_with_cowid owner_cowid (h ! node)) (\<lambda>n. Done (alloc n h)))"

definition maybe_write_node :: "'s writer option \<Rightarrow> 's writer" where
  "maybe_write_node writer node s h = (case writer of Some write \<Rightarrow> write node s h | None \<Rightarrow> Done (node, s, h))"

definition flush_node ::
  "'h sha_ops \<Rightarrow> 's writer option \<Rightarrow> (heap \<Rightarrow> tree_node \<Rightarrow> tree_node outcome) \<Rightarrow> addr \<Rightarrow> 's \<Rightarrow> heap \<Rightarrow> (addr \<times> 's \<times> heap) outcome" where
  "flush_node sha writer rehash node s h =
     bind_outcome (rehash h (h ! node)) (\<lambda>nd. maybe_write_node writer node s (h[node := unshare nd]))"

partial_function (option) walk_subtree_loop ::
  "'h sha_ops \<Rightarrow> nat \<Rightarrow> 's writer option \<Rightarrow> addr \<Rightarrow> (addr \<times> nat) list \<Rightarrow> nat \<Rightarrow> nat \<Rightarrow> 's \<Rightarrow> heap \<Rightarrow>
   (addr \<times> nat \<times> 's \<times> heap) outcome option" where
  "walk_subtree_loop sha owner writer node stack pos flushed s h =
     (if pos < BRANCH_FACTOR
      then if is_empty_branch (h ! node) pos
           then walk_subtree_loop sha owner writer node stack (pos + 1) flushed s h
           else (case get_child (h ! node) pos of
                   None \<Rightarrow> walk_subtree_loop sha owner writer node stack (pos + 1) flushed s h
                 | Some child \<Rightarrow>
                     if n_cowid (h ! child) = 0
                     then walk_subtree_loop sha owner writer node stack (pos + 1) flushed s h
                     else (case pre_flush_node child owner h of
                             Done (child, h) \<Rightarrow>
                               if is_inner (h ! child)
                               then walk_subtree_loop sha owner writer child ((node, pos) # stack) 0 flushed s h
                               else (case flush_node sha writer (\<lambda>h. update_hash sha) child s h of
                                       Done (child, s, h) \<Rightarrow>
                                         (case share_child pos child (h ! node) of
                                            Done nd \<Rightarrow> walk_subtree_loop sha owner writer node stack (pos + 1) (flushed + 1) s (h[node := nd])
                                          | Panic \<Rightarrow> Some Panic
                                          | OutOfFuel \<Rightarrow> Some OutOfFuel)
                                     | Panic \<Rightarrow> Some Panic
                                     | OutOfFuel \<Rightarrow> Some OutOfFuel)
                           | Panic \<Rightarrow> Some Panic
                           | OutOfFuel \<Rightarrow> Some OutOfFuel))
      else (case flush_node sha writer (\<lambda>h. update_hash_deep sha (\<lambda>a. n_hash (h ! a))) node s h of
              Done (node, s, h) \<Rightarrow>
                (case stack of
                   [] \<Rightarrow> Some (Done (node, flushed + 1, s, h))
                 | (parent, branch) # stack \<Rightarrow>
                     (case share_child branch node (h ! parent) of
                        Done nd \<Rightarrow> walk_subtree_loop sha owner writer parent stack (branch + 1) (flushed + 1) s (h[parent := nd])
                      | Panic \<Rightarrow> Some Panic
                      | OutOfFuel \<Rightarrow> Some OutOfFuel))
            | Panic \<Rightarrow> Some Panic
            | OutOfFuel \<Rightarrow> Some OutOfFuel))"

definition walk_subtree_impl ::
  "'h sha_ops \<Rightarrow> nat \<Rightarrow> 's writer option \<Rightarrow> addr \<Rightarrow> 's \<Rightarrow> heap \<Rightarrow> (addr \<times> nat \<times> 's \<times> heap) outcome option" where
  "walk_subtree_impl sha owner writer root s h =
     (if n_cowid (h ! root) = 0 then Some (Done (root, 0, s, h))
      else if \<not> is_inner (h ! root)
      then Some (bind_outcome (pre_flush_node root owner h) (\<lambda>(root, h).
                 bind_outcome (flush_node sha writer (\<lambda>h. update_hash sha) root s h) (\<lambda>(root, s, h).
                   Done (root, 1, s, h))))
      else if is_empty (h ! root)
      then (case alloc (new_inner 0) h of (root, h) \<Rightarrow> Some (Done (root, 1, s, h)))
      else (case pre_flush_node root owner h of
              Done (node, h) \<Rightarrow> walk_subtree_loop sha owner writer node [] 0 0 s h
            | Panic \<Rightarrow> Some Panic
            | OutOfFuel \<Rightarrow> Some OutOfFuel))"

definition flush_dirty ::
  "'h sha_ops \<Rightarrow> 's writer option \<Rightarrow> mutable_tree \<Rightarrow> 's \<Rightarrow> heap \<Rightarrow> (nat \<times> mutable_tree \<times> 's \<times> heap) outcome option" where
  "flush_dirty sha writer mt s h =
     map_option (\<lambda>r. bind_outcome r (\<lambda>(root, count, s, h). Done (count, mt\<lparr>mt_root := root\<rparr>, s, h)))
       (walk_subtree_impl sha (mt_cowid mt) writer (mt_root mt) s h)"

definition mt_unshare :: "'h sha_ops \<Rightarrow> mutable_tree \<Rightarrow> heap \<Rightarrow> (nat \<times> mutable_tree \<times> heap) outcome option" where
  "mt_unshare sha mt h =
     map_option (\<lambda>r. bind_outcome r (\<lambda>(count, mt, s, h). Done (count, mt, h))) (flush_dirty sha (None :: unit writer option) mt () h)"

end
