(* ===== verification/Shamap_Tree.thy ===== *)
theory Shamap_Tree
  imports Shamap_Mutation
begin

text \<open>
  What a heap of nodes represents. An abstract tree has empty positions, leaves, inner nodes with sixteen branches
  and stubs, branches of which only the hash is known. The relation \<open>rep\<close> says that an address holds an abstract
  tree and which addresses the tree occupies; the nodes with a non-zero owner number occur once, everything below
  a shared node is shared, and the hashes of shared nodes are right.
\<close>

section \<open>Abstract trees\<close>

datatype mtree = MNil | MStub uint256 | MTip shamap_node_type shamap_item | MFork "mtree list"

definition leaf_hash :: "'h sha_ops \<Rightarrow> shamap_node_type \<Rightarrow> shamap_item \<Rightarrow> uint256" where
  "leaf_hash sha ty it = (case compute_leaf_hash sha ty it of Done h \<Rightarrow> h | _ \<Rightarrow> 0)"

fun mhash :: "'h sha_ops \<Rightarrow> mtree \<Rightarrow> uint256" where
  "mhash sha MNil = 0"
| "mhash sha (MStub h) = h"
| "mhash sha (MTip ty it) = leaf_hash sha ty it"
| "mhash sha (MFork ts) = (if \<forall>t \<in> set ts. t = MNil then 0 else inner_hash sha (map (mhash sha) ts))"

definition tip_ok :: "shamap_node_type \<Rightarrow> shamap_item \<Rightarrow> bool" where
  "tip_ok ty it \<longleftrightarrow> ty \<noteq> NT_Inner \<and> 12 \<le> length (it_data it)"

lemma compute_leaf_hash_Done: "ty \<noteq> NT_Inner \<Longrightarrow> compute_leaf_hash sha ty it = Done (leaf_hash sha ty it)"
  by (cases ty) (simp_all add: leaf_hash_def compute_leaf_hash_def)

lemma new_leaf_Done: "tip_ok ty it \<Longrightarrow> new_leaf sha ty it w = Done (LeafNode w (leaf_hash sha ty it) ty it)"
  by (simp add: new_leaf_def new_leaf_with_hash_def tip_ok_def MIN_SHAMAP_ITEM_BYTES_def compute_leaf_hash_Done)

section \<open>Representation\<close>

definition own :: "heap \<Rightarrow> addr set \<Rightarrow> addr set" where
  "own h R = {x \<in> R. n_cowid (h ! x) \<noteq> 0}"

definition branch_rep ::
  "(addr \<Rightarrow> mtree \<Rightarrow> addr set \<Rightarrow> bool) \<Rightarrow> (uint256 \<times> addr option) option \<Rightarrow> mtree \<Rightarrow> addr set \<Rightarrow> bool" where
  "branch_rep P s t R \<longleftrightarrow>
     (case s of
        None \<Rightarrow> t = MNil \<and> R = {}
      | Some (h, None) \<Rightarrow> t = MStub h \<and> R = {}
      | Some (h, Some c) \<Rightarrow> P c t R)"

definition fork_rep ::
  "(addr \<Rightarrow> mtree \<Rightarrow> addr set \<Rightarrow> bool) \<Rightarrow> 'h sha_ops \<Rightarrow> heap \<Rightarrow> nat \<Rightarrow> addr \<Rightarrow> nat \<Rightarrow> uint256 \<Rightarrow> branch_table \<Rightarrow>
   mtree list \<Rightarrow> (nat \<Rightarrow> addr set) \<Rightarrow> bool" where
  "fork_rep P sha h w a cw hs f ts Rs \<longleftrightarrow>
     a < length h \<and> table (h ! a) cw hs f \<and> (cw = 0 \<or> cw = w) \<and> length ts = 16 \<and>
     (\<forall>i<16. branch_rep P (f i) (ts ! i) (Rs i)) \<and>
     (\<forall>i<16. \<forall>j<16. i \<noteq> j \<longrightarrow> own h (Rs i) \<inter> Rs j = {}) \<and>
     (\<forall>i<16. if cw = 0 then own h (Rs i) = {} else a \<notin> Rs i) \<and>
     (cw = 0 \<or> hs \<noteq> 0 \<longrightarrow> hs = mhash sha (MFork ts) \<and> (\<forall>i<16. slot_hash (f i) = mhash sha (ts ! i)))"

lemma branch_rep_mono [mono]: "P \<le> Q \<Longrightarrow> branch_rep P s t R \<longrightarrow> branch_rep Q s t R"
  by (auto simp: branch_rep_def le_fun_def split: option.split)

lemma fork_rep_mono [mono]:
  "P \<le> Q \<Longrightarrow> fork_rep P sha h w a cw hs f ts Rs \<longrightarrow> fork_rep Q sha h w a cw hs f ts Rs"
  unfolding fork_rep_def using branch_rep_mono [of P Q] by blast

inductive rep :: "'h sha_ops \<Rightarrow> heap \<Rightarrow> nat \<Rightarrow> addr \<Rightarrow> mtree \<Rightarrow> addr set \<Rightarrow> bool" for sha h w where
  tip: "a < length h \<Longrightarrow> h ! a = LeafNode cw (leaf_hash sha ty it) ty it \<Longrightarrow> cw = 0 \<or> cw = w \<Longrightarrow> tip_ok ty it \<Longrightarrow>
    rep sha h w a (MTip ty it) {a}"
| fork: "fork_rep (rep sha h w) sha h w a cw hs f ts Rs \<Longrightarrow> rep sha h w a (MFork ts) (insert a (\<Union>i<16. Rs i))"

declare fork_rep_mono [mono del] branch_rep_mono [mono del]

inductive_cases rep_tipE: "rep sha h w a (MTip ty it) R"
inductive_cases rep_forkE: "rep sha h w a (MFork ts) R"
inductive_simps rep_no_nil [simp]: "rep sha h w a MNil R"
inductive_simps rep_no_stub [simp]: "rep sha h w a (MStub s) R"

lemma fork_repD:
  assumes "fork_rep P sha h w a cw hs f ts Rs"
  shows "a < length h" and "table (h ! a) cw hs f" and "cw = 0 \<or> cw = w" and "length ts = 16"
    and "\<And>i. i < 16 \<Longrightarrow> branch_rep P (f i) (ts ! i) (Rs i)"
    and "\<And>i j. i < 16 \<Longrightarrow> j < 16 \<Longrightarrow> i \<noteq> j \<Longrightarrow> own h (Rs i) \<inter> Rs j = {}"
    and "\<And>i. i < 16 \<Longrightarrow> cw = 0 \<Longrightarrow> own h (Rs i) = {}" and "\<And>i. i < 16 \<Longrightarrow> cw \<noteq> 0 \<Longrightarrow> a \<notin> Rs i"
    and "cw = 0 \<or> hs \<noteq> 0 \<Longrightarrow> hs = mhash sha (MFork ts)"
    and "\<And>i. cw = 0 \<or> hs \<noteq> 0 \<Longrightarrow> i < 16 \<Longrightarrow> slot_hash (f i) = mhash sha (ts ! i)"
  using assms unfolding fork_rep_def by (auto split: if_splits)

lemma branch_repE:
  assumes "branch_rep P s t R"
  obtains (nil) "s = None" "t = MNil" "R = {}"
    | (stub) hs where "s = Some (hs, None)" "t = MStub hs" "R = {}"
    | (node) hs c where "s = Some (hs, Some c)" "P c t R"
  using assms by (cases s) (auto simp: branch_rep_def split: option.splits)

lemma own_cong: "(\<And>x. x \<in> R \<Longrightarrow> h' ! x = h ! x) \<Longrightarrow> own h' R = own h R"
  by (auto simp: own_def)

lemma own_simps [simp]: "own h {} = {}" "own h (R \<union> S) = own h R \<union> own h S" "own h (\<Union>i\<in>A. Rs i) = (\<Union>i\<in>A. own h (Rs i))"
  by (auto simp: own_def)

lemma own_insert: "own h (insert a R) = (if n_cowid (h ! a) = 0 then {} else {a}) \<union> own h R"
  by (auto simp: own_def)

lemma own_subset: "own h R \<subseteq> R"
  by (auto simp: own_def)

lemma own_disjoint: "own h R \<inter> own h S = {} \<Longrightarrow> own h R \<inter> S = {}"
  by (auto simp: own_def)

lemma own_mono: "R \<subseteq> S \<Longrightarrow> own h R \<subseteq> own h S"
  by (auto simp: own_def)

lemma rep_addrs:
  assumes "rep sha h w a t R"
  shows "a \<in> R" and "R \<subseteq> {..<length h}" and "x \<in> R \<Longrightarrow> n_cowid (h ! x) = 0 \<or> n_cowid (h ! x) = w"
proof -
  have "a \<in> R \<and> R \<subseteq> {..<length h} \<and> (\<forall>x\<in>R. n_cowid (h ! x) = 0 \<or> n_cowid (h ! x) = w)"
    using assms
  proof (induction rule: rep.induct)
    case (fork a cw hs f ts Rs)
    note d = fork_repD [OF fork]
    have "Rs i \<subseteq> {..<length h} \<and> (\<forall>x\<in>Rs i. n_cowid (h ! x) = 0 \<or> n_cowid (h ! x) = w)" if "i < 16" for i
      using d(5) [OF that] by (rule branch_repE) auto
    then show ?case
      using d(1,3) table_simps(1) [OF d(2)] by auto
  qed auto
  then show "a \<in> R" "R \<subseteq> {..<length h}" "x \<in> R \<Longrightarrow> n_cowid (h ! x) = 0 \<or> n_cowid (h ! x) = w"
    by auto
qed

lemma branch_rep_addrs:
  assumes "branch_rep (rep sha h w) s t R"
  shows "R \<subseteq> {..<length h}"
  using assms by (rule branch_repE) (auto dest: rep_addrs(2))

text \<open>The tree at an address depends only on the nodes it occupies.\<close>

lemma rep_frame:
  assumes "rep sha h w a t R" and "length h \<le> length h'" and "\<And>x. x \<in> R \<Longrightarrow> h' ! x = h ! x"
  shows "rep sha h' w a t R"
  using assms(1,3)
proof (induction rule: rep.induct)
  case (tip a cw ty it)
  then show ?case
    using assms(2) by (auto intro!: rep.tip [where cw = cw])
next
  case (fork a cw hs f ts Rs)
  note d = fork_repD [OF fork.IH]
  have same: "h' ! x = h ! x" if "x \<in> Rs i" "i < 16" for x i
    using fork.prems that by auto
  have br: "branch_rep (rep sha h' w) (f i) (ts ! i) (Rs i)" if "i < 16" for i
    using d(5) [OF that] by (rule branch_repE) (use same that in \<open>auto simp: branch_rep_def\<close>)
  have own: "own h' (Rs i) = own h (Rs i)" if "i < 16" for i
    using same that by (intro own_cong) auto
  have "h' ! a = h ! a"
    using fork.prems by auto
  then have "fork_rep (rep sha h' w) sha h' w a cw hs f ts Rs"
    using fork.IH assms(2) br own unfolding fork_rep_def by auto
  then show ?case
    by (rule rep.fork)
qed

lemma branch_rep_frame:
  assumes "branch_rep (rep sha h w) s t R" and "length h \<le> length h'" and "\<And>x. x \<in> R \<Longrightarrow> h' ! x = h ! x"
  shows "branch_rep (rep sha h' w) s t R"
  using assms(1) by (rule branch_repE) (use assms(2,3) in \<open>auto simp: branch_rep_def intro: rep_frame\<close>)

lemma rep_own_root: "rep sha h w a t R \<Longrightarrow> n_cowid (h ! a) = 0 \<Longrightarrow> own h R = {}"
proof (induction rule: rep.induct)
  case (tip a cw ty it)
  then show ?case by (simp add: own_def)
next
  case (fork a cw hs f ts Rs)
  note d = fork_repD [OF fork.IH]
  have "cw = 0" using fork.prems table_simps(1) [OF d(2)] by simp
  then show ?case
    using d(7) fork.prems by (simp add: own_insert)
qed

text \<open>A tree without nodes of its own can be taken over by any owner.\<close>

lemma rep_reown:
  assumes "rep sha h w a t R" and "own h R = {}"
  shows "rep sha h v a t R"
  using assms
proof (induction rule: rep.induct)
  case (tip a cw ty it)
  then have "cw = 0" by (simp add: own_def)
  with tip show ?case by (auto intro!: rep.tip [where cw = cw])
next
  case (fork a cw hs f ts Rs)
  note d = fork_repD [OF fork.IH]
  have "n_cowid (h ! a) = 0" and own: "own h (Rs i) = {}" if "i < 16" for i
    using fork.prems that by (auto simp: own_insert split: if_splits)
  then have cw: "cw = 0"
    using table_simps(1) [OF d(2)] by (metis zero_less_numeral)
  have "branch_rep (rep sha h v) (f i) (ts ! i) (Rs i)" if "i < 16" for i
    using d(5) [OF that] by (rule branch_repE) (use own that in \<open>auto simp: branch_rep_def\<close>)
  then have "fork_rep (rep sha h v) sha h v a cw hs f ts Rs"
    using fork.IH cw unfolding fork_rep_def by (auto simp del: mhash.simps)
  then show ?case
    by (rule rep.fork)
qed

end
