(* ===== verification/Shamap_Spec.thy ===== *)
theory Shamap_Spec
  imports Shamap_Tree
begin

text \<open>
  The abstract trees as finite maps from keys to items: lookup, insertion and deletion as recursive functions, the
  laws that relate them, and that the shape of a tree is determined by its contents.
\<close>

section \<open>Contents\<close>

fun tips :: "mtree \<Rightarrow> (shamap_node_type \<times> shamap_item) set" where
  "tips MNil = {}"
| "tips (MStub h) = {}"
| "tips (MTip ty it) = {(ty, it)}"
| "tips (MFork ts) = (\<Union>t \<in> set ts. tips t)"

fun no_stub :: "mtree \<Rightarrow> bool" where
  "no_stub (MStub h) \<longleftrightarrow> False"
| "no_stub (MFork ts) \<longleftrightarrow> (\<forall>t \<in> set ts. no_stub t)"
| "no_stub t \<longleftrightarrow> True"

fun m_ok :: "nat \<Rightarrow> mtree \<Rightarrow> bool" where
  "m_ok d (MTip ty it) \<longleftrightarrow> tip_ok ty it"
| "m_ok d (MFork ts) \<longleftrightarrow> d < 64 \<and> length ts = 16 \<and> (\<forall>t \<in> set ts. m_ok (Suc d) t) \<and>
     (\<forall>i<16. \<forall>x \<in> tips (ts ! i). nibble (it_key (snd x)) d = i)"
| "m_ok d t \<longleftrightarrow> True"

lemma size_nth [termination_simp]: "i < length ts \<Longrightarrow> size (ts ! i) < Suc (size_list size ts)"
  by (metis less_Suc_eq_le nth_mem size_list_estimation' order_refl)

fun m_walk :: "nat \<Rightarrow> uint256 \<Rightarrow> mtree \<Rightarrow> nat \<times> mtree" where
  "m_walk d k (MFork ts) =
     (if nibble k d < length ts then (let (n, s) = m_walk (Suc d) k (ts ! nibble k d) in (Suc n, s)) else (0, MNil))"
| "m_walk d k t = (0, t)"

definition m_get :: "nat \<Rightarrow> uint256 \<Rightarrow> mtree \<Rightarrow> (shamap_node_type \<times> shamap_item) option" where
  "m_get d k t = (case snd (m_walk d k t) of MTip ty it \<Rightarrow> if it_key it = k then Some (ty, it) else None | _ \<Rightarrow> None)"

lemma m_okD:
  assumes "m_ok d (MFork ts)"
  shows "d < 64" and "length ts = 16" and "i < 16 \<Longrightarrow> m_ok (Suc d) (ts ! i)"
    and "i < 16 \<Longrightarrow> x \<in> tips (ts ! i) \<Longrightarrow> nibble (it_key (snd x)) d = i"
  using assms by auto

lemma m_walk_fork:
  assumes "length ts = 16"
  shows "m_walk d k (MFork ts) = (Suc (fst (m_walk (Suc d) k (ts ! nibble k d))), snd (m_walk (Suc d) k (ts ! nibble k d)))"
  using assms by (simp add: case_prod_unfold Let_def)

lemma m_get_simps [simp]:
  "m_get d k MNil = None" "m_get d k (MStub h) = None"
  "m_get d k (MTip ty it) = (if it_key it = k then Some (ty, it) else None)"
  by (simp_all add: m_get_def)

lemma m_get_fork: "length ts = 16 \<Longrightarrow> m_get d k (MFork ts) = m_get (Suc d) k (ts ! nibble k d)"
  by (simp add: m_get_def m_walk_fork del: m_walk.simps)

lemma m_get_key: "m_get d k t = Some (ty, it) \<Longrightarrow> it_key it = k"
  by (auto simp: m_get_def split: mtree.splits if_splits)

lemma m_walk_depth:
  "m_ok d t \<Longrightarrow> d \<le> 64 \<Longrightarrow> d + fst (m_walk d k t) \<le> 64"
proof (induction d k t rule: m_walk.induct)
  case (1 d k ts)
  note ok = m_okD [OF 1(2)]
  have "Suc d + fst (m_walk (Suc d) k (ts ! nibble k d)) \<le> 64"
    using 1(1) ok by simp
  then show ?case
    using ok(2) by (simp add: m_walk_fork del: m_walk.simps)
qed simp_all

lemma m_walk_tips:
  "m_ok d t \<Longrightarrow> x \<in> tips (snd (m_walk d k t)) \<Longrightarrow>
     x \<in> tips t \<and> (\<forall>j. d \<le> j \<longrightarrow> j < d + fst (m_walk d k t) \<longrightarrow> nibble (it_key (snd x)) j = nibble k j)"
proof (induction d k t rule: m_walk.induct)
  case (1 d k ts)
  note ok = m_okD [OF 1(2)]
  let ?u = "ts ! nibble k d"
  have u: "?u \<in> set ts" using ok(2) by simp
  have IH: "x \<in> tips ?u \<and> (\<forall>j. Suc d \<le> j \<longrightarrow> j < Suc d + fst (m_walk (Suc d) k ?u) \<longrightarrow> nibble (it_key (snd x)) j = nibble k j)"
    using 1(1,3) ok by (simp add: m_walk_fork del: m_walk.simps)
  then have "nibble (it_key (snd x)) d = nibble k d"
    using ok(4) by simp
  then have "nibble (it_key (snd x)) j = nibble k j" if "d \<le> j" "j < Suc (d + fst (m_walk (Suc d) k ?u))" for j
    using IH that by (cases "j = d") auto
  then show ?case
    using IH u ok(2) by (auto simp: m_walk_fork simp del: m_walk.simps)
qed auto

lemma tips_ok: "m_ok d t \<Longrightarrow> x \<in> tips t \<Longrightarrow> tip_ok (fst x) (snd x)"
  by (induction d t rule: m_ok.induct) auto

text \<open>Looking up finds exactly the leaves.\<close>

lemma m_get_tips: "m_ok d t \<Longrightarrow> m_get d (it_key it) t = Some (ty, it) \<longleftrightarrow> (ty, it) \<in> tips t"
proof (induction t arbitrary: d)
  case (MFork ts)
  note ok = m_okD [OF MFork(2)]
  let ?i = "nibble (it_key it) d"
  have "m_get d (it_key it) (MFork ts) = Some (ty, it) \<longleftrightarrow> (ty, it) \<in> tips (ts ! ?i)"
    using MFork(1) [of "ts ! ?i" "Suc d"] ok by (simp add: m_get_fork)
  also have "\<dots> \<longleftrightarrow> (ty, it) \<in> tips (MFork ts)"
  proof
    assume "(ty, it) \<in> tips (MFork ts)"
    then obtain i where "i < 16" "(ty, it) \<in> tips (ts ! i)"
      using ok(2) by (auto simp: in_set_conv_nth)
    then show "(ty, it) \<in> tips (ts ! ?i)"
      using ok(4) [of i "(ty, it)"] by simp
  qed (use ok(2) in auto)
  finally show ?case .
qed auto

lemma tips_eq_get: "m_ok d t \<Longrightarrow> tips t = {(ty, it). m_get d (it_key it) t = Some (ty, it)}"
  using m_get_tips by auto

lemma finite_tips: "finite (tips t)"
  by (induction t) auto

lemma get_eq_tips:
  assumes "m_ok d s" and "m_ok d t" and "\<And>k. m_get d k s = m_get d k t"
  shows "tips s = tips t"
  using assms by (simp add: tips_eq_get)

section \<open>The shape is determined by the contents\<close>

fun canon :: "nat \<Rightarrow> mtree \<Rightarrow> bool" where
  "canon d (MStub h) \<longleftrightarrow> False"
| "canon d (MFork ts) \<longleftrightarrow> (d = 0 \<or> 2 \<le> card (tips (MFork ts))) \<and> (\<forall>t \<in> set ts. canon (Suc d) t)"
| "canon d t \<longleftrightarrow> 0 < d"

lemma canon_no_stub: "canon d t \<Longrightarrow> no_stub t"
  by (induction d t rule: canon.induct) auto

lemma canon_fork_card: "canon d (MFork ts) \<Longrightarrow> 0 < d \<Longrightarrow> 2 \<le> card (tips (MFork ts))"
  by (simp del: tips.simps)

lemma fork_part:
  assumes "m_ok d (MFork vs)" and "i < 16"
  shows "tips (vs ! i) = {x \<in> tips (MFork vs). nibble (it_key (snd x)) d = i}"
proof (intro set_eqI iffI CollectI conjI)
  note ok = m_okD [OF assms(1)]
  fix x
  show "x \<in> tips (MFork vs)" "nibble (it_key (snd x)) d = i" if "x \<in> tips (vs ! i)"
    using that ok(2,4) assms(2) by auto
  show "x \<in> tips (vs ! i)" if "x \<in> {x \<in> tips (MFork vs). nibble (it_key (snd x)) d = i}"
  proof -
    from that obtain j where "j < 16" "x \<in> tips (vs ! j)" "nibble (it_key (snd x)) d = i"
      using ok(2) by (auto simp: in_set_conv_nth)
    then show ?thesis
      using ok(4) [of j x] by simp
  qed
qed

lemma canon_unique:
  "m_ok d s \<Longrightarrow> m_ok d t \<Longrightarrow> canon d s \<Longrightarrow> canon d t \<Longrightarrow> tips s = tips t \<Longrightarrow> s = t"
proof (induction s arbitrary: d t)
  case MNil
  then have "tips t = {}" "0 < d" by simp_all
  then show ?case
    using MNil.prems(4) by (cases t) (auto simp del: tips.simps(4) canon.simps(2) dest!: canon_fork_card)
next
  case (MStub h)
  then show ?case by simp
next
  case (MTip ty it)
  then have "tips t = {(ty, it)}" "0 < d" by simp_all
  then show ?case
    using MTip.prems(4) by (cases t) (auto simp del: tips.simps(4) canon.simps(2) dest!: canon_fork_card)
next
  case (MFork ts)
  note s = m_okD [OF MFork.prems(1)]
  obtain us where t: "t = MFork us"
    using MFork.prems(3-5) canon_fork_card [of d ts] that by (cases t) (simp_all del: tips.simps(4) canon.simps(2))
  note u = m_okD [OF MFork.prems(2) [unfolded t]]
  have "ts ! i = us ! i" if i: "i < 16" for i
  proof (rule MFork.IH [of "ts ! i" "Suc d"])
    show "tips (ts ! i) = tips (us ! i)"
      unfolding fork_part [OF MFork.prems(1) i] fork_part [OF MFork.prems(2) [unfolded t] i] using MFork.prems(5) t by simp
    show "canon (Suc d) (ts ! i)" "canon (Suc d) (us ! i)"
      using MFork.prems(3,4) i s(2) u(2) unfolding t by simp_all
  qed (use i s u in simp_all)
  then show ?case
    unfolding t using s(2) u(2) by (auto intro: nth_equalityI)
qed


section \<open>Insertion\<close>

function m_split :: "nat \<Rightarrow> shamap_node_type \<Rightarrow> shamap_item \<Rightarrow> shamap_item \<Rightarrow> mtree" where
  "m_split d ty new old =
     (if 64 \<le> d then MNil
      else if nibble (it_key new) d \<noteq> nibble (it_key old) d
      then MFork ((replicate 16 MNil)[nibble (it_key new) d := MTip ty new, nibble (it_key old) d := MTip ty old])
      else MFork ((replicate 16 MNil)[nibble (it_key new) d := m_split (Suc d) ty new old]))"
  by pat_completeness auto

termination m_split
  by (relation "measure (\<lambda>(d, _). 64 - d)") auto

declare m_split.simps [simp del]

fun m_put :: "nat \<Rightarrow> nat \<Rightarrow> uint256 \<Rightarrow> mtree \<Rightarrow> mtree \<Rightarrow> mtree" where
  "m_put d (Suc n) k s (MFork ts) = MFork (ts[nibble k d := m_put (Suc d) n k s (ts ! nibble k d)])"
| "m_put d n k s t = s"

definition m_add :: "shamap_node_type \<Rightarrow> shamap_item \<Rightarrow> mtree \<Rightarrow> mtree" where
  "m_add ty it t =
     (case m_walk 0 (it_key it) t of (n, s) \<Rightarrow>
        m_put 0 n (it_key it) (case s of MTip ty' old \<Rightarrow> m_split n ty it old | _ \<Rightarrow> MTip ty it) t)"

definition m_update :: "shamap_node_type \<Rightarrow> shamap_item \<Rightarrow> mtree \<Rightarrow> mtree" where
  "m_update ty it t = m_put 0 (fst (m_walk 0 (it_key it) t)) (it_key it) (MTip ty it) t"

definition key_after :: "nat \<Rightarrow> uint256 \<Rightarrow> uint256 \<Rightarrow> bool" where
  "key_after d a b \<longleftrightarrow> (\<exists>j. d \<le> j \<and> j < 64 \<and> nibble a j \<noteq> nibble b j)"

lemma key_afterI: "a \<noteq> b \<Longrightarrow> (\<And>j. j < d \<Longrightarrow> nibble a j = nibble b j) \<Longrightarrow> key_after d a b"
  unfolding key_after_def key_eq_iff [of a b] by (meson not_le)

lemma key_after_less: "key_after d a b \<Longrightarrow> d < 64"
  by (auto simp: key_after_def)

lemma key_after_Suc: "key_after d a b \<Longrightarrow> nibble a d = nibble b d \<Longrightarrow> key_after (Suc d) a b"
  unfolding key_after_def by (metis Suc_leI le_neq_implies_less)

lemma set_update: "i < length xs \<Longrightarrow> set (xs[i := x]) = insert x (set (take i xs @ drop (Suc i) xs))"
  by (simp add: upd_conv_take_nth_drop)

lemma tips_fork: "length ts = 16 \<Longrightarrow> tips (MFork ts) = (\<Union>i<16. tips (ts ! i))"
  by (simp add: set_conv_nth) blast

lemma tips_fork_upd:
  assumes "m_ok d (MFork ts)" and "i < 16" and "\<And>x. x \<in> tips u \<Longrightarrow> nibble (it_key (snd x)) d = i"
  shows "tips (MFork (ts[i := u])) = {x \<in> tips (MFork ts). nibble (it_key (snd x)) d \<noteq> i} \<union> tips u"
proof -
  note ok = m_okD [OF assms(1)]
  have "tips (MFork (ts[i := u])) = (\<Union>j<16. tips (ts[i := u] ! j))"
    using ok(2) by (simp only: tips_fork length_list_update)
  also have "\<dots> = (\<Union>j \<in> {..<16} - {i}. tips (ts ! j)) \<union> tips u"
    using assms(2) ok(2) by (auto simp: nth_list_update split: if_splits)
  also have "(\<Union>j \<in> {..<16} - {i}. tips (ts ! j)) = {x \<in> tips (MFork ts). nibble (it_key (snd x)) d \<noteq> i}"
    unfolding tips_fork [OF ok(2)] using ok(4) by auto
  finally show ?thesis .
qed

lemma m_ok_fork_upd:
  assumes "m_ok d (MFork ts)" and "i < 16" and "m_ok (Suc d) u" and "\<And>x. x \<in> tips u \<Longrightarrow> nibble (it_key (snd x)) d = i"
  shows "m_ok d (MFork (ts[i := u]))"
proof -
  note ok = m_okD [OF assms(1)]
  have "m_ok (Suc d) t" if "t \<in> set (ts[i := u])" for t
    using that assms(1,3) set_update_subset_insert [of ts i u] by auto
  moreover have "nibble (it_key (snd x)) d = j" if "j < 16" "x \<in> tips (ts[i := u] ! j)" for x j
    using that assms(2,4) ok(2,4) by (auto simp: nth_list_update split: if_splits)
  ultimately show ?thesis
    using ok by simp
qed

lemma empty_fork_ok: "d < 64 \<Longrightarrow> m_ok d (MFork (replicate 16 MNil))"
  by simp

lemma m_split_ok:
  assumes "key_after d (it_key new) (it_key old)" and "tip_ok ty new" and "tip_ok ty old"
  shows "m_ok d (m_split d ty new old) \<and> tips (m_split d ty new old) = {(ty, new), (ty, old)} \<and>
    (0 < d \<longrightarrow> canon d (m_split d ty new old))"
  using assms
proof (induction d ty new old rule: m_split.induct)
  case (1 d ty new old)
  let ?n = "nibble (it_key new) d" and ?o = "nibble (it_key old) d" and ?e = "replicate 16 MNil"
  have d: "d < 64"
    by (rule key_after_less [OF 1(2)])
  note e = empty_fork_ok [OF d]
  show ?case
  proof (cases "?n = ?o")
    case False
    have m1: "m_ok d (MFork (?e[?n := MTip ty new]))"
      by (rule m_ok_fork_upd [OF e]) (use 1(3) in auto)
    have t1: "tips (MFork (?e[?n := MTip ty new])) = {(ty, new)}"
      by (subst tips_fork_upd [OF e]) auto
    have m2: "m_ok d (MFork (?e[?n := MTip ty new, ?o := MTip ty old]))"
      by (rule m_ok_fork_upd [OF m1]) (use 1(4) in auto)
    have t2: "tips (MFork (?e[?n := MTip ty new, ?o := MTip ty old])) = {(ty, new), (ty, old)}"
      by (subst tips_fork_upd [OF m1]) (use False t1 in auto)
    have "canon (Suc d) t" if "t \<in> set (?e[?n := MTip ty new, ?o := MTip ty old])" for t
      using that by (auto dest!: set_update_subset_insert [THEN subsetD])
    moreover have "new \<noteq> old" using False by auto
    ultimately show ?thesis
      using m2 t2 False d by (simp add: m_split.simps [of d] del: tips.simps m_ok.simps)
  next
    case True
    let ?s = "m_split (Suc d) ty new old"
    have IH: "m_ok (Suc d) ?s" "tips ?s = {(ty, new), (ty, old)}" "canon (Suc d) ?s"
      using 1(1) [OF _ _ key_after_Suc [OF 1(2) True] 1(3,4)] d True by auto
    have m: "m_ok d (MFork (?e[?n := ?s]))"
      by (rule m_ok_fork_upd [OF e]) (use IH True in auto)
    have t: "tips (MFork (?e[?n := ?s])) = {(ty, new), (ty, old)}"
      by (subst tips_fork_upd [OF e]) (use IH True in auto)
    have "canon (Suc d) t" if "t \<in> set (?e[?n := ?s])" for t
      using that IH(3) by (auto dest!: set_update_subset_insert [THEN subsetD])
    moreover have "new \<noteq> old" using 1(2) by (auto simp: key_after_def)
    ultimately show ?thesis
      using m t True d by (simp add: m_split.simps [of d] del: tips.simps m_ok.simps)
  qed
qed


text \<open>Replacing what is at the end of the walk towards a key.\<close>

lemma m_put_ok:
  assumes "m_ok d t" and "m_walk d k t = (n, s)" and "m_ok (d + n) s'"
    and "\<And>x j. x \<in> tips s' \<Longrightarrow> d \<le> j \<Longrightarrow> j < d + n \<Longrightarrow> nibble (it_key (snd x)) j = nibble k j"
  shows "m_ok d (m_put d n k s' t) \<and> tips (m_put d n k s' t) = (tips t - tips s) \<union> tips s' \<and> tips s \<subseteq> tips t"
  using assms
proof (induction d k t arbitrary: n rule: m_walk.induct)
  case (1 d k ts)
  note ok = m_okD [OF 1(2)]
  let ?i = "nibble k d"
  obtain m where m: "n = Suc m" "m_walk (Suc d) k (ts ! ?i) = (m, s)"
    using 1(3) ok(2) by (auto simp: m_walk_fork simp del: m_walk.simps)
  let ?u = "m_put (Suc d) m k s' (ts ! ?i)"
  have IH: "m_ok (Suc d) ?u" "tips ?u = (tips (ts ! ?i) - tips s) \<union> tips s'" "tips s \<subseteq> tips (ts ! ?i)"
    using 1(1) [OF _ _ m(2)] ok 1(4,5) m(1) by auto
  have nib: "nibble (it_key (snd x)) d = ?i" if "x \<in> tips ?u" for x
    using that IH(2) ok(4) [OF nibble_less, of x] 1(5) [of x d] m(1) by auto
  have in_i: "tips (ts ! ?i) = {x \<in> tips (MFork ts). nibble (it_key (snd x)) d = ?i}"
    by (rule fork_part [OF 1(2)]) simp
  have "m_ok d (MFork (ts[?i := ?u]))"
    by (rule m_ok_fork_upd [OF 1(2) _ IH(1)]) (use nib in auto)
  moreover have eq: "tips (MFork (ts[?i := ?u])) = {x \<in> tips (MFork ts). nibble (it_key (snd x)) d \<noteq> ?i} \<union> tips ?u"
    by (rule tips_fork_upd [OF 1(2) nibble_less]) (rule nib)
  have "tips (MFork (ts[?i := ?u])) = (tips (MFork ts) - tips s) \<union> tips s'"
    unfolding eq IH(2) in_i using IH(3) [unfolded in_i] by blast
  ultimately show ?case
    using IH(3) in_i m(1) by auto
qed auto

lemma m_put_canon:
  assumes "m_ok d t" and "m_walk d k t = (n, s)" and "m_ok (d + n) s'" and "canon d t" and "canon (d + n) s'"
    and "\<And>x j. x \<in> tips s' \<Longrightarrow> d \<le> j \<Longrightarrow> j < d + n \<Longrightarrow> nibble (it_key (snd x)) j = nibble k j"
    and "card (tips s) \<le> card (tips s')" and "(tips t - tips s) \<inter> tips s' = {}"
  shows "canon d (m_put d n k s' t)"
  using assms
proof (induction d k t arbitrary: n rule: m_walk.induct)
  case (1 d k ts)
  note ok = m_okD [OF 1(2)]
  let ?i = "nibble k d" and ?t = "MFork ts"
  obtain m where m: "n = Suc m" "m_walk (Suc d) k (ts ! ?i) = (m, s)"
    using 1(3) ok(2) by (auto simp: m_walk_fork simp del: m_walk.simps)
  let ?u = "m_put (Suc d) m k s' (ts ! ?i)"
  have in_t: "ts ! ?i \<in> set ts" using ok(2) by simp
  then have sub: "tips (ts ! ?i) - tips s \<subseteq> tips ?t - tips s" by auto
  have "canon (Suc d) ?u"
    by (rule 1(1) [OF _ _ m(2)]) (use ok in_t 1(4-9) m(1) sub in \<open>auto simp del: tips.simps(4)\<close>)
  then have c: "canon (Suc d) t" if "t \<in> set (ts[?i := ?u])" for t
    using that 1(5) by (auto dest!: set_update_subset_insert [THEN subsetD])
  note p = m_put_ok [OF 1(2,3,4) 1(7)]
  have "card (tips ?t) \<le> card (tips (m_put d n k s' ?t))"
  proof -
    have "card (tips ?t) = card (tips ?t - tips s) + card (tips s)"
      using p finite_tips by (metis (no_types, lifting) card_Diff_subset card_mono finite_subset le_add_diff_inverse2)
    also have "\<dots> \<le> card (tips ?t - tips s) + card (tips s')"
      using 1(8) by simp
    also have "\<dots> = card (tips (m_put d n k s' ?t))"
      using p 1(9) by (simp add: card_Un_disjoint finite_tips del: tips.simps m_put.simps)
    finally show ?thesis .
  qed
  then have "d = 0 \<or> 2 \<le> card (tips (MFork (ts[?i := ?u])))"
    using 1(5) m(1) by (auto simp del: tips.simps)
  with c show ?case
    by (simp add: m(1) del: tips.simps)
qed auto


lemma m_get_iff: "m_ok d t \<Longrightarrow> m_get d k t = Some x \<longleftrightarrow> x \<in> tips t \<and> it_key (snd x) = k"
  using m_get_tips [of d t "snd x" "fst x"] m_get_key [of d k t "fst x" "snd x"] by auto

lemma m_get_eqI:
  assumes "m_ok d s" and "\<And>x. it_key (snd x) = k \<Longrightarrow> x \<in> tips s \<longleftrightarrow> r = Some x" and "\<And>x. r = Some x \<Longrightarrow> it_key (snd x) = k"
  shows "m_get d k s = r"
  using assms(2,3) m_get_iff [OF assms(1), of k] by (metis option.exhaust)

lemma m_walk_get:
  assumes "m_ok d t" and "m_walk d k t = (n, s)"
  shows "s = MTip ty it \<Longrightarrow> it_key it = k \<Longrightarrow> m_get d k t = Some (ty, it)"
    and "s = MNil \<Longrightarrow> m_get d k t = None" and "s = MTip ty it \<Longrightarrow> it_key it \<noteq> k \<Longrightarrow> m_get d k t = None"
    and "\<not> (\<exists>ts. s = MFork ts)"
proof -
  have "\<not> (\<exists>ts. snd (m_walk d k t) = MFork ts)"
    by (induction d k t rule: m_walk.induct) (auto simp: Let_def case_prod_unfold)
  then show "\<not> (\<exists>ts. s = MFork ts)"
    using assms(2) by simp
qed (use assms(2) in \<open>auto simp: m_get_def\<close>)

lemma fork_walk_pos: "m_ok d (MFork ts) \<Longrightarrow> m_walk d k (MFork ts) = (n, s) \<Longrightarrow> 0 < n"
  using m_okD(2) [of d ts] by (auto simp: m_walk_fork simp del: m_walk.simps)

lemma m_add_ok:
  assumes t: "m_ok 0 (MFork ts)" and w: "m_walk 0 (it_key it) (MFork ts) = (n, s)" and it: "tip_ok ty it"
    and s: "s = MNil \<or> (\<exists>old. s = MTip ty old \<and> it_key old \<noteq> it_key it)"
  shows "m_ok 0 (m_add ty it (MFork ts))"
    and "tips (m_add ty it (MFork ts)) = insert (ty, it) (tips (MFork ts))"
    and "canon 0 (MFork ts) \<Longrightarrow> canon 0 (m_add ty it (MFork ts))"
proof -
  let ?k = "it_key it" and ?t = "MFork ts"
  let ?s = "case s of MTip ty' old \<Rightarrow> m_split n ty it old | _ \<Rightarrow> MTip ty it"
  have n: "0 < n" by (rule fork_walk_pos [OF t w])
  have pre: "nibble (it_key (snd x)) j = nibble ?k j" if "x \<in> tips s" "j < n" for x j
    using m_walk_tips [OF t, of x ?k] w that by simp
  have s': "m_ok n ?s" "tips ?s = insert (ty, it) (tips s)" "canon n ?s"
  proof -
    have "m_ok n ?s \<and> tips ?s = insert (ty, it) (tips s) \<and> canon n ?s"
      using s
    proof
      assume "\<exists>old. s = MTip ty old \<and> it_key old \<noteq> ?k"
      then obtain old where old: "s = MTip ty old" "it_key old \<noteq> ?k" by blast
      have "(ty, old) \<in> tips ?t"
        using m_walk_tips [OF t, of "(ty, old)" ?k] w old(1) by simp
      then have "tip_ok ty old"
        using tips_ok [OF t] by fastforce
      moreover have "key_after n ?k (it_key old)"
        by (rule key_afterI) (use old pre in auto)
      ultimately show ?thesis
        using m_split_ok [of n it old ty] it old(1) n by auto
    qed (use it n in auto)
    then show "m_ok n ?s" "tips ?s = insert (ty, it) (tips s)" "canon n ?s" by simp_all
  qed
  have nib: "nibble (it_key (snd x)) j = nibble ?k j" if "x \<in> tips ?s" "j < n" for x j
    using that pre unfolding s'(2) by (cases x) auto
  have new: "(ty, it) \<notin> tips ?t"
    using m_walk_get [OF t w] s m_get_iff [OF t, of ?k "(ty, it)"] by auto
  note p = m_put_ok [OF t w, of ?s]
  have eq: "m_add ty it ?t = m_put 0 n ?k ?s ?t"
    by (simp only: m_add_def w prod.case)
  have put: "m_ok 0 (m_put 0 n ?k ?s ?t)" "tips (m_put 0 n ?k ?s ?t) = (tips ?t - tips s) \<union> tips ?s" "tips s \<subseteq> tips ?t"
    using p s'(1) nib by (simp_all del: m_put.simps tips.simps)
  show "m_ok 0 (m_add ty it ?t)"
    unfolding eq by (rule put)
  show "tips (m_add ty it ?t) = insert (ty, it) (tips ?t)"
    unfolding eq put(2) s'(2) using put(3) by blast
  show "canon 0 (m_add ty it ?t)" if "canon 0 ?t"
    unfolding eq
  proof (rule m_put_canon [OF t w _ that])
    show "card (tips s) \<le> card (tips ?s)"
      unfolding s'(2) by (rule card_mono) (auto simp: finite_tips)
    show "(tips ?t - tips s) \<inter> tips ?s = {}"
      unfolding s'(2) using new by blast
  qed (use s' nib in auto)
qed

lemma m_add_get:
  assumes "m_ok 0 (MFork ts)" and "m_walk 0 (it_key it) (MFork ts) = (n, s)" and "tip_ok ty it"
    and "s = MNil \<or> (\<exists>old. s = MTip ty old \<and> it_key old \<noteq> it_key it)"
  shows "m_get 0 k (m_add ty it (MFork ts)) = (if k = it_key it then Some (ty, it) else m_get 0 k (MFork ts))"
proof -
  note a = m_add_ok [OF assms]
  have "m_get 0 (it_key it) (MFork ts) = None"
    using m_walk_get [OF assms(1,2)] assms(4) by auto
  then have new: "x \<notin> tips (MFork ts)" if "it_key (snd x) = it_key it" for x
    using m_get_iff [OF assms(1), of "it_key it" x] that by simp
  show ?thesis
    by (rule m_get_eqI [OF a(1)])
      (use new in \<open>auto simp: a(2) m_get_iff [OF assms(1)] simp del: tips.simps split: if_splits\<close>)
qed

lemma m_update_ok:
  assumes t: "m_ok 0 (MFork ts)" and w: "m_walk 0 (it_key it) (MFork ts) = (n, MTip ty old)" and it: "tip_ok ty it"
    and old: "it_key old = it_key it"
  shows "m_ok 0 (m_update ty it (MFork ts))"
    and "tips (m_update ty it (MFork ts)) = insert (ty, it) (tips (MFork ts) - {(ty, old)})"
    and "canon 0 (MFork ts) \<Longrightarrow> canon 0 (m_update ty it (MFork ts))"
    and "m_get 0 k (m_update ty it (MFork ts)) = (if k = it_key it then Some (ty, it) else m_get 0 k (MFork ts))"
proof -
  let ?k = "it_key it" and ?t = "MFork ts"
  have n: "0 < n" by (rule fork_walk_pos [OF t w])
  have eq: "m_update ty it ?t = m_put 0 n ?k (MTip ty it) ?t"
    by (simp only: m_update_def w prod.sel)
  have put: "m_ok 0 (m_put 0 n ?k (MTip ty it) ?t)" "tips (m_put 0 n ?k (MTip ty it) ?t) = (tips ?t - {(ty, old)}) \<union> {(ty, it)}"
    using m_put_ok [OF t w, of "MTip ty it"] it by (simp_all del: m_put.simps tips.simps(4))
  show ok: "m_ok 0 (m_update ty it ?t)"
    unfolding eq by (rule put)
  show tips: "tips (m_update ty it ?t) = insert (ty, it) (tips ?t - {(ty, old)})"
    unfolding eq put(2) by blast
  have get: "m_get 0 ?k ?t = Some (ty, old)"
    using m_walk_get(1) [OF t w refl] old by simp
  have only: "x = (ty, old)" if "x \<in> tips ?t" "it_key (snd x) = ?k" for x
    using m_get_iff [OF t, of ?k x] that get by simp
  show "canon 0 (m_update ty it ?t)" if "canon 0 ?t"
    unfolding eq
  proof (rule m_put_canon [OF t w _ that])
    show "(tips ?t - tips (MTip ty old)) \<inter> tips (MTip ty it) = {}"
      using only [of "(ty, it)"] by auto
  qed (use it n in auto)
  show "m_get 0 k (m_update ty it ?t) = (if k = ?k then Some (ty, it) else m_get 0 k ?t)"
  proof (rule m_get_eqI [OF ok])
    fix x :: "shamap_node_type \<times> shamap_item" assume x: "it_key (snd x) = k"
    show "x \<in> tips (m_update ty it ?t) \<longleftrightarrow> (if k = ?k then Some (ty, it) else m_get 0 k ?t) = Some x"
    proof (cases "k = ?k")
      case True
      then show ?thesis
        unfolding tips using only [of x] x by auto
    next
      case False
      then show ?thesis
        unfolding tips using m_get_iff [OF t, of k x] x old by auto
    qed
  qed (use m_get_iff [OF t, of k] in \<open>auto split: if_splits\<close>)
qed

section \<open>Deletion\<close>

lemma filter_two_nth:
  assumes "filter P xs = u # v # vs"
  shows "\<exists>i j. i < length xs \<and> j < length xs \<and> i \<noteq> j \<and> xs ! i = u \<and> xs ! j = v"
proof -
  obtain as bs where a: "xs = as @ u # bs" "filter P bs = v # vs"
    using assms unfolding filter_eq_Cons_iff [of P xs] by metis
  then obtain cs ds where b: "bs = cs @ v # ds"
    unfolding filter_eq_Cons_iff by blast
  show ?thesis
    by (rule exI [of _ "length as"], rule exI [of _ "length as + Suc (length cs)"]) (simp add: a b nth_append)
qed

text \<open>
  Deleting replaces the leaf by nothing and then, on the way up and below the root, drops a fork that is left empty
  and replaces one above a single leaf by that leaf.
\<close>

definition live :: "mtree list \<Rightarrow> mtree list" where
  "live ts = filter (\<lambda>t. t \<noteq> MNil) ts"

lemma live_size [termination_simp]: "live ts = [u] \<Longrightarrow> size u < Suc (size_list size ts)"
proof -
  assume "live ts = [u]"
  then have "u \<in> set ts"
    unfolding live_def by (metis filter_is_subset list.set_intros(1) subsetD)
  then show ?thesis
    by (simp add: less_Suc_eq_le size_list_estimation')
qed

fun sole :: "mtree \<Rightarrow> (shamap_node_type \<times> shamap_item) option" where
  "sole (MTip ty it) = Some (ty, it)"
| "sole (MFork ts) = (case live ts of [u] \<Rightarrow> sole u | _ \<Rightarrow> None)"
| "sole t = None"

definition shrink :: "mtree list \<Rightarrow> mtree" where
  "shrink ts =
     (if live ts = [] then MNil else case sole (MFork ts) of Some (ty, it) \<Rightarrow> MTip ty it | None \<Rightarrow> MFork ts)"

fun m_del :: "nat \<Rightarrow> uint256 \<Rightarrow> mtree \<Rightarrow> mtree" where
  "m_del d k (MFork ts) =
     (if nibble k d < length ts
      then (let ts' = ts[nibble k d := m_del (Suc d) k (ts ! nibble k d)] in if d = 0 then MFork ts' else shrink ts')
      else MFork ts)"
| "m_del d k t = MNil"

lemma tips_live: "tips (MFork ts) = (\<Union>t \<in> set (live ts). tips t)"
  by (auto simp: live_def)

lemma sole_tips: "sole t = Some x \<Longrightarrow> tips t = {x}"
proof (induction t rule: sole.induct)
  case (2 ts)
  then obtain u where "live ts = [u]" "sole u = Some x"
    by (auto split: list.splits)
  then show ?case
    using 2(1) by (simp add: tips_live del: tips.simps)
qed auto

lemma tips_shrink: "tips (shrink ts) = tips (MFork ts)"
proof -
  have "live ts = [] \<Longrightarrow> tips (MFork ts) = {}"
    by (simp add: tips_live del: tips.simps)
  then show ?thesis
    using sole_tips [of "MFork ts"] by (auto simp: shrink_def simp del: tips.simps(4) sole.simps split: option.splits)
qed

lemma m_ok_shrink:
  assumes "m_ok d (MFork ts)"
  shows "m_ok d (shrink ts)"
  using assms sole_tips [of "MFork ts"] tips_ok [OF assms]
  by (force simp: shrink_def simp del: tips.simps(4) sole.simps m_ok.simps(2) split: option.splits)

lemma canon_tips: "canon d t \<Longrightarrow> 0 < d \<Longrightarrow> t \<noteq> MNil \<Longrightarrow> tips t \<noteq> {}"
  by (cases t) (auto simp del: tips.simps(4) canon.simps(2) dest!: canon_fork_card)

lemma canon_sole: "canon d t \<Longrightarrow> 0 < d \<Longrightarrow> card (tips t) \<le> 1 \<Longrightarrow> t \<noteq> MNil \<Longrightarrow> sole t \<noteq> None"
  by (cases t) (auto simp del: tips.simps(4) canon.simps(2) dest!: canon_fork_card)

lemma canon_shrink:
  assumes t: "m_ok d (MFork ts)" and d: "0 < d" and c: "\<And>t. t \<in> set ts \<Longrightarrow> canon (Suc d) t"
  shows "canon d (shrink ts)"
proof -
  have "2 \<le> card (tips (MFork ts))" if live: "live ts \<noteq> []" and sole: "sole (MFork ts) = None"
  proof (rule ccontr)
    assume small: "\<not> 2 \<le> card (tips (MFork ts))"
    have in_ts: "u \<in> set ts \<and> u \<noteq> MNil" if "u \<in> set (live ts)" for u
      using that by (simp add: live_def)
    obtain u us where us: "live ts = u # us" using live by (cases "live ts") auto
    have u: "u \<in> set ts" "u \<noteq> MNil" "canon (Suc d) u"
      using in_ts [of u] us c by auto
    then obtain x where x: "x \<in> tips u" using canon_tips [OF u(3)] by auto
    have sub: "tips v \<subseteq> tips (MFork ts)" if "v \<in> set ts" for v
      using that by auto
    have one: "y = x" if "y \<in> tips (MFork ts)" for y
      using small that sub [OF u(1)] x card_le_Suc0_iff_eq [OF finite_tips, of "MFork ts"] by (auto simp del: tips.simps)
    have "us = []"
    proof (rule ccontr)
      assume "us \<noteq> []"
      then obtain v vs where v: "live ts = u # v # vs" using us by (cases us) auto
      then have "v \<in> set ts" "v \<noteq> MNil" using in_ts [of v] by auto
      then obtain y where "y \<in> tips v" using canon_tips [OF c] d by fastforce
      then have "x \<in> tips v" using one [of y] sub [OF \<open>v \<in> set ts\<close>] by auto
      moreover obtain i j where "i < 16" "j < 16" "i \<noteq> j" "ts ! i = u" "ts ! j = v"
        using filter_two_nth [of "\<lambda>t. t \<noteq> MNil" ts u v vs] v m_okD(2) [OF t] unfolding live_def by auto
      ultimately show False
        using m_okD(4) [OF t, of i x] m_okD(4) [OF t, of j x] x by auto
    qed
    moreover have "card (tips u) \<le> 1"
      using one sub [OF u(1)] by (intro card_le_Suc0_iff_eq [OF finite_tips, THEN iffD2, folded One_nat_def]) blast
    ultimately show False
      using sole us canon_sole [OF u(3)] u(2) by simp
  qed
  then show ?thesis
    using d c by (auto simp: shrink_def simp del: tips.simps sole.simps split: option.splits)
qed

lemma m_del_ok:
  assumes "m_ok d t" and "snd (m_walk d k t) = MTip ty old" and "it_key old = k"
  shows "m_ok d (m_del d k t) \<and> tips (m_del d k t) = tips t - {(ty, old)} \<and>
    (canon d t \<longrightarrow> canon d (m_del d k t))"
  using assms
proof (induction d k t rule: m_walk.induct)
  case (1 d k ts)
  note ok = m_okD [OF 1(2)]
  let ?i = "nibble k d" let ?u = "ts ! ?i" let ?ts = "ts[?i := m_del (Suc d) k ?u]"
  have IH: "m_ok (Suc d) (m_del (Suc d) k ?u)" "tips (m_del (Suc d) k ?u) = tips ?u - {(ty, old)}"
    "canon (Suc d) ?u \<Longrightarrow> canon (Suc d) (m_del (Suc d) k ?u)"
    using 1(1) ok 1(3,4) by (simp_all add: m_walk_fork del: m_walk.simps)
  have nib: "nibble (it_key (snd x)) d = ?i" if "x \<in> tips (m_del (Suc d) k ?u)" for x
    using that ok(4) [of ?i x] unfolding IH(2) by simp
  have m: "m_ok d (MFork ?ts)"
    by (rule m_ok_fork_upd [OF 1(2) _ IH(1)]) (use nib in auto)
  have "tips (MFork ?ts) = {x \<in> tips (MFork ts). nibble (it_key (snd x)) d \<noteq> ?i} \<union> tips (m_del (Suc d) k ?u)"
    by (rule tips_fork_upd [OF 1(2)]) (use nib in auto)
  then have t: "tips (MFork ?ts) = tips (MFork ts) - {(ty, old)}"
    unfolding IH(2) fork_part [OF 1(2) nibble_less] using 1(4) by (auto simp del: tips.simps)
  have c: "canon (Suc d) v" if "canon d (MFork ts)" "v \<in> set ?ts" for v
    using that IH(3) ok(2) set_update_subset_insert [of ts ?i "m_del (Suc d) k ?u"] by auto
  have eq: "m_del d k (MFork ts) = (if d = 0 then MFork ?ts else shrink ?ts)"
    using ok(2) by (simp add: Let_def)
  show ?case
    unfolding eq using m t m_ok_shrink [OF m] tips_shrink [of ?ts] canon_shrink [OF m] c
    by (auto simp del: tips.simps m_ok.simps)
qed auto

lemma m_del_get:
  assumes t: "m_ok 0 (MFork ts)" and w: "snd (m_walk 0 k (MFork ts)) = MTip ty old" and old: "it_key old = k"
  shows "m_get 0 k' (m_del 0 k (MFork ts)) = (if k' = k then None else m_get 0 k' (MFork ts))"
proof (rule m_get_eqI)
  note d = m_del_ok [OF assms]
  show "m_ok 0 (m_del 0 k (MFork ts))" using d by blast
  fix x :: "shamap_node_type \<times> shamap_item"
  have only: "x = (ty, old)" if "x \<in> tips (MFork ts)" "it_key (snd x) = k"
    using m_get_iff [OF t, of k x] w old that by (simp add: m_get_def)
  show "x \<in> tips (m_del 0 k (MFork ts)) \<longleftrightarrow> (if k' = k then None else m_get 0 k' (MFork ts)) = Some x"
    if "it_key (snd x) = k'"
  proof -
    have "x \<in> tips (m_del 0 k (MFork ts)) \<longleftrightarrow> x \<in> tips (MFork ts) \<and> x \<noteq> (ty, old)"
      using d by (simp del: tips.simps m_del.simps)
    then show ?thesis
      using only m_get_iff [OF t, of k' x] that old by auto
  qed
  show "it_key (snd x) = k'" if "(if k' = k then None else m_get 0 k' (MFork ts)) = Some x"
    using that m_get_iff [OF t, of k' x] by (simp split: if_splits)
qed

end
