(* ===== verification/Shamap_Update.thy ===== *)
theory Shamap_Update
  imports Shamap_Spec
begin

text \<open>
  Replacing a subtree of a tree in the heap: the nodes on the way down are the tree's own, and changed in place, or
  shared, and copied. Nothing else in the heap changes, so every other tree keeps what it represents.
\<close>

section \<open>One inner node\<close>

definition rest :: "nat \<Rightarrow> (nat \<Rightarrow> addr set) \<Rightarrow> addr set" where
  "rest i Rs = (\<Union>j \<in> {..<16} - {i}. Rs j)"

lemma rest_in: "j < 16 \<Longrightarrow> j \<noteq> i \<Longrightarrow> Rs j \<subseteq> rest i Rs"
  by (auto simp: rest_def)

lemma Union_rest: "i < 16 \<Longrightarrow> (\<Union>j<16. Rs j) = Rs i \<union> rest i Rs"
  by (auto simp: rest_def)

lemma Union_upd: "i < 16 \<Longrightarrow> (\<Union>j<16. (Rs(i := S)) j) = S \<union> rest i Rs"
  by (auto simp: rest_def)

lemma rest_addrs:
  assumes "fork_rep (rep sha h w) sha h w a cw hs f ts Rs"
  shows "rest i Rs \<subseteq> {..<length h}"
  using branch_rep_addrs [OF fork_repD(5) [OF assms]] by (auto simp: rest_def)

lemma unshare_node_owned: "n_cowid (h ! a) = mt_cowid mt \<Longrightarrow> unshare_node a nid mt h = Done (a, mt, h)"
  by (simp add: unshare_node_def)

lemma unshare_node_fork:
  assumes "fork_rep P sha h w a cw hs f ts Rs" and "length h \<le> length h1" and "h1 ! a = h ! a" and "mt_cowid mt = w"
  obtains a' mt' h2 where "unshare_node a nid mt h1 = Done (a', mt', h2)" and "mt_cowid mt' = w"
    and "a' < length h2" and "table (h2 ! a') w hs f" and "length h1 \<le> length h2"
    and "\<And>x. x < length h1 \<Longrightarrow> h2 ! x = h1 ! x"
    and "if cw = w then a' = a else a' = length h1"
proof (cases "cw = w")
  case True
  note d = fork_repD [OF assms(1)]
  have "unshare_node a nid mt h1 = Done (a, mt, h1)"
    using True assms(3,4) table_simps(1) [OF d(2)] by (simp add: unshare_node_owned)
  then show thesis
    by (rule that) (use True assms d in auto)
next
  case False
  note d = fork_repD [OF assms(1)]
  obtain n where n: "clone_with_cowid w (h ! a) = Done n" "table n w hs f"
    by (rule clone_table [OF d(2)])
  have "unshare_node a nid mt h1 =
      Done (length h1, if nid_is_root nid then mt\<lparr>mt_root := length h1\<rparr> else mt, h1 @ [n])"
    using False d(3) assms(3,4) n(1) table_simps(1) [OF d(2)] by (auto simp: unshare_node_def alloc_def)
  then show thesis
    by (rule that) (use False assms(4) n(2) in \<open>auto simp: nth_append\<close>)
qed

lemma fork_rep_upd:
  assumes fork: "fork_rep (rep sha h w) sha h w a cw hs f ts Rs" and w: "w \<noteq> 0" and i: "i < 16"
    and len: "length h \<le> length h2" "a' < length h2"
    and same: "\<And>x. x \<in> rest i Rs \<Longrightarrow> h2 ! x = h ! x"
    and tab: "table (h2 ! a') w 0 (f(i := s))" and br: "branch_rep (rep sha h2 w) s t S"
    and sep: "own h2 S \<inter> rest i Rs = {}" and a': "a' \<notin> rest i Rs" "a' \<notin> S"
  shows "fork_rep (rep sha h2 w) sha h2 w a' w 0 (f(i := s)) (ts[i := t]) (Rs(i := S))"
proof -
  note d = fork_repD [OF fork]
  have own: "own h2 (Rs j) = own h (Rs j)" if "j < 16" "j \<noteq> i" for j
    using same rest_in [OF that, of Rs] by (intro own_cong) auto
  have brs: "branch_rep (rep sha h2 w) ((f(i := s)) j) (ts[i := t] ! j) ((Rs(i := S)) j)" if "j < 16" for j
  proof (cases "j = i")
    case False
    with d(5) [OF that] same rest_in [OF that False, of Rs] show ?thesis
      by (auto intro!: branch_rep_frame [OF _ len(1)])
  qed (use br i d(4) in simp)
  have sep1: "own h2 S \<inter> Rs j = {}" if "j < 16" "j \<noteq> i" for j
    using sep rest_in [OF that, of Rs] by auto
  have sep2: "own h2 (Rs j) \<inter> S = {}" if "j < 16" "j \<noteq> i" for j
    by (rule own_disjoint) (use sep1 [OF that] own_subset [of h2 "Rs j"] in blast)
  have "own h2 ((Rs(i := S)) j) \<inter> (Rs(i := S)) l = {}" if "j < 16" "l < 16" "j \<noteq> l" for j l
    using d(6) [OF that] own [OF that(1)] sep1 [OF that(2)] sep2 [OF that(1)] that by (cases "j = i"; cases "l = i") simp_all
  moreover have "a' \<notin> (Rs(i := S)) j" if "j < 16" for j
    using a' rest_in [OF that, of i Rs] by auto
  ultimately show ?thesis
    using w len(2) tab d(4) brs unfolding fork_rep_def by auto
qed

text \<open>
  Setting a branch of an inner node, after the node has become the tree's own. The heap may have changed in the
  meantime, but not at the node or below its other branches.
\<close>

lemma graft:
  assumes fork: "fork_rep (rep sha h w) sha h w a cw hs f ts Rs" and w: "w \<noteq> 0" and i: "i < 16"
    and len: "length h \<le> length h1" and same: "\<And>x. x \<in> insert a (rest i Rs) \<Longrightarrow> h1 ! x = h ! x"
    and mt: "mt_cowid mt = w"
    and br: "branch_rep (rep sha h1 w) (map_option (\<lambda>c. (0, Some c)) child) t S"
    and sep: "own h1 S \<inter> insert a (rest i Rs) = {}"
  obtains a' mt' h2 nd where "unshare_node a nid mt h1 = Done (a', mt', h2)"
    and "set_child i child (h2 ! a') = Done nd" and "mt_cowid mt' = w" and "a' < length h2"
    and "length h1 \<le> length h2"
    and "table nd w 0 (f(i := map_option (\<lambda>c. (0, Some c)) child))"
    and "fork_rep (rep sha (h2[a' := nd]) w) sha (h2[a' := nd]) w a' w 0 (f(i := map_option (\<lambda>c. (0, Some c)) child))
           (ts[i := t]) (Rs(i := S))"
    and "\<And>x. x < length h1 \<Longrightarrow> x \<noteq> a' \<Longrightarrow> h2[a' := nd] ! x = h1 ! x"
    and "if cw = w then a' = a else a' = length h1"
proof -
  note d = fork_repD [OF fork]
  obtain a' mt' h2 where u: "unshare_node a nid mt h1 = Done (a', mt', h2)" "mt_cowid mt' = w" "a' < length h2"
    "table (h2 ! a') w hs f" "length h1 \<le> length h2" "\<And>x. x < length h1 \<Longrightarrow> h2 ! x = h1 ! x"
    "if cw = w then a' = a else a' = length h1"
    by (rule unshare_node_fork [OF fork len _ mt]) (use same in auto)
  let ?s = "map_option (\<lambda>c. (0, Some c)) child :: (uint256 \<times> addr option) option"
  obtain nd where nd: "set_child i child (h2 ! a') = Done nd" "table nd w 0 (f(i := ?s))"
  proof (cases child)
    case None
    then show thesis
      using set_child_None [OF u(4) w i] that by auto
  next
    case (Some c)
    then show thesis
      using set_child_Some [OF u(4) w i, of c] that by auto
  qed
  let ?h = "h2[a' := nd]"
  have R: "rest i Rs \<subseteq> {..<length h}" "S \<subseteq> {..<length h1}"
    using branch_rep_addrs [OF d(5)] branch_rep_addrs [OF br] by (auto simp: rest_def)
  have out: "a' \<notin> rest i Rs" "a' \<notin> S"
  proof -
    show "a' \<notin> rest i Rs"
      using u(7) d(3,8) w R(1) len by (auto simp: rest_def split: if_splits)
    have "n_cowid (h1 ! a) = cw"
      using same table_simps(1) [OF d(2)] by simp
    then show "a' \<notin> S"
      using u(7) sep w R(2) by (auto simp: own_def split: if_splits)
  qed
  have keep: "?h ! x = h1 ! x" if "x < length h1" "x \<noteq> a'" for x
    using u(6) that by simp
  have br': "branch_rep (rep sha ?h w) ?s t S"
    by (rule branch_rep_frame [OF br], use u(5) in simp, rule keep) (use R(2) out(2) in auto)
  have "own ?h S = own h1 S"
    by (rule own_cong, rule keep) (use R(2) out(2) in auto)
  with sep have sep': "own ?h S \<inter> rest i Rs = {}"
    by auto
  have same': "?h ! x = h ! x" if "x \<in> rest i Rs" for x
    using keep [of x] that R(1) len out(1) same [of x] by (metis insertI2 lessThan_iff less_le_trans subsetD)
  have "fork_rep (rep sha ?h w) sha ?h w a' w 0 (f(i := ?s)) (ts[i := t]) (Rs(i := S))"
    by (rule fork_rep_upd [OF fork w i _ _ same' _ br' sep' out]) (use len u(3,5) nd(2) in simp_all)
  from that [OF u(1) nd(1) u(2,3,5) nd(2) this keep u(7)] show thesis .
qed


section \<open>Paths\<close>

inductive spine ::
  "'h sha_ops \<Rightarrow> heap \<Rightarrow> nat \<Rightarrow> uint256 \<Rightarrow> nat \<Rightarrow> addr \<Rightarrow> mtree \<Rightarrow> addr set \<Rightarrow> node_path \<Rightarrow>
   (uint256 \<times> addr option) option \<Rightarrow> mtree \<Rightarrow> addr set \<Rightarrow> bool"
  for sha h w k where
  last: "fork_rep (rep sha h w) sha h w a cw hs f ts Rs \<Longrightarrow>
    spine sha h w k d a (MFork ts) (insert a (\<Union>i<16. Rs i)) [(a, nid_at k d)] (f (nibble k d)) (ts ! nibble k d) (Rs (nibble k d))"
| step: "fork_rep (rep sha h w) sha h w a cw hs f ts Rs \<Longrightarrow> f (nibble k d) = Some (v, Some c) \<Longrightarrow>
    spine sha h w k (Suc d) c (ts ! nibble k d) (Rs (nibble k d)) p e s S \<Longrightarrow>
    spine sha h w k d a (MFork ts) (insert a (\<Union>i<16. Rs i)) ((a, nid_at k d) # p) e s S"

lemma spine_facts:
  assumes "spine sha h w k d a t R p e s S"
  shows "p \<noteq> []" and "rep sha h w a t R" and "S \<subseteq> R" and "branch_rep (rep sha h w) e s S"
proof -
  have "p \<noteq> [] \<and> rep sha h w a t R \<and> S \<subseteq> R \<and> branch_rep (rep sha h w) e s S"
    using assms
  proof (induction rule: spine.induct)
    case (last a cw hs f ts Rs d)
    then show ?case
      using fork_repD(5) [OF last, of "nibble k d"] rep.fork [OF last] by auto
  next
    case (step a cw hs f ts Rs d v c p e s S)
    then show ?case
      using rep.fork [OF step(1)] nibble_less [of k d] by auto
  qed
  then show "p \<noteq> []" "rep sha h w a t R" "S \<subseteq> R" "branch_rep (rep sha h w) e s S"
    by simp_all
qed

lemma fold_outcome_append: "fold_outcome f (xs @ ys) s = bind_outcome (fold_outcome f xs s) (fold_outcome f ys)"
proof (induction xs arbitrary: s)
  case (Cons x xs)
  have "fold_outcome f (xs @ ys) = (\<lambda>s. bind_outcome (fold_outcome f xs s) (fold_outcome f ys))"
    by (rule ext) (rule Cons.IH)
  then show ?case
    by (simp add: bind_outcome_assoc)
qed simp

lemma fold_outcome_single: "fold_outcome f [x] = f x"
proof
  show "fold_outcome f [x] s = f x s" for s
    by (cases "f x s") auto
qed

lemma dirty_up_Nil [simp]: "dirty_up [] k c mt h = Done (c, mt, h)"
  by (simp add: dirty_up_def)

lemma dirty_up_Cons: "dirty_up (e # p) k c mt h = bind_outcome (dirty_up p k c mt h) (dirty_step k e)"
  unfolding dirty_up_def rev.simps fold_outcome_append by (simp only: fold_outcome_single)

lemma dirty_up_snoc: "dirty_up (p @ [e]) k c mt h = bind_outcome (dirty_step k e (c, mt, h)) (\<lambda>(c, mt, h). dirty_up p k c mt h)"
  by (cases "dirty_step k e (c, mt, h)") (auto simp: dirty_up_def)

text \<open>What a change of one tree must leave alone and may use.\<close>

definition grown :: "heap \<Rightarrow> addr set \<Rightarrow> heap \<Rightarrow> addr set \<Rightarrow> bool" where
  "grown h W h' R \<longleftrightarrow> length h \<le> length h' \<and> (\<forall>x < length h. x \<notin> W \<longrightarrow> h' ! x = h ! x) \<and> own h' R \<subseteq> W \<union> {length h..}"

lemma grown_trans:
  "grown h V h1 S \<Longrightarrow> grown h1 W h2 R \<Longrightarrow> W \<subseteq> V \<union> {length h..} \<Longrightarrow> grown h V h2 R"
  unfolding grown_def by (auto simp: subset_iff) (metis leD less_le_trans order.trans)+

lemma grown_mono: "grown h V h1 S \<Longrightarrow> V \<subseteq> W \<Longrightarrow> grown h W h1 S"
  unfolding grown_def by blast

lemma dirty_step_fork:
  assumes fork: "fork_rep (rep sha h w) sha h w a cw hs f ts Rs" and w: "w \<noteq> 0" and d: "d < 64"
    and len: "length h \<le> length h1" and same: "\<And>x. x \<in> insert a (rest (nibble k d) Rs) \<Longrightarrow> h1 ! x = h ! x"
    and mt: "mt_cowid mt = w" and c: "rep sha h1 w c t S" and sep: "own h1 S \<inter> insert a (rest (nibble k d) Rs) = {}"
  obtains a' mt' h2 where "dirty_step k (a, nid_at k d) (c, mt, h1) = Done (a', mt', h2)" and "mt_cowid mt' = w"
    and "rep sha h2 w a' (MFork (ts[nibble k d := t])) (insert a' (S \<union> rest (nibble k d) Rs))"
    and "grown h1 (own h1 (insert a (S \<union> rest (nibble k d) Rs))) h2 (insert a' (S \<union> rest (nibble k d) Rs))"
proof -
  let ?i = "nibble k d"
  obtain a' mt' h2 nd where g: "unshare_node a (nid_at k d) mt h1 = Done (a', mt', h2)"
    "set_child ?i (Some c) (h2 ! a') = Done nd" "mt_cowid mt' = w" "a' < length h2" "length h1 \<le> length h2"
    "fork_rep (rep sha (h2[a' := nd]) w) sha (h2[a' := nd]) w a' w 0 (f(?i := Some (0, Some c))) (ts[?i := t]) (Rs(?i := S))"
    "\<And>x. x < length h1 \<Longrightarrow> x \<noteq> a' \<Longrightarrow> h2[a' := nd] ! x = h1 ! x" "if cw = w then a' = a else a' = length h1"
    by (rule graft [OF fork w nibble_less len same mt, where child = "Some c" and t = t and S = S and nid = "nid_at k d"])
      (use c sep in \<open>auto simp: branch_rep_def\<close>)
  let ?h = "h2[a' := nd]" and ?R = "insert a' (S \<union> rest ?i Rs)"
  have step: "dirty_step k (a, nid_at k d) (c, mt, h1) = Done (a', mt', ?h)"
    using g(1,2) d by (simp add: dirty_step_def)
  have rep: "rep sha ?h w a' (MFork (ts[?i := t])) ?R"
    using rep.fork [OF g(6)] Union_upd [OF nibble_less, of Rs k d S] by simp
  have cowid: "n_cowid (h1 ! a) = cw"
    using same [of a] table_simps(1) [OF fork_repD(2) [OF fork]] by simp
  have "S \<union> rest ?i Rs \<subseteq> {..<length h1}"
    using rep_addrs(2) [OF c] rest_addrs [OF fork, of ?i] len by auto
  moreover have "?h ! x = h1 ! x" if "x < length h1" "x \<notin> own h1 (insert a (S \<union> rest ?i Rs))" for x
  proof -
    have "x \<noteq> a'"
      using g(8) that cowid w by (auto simp: own_insert split: if_splits)
    then show ?thesis
      using g(7) that(1) by blast
  qed
  moreover have "own ?h ?R \<subseteq> own h1 (insert a (S \<union> rest ?i Rs)) \<union> {length h1..}"
  proof
    fix x
    assume x: "x \<in> own ?h ?R"
    show "x \<in> own h1 (insert a (S \<union> rest ?i Rs)) \<union> {length h1..}"
    proof (cases "x = a'")
      case True
      then show ?thesis
        using g(8) cowid w by (auto simp: own_insert split: if_splits)
    next
      case False
      then have *: "x \<in> S \<union> rest ?i Rs" "n_cowid (?h ! x) \<noteq> 0"
        using x by (auto simp: own_def)
      show ?thesis
      proof (cases "x < length h1")
        case True
        then have "x \<in> own h1 (insert a (S \<union> rest ?i Rs))"
          using * g(7) [OF True False] by (auto simp: own_def)
        then show ?thesis by blast
      qed auto
    qed
  qed
  ultimately have "grown h1 (own h1 (insert a (S \<union> rest ?i Rs))) ?h ?R"
    using g(5) by (simp add: grown_def)
  with step rep g(3) show thesis
    by (intro that)
qed


lemma fork_own:
  assumes "fork_rep (rep sha h w) sha h w a cw hs f ts Rs" and "w \<noteq> 0" and "i < 16"
  shows "own h (Rs i) \<inter> insert a (rest i Rs) = {}"
proof -
  note d = fork_repD [OF assms(1)]
  have "own h (Rs i) \<inter> rest i Rs = {}"
    using d(6) [OF assms(3)] by (auto simp: rest_def)
  moreover have "a \<notin> own h (Rs i)"
    using d(7,8) [OF assms(3)] by (auto simp: own_def)
  ultimately show ?thesis by auto
qed

lemma dirty_up_spine:
  assumes "spine sha h w k d a t R p e s S" and w: "w \<noteq> 0" and "d + length p \<le> 64" and mt: "mt_cowid mt = w"
    and len: "length h \<le> length h1" and "\<And>x. x \<in> R \<Longrightarrow> x \<notin> own h S \<Longrightarrow> h1 ! x = h ! x"
    and c: "rep sha h1 w c t' Rc" and "own h1 Rc \<inter> (R - own h S) = {}"
  shows "\<exists>a' mt' h2 R2. dirty_up p k c mt h1 = Done (a', mt', h2) \<and> mt_cowid mt' = w \<and>
    rep sha h2 w a' (m_put d (length p) k t' t) R2 \<and> grown h1 ((own h R - own h S) \<union> own h1 Rc) h2 R2"
  using assms(1,3,6,8)
proof (induction rule: spine.induct)
  case (last a cw hs f ts Rs d)
  let ?i = "nibble k d" and ?R = "insert a (\<Union>i<16. Rs i)"
  have R: "?R = insert a (Rs ?i \<union> rest ?i Rs)"
    using Union_rest [OF nibble_less] by blast
  note o = fork_own [OF last(1) w nibble_less, of k d]
  have same: "h1 ! x = h ! x" if "x \<in> insert a (rest ?i Rs)" for x
    using last.prems(2) [of x] o that unfolding R by blast
  have sep: "own h1 Rc \<inter> insert a (rest ?i Rs) = {}"
    using last.prems(3) o unfolding R by blast
  have "own h1 (insert a (rest ?i Rs)) = own h (insert a (rest ?i Rs))"
    using same by (rule own_cong)
  then have eq: "own h1 (insert a (Rc \<union> rest ?i Rs)) = own h1 Rc \<union> own h (insert a (rest ?i Rs))"
    by (auto simp: own_insert)
  have sub: "own h1 (insert a (Rc \<union> rest ?i Rs)) \<subseteq> (own h ?R - own h (Rs ?i)) \<union> own h1 Rc"
    unfolding eq R using o own_mono [of "insert a (rest ?i Rs)" "insert a (Rs ?i \<union> rest ?i Rs)" h] own_subset [of h "insert a (rest ?i Rs)"]
    by blast
  have d64: "d < 64" using last.prems(1) by simp
  obtain a' mt' h2 where "dirty_step k (a, nid_at k d) (c, mt, h1) = Done (a', mt', h2)" "mt_cowid mt' = w"
    "rep sha h2 w a' (MFork (ts[?i := t'])) (insert a' (Rc \<union> rest ?i Rs))"
    "grown h1 (own h1 (insert a (Rc \<union> rest ?i Rs))) h2 (insert a' (Rc \<union> rest ?i Rs))"
    by (rule dirty_step_fork [OF last(1) w d64 len same mt c sep])
  then show ?case
    using sub by (auto simp: dirty_up_Cons intro: grown_mono)
next
  case (step a cw hs f ts Rs d v c' p e s S)
  let ?i = "nibble k d" and ?R = "insert a (\<Union>i<16. Rs i)"
  have R: "?R = insert a (Rs ?i \<union> rest ?i Rs)"
    using Union_rest [OF nibble_less] by blast
  note o = fork_own [OF step.hyps(1) w nibble_less, of k d]
  have S: "own h S \<subseteq> own h (Rs ?i)"
    using spine_facts(3) [OF step.hyps(3)] by (rule own_mono)
  have "\<exists>a' mt' h2 R2. dirty_up p k c mt h1 = Done (a', mt', h2) \<and> mt_cowid mt' = w \<and>
      rep sha h2 w a' (m_put (Suc d) (length p) k t' (ts ! ?i)) R2 \<and> grown h1 ((own h (Rs ?i) - own h S) \<union> own h1 Rc) h2 R2"
    using step.prems unfolding R by (intro step.IH) auto
  then obtain a1 mt1 h2 R2 where r: "dirty_up p k c mt h1 = Done (a1, mt1, h2)" "mt_cowid mt1 = w"
    "rep sha h2 w a1 (m_put (Suc d) (length p) k t' (ts ! ?i)) R2" "grown h1 ((own h (Rs ?i) - own h S) \<union> own h1 Rc) h2 R2"
    by blast
  have in_h: "insert a (rest ?i Rs) \<subseteq> {..<length h}"
    using rest_addrs [OF step.hyps(1)] fork_repD(1) [OF step.hyps(1)] by auto
  have out: "x \<notin> (own h (Rs ?i) - own h S) \<union> own h1 Rc" "x < length h1" if "x \<in> insert a (rest ?i Rs)" for x
    using o that S step.prems(3) in_h len unfolding R by (blast, auto)
  have same: "h2 ! x = h ! x" if x: "x \<in> insert a (rest ?i Rs)" for x
  proof -
    have "h2 ! x = h1 ! x"
      using r(4) out [OF x] by (simp add: grown_def)
    also have "\<dots> = h ! x"
      using step.prems(2) [of x] o S x unfolding R by blast
    finally show ?thesis .
  qed
  have own2: "own h2 R2 \<subseteq> ((own h (Rs ?i) - own h S) \<union> own h1 Rc) \<union> {length h1..}"
    using r(4) by (simp add: grown_def)
  have sep: "own h2 R2 \<inter> insert a (rest ?i Rs) = {}"
    using own2 out by (meson Int_emptyI Un_iff atLeast_iff leD subsetD)
  have "own h2 (insert a (rest ?i Rs)) = own h (insert a (rest ?i Rs))"
    using same by (rule own_cong)
  then have eq: "own h2 (insert a (R2 \<union> rest ?i Rs)) = own h2 R2 \<union> own h (insert a (rest ?i Rs))"
    by (auto simp: own_insert)
  have ot: "own h (insert a (rest ?i Rs)) \<subseteq> own h ?R - own h S"
    unfolding R using o S own_mono [of "insert a (rest ?i Rs)" "insert a (Rs ?i \<union> rest ?i Rs)" h] own_subset [of h "insert a (rest ?i Rs)"]
    by blast
  have oi: "own h (Rs ?i) \<subseteq> own h ?R"
    unfolding R by (rule own_mono) auto
  have sub: "own h2 (insert a (R2 \<union> rest ?i Rs)) \<subseteq> (own h ?R - own h S \<union> own h1 Rc) \<union> {length h1..}"
    unfolding eq using own2 ot oi by blast
  have d64: "d < 64" and len2: "length h \<le> length h2"
    using step.prems(1) len r(4) by (simp_all add: grown_def)
  obtain a' mt' h3 where f: "dirty_step k (a, nid_at k d) (a1, mt1, h2) = Done (a', mt', h3)" "mt_cowid mt' = w"
    "rep sha h3 w a' (MFork (ts[?i := m_put (Suc d) (length p) k t' (ts ! ?i)])) (insert a' (R2 \<union> rest ?i Rs))"
    "grown h2 (own h2 (insert a (R2 \<union> rest ?i Rs))) h3 (insert a' (R2 \<union> rest ?i Rs))"
    by (rule dirty_step_fork [OF step.hyps(1) w d64 len2 same r(2,3) sep])
  have "grown h1 (own h ?R - own h S \<union> own h1 Rc) h2 R2"
    by (rule grown_mono [OF r(4)]) (use oi in blast)
  then have "grown h1 (own h ?R - own h S \<union> own h1 Rc) h3 (insert a' (R2 \<union> rest ?i Rs))"
    using f(4) sub by (rule grown_trans)
  with r(1) f(1-3) show ?case
    by (auto simp: dirty_up_Cons)
qed

end
