(* ===== verification/Shamap_Ops.thy ===== *)
theory Shamap_Ops
  imports Shamap_Update
begin

text \<open>
  Searching, adding, updating and deleting in a tree of the heap do to the abstract tree what the functions on
  abstract trees do, never fail on well-formed input, and leave alone every node that is not the tree's own.
\<close>

section \<open>Searching\<close>

definition walk_end ::
  "uint256 \<Rightarrow> nat \<Rightarrow> node_path \<Rightarrow> (uint256 \<times> addr option) option \<Rightarrow> traversal_error + addr option \<times> node_path" where
  "walk_end k n path e =
     (case e of
        None \<Rightarrow> Inr (None, path)
      | Some (hs, None) \<Rightarrow> Inl (MissingNode hs)
      | Some (hs, Some c) \<Rightarrow> Inr (Some c, path @ [(c, nid_at k n)]))"

lemma descend_throw_loaded:
  assumes n: "table (h ! a) cw hs f" and i: "i < 16" and f: "f i = Some (v, c)" and c: "backed \<longrightarrow> c \<noteq> None"
  shows "descend_throw fetch backed a i h = Done (if c = None then Inl (MissingNode v) else Inr c, h)"
proof -
  have "get_child (h ! a) i = c" "\<not> is_empty_branch (h ! a) i" "get_child_hash (h ! a) i = v" "is_inner (h ! a)"
    using table_simps [OF n] i f by (simp_all add: slot_child_def slot_hash_def)
  then show ?thesis
    using c by (auto simp: descend_throw_def descend_def)
qed

lemma walk_leaf: "h ! a = LeafNode cw hs ty it \<Longrightarrow>
    walk_towards_key_impl fetch backed k a nid path h = Done (Inr (Some a, path @ [(a, nid)]), h)"
  by (simp add: walk_towards_key_impl.simps)

lemma walk_spec:
  assumes "rep sha h w a (MFork ts) R" and "m_ok d (MFork ts)" and "m_walk d k (MFork ts) = (n, s)"
    and "backed \<longrightarrow> no_stub (MFork ts)"
  shows "\<exists>p e S. spine sha h w k d a (MFork ts) R p e s S \<and> length p = n \<and>
    walk_towards_key_impl fetch backed k a (nid_at k d) path h = Done (walk_end k (d + n) (path @ p) e, h)"
  using assms
proof (induction "MFork ts" arbitrary: ts d a R n path)
  case (MFork ts)
  obtain cw hs f Rs where fork: "fork_rep (rep sha h w) sha h w a cw hs f ts Rs" and R: "R = insert a (\<Union>i<16. Rs i)"
    by (rule rep_forkE [OF MFork.prems(1)])
  note r = fork_repD [OF fork] and ok = m_okD [OF MFork.prems(2)]
  note tab = table_simps [OF r(2)]
  let ?i = "nibble k d" let ?p = "path @ [(a, nid_at k d)]"
  have sp: "spine sha h w k d a (MFork ts) R [(a, nid_at k d)] (f ?i) (ts ! ?i) (Rs ?i)"
    unfolding R by (rule spine.last [OF fork])
  have w: "n = Suc (fst (m_walk (Suc d) k (ts ! ?i)))" "s = snd (m_walk (Suc d) k (ts ! ?i))"
    using MFork.prems(3) ok(2) by (simp_all add: m_walk_fork del: m_walk.simps)
  have bra: "select_branch (nid_at k d) k = ?i" "get_child_node_id (nid_at k d) ?i = Inr (nid_at k (Suc d))"
    using ok(1) by (simp_all add: get_child_node_id_at)
  have unf: "walk_towards_key_impl fetch backed k a (nid_at k d) path h =
      (if f ?i = None then Done (Inr (None, ?p), h)
       else bind_outcome (descend_throw fetch backed a ?i h) (\<lambda>(r, h). case r of Inl e \<Rightarrow> Done (Inl e, h)
         | Inr None \<Rightarrow> Panic | Inr (Some c) \<Rightarrow> walk_towards_key_impl fetch backed k c (nid_at k (Suc d)) ?p h))"
    unfolding walk_towards_key_impl.simps [of fetch backed k a] bra Let_def sum.case by (simp add: tab(3,7))
  have in_ts: "ts ! ?i \<in> set ts" using ok(2) by simp
  from r(5) [OF nibble_less, of k d] show ?case
  proof (cases rule: branch_repE)
    case nil
    with sp w show ?thesis
      by (intro exI [of _ "[(a, nid_at k d)]"] exI [of _ "f ?i"] exI [of _ "Rs ?i"]) (simp add: unf walk_end_def)
  next
    case (stub v)
    then have "\<not> no_stub (MFork ts)" using in_ts by (auto intro: bexI [of _ "ts ! ?i"])
    then have "descend_throw fetch backed a ?i h = Done (Inl (MissingNode v), h)"
      using descend_throw_loaded [OF r(2) nibble_less stub(1), of backed fetch] MFork.prems(4) by auto
    with sp w stub show ?thesis
      by (intro exI [of _ "[(a, nid_at k d)]"] exI [of _ "f ?i"] exI [of _ "Rs ?i"]) (simp add: unf walk_end_def)
  next
    case (node v c)
    note dt = descend_throw_loaded [OF r(2) nibble_less node(1), of backed fetch]
    show ?thesis
    proof (cases "ts ! ?i")
      case (MTip ty it)
      obtain cw' where "h ! c = LeafNode cw' (leaf_hash sha ty it) ty it"
        using node(2) unfolding MTip by (auto elim: rep_tipE)
      then show ?thesis
        using sp w MTip node(1) dt
        by (intro exI [of _ "[(a, nid_at k d)]"] exI [of _ "f ?i"] exI [of _ "Rs ?i"]) (simp add: unf walk_end_def walk_leaf)
    next
      case (MFork us)
      have "\<exists>p e S. spine sha h w k (Suc d) c (MFork us) (Rs ?i) p e s S \<and> length p = n - 1 \<and>
          walk_towards_key_impl fetch backed k c (nid_at k (Suc d)) ?p h = Done (walk_end k (Suc d + (n - 1)) (?p @ p) e, h)"
        by (rule MFork.hyps [OF in_ts [unfolded MFork]]) (use MFork node(2) ok(3) [of ?i] w in_ts MFork.prems(4) in auto)
      then obtain p e S where IH: "spine sha h w k (Suc d) c (ts ! ?i) (Rs ?i) p e s S" "length p = n - 1"
          "walk_towards_key_impl fetch backed k c (nid_at k (Suc d)) ?p h = Done (walk_end k (Suc d + (n - 1)) (?p @ p) e, h)"
        unfolding MFork by blast
      have "spine sha h w k d a (MFork ts) R ((a, nid_at k d) # p) e s S"
        unfolding R by (rule spine.step [OF fork node(1) IH(1)])
      then show ?thesis
        using IH(2,3) w node(1) dt
        by (intro exI [of _ "(a, nid_at k d) # p"] exI [of _ e] exI [of _ S]) (simp add: unf)
    qed (use node(2) in simp_all)
  qed
qed

section \<open>Replacing a subtree\<close>

lemma grown_refl: "own h R \<subseteq> W \<Longrightarrow> grown h W h R"
  by (auto simp: grown_def)

lemma grown_same: "grown h W h1 S \<Longrightarrow> x < length h \<Longrightarrow> x \<notin> W \<Longrightarrow> h1 ! x = h ! x"
  by (simp add: grown_def)

lemma grown_sep:
  assumes "grown h (own h S) h1 Rc" and "R \<subseteq> {..<length h}"
  shows "own h1 Rc \<inter> (R - own h S) = {}"
  using assms unfolding grown_def by force

lemma replace_spine:
  assumes sp: "spine sha h w k d a t R p e s S" and w: "w \<noteq> 0" and d: "d + length p \<le> 64" and mt: "mt_cowid mt = w"
    and g: "grown h (own h S) h1 Rc" and c: "rep sha h1 w c u Rc"
  shows "\<exists>a' mt' h2 R2. dirty_up p k c mt h1 = Done (a', mt', h2) \<and> mt_cowid mt' = w \<and>
    rep sha h2 w a' (m_put d (length p) k u t) R2 \<and> grown h (own h R) h2 R2"
proof -
  have R: "R \<subseteq> {..<length h}"
    by (rule rep_addrs(2) [OF spine_facts(2) [OF sp]])
  have "length h \<le> length h1" using g by (simp add: grown_def)
  moreover have "h1 ! x = h ! x" if "x \<in> R" "x \<notin> own h S" for x
    using g that R by (auto simp: grown_def)
  ultimately obtain a' mt' h2 R2 where r: "dirty_up p k c mt h1 = Done (a', mt', h2)" "mt_cowid mt' = w"
      "rep sha h2 w a' (m_put d (length p) k u t) R2" "grown h1 ((own h R - own h S) \<union> own h1 Rc) h2 R2"
    using dirty_up_spine [OF sp w d mt _ _ c grown_sep [OF g R]] by blast
  have S: "own h S \<subseteq> own h R"
    by (rule own_mono [OF spine_facts(3) [OF sp]])
  have "grown h (own h R) h2 R2"
    by (rule grown_trans [OF grown_mono [OF g S] r(4)]) (use g S in \<open>auto simp: grown_def\<close>)
  with r show ?thesis by blast
qed

definition at_end ::
  "'h sha_ops \<Rightarrow> heap \<Rightarrow> nat \<Rightarrow> uint256 \<Rightarrow> nat \<Rightarrow> addr \<Rightarrow> mtree \<Rightarrow> addr set \<Rightarrow> node_path \<Rightarrow> (uint256 \<times> addr option) option \<Rightarrow>
   mtree \<Rightarrow> addr \<Rightarrow> branch_table \<Rightarrow> mtree list \<Rightarrow> (nat \<Rightarrow> addr set) \<Rightarrow> node_path \<Rightarrow> bool" where
  "at_end sha h w k d a t R p e s b f ts Rs q \<longleftrightarrow>
     (\<exists>cw hs. fork_rep (rep sha h w) sha h w b cw hs f ts Rs) \<and>
     p = q @ [(b, nid_at k (d + length q))] \<and> e = f (nibble k (d + length q)) \<and> s = ts ! nibble k (d + length q) \<and>
     (\<forall>u. m_put d (Suc (length q)) k u t = m_put d (length q) k (MFork (ts[nibble k (d + length q) := u])) t) \<and>
     (if q = [] then t = MFork ts \<and> R = insert b (\<Union>i<16. Rs i)
      else \<exists>e'. spine sha h w k d a t R q e' (MFork ts) (insert b (\<Union>i<16. Rs i)))"

lemma spine_last:
  "spine sha h w k d a t R p e s S \<Longrightarrow> \<exists>b f ts Rs q. at_end sha h w k d a t R p e s b f ts Rs q"
proof (induction rule: spine.induct)
  case (last a cw hs f ts Rs d)
  then have "at_end sha h w k d a (MFork ts) (insert a (\<Union>i<16. Rs i)) [(a, nid_at k d)] (f (nibble k d)) (ts ! nibble k d) a f ts Rs []"
    by (auto simp: at_end_def)
  then show ?case by blast
next
  case (step a cw hs f ts Rs d v c p e s S)
  let ?R = "insert a (\<Union>i<16. Rs i)" and ?i = "nibble k d"
  obtain b f' us Rs' q where IH: "at_end sha h w k (Suc d) c (ts ! ?i) (Rs ?i) p e s b f' us Rs' q"
    using step.IH by blast
  have "\<exists>e'. spine sha h w k d a (MFork ts) ?R ((a, nid_at k d) # q) e' (MFork us) (insert b (\<Union>i<16. Rs' i))"
  proof (cases "q = []")
    case True
    then show ?thesis
      using spine.last [OF step(1), of k d] IH by (auto simp: at_end_def)
  next
    case False
    then show ?thesis
      using spine.step [OF step(1,2)] IH unfolding at_end_def by metis
  qed
  then have "at_end sha h w k d a (MFork ts) ?R ((a, nid_at k d) # p) e s b f' us Rs' ((a, nid_at k d) # q)"
    using IH by (auto simp: at_end_def)
  then show ?case by blast
qed

lemma replace_last:
  assumes a: "at_end sha h w k d a t R p e s b f ts Rs q" and w: "w \<noteq> 0" and d: "d + length p \<le> 64"
    and mt: "mt_cowid mt = w" and g: "grown h (own h (insert b (\<Union>i<16. Rs i))) h1 Rc"
    and c: "rep sha h1 w c (MFork (ts[nibble k (d + length q) := u])) Rc"
  shows "\<exists>a' mt' h2 R2. dirty_up (butlast p) k c mt h1 = Done (a', mt', h2) \<and> mt_cowid mt' = w \<and>
    rep sha h2 w a' (m_put d (length p) k u t) R2 \<and> grown h (own h R) h2 R2"
proof (cases "q = []")
  case True
  then show ?thesis
    using a mt g c by (auto simp: at_end_def)
next
  case False
  then obtain e' where sp: "spine sha h w k d a t R q e' (MFork ts) (insert b (\<Union>i<16. Rs i))"
    using a by (auto simp: at_end_def)
  have "length p = Suc (length q)" "butlast p = q"
    "m_put d (length p) k u t = m_put d (length q) k (MFork (ts[nibble k (d + length q) := u])) t"
    using a by (auto simp: at_end_def)
  then show ?thesis
    using replace_spine [OF sp w _ mt g c] d by simp
qed

section \<open>Adding\<close>

lemma unshare_fork:
  assumes fork: "fork_rep (rep sha h w) sha h w a cw hs f ts Rs" and w: "w \<noteq> 0" and mt: "mt_cowid mt = w"
  obtains a' mt' h2 where "unshare_node a nid mt h = Done (a', mt', h2)" and "mt_cowid mt' = w"
    and "fork_rep (rep sha h2 w) sha h2 w a' w hs f ts Rs"
    and "grown h (own h (insert a (\<Union>i<16. Rs i))) h2 (insert a' (\<Union>i<16. Rs i))"
proof -
  note d = fork_repD [OF fork]
  obtain a' mt' h2 where u: "unshare_node a nid mt h = Done (a', mt', h2)" "mt_cowid mt' = w" "a' < length h2"
    "table (h2 ! a') w hs f" "length h \<le> length h2" "\<And>x. x < length h \<Longrightarrow> h2 ! x = h ! x"
    "if cw = w then a' = a else a' = length h"
    by (rule unshare_node_fork [OF fork order_refl refl mt, of nid]) blast
  have R: "Rs i \<subseteq> {..<length h}" if "i < 16" for i
    using branch_rep_addrs [OF d(5) [OF that]] .
  have same: "h2 ! x = h ! x" if "x \<in> Rs i" "i < 16" for x i
    using u(6) R that by auto
  have br: "branch_rep (rep sha h2 w) (f i) (ts ! i) (Rs i)" if "i < 16" for i
    by (rule branch_rep_frame [OF d(5) [OF that] u(5)]) (rule same [OF _ that])
  have own: "own h2 (Rs i) = own h (Rs i)" if "i < 16" for i
    by (rule own_cong) (rule same [OF _ that])
  have out: "a' \<notin> Rs i" if "i < 16" for i
    using u(7) d(8) [OF that] w R [OF that] by (auto split: if_splits)
  have "fork_rep (rep sha h2 w) sha h2 w a' w hs f ts Rs"
    using u(3,4) d(4,6,9,10) br own out w unfolding fork_rep_def by auto
  moreover have "own h2 (insert a' (\<Union>i<16. Rs i)) \<subseteq> own h (insert a (\<Union>i<16. Rs i)) \<union> {length h..}"
    using own u(7) w table_simps(1) [OF d(2)] by (auto simp: own_insert split: if_splits)
  then have "grown h (own h (insert a (\<Union>i<16. Rs i))) h2 (insert a' (\<Union>i<16. Rs i))"
    using u(5,6) by (simp add: grown_def)
  ultimately show thesis
    using that u(1,2) by blast
qed

lemma put_leaf:
  assumes fork: "fork_rep (rep sha h w) sha h w a w hs f ts Rs" and w: "w \<noteq> 0" and i: "i < 16" and it: "tip_ok ty it"
  obtains nd where "set_child i (Some (length h)) ((h @ [LeafNode w (leaf_hash sha ty it) ty it]) ! a) = Done nd"
    and "fork_rep (rep sha ((h @ [LeafNode w (leaf_hash sha ty it) ty it])[a := nd]) w) sha
      ((h @ [LeafNode w (leaf_hash sha ty it) ty it])[a := nd]) w a w 0 (f(i := Some (0, Some (length h))))
      (ts[i := MTip ty it]) (Rs(i := {length h}))"
    and "grown h (own h (insert a (\<Union>i<16. Rs i))) ((h @ [LeafNode w (leaf_hash sha ty it) ty it])[a := nd])
      (insert a (\<Union>j<16. (Rs(i := {length h})) j))"
proof -
  note d = fork_repD [OF fork]
  let ?l = "LeafNode w (leaf_hash sha ty it) ty it" and ?c = "length h"
  have a: "(h @ [?l]) ! a = h ! a" using d(1) by (simp add: nth_append)
  obtain nd where nd: "set_child i (Some ?c) (h ! a) = Done nd" "table nd w 0 (f(i := Some (0, Some ?c)))"
    by (rule set_child_Some [OF d(2) w i])
  let ?h = "(h @ [?l])[a := nd]"
  have R: "rest i Rs \<subseteq> {..<length h}" by (rule rest_addrs [OF fork])
  have keep: "?h ! x = h ! x" if "x < length h" "x \<noteq> a" for x
    using that by (simp add: nth_append)
  have a_out: "a \<notin> rest i Rs"
    using d(8) w by (auto simp: rest_def)
  have leaf: "rep sha ?h w ?c (MTip ty it) {?c}"
    by (rule rep.tip [where cw = w]) (use it d(1) in auto)
  have upd: "fork_rep (rep sha ?h w) sha ?h w a w 0 (f(i := Some (0, Some ?c))) (ts[i := MTip ty it]) (Rs(i := {?c}))"
  proof (rule fork_rep_upd [OF fork w i])
    show "?h ! x = h ! x" if "x \<in> rest i Rs" for x
      by (rule keep) (use that R a_out in auto)
    show "own ?h {?c} \<inter> rest i Rs = {}"
      using own_subset [of ?h "{?c}"] R by auto
  qed (use d(1) a_out nd(2) leaf in \<open>auto simp: branch_rep_def\<close>)
  have "own ?h (insert a ({?c} \<union> rest i Rs)) \<subseteq> own h (insert a (\<Union>i<16. Rs i)) \<union> {length h..}"
  proof
    fix x assume x: "x \<in> own ?h (insert a ({?c} \<union> rest i Rs))"
    then consider "x = a" | "x = ?c" | "x \<in> rest i Rs" by (auto simp: own_def)
    then show "x \<in> own h (insert a (\<Union>i<16. Rs i)) \<union> {length h..}"
    proof cases
      case 3
      then have "?h ! x = h ! x" by (intro keep) (use R a_out in auto)
      then show ?thesis
        using x 3 by (auto simp: own_def rest_def)
    qed (use w table_simps(1) [OF d(2)] in \<open>auto simp: own_insert\<close>)
  qed
  moreover have "?h ! x = h ! x" if "x < length h" "x \<notin> own h (insert a (\<Union>i<16. Rs i))" for x
    by (rule keep) (use that w table_simps(1) [OF d(2)] in \<open>auto simp: own_insert\<close>)
  ultimately have "grown h (own h (insert a (\<Union>i<16. Rs i))) ?h (insert a ({?c} \<union> rest i Rs))"
    unfolding grown_def by simp
  with nd upd show thesis
    using that a unfolding Union_upd [OF i] by simp
qed

lemma new_fork:
  assumes "h ! a = new_inner w" and "a < length h" and "w \<noteq> 0"
  shows "fork_rep (rep sha h w) sha h w a w 0 (\<lambda>_. None) (replicate 16 MNil) (\<lambda>_. {})"
  using assms new_inner_table [of w] unfolding fork_rep_def by (auto simp: branch_rep_def)

text \<open>
  A path that leads back to the root: whatever subtree is put at its end, from a heap that differs from the given
  one as far as is allowed, the walk back yields a tree with the subtree in place.
\<close>

definition way_up ::
  "'h sha_ops \<Rightarrow> nat \<Rightarrow> uint256 \<Rightarrow> node_path \<Rightarrow> heap \<Rightarrow> addr set \<Rightarrow> (mtree \<Rightarrow> mtree) \<Rightarrow> heap \<Rightarrow> addr set \<Rightarrow> bool" where
  "way_up sha w k p h W F h0 V \<longleftrightarrow>
     (\<forall>mt h1 c u Rc. mt_cowid mt = w \<longrightarrow> grown h W h1 Rc \<longrightarrow> rep sha h1 w c u Rc \<longrightarrow>
        (\<exists>a' mt' h2 R2. dirty_up p k c mt h1 = Done (a', mt', h2) \<and> mt_cowid mt' = w \<and>
           rep sha h2 w a' (F u) R2 \<and> grown h0 V h2 R2))"

lemma way_upD:
  assumes "way_up sha w k p h W F h0 V" and "mt_cowid mt = w" and "grown h W h1 Rc" and "rep sha h1 w c u Rc"
  obtains a' mt' h2 R2 where "dirty_up p k c mt h1 = Done (a', mt', h2)" and "mt_cowid mt' = w"
    and "rep sha h2 w a' (F u) R2" and "grown h0 V h2 R2"
  using assms unfolding way_up_def by blast

lemma add_into_empty_spec:
  assumes sp: "spine sha h w k 0 a t R p None MNil S" and w: "w \<noteq> 0" and p: "length p \<le> 64" and mt: "mt_cowid mt = w"
    and it: "tip_ok ty it"
  shows "\<exists>mt' h' R'. add_into_empty_branch sha p k ty it mt h = Done (Inr True, mt', h') \<and> mt_cowid mt' = w \<and>
    rep sha h' w (mt_root mt') (m_put 0 (length p) k (MTip ty it) t) R' \<and> grown h (own h R) h' R'"
proof -
  obtain b f ts Rs q where e: "at_end sha h w k 0 a t R p None MNil b f ts Rs q"
    using spine_last [OF sp] by blast
  let ?i = "nibble k (length q)"
  obtain cw hs where fork: "fork_rep (rep sha h w) sha h w b cw hs f ts Rs" and pq: "p = q @ [(b, nid_at k (length q))]"
    using e by (auto simp: at_end_def)
  obtain b1 mt1 h1 where u: "unshare_node b (nid_at k (length q)) mt h = Done (b1, mt1, h1)" "mt_cowid mt1 = w"
    "fork_rep (rep sha h1 w) sha h1 w b1 w hs f ts Rs"
    "grown h (own h (insert b (\<Union>i<16. Rs i))) h1 (insert b1 (\<Union>i<16. Rs i))"
    by (rule unshare_fork [OF fork w mt])
  obtain nd where n: "set_child ?i (Some (length h1)) ((h1 @ [LeafNode w (leaf_hash sha ty it) ty it]) ! b1) = Done nd"
    "fork_rep (rep sha ((h1 @ [LeafNode w (leaf_hash sha ty it) ty it])[b1 := nd]) w) sha
      ((h1 @ [LeafNode w (leaf_hash sha ty it) ty it])[b1 := nd]) w b1 w 0 (f(?i := Some (0, Some (length h1))))
      (ts[?i := MTip ty it]) (Rs(?i := {length h1}))"
    "grown h1 (own h1 (insert b1 (\<Union>i<16. Rs i))) ((h1 @ [LeafNode w (leaf_hash sha ty it) ty it])[b1 := nd])
      (insert b1 (\<Union>j<16. (Rs(?i := {length h1})) j))"
    by (rule put_leaf [OF u(3) w nibble_less it])
  let ?h = "(h1 @ [LeafNode w (leaf_hash sha ty it) ty it])[b1 := nd]"
  have g: "grown h (own h (insert b (\<Union>i<16. Rs i))) ?h (insert b1 (\<Union>j<16. (Rs(?i := {length h1})) j))"
    by (rule grown_trans [OF u(4) n(3)]) (use u(4) in \<open>simp add: grown_def\<close>)
  have p0: "0 + length p \<le> 64" using p by simp
  have "rep sha ?h w b1 (MFork (ts[nibble k (0 + length q) := MTip ty it])) (insert b1 (\<Union>j<16. (Rs(?i := {length h1})) j))"
    using rep.fork [OF n(2)] by (simp only: add_0)
  then obtain a' mt' h2 R2 where r: "dirty_up (butlast p) k b1 mt1 ?h = Done (a', mt', h2)" "mt_cowid mt' = w"
    "rep sha h2 w a' (m_put 0 (length p) k (MTip ty it) t) R2" "grown h (own h R) h2 R2"
    using replace_last [OF e w p0 u(2) g] by (simp only: add_0) blast
  have "select_branch (nid_at k (length q)) k = ?i"
    using p pq by simp
  then have "add_into_empty_branch sha p k ty it mt h = Done (Inr True, mt'\<lparr>mt_root := a'\<rparr>, h2)"
    using u(1,2) n(1) r(1) by (simp add: add_into_empty_branch_def pq new_leaf_Done [OF it] alloc_def)
  then show ?thesis
    using r(2-4) by (intro exI [of _ "mt'\<lparr>mt_root := a'\<rparr>"] exI [of _ h2] exI [of _ R2]) simp
qed

lemma way_up_fresh:
  assumes up: "way_up sha w k p h W F h0 V" and w: "w \<noteq> 0" and d: "d < 64" and W: "W \<subseteq> {..<length h}"
  shows "way_up sha w k (p @ [(length h, nid_at k d)]) (h @ [new_inner w]) W
    (\<lambda>u. F (MFork ((replicate 16 MNil)[nibble k d := u]))) h0 V"
  unfolding way_up_def
proof (intro allI impI)
  fix mt :: mutable_tree and h1 c u Rc
  assume mt: "mt_cowid mt = w" and g: "grown (h @ [new_inner w]) W h1 Rc" and c: "rep sha h1 w c u Rc"
  let ?s = "length h" and ?i = "nibble k d" let ?R = "insert ?s (Rc \<union> {})"
  have s: "h1 ! ?s = new_inner w" "?s < length h1"
    using g W by (auto simp: grown_def nth_append subset_iff)
  note fork = new_fork [OF s w, of sha]
  have out: "?s \<notin> own h1 Rc" using g W by (auto simp: grown_def subset_iff)
  have rest: "rest ?i (\<lambda>_. {}) = {}" by (simp add: rest_def)
  obtain a' mt' h2 where st: "dirty_step k (?s, nid_at k d) (c, mt, h1) = Done (a', mt', h2)" "mt_cowid mt' = w"
    "rep sha h2 w a' (MFork ((replicate 16 MNil)[?i := u])) (insert a' Rc)"
    "grown h1 (own h1 (insert ?s Rc)) h2 (insert a' Rc)"
    by (rule dirty_step_fork [OF fork w d order_refl refl mt c, of k]) (use out in \<open>auto simp: rest\<close>)
  have "grown h W h1 Rc"
    using g by (auto simp: grown_def nth_append)
  then have "grown h W h2 (insert a' Rc)"
    by (rule grown_trans [OF _ st(4)]) (use g in \<open>auto simp: grown_def own_insert\<close>)
  then obtain a2 mt2 h3 R3 where "dirty_up p k a' mt' h2 = Done (a2, mt2, h3)" "mt_cowid mt2 = w"
    "rep sha h3 w a2 (F (MFork ((replicate 16 MNil)[?i := u]))) R3" "grown h0 V h3 R3"
    by (rule way_upD [OF up st(2) _ st(3)])
  then show "\<exists>a' mt' h2 R2. dirty_up (p @ [(?s, nid_at k d)]) k c mt h1 = Done (a', mt', h2) \<and> mt_cowid mt' = w \<and>
      rep sha h2 w a' (F (MFork ((replicate 16 MNil)[?i := u]))) R2 \<and> grown h0 V h2 R2"
    using st(1) by (auto simp: dirty_up_snoc)
qed

lemma two_leaves:
  fixes sha :: "'h sha_ops"
  assumes w: "w \<noteq> 0" and ij: "i < 16" "j < 16" "i \<noteq> j" and it: "tip_ok ty it" "tip_ok ty old"
  defines "l1 \<equiv> LeafNode w (leaf_hash sha ty it) ty it" and "l2 \<equiv> LeafNode w (leaf_hash sha ty old) ty old"
  obtains n1 n2 Rc where "set_child i (Some (length h + 1)) (new_inner w) = Done n1"
    and "set_child j (Some (length h + 2)) n1 = Done n2"
    and "rep sha (h @ [n2, l1, l2]) w (length h) (MFork ((replicate 16 MNil)[i := MTip ty it, j := MTip ty old])) Rc"
    and "\<And>W. grown h W (h @ [n2, l1, l2]) Rc"
proof -
  let ?h0 = "h @ [new_inner w]"
  have fork: "fork_rep (rep sha ?h0 w) sha ?h0 w (length h) w 0 (\<lambda>_. None) (replicate 16 MNil) (\<lambda>_. {})"
    by (rule new_fork) (use w in simp_all)
  obtain n1 where n1: "set_child i (Some (length ?h0)) ((?h0 @ [l1]) ! length h) = Done n1"
    "fork_rep (rep sha ((?h0 @ [l1])[length h := n1]) w) sha ((?h0 @ [l1])[length h := n1]) w (length h) w 0
      ((\<lambda>_. None)(i := Some (0, Some (length ?h0)))) ((replicate 16 MNil)[i := MTip ty it]) ((\<lambda>_. {})(i := {length ?h0}))"
    unfolding l1_def by (rule put_leaf [OF fork w ij(1) it(1)])
  have eq1: "(?h0 @ [l1])[length h := n1] = h @ [n1, l1]" by simp
  obtain n2 where n2: "set_child j (Some (length (h @ [n1, l1]))) ((h @ [n1, l1] @ [l2]) ! length h) = Done n2"
    "fork_rep (rep sha ((h @ [n1, l1] @ [l2])[length h := n2]) w) sha ((h @ [n1, l1] @ [l2])[length h := n2]) w (length h) w 0
      ((\<lambda>_. None)(i := Some (0, Some (length ?h0)), j := Some (0, Some (length (h @ [n1, l1])))))
      ((replicate 16 MNil)[i := MTip ty it, j := MTip ty old]) ((\<lambda>_. {})(i := {length ?h0}, j := {length (h @ [n1, l1])}))"
    unfolding l2_def by (rule put_leaf [OF n1(2) [unfolded eq1] w ij(2) it(2)]) simp
  have eq2: "(h @ [n1, l1] @ [l2])[length h := n2] = h @ [n2, l1, l2]" by simp
  note rep = rep.fork [OF n2(2) [unfolded eq2]]
  have "grown h W (h @ [n2, l1, l2]) (insert (length h) (\<Union>x<16. ((\<lambda>_. {})(i := {length ?h0}, j := {length (h @ [n1, l1])})) x))" for W
    using own_subset by (auto simp: grown_def nth_append own_def split: if_splits)
  then show thesis
    using that n1(1) n2(1) rep by simp
qed

lemma split_loop_spec:
  assumes "way_up sha w (it_key it) gs h W F h0 V" and "mt_cowid mt = w" and "w \<noteq> 0" and "W \<subseteq> {..<length h}"
    and "tip_ok ty it" "tip_ok ty old" and "key_after d (it_key it) (it_key old)"
  shows "\<exists>mt' h' R'. split_loop sha ty it old gs (nid_at (it_key it) d) (length h) mt (h @ [new_inner w]) = Done (Inr True, mt', h') \<and>
    mt_cowid mt' = w \<and> rep sha h' w (mt_root mt') (F (m_split d ty it old)) R' \<and> grown h0 V h' R'"
  using assms
proof (induction "64 - d" arbitrary: d gs h F)
  case 0
  then show ?case using key_after_less [of d] by force
next
  case (Suc m)
  let ?k = "it_key it" let ?i = "nibble ?k d" and ?j = "nibble (it_key old) d"
  have d: "d < 64" by (rule key_after_less [OF Suc.prems(7)])
  show ?case
  proof (cases "?i = ?j")
    case False
    obtain n1 n2 Rc where n: "set_child ?i (Some (length h + 1)) (new_inner w) = Done n1"
      "set_child ?j (Some (length h + 2)) n1 = Done n2"
      "rep sha (h @ [n2, LeafNode w (leaf_hash sha ty it) ty it, LeafNode w (leaf_hash sha ty old) ty old]) w (length h)
         (MFork ((replicate 16 MNil)[?i := MTip ty it, ?j := MTip ty old])) Rc"
      "\<And>W. grown h W (h @ [n2, LeafNode w (leaf_hash sha ty it) ty it, LeafNode w (leaf_hash sha ty old) ty old]) Rc"
      by (rule two_leaves [OF Suc.prems(3) nibble_less nibble_less False Suc.prems(5,6), where sha = sha and h = h]) blast
    obtain a' mt' h2 R2 where r: "dirty_up gs ?k (length h) mt
        (h @ [n2, LeafNode w (leaf_hash sha ty it) ty it, LeafNode w (leaf_hash sha ty old) ty old]) = Done (a', mt', h2)"
      "mt_cowid mt' = w" "rep sha h2 w a' (F (MFork ((replicate 16 MNil)[?i := MTip ty it, ?j := MTip ty old]))) R2" "grown h0 V h2 R2"
      by (rule way_upD [OF Suc.prems(1,2) n(4,3)])
    have "split_loop sha ty it old gs (nid_at ?k d) (length h) mt (h @ [new_inner w]) = Done (Inr True, mt'\<lparr>mt_root := a'\<rparr>, h2)"
      using d False Suc.prems(2) n(1,2) r(1)
      by (subst split_loop.simps) (simp add: Let_def new_leaf_Done Suc.prems(5,6) alloc_def nth_append)
    moreover have "m_split d ty it old = MFork ((replicate 16 MNil)[?i := MTip ty it, ?j := MTip ty old])"
      using d False by (simp add: m_split.simps [of d])
    ultimately show ?thesis
      using r(2-4) by (intro exI [of _ "mt'\<lparr>mt_root := a'\<rparr>"] exI [of _ h2] exI [of _ R2]) simp
  next
    case True
    let ?F = "\<lambda>u. F (MFork ((replicate 16 MNil)[?i := u]))" and ?h = "h @ [new_inner w]"
    have "\<exists>mt' h' R'. split_loop sha ty it old (gs @ [(length h, nid_at ?k d)]) (nid_at ?k (Suc d)) (length ?h) mt (?h @ [new_inner w]) = Done (Inr True, mt', h') \<and>
        mt_cowid mt' = w \<and> rep sha h' w (mt_root mt') (?F (m_split (Suc d) ty it old)) R' \<and> grown h0 V h' R'"
    proof (rule Suc.hyps(1))
      show "m = 64 - Suc d" using Suc.hyps(2) by simp
      show "way_up sha w ?k (gs @ [(length h, nid_at ?k d)]) ?h W ?F h0 V"
        by (rule way_up_fresh [OF Suc.prems(1,3) d Suc.prems(4)])
      show "key_after (Suc d) ?k (it_key old)"
        by (rule key_after_Suc [OF Suc.prems(7) True])
    qed (use Suc.prems in auto)
    moreover have "get_child_node_id (nid_at ?k d) ?j = Inr (nid_at ?k (Suc d))"
      using get_child_node_id_at [OF d, of ?k] True by simp
    then have "split_loop sha ty it old gs (nid_at ?k d) (length h) mt ?h =
        split_loop sha ty it old (gs @ [(length h, nid_at ?k d)]) (nid_at ?k (Suc d)) (length ?h) mt (?h @ [new_inner w])"
      using d True Suc.prems(2) by (subst split_loop.simps) (simp add: Let_def alloc_def)
    moreover have "m_split d ty it old = MFork ((replicate 16 MNil)[?i := m_split (Suc d) ty it old])"
      using d True by (simp add: m_split.simps [of d])
    ultimately show ?thesis by simp
  qed
qed

section \<open>The operations\<close>

definition holds :: "'h sha_ops \<Rightarrow> heap \<Rightarrow> mutable_tree \<Rightarrow> mtree \<Rightarrow> addr set \<Rightarrow> bool" where
  "holds sha h mt t R \<longleftrightarrow>
     mt_cowid mt \<noteq> 0 \<and> rep sha h (mt_cowid mt) (mt_root mt) t R \<and> m_ok 0 t \<and> (\<exists>ts. t = MFork ts)"

lemma holds_walk:
  assumes "holds sha h mt t R" and "m_walk 0 k t = (n, s)" and "backed \<longrightarrow> no_stub t"
  obtains p e S where "spine sha h (mt_cowid mt) k 0 (mt_root mt) t R p e s S" and "length p = n" and "0 < n" and "n \<le> 64"
    and "branch_rep (rep sha h (mt_cowid mt)) e s S" and "\<not> (\<exists>ts. s = MFork ts)"
    and "walk_towards_key_with_path fetch backed (mt_root mt) k h = Done (walk_end k n p e, h)"
proof -
  obtain ts where t: "t = MFork ts" "m_ok 0 (MFork ts)" "rep sha h (mt_cowid mt) (mt_root mt) (MFork ts) R"
    using assms(1) by (auto simp: holds_def)
  obtain p e S where r: "spine sha h (mt_cowid mt) k 0 (mt_root mt) t R p e s S" "length p = n"
      "walk_towards_key_impl fetch backed k (mt_root mt) (nid_at k 0) [] h = Done (walk_end k (0 + n) ([] @ p) e, h)"
    using walk_spec [OF t(3,2) assms(2) [unfolded t(1)], of backed fetch "[]"] assms(3) unfolding t(1) by blast
  show thesis
  proof (rule that [OF r(1,2)])
    show "0 < n" by (rule fork_walk_pos [OF t(2) assms(2) [unfolded t(1)]])
    show "n \<le> 64" using m_walk_depth [OF t(2), of k] assms(2) t(1) by simp
    show "branch_rep (rep sha h (mt_cowid mt)) e s S" by (rule spine_facts(4) [OF r(1)])
    show "\<not> (\<exists>ts. s = MFork ts)" using m_walk_get(4) [OF t(2) assms(2) [unfolded t(1)]] .
    show "walk_towards_key_with_path fetch backed (mt_root mt) k h = Done (walk_end k n p e, h)"
      using r(3) by (simp add: walk_towards_key_with_path_def nid_at_0)
  qed
qed

text \<open>Where a walk ends at a leaf, the heap has that leaf.\<close>

lemma end_leaf:
  assumes "branch_rep (rep sha h w) e (MTip ty it) S"
  obtains v c cw where "e = Some (v, Some c)" and "c < length h" and "h ! c = LeafNode cw (leaf_hash sha ty it) ty it"
    and "cw = 0 \<or> cw = w" and "S = {c}" and "tip_ok ty it"
  using assms by (rule branch_repE) (auto elim!: rep_tipE)

definition changes ::
  "'h sha_ops \<Rightarrow> mut_result \<Rightarrow> mutable_tree \<Rightarrow> heap \<Rightarrow> addr set \<Rightarrow> mtree \<Rightarrow> bool" where
  "changes sha r mt h R t' \<longleftrightarrow>
     (\<exists>mt' h' R'. r = Done (Inr True, mt', h') \<and> mt_cowid mt' = mt_cowid mt \<and> holds sha h' mt' t' R' \<and> grown h (own h R) h' R')"

lemma changesI:
  assumes "r = Done (Inr True, mt', h')" and "mt_cowid mt' = mt_cowid mt" and "mt_cowid mt \<noteq> 0"
    and "rep sha h' (mt_cowid mt) (mt_root mt') t' R'" and "m_ok 0 t'" and "\<exists>ts. t' = MFork ts" and "grown h (own h R) h' R'"
  shows "changes sha r mt h R t'"
  using assms unfolding changes_def holds_def by metis

lemma m_put_fork: "0 < n \<Longrightarrow> \<exists>us. m_put d n k s (MFork ts) = MFork us"
  by (cases n) auto

lemma add_spec_empty:
  assumes h: "holds sha h mt t R" and w: "m_walk 0 (it_key it) t = (n, MNil)" and b: "backed \<longrightarrow> no_stub t"
    and it: "tip_ok ty it"
  shows "changes sha (add_item_with fetch backed sha ty it mt h) mt h R (m_add ty it t)"
proof -
  let ?k = "it_key it" and ?w = "mt_cowid mt"
  obtain ts where t: "t = MFork ts" "m_ok 0 (MFork ts)" "?w \<noteq> 0" using h by (auto simp: holds_def)
  obtain p e S where p: "spine sha h ?w ?k 0 (mt_root mt) t R p e MNil S" "length p = n" "0 < n" "n \<le> 64"
    "branch_rep (rep sha h ?w) e MNil S" "walk_towards_key_with_path fetch backed (mt_root mt) ?k h = Done (walk_end ?k n p e, h)"
    by (rule holds_walk [OF h w b, where fetch = fetch]) blast
  have e: "e = None" using p(5) by (rule branch_repE) auto
  obtain mt' h' R' where a: "add_into_empty_branch sha p ?k ty it mt h = Done (Inr True, mt', h')" "mt_cowid mt' = ?w"
    "rep sha h' ?w (mt_root mt') (m_put 0 (length p) ?k (MTip ty it) t) R'" "grown h (own h R) h' R'"
    using add_into_empty_spec [OF p(1) [unfolded e] t(3) _ refl it] p(2,4) by blast
  have add: "m_add ty it t = m_put 0 (length p) ?k (MTip ty it) t"
    by (simp add: m_add_def w p(2))
  show ?thesis
  proof (rule changesI [OF _ a(2) t(3) a(3) [folded add] _ _ a(4)])
    show "add_item_with fetch backed sha ty it mt h = Done (Inr True, mt', h')"
      using it a(1) p(6) e by (simp add: add_item_with_def walk_end_def tip_ok_def)
    show "m_ok 0 (m_add ty it t)"
      using m_add_ok(1) [OF t(2) w [unfolded t(1)] it] by (simp add: t(1))
    show "\<exists>ts. m_add ty it t = MFork ts"
      using m_put_fork [OF p(3), of 0 ?k "MTip ty it" ts] p(2) add by (simp add: t(1) del: m_put.simps)
  qed
qed

lemma add_spec_split:
  assumes h: "holds sha h mt t R" and w: "m_walk 0 (it_key it) t = (n, MTip ty old)" and b: "backed \<longrightarrow> no_stub t"
    and it: "tip_ok ty it" and old: "it_key old \<noteq> it_key it"
  shows "changes sha (add_item_with fetch backed sha ty it mt h) mt h R (m_add ty it t)"
proof -
  let ?k = "it_key it" and ?w = "mt_cowid mt"
  obtain ts where t: "t = MFork ts" "m_ok 0 (MFork ts)" "?w \<noteq> 0" using h by (auto simp: holds_def)
  obtain p e S where p: "spine sha h ?w ?k 0 (mt_root mt) t R p e (MTip ty old) S" "length p = n" "0 < n" "n \<le> 64"
    "branch_rep (rep sha h ?w) e (MTip ty old) S" "walk_towards_key_with_path fetch backed (mt_root mt) ?k h = Done (walk_end ?k n p e, h)"
    by (rule holds_walk [OF h w b, where fetch = fetch]) blast
  obtain v c cw where e: "e = Some (v, Some c)" "c < length h" "h ! c = LeafNode cw (leaf_hash sha ty old) ty old" "tip_ok ty old"
    by (rule end_leaf [OF p(5)]) blast
  have up: "way_up sha ?w ?k p h (own h S) (\<lambda>u. m_put 0 (length p) ?k u t) h (own h R)"
    unfolding way_up_def using replace_spine [OF p(1) t(3)] p(2,4) by simp
  have S: "own h S \<subseteq> {..<length h}"
    using branch_rep_addrs [OF p(5)] own_subset [of h S] by blast
  have nib: "nibble (it_key old) j = nibble ?k j" if "j < n" for j
    using m_walk_tips [OF t(2), of "(ty, old)" ?k] w that by (simp add: t(1))
  have after: "key_after n ?k (it_key old)"
    by (rule key_afterI) (use old nib in auto)
  obtain mt' h' R' where a: "split_loop sha ty it old p (nid_at ?k n) (length h) mt (h @ [new_inner ?w]) = Done (Inr True, mt', h')"
    "mt_cowid mt' = ?w" "rep sha h' ?w (mt_root mt') (m_put 0 (length p) ?k (m_split n ty it old) t) R'" "grown h (own h R) h' R'"
    using split_loop_spec [OF up refl t(3) S it e(4) after] by blast
  have add: "m_add ty it t = m_put 0 (length p) ?k (m_split n ty it old) t"
    by (simp add: m_add_def w p(2))
  show ?thesis
  proof (rule changesI [OF _ a(2) t(3) a(3) [folded add] _ _ a(4)])
    show "add_item_with fetch backed sha ty it mt h = Done (Inr True, mt', h')"
      using it a(1) p(6) e(1,3) old
      by (simp add: add_item_with_def walk_end_def tip_ok_def add_with_leaf_split_def Let_def alloc_def)
    show "m_ok 0 (m_add ty it t)"
      using m_add_ok(1) [OF t(2) w [unfolded t(1)] it] old by (simp add: t(1))
    show "\<exists>ts. m_add ty it t = MFork ts"
      using m_put_fork [OF p(3), of 0 ?k "m_split n ty it old" ts] p(2) add by (simp add: t(1) del: m_put.simps)
  qed
qed

lemma add_spec_refused:
  assumes h: "holds sha h mt t R" and w: "m_walk 0 (it_key it) t = (n, s)" and b: "backed \<longrightarrow> no_stub t" and ty: "ty \<noteq> NT_Inner"
  shows "s = MTip ty' old \<Longrightarrow> it_key old = it_key it \<Longrightarrow> add_item_with fetch backed sha ty it mt h = Done (Inr False, mt, h)"
    and "s = MTip ty' old \<Longrightarrow> it_key old \<noteq> it_key it \<Longrightarrow> ty' \<noteq> ty \<Longrightarrow>
      add_item_with fetch backed sha ty it mt h = Done (Inl (CrossTypeChange ty ty'), mt, h)"
    and "s = MStub hs \<Longrightarrow> add_item_with fetch backed sha ty it mt h = Done (Inl (MutTraversal (MissingNode hs)), mt, h)"
proof -
  obtain p e S where p: "branch_rep (rep sha h (mt_cowid mt)) e s S"
    "walk_towards_key_with_path fetch backed (mt_root mt) (it_key it) h = Done (walk_end (it_key it) n p e, h)"
    by (rule holds_walk [OF h w b, where fetch = fetch]) blast
  show "add_item_with fetch backed sha ty it mt h = Done (Inl (MutTraversal (MissingNode hs)), mt, h)" if "s = MStub hs"
    using p(1) by (rule branch_repE) (use that p(2) ty in \<open>auto simp: add_item_with_def walk_end_def\<close>)
  assume "s = MTip ty' old"
  with p(1) obtain v c cw where "e = Some (v, Some c)" "h ! c = LeafNode cw (leaf_hash sha ty' old) ty' old"
    using end_leaf by metis
  then show "it_key old = it_key it \<Longrightarrow> add_item_with fetch backed sha ty it mt h = Done (Inr False, mt, h)"
    "it_key old \<noteq> it_key it \<Longrightarrow> ty' \<noteq> ty \<Longrightarrow> add_item_with fetch backed sha ty it mt h = Done (Inl (CrossTypeChange ty ty'), mt, h)"
    using p(2) ty by (auto simp: add_item_with_def walk_end_def add_with_leaf_split_def)
qed

text \<open>Finding a key.\<close>

lemma find_spec:
  assumes h: "holds sha h mt t R" and w: "m_walk 0 k t = (n, s)" and b: "backed \<longrightarrow> no_stub t"
  shows "s = MStub hs \<Longrightarrow> find_key fetch backed (mt_root mt) k h = Done (Inl (MissingNode hs), h)"
    and "\<not> (\<exists>hs. s = MStub hs) \<Longrightarrow> \<exists>r. find_key fetch backed (mt_root mt) k h = Done (Inr r, h) \<and>
      map_option (\<lambda>a. (get_type (h ! a), peek_item (h ! a))) r = map_option (apsnd Some) (m_get 0 k t)"
proof -
  obtain ts where t: "t = MFork ts" "m_ok 0 t" using h by (auto simp: holds_def)
  obtain p e S where p: "branch_rep (rep sha h (mt_cowid mt)) e s S" "\<not> (\<exists>ts. s = MFork ts)"
    "walk_towards_key_impl fetch backed k (mt_root mt) nid_default [] h = Done (walk_end k n p e, h)"
    by (rule holds_walk [OF h w b, where fetch = fetch]) (simp add: walk_towards_key_with_path_def)
  note find = find_key_def walk_towards_key_def p(3) walk_end_def
  show "find_key fetch backed (mt_root mt) k h = Done (Inl (MissingNode hs), h)" if "s = MStub hs"
    using p(1) by (rule branch_repE) (use that in \<open>auto simp: find\<close>)
  assume st: "\<not> (\<exists>hs. s = MStub hs)"
  show "\<exists>r. find_key fetch backed (mt_root mt) k h = Done (Inr r, h) \<and>
      map_option (\<lambda>a. (get_type (h ! a), peek_item (h ! a))) r = map_option (apsnd Some) (m_get 0 k t)"
  proof (cases s)
    case MNil
    then have "e = None" using p(1) by (auto elim: branch_repE)
    then show ?thesis using MNil w by (simp add: find m_get_def)
  next
    case (MTip ty it)
    with p(1) obtain v c cw where "e = Some (v, Some c)" "h ! c = LeafNode cw (leaf_hash sha ty it) ty it"
      using end_leaf by metis
    then show ?thesis using MTip w by (simp add: find m_get_def)
  qed (use st p(2) in auto)
qed

section \<open>Updating\<close>

lemma m_put_same: "m_ok d t \<Longrightarrow> m_walk d k t = (n, s) \<Longrightarrow> m_put d n k s t = t"
proof (induction d k t arbitrary: n rule: m_walk.induct)
  case (1 d k ts)
  note ok = m_okD [OF 1(2)]
  then obtain m where m: "n = Suc m" "m_walk (Suc d) k (ts ! nibble k d) = (m, s)"
    using 1(3) by (auto simp: m_walk_fork simp del: m_walk.simps)
  then show ?case
    using 1(1) [OF _ _ m(2)] ok by simp
qed simp_all

lemma unshare_leaf:
  assumes "c < length h" and "h ! c = LeafNode cw (leaf_hash sha ty old) ty old" and "cw = 0 \<or> cw = w" and "tip_ok ty old"
    and "mt_cowid mt = w" and "w \<noteq> 0" and "0 < d"
  obtains c' h1 where "unshare_node c (nid_at k d) mt h = Done (c', mt, h1)" and "h1 ! c' = LeafNode w (leaf_hash sha ty old) ty old"
    and "c' < length h1" and "if cw = w then c' = c \<and> h1 = h else c' = length h \<and> h1 = h @ [LeafNode w (leaf_hash sha ty old) ty old]"
proof (cases "cw = w")
  case True
  then show thesis
    using assms by (intro that [of c h]) (simp_all add: unshare_node_def)
next
  case False
  then show thesis
    using assms by (intro that [of "length h" "h @ [LeafNode w (leaf_hash sha ty old) ty old]"])
      (auto simp: unshare_node_def new_leaf_with_hash_def tip_ok_def MIN_SHAMAP_ITEM_BYTES_def alloc_def nid_is_root_def)
qed

lemma update_spec:
  assumes h: "holds sha h mt t R" and w: "m_walk 0 (it_key it) t = (n, MTip ty old)" and b: "backed \<longrightarrow> no_stub t"
    and it: "tip_ok ty it" and old: "it_key old = it_key it" and coll: "leaf_hash sha ty it = leaf_hash sha ty old \<Longrightarrow> it = old"
  shows "changes sha (update_item_with fetch backed sha ty it mt h) mt h R (m_update ty it t)"
proof -
  let ?k = "it_key it" and ?w = "mt_cowid mt"
  let ?new = "LeafNode ?w (leaf_hash sha ty it) ty it"
  obtain ts where t: "t = MFork ts" "m_ok 0 (MFork ts)" "?w \<noteq> 0" "rep sha h ?w (mt_root mt) t R" using h by (auto simp: holds_def)
  obtain p e S where p: "spine sha h ?w ?k 0 (mt_root mt) t R p e (MTip ty old) S" "length p = n" "0 < n" "n \<le> 64"
    "branch_rep (rep sha h ?w) e (MTip ty old) S" "walk_towards_key_with_path fetch backed (mt_root mt) ?k h = Done (walk_end ?k n p e, h)"
    by (rule holds_walk [OF h w b, where fetch = fetch]) blast
  obtain v c cw where e: "e = Some (v, Some c)" "c < length h" "h ! c = LeafNode cw (leaf_hash sha ty old) ty old"
    "cw = 0 \<or> cw = ?w" "S = {c}" "tip_ok ty old"
    by (rule end_leaf [OF p(5)])
  obtain c' h1 where u: "unshare_node c (nid_at ?k n) mt h = Done (c', mt, h1)" "h1 ! c' = LeafNode ?w (leaf_hash sha ty old) ty old"
    "c' < length h1" "if cw = ?w then c' = c \<and> h1 = h else c' = length h \<and> h1 = h @ [LeafNode ?w (leaf_hash sha ty old) ty old]"
    by (rule unshare_leaf [OF e(2,3,4,6) refl t(3) p(3), where k = ?k]) blast
  have "set_item sha it (h1 ! c') = Done (leaf_hash sha ty old \<noteq> leaf_hash sha ty it, ?new)"
    using u(2) t(3) it by (simp add: compute_leaf_hash_Done tip_ok_def)
  then have upd: "update_item_with fetch backed sha ty it mt h =
      (if leaf_hash sha ty old \<noteq> leaf_hash sha ty it
       then bind_outcome (dirty_up p ?k c' mt (h1[c' := ?new])) (\<lambda>(root, mt, h). Done (Inr True, mt\<lparr>mt_root := root\<rparr>, h))
       else Done (Inr True, mt, h1[c' := ?new]))"
    using p(6) e(1,3) it old u(1) by (simp add: update_item_with_def walk_end_def tip_ok_def)
  have g: "grown h (own h S) (h1[c' := ?new]) {c'}"
    using u(4) e t(3) by (auto simp: grown_def own_def nth_append nth_list_update split: if_splits)
  have put: "m_update ty it t = m_put 0 (length p) ?k (MTip ty it) t"
    by (simp add: m_update_def w p(2))
  have ok: "m_ok 0 (m_update ty it t)"
    using m_update_ok(1) [OF t(2) w [unfolded t(1)] it old] by (simp add: t(1))
  have fork: "\<exists>ts. m_update ty it t = MFork ts"
    using m_put_fork [OF p(3), of 0 ?k "MTip ty it" ts] p(2) put by (simp add: t(1) del: m_put.simps)
  show ?thesis
  proof (cases "leaf_hash sha ty old = leaf_hash sha ty it")
    case False
    have leaf: "rep sha (h1[c' := ?new]) ?w c' (MTip ty it) {c'}"
      by (rule rep.tip [where cw = ?w]) (use u(3) it in auto)
    obtain a' mt' h2 R2 where r: "dirty_up p ?k c' mt (h1[c' := ?new]) = Done (a', mt', h2)" "mt_cowid mt' = ?w"
      "rep sha h2 ?w a' (m_put 0 (length p) ?k (MTip ty it) t) R2" "grown h (own h R) h2 R2"
      using replace_spine [OF p(1) t(3) _ refl g leaf] p(2,4) by auto
    show ?thesis
      by (rule changesI [where mt' = "mt'\<lparr>mt_root := a'\<rparr>" and h' = h2 and R' = R2]) (use upd False r t(3) put ok fork in simp_all)
  next
    case True
    then have it_old: "it = old" using coll by simp
    have same: "h1[c' := ?new] ! x = h ! x" if "x < length h" for x
      using u(4) e(2,3) it_old that by (auto simp: nth_append nth_list_update split: if_splits)
    have R: "R \<subseteq> {..<length h}" by (rule rep_addrs(2) [OF t(4)])
    have len: "length h \<le> length (h1[c' := ?new])"
      using u(4) by (auto split: if_splits)
    have "m_update ty it t = t"
      using m_put_same [OF t(2) w [unfolded t(1)]] put t(1) p(2) it_old by simp
    moreover have "rep sha (h1[c' := ?new]) ?w (mt_root mt) t R"
      by (rule rep_frame [OF t(4) len same]) (use R in auto)
    moreover have "own (h1[c' := ?new]) R = own h R"
      by (rule own_cong, rule same) (use R in auto)
    then have "grown h (own h R) (h1[c' := ?new]) R"
      using same len by (auto simp: grown_def)
    ultimately show ?thesis
      using upd True t(3) ok fork by (intro changesI [where mt' = mt and h' = "h1[c' := ?new]" and R' = R]) simp_all
  qed
qed

lemma update_spec_refused:
  assumes h: "holds sha h mt t R" and w: "m_walk 0 (it_key it) t = (n, s)" and b: "backed \<longrightarrow> no_stub t" and ty: "ty \<noteq> NT_Inner"
  shows "s = MNil \<or> (\<exists>ty' old. s = MTip ty' old \<and> it_key old \<noteq> it_key it) \<Longrightarrow>
      update_item_with fetch backed sha ty it mt h = Done (Inl (MissingExactLeaf (it_key it)), mt, h)"
    and "s = MTip ty' old \<Longrightarrow> it_key old = it_key it \<Longrightarrow> ty' \<noteq> ty \<Longrightarrow>
      update_item_with fetch backed sha ty it mt h = Done (Inl (CrossTypeChange ty ty'), mt, h)"
    and "s = MStub hs \<Longrightarrow> update_item_with fetch backed sha ty it mt h = Done (Inl (MutTraversal (MissingNode hs)), mt, h)"
proof -
  obtain p e S where p: "branch_rep (rep sha h (mt_cowid mt)) e s S"
    "walk_towards_key_with_path fetch backed (mt_root mt) (it_key it) h = Done (walk_end (it_key it) n p e, h)"
    by (rule holds_walk [OF h w b, where fetch = fetch]) blast
  note defs = update_item_with_def walk_end_def
  show "update_item_with fetch backed sha ty it mt h = Done (Inl (MutTraversal (MissingNode hs)), mt, h)" if "s = MStub hs"
    using p(1) by (rule branch_repE) (use that p(2) ty in \<open>auto simp: defs\<close>)
  have leaf: "\<exists>v c cw. e = Some (v, Some c) \<and> h ! c = LeafNode cw (leaf_hash sha ty' old) ty' old" if "s = MTip ty' old" for ty' old
    using p(1) that end_leaf by metis
  show "update_item_with fetch backed sha ty it mt h = Done (Inl (CrossTypeChange ty ty'), mt, h)"
    if "s = MTip ty' old" "it_key old = it_key it" "ty' \<noteq> ty"
    using leaf [OF that(1)] that p(2) ty by (auto simp: defs)
  show "update_item_with fetch backed sha ty it mt h = Done (Inl (MissingExactLeaf (it_key it)), mt, h)"
    if "s = MNil \<or> (\<exists>ty' old. s = MTip ty' old \<and> it_key old \<noteq> it_key it)"
    using that
  proof
    assume "s = MNil"
    then have "e = None" using p(1) by (auto elim: branch_repE)
    then show ?thesis using p(2) ty by (simp add: defs)
  next
    assume "\<exists>ty' old. s = MTip ty' old \<and> it_key old \<noteq> it_key it"
    then obtain ty' old where "s = MTip ty' old" "it_key old \<noteq> it_key it" by blast
    then show ?thesis using leaf p(2) ty by (fastforce simp: defs)
  qed
qed

end
