(* ===== verification/Shamap_Delete.thy ===== *)
theory Shamap_Delete
  imports Shamap_Ops
begin

text \<open>
  Deleting a key: the leaf goes, inner nodes left empty go with it, and an inner node above a single leaf is
  replaced by that leaf, which is what the deletion on abstract trees does.
\<close>

section \<open>The only leaf below a node\<close>

lemma only_child_next: "only_child n bs (Some c) = (if filter (\<lambda>i. \<not> is_empty_branch n i) bs = [] then Some c else None)"
  by (induction bs) (auto split: option.split)

lemma only_child_eq:
  "only_child n bs None = (case filter (\<lambda>i. \<not> is_empty_branch n i) bs of [i] \<Rightarrow> get_child n i | _ \<Rightarrow> None)"
proof (induction bs)
  case (Cons b bs)
  then show ?case
    by (auto simp: only_child_next split: option.split list.split)
qed simp

lemma live_nth: "live ts = map (nth ts) (filter (\<lambda>i. ts ! i \<noteq> MNil) [0..<length ts])"
proof -
  have "live ts = live (map (nth ts) [0..<length ts])"
    by (simp add: map_nth)
  then show ?thesis
    by (simp add: live_def filter_map comp_def)
qed

lemma fork_live:
  assumes "fork_rep (rep sha h w) sha h w a cw hs f ts Rs"
  shows "filter (\<lambda>i. \<not> is_empty_branch (h ! a) i) [0..<16] = filter (\<lambda>i. ts ! i \<noteq> MNil) [0..<16]"
    and "branch_count (h ! a) = length (live ts)"
proof -
  note d = fork_repD [OF assms]
  have iff: "f i \<noteq> None \<longleftrightarrow> ts ! i \<noteq> MNil" if "i < 16" for i
    using d(5) [OF that] by (rule branch_repE) auto
  show "filter (\<lambda>i. \<not> is_empty_branch (h ! a) i) [0..<16] = filter (\<lambda>i. ts ! i \<noteq> MNil) [0..<16]"
    by (rule filter_cong) (use iff table_simps(7) [OF d(2)] in auto)
  have "{i. i < 16 \<and> f i \<noteq> None} = set (filter (\<lambda>i. ts ! i \<noteq> MNil) [0..<16])"
    using iff by auto
  also have "card \<dots> = length (filter (\<lambda>i. ts ! i \<noteq> MNil) [0..<16])"
    by (rule distinct_card) simp
  finally show "branch_count (h ! a) = length (live ts)"
    unfolding table_simps(10) [OF d(2)] live_nth d(4) by simp
qed

definition leaf_at :: "heap \<Rightarrow> addr \<Rightarrow> shamap_node_type \<times> shamap_item \<Rightarrow> bool" where
  "leaf_at h a x \<longleftrightarrow> get_type (h ! a) = fst x \<and> peek_item (h ! a) = Some (snd x)"

lemma only_below_spec:
  assumes "rep sha h w a t R" and "m_ok d t" and "d \<le> 64" and "66 \<le> d + fuel"
  shows "\<exists>r. only_below_loaded_leaf fuel a h = Done r \<and> rel_option (leaf_at h) r (sole t)"
  using assms
proof (induction t arbitrary: a R d fuel)
  case (MTip ty it)
  obtain cw where "h ! a = LeafNode cw (leaf_hash sha ty it) ty it"
    using MTip.prems(1) by (rule rep_tipE)
  then show ?case
    using MTip.prems(3,4) by (cases fuel) (auto simp: leaf_at_def)
next
  case (MFork ts)
  note ok = m_okD [OF MFork.prems(2)]
  obtain fuel' where fuel: "fuel = Suc fuel'" using MFork.prems(4) ok(1) by (cases fuel) auto
  obtain cw hs f Rs where fork: "fork_rep (rep sha h w) sha h w a cw hs f ts Rs"
    by (rule rep_forkE [OF MFork.prems(1)])
  note r = fork_repD [OF fork]
  let ?L = "filter (\<lambda>i. ts ! i \<noteq> MNil) [0..<16]"
  have only: "only_child (h ! a) [0..<BRANCH_FACTOR] None = (case ?L of [i] \<Rightarrow> get_child (h ! a) i | _ \<Rightarrow> None)"
    unfolding only_child_eq BRANCH_FACTOR_def fork_live(1) [OF fork] ..
  have live: "live ts = map (nth ts) ?L"
    using live_nth [of ts] ok(2) by simp
  show ?case
  proof (cases "\<exists>i. ?L = [i]")
    case True
    then obtain i where L: "?L = [i]" by blast
    have "i \<in> set ?L" unfolding L by simp
    then have i: "i < 16" by simp
    have child: "get_child (h ! a) i = slot_child (f i)"
      by (rule table_simps(9) [OF r(2) i])
    note step = only child fuel table_simps(3) [OF r(2)] L live
    from r(5) [OF i] show ?thesis
    proof (cases rule: branch_repE)
      case (node v c)
      have "\<exists>r. only_below_loaded_leaf fuel' c h = Done r \<and> rel_option (leaf_at h) r (sole (ts ! i))"
        by (rule MFork.IH [OF _ node(2) ok(3) [OF i]]) (use ok i MFork.prems(4) fuel in auto)
      with node(1) show ?thesis
        by (simp add: step slot_child_def)
    qed (simp_all add: step slot_child_def)
  next
    case False
    then have "only_child (h ! a) [0..<BRANCH_FACTOR] None = None" "sole (MFork ts) = None"
      unfolding only by (auto simp: live split: list.splits)
    then show ?thesis
      using fuel table_simps(3) [OF r(2)] by simp
  qed
qed auto

lemma sole_live: "sole (MFork ts) = Some x \<Longrightarrow> \<exists>u. live ts = [u]"
  by (auto split: list.splits)

lemma select_only_live:
  assumes "fork_rep (rep sha h w) sha h w a cw hs f ts Rs" and "live ts \<noteq> []"
  obtains i where "select_only_branch (h ! a) = Some i" and "i < 16"
proof -
  have "\<exists>i. i < 16 \<and> \<not> is_empty_branch (h ! a) i"
  proof (rule ccontr)
    assume "\<not> ?thesis"
    then have "filter (\<lambda>i. \<not> is_empty_branch (h ! a) i) [0..<16] = []" by auto
    then show False
      using assms(2) live_nth [of ts] fork_repD(4) [OF assms(1)] unfolding fork_live(1) [OF assms(1)] by simp
  qed
  then have "select_only_branch (h ! a) \<noteq> None"
    by (auto simp: select_only_branch_def BRANCH_FACTOR_def find_None_iff)
  then obtain i where i: "select_only_branch (h ! a) = Some i" by blast
  then have "i < 16"
    by (auto simp: select_only_branch_def BRANCH_FACTOR_def find_Some_iff)
  with i show thesis by (rule that)
qed

section \<open>One step up\<close>

definition link :: "addr option \<Rightarrow> (uint256 \<times> addr option) option" where
  "link c = map_option (\<lambda>c. (0, Some c)) c"

lemma delete_link:
  assumes fork: "fork_rep (rep sha h w) sha h w a cw hs f ts Rs" and w: "w \<noteq> 0" and i: "i < 16"
    and g: "grown h (own h (Rs i)) h1 S" and br: "branch_rep (rep sha h1 w) (link prev) u S" and mt: "mt_cowid mt = w"
  obtains a' mt' h2 nd f' Rs' where "unshare_node a nid mt h1 = Done (a', mt', h2)"
    and "set_child i prev (h2 ! a') = Done nd" and "mt_cowid mt' = w" and "a' < length h2" and "a' \<in> own h (insert a (\<Union>i<16. Rs i)) \<union> {length h..}"
    and "fork_rep (rep sha (h2[a' := nd]) w) sha (h2[a' := nd]) w a' w 0 f' (ts[i := u]) Rs'"
    and "grown h (own h (insert a (\<Union>i<16. Rs i))) (h2[a' := nd]) (insert a' (\<Union>i<16. Rs' i))"
proof -
  note d = fork_repD [OF fork]
  note o = fork_own [OF fork w i]
  let ?R = "insert a (\<Union>i<16. Rs i)"
  have R: "?R = insert a (Rs i \<union> rest i Rs)"
    using Union_rest [OF i] by blast
  have in_h: "insert a (rest i Rs) \<subseteq> {..<length h}"
    using rest_addrs [OF fork] d(1) by auto
  have len: "length h \<le> length h1" using g by (simp add: grown_def)
  have same: "h1 ! x = h ! x" if "x \<in> insert a (rest i Rs)" for x
    by (rule grown_same [OF g]) (use that in_h o in auto)
  have sep: "own h1 S \<inter> insert a (rest i Rs) = {}"
    using g o in_h unfolding grown_def by force
  obtain a' mt' h2 nd where u: "unshare_node a nid mt h1 = Done (a', mt', h2)"
    "set_child i prev (h2 ! a') = Done nd" "mt_cowid mt' = w" "a' < length h2" "length h1 \<le> length h2"
    and tab: "table nd w 0 (f(i := map_option (\<lambda>c. (0, Some c)) prev))"
    and fork2: "fork_rep (rep sha (h2[a' := nd]) w) sha (h2[a' := nd]) w a' w 0 (f(i := map_option (\<lambda>c. (0, Some c)) prev))
       (ts[i := u]) (Rs(i := S))"
    and keep: "\<And>x. x < length h1 \<Longrightarrow> x \<noteq> a' \<Longrightarrow> h2[a' := nd] ! x = h1 ! x"
    and eq: "if cw = w then a' = a else a' = length h1"
    by (rule graft [OF fork w i len _ mt br [unfolded link_def] sep, of nid], erule same) blast
  let ?h = "h2[a' := nd]"
  have a': "a' \<in> own h ?R \<union> {length h..}"
    using eq len w table_simps(1) [OF d(2)] by (auto simp: own_insert split: if_splits)
  have sub: "own h (Rs i) \<subseteq> own h ?R" unfolding R by (rule own_mono) auto
  have "own ?h (insert a' (S \<union> rest i Rs)) \<subseteq> own h ?R \<union> {length h..}"
  proof
    fix x assume x: "x \<in> own ?h (insert a' (S \<union> rest i Rs))"
    show "x \<in> own h ?R \<union> {length h..}"
    proof (cases "x = a'")
      case False
      then have x': "x \<in> S \<union> rest i Rs" "n_cowid (?h ! x) \<noteq> 0" using x by (auto simp: own_def)
      then have "x < length h1" using branch_rep_addrs [OF br] in_h len by auto
      then have c: "n_cowid (h1 ! x) \<noteq> 0" using x'(2) keep [of x] False by simp
      show ?thesis
      proof (cases "x \<in> S")
        case True
        then have "x \<in> own h1 S" using c by (simp add: own_def)
        then show ?thesis using g sub unfolding grown_def by blast
      next
        case False
        then have "x \<in> rest i Rs" using x'(1) by blast
        then show ?thesis using c same [of x] unfolding R by (auto simp: own_def)
      qed
    qed (use a' in blast)
  qed
  moreover have "?h ! x = h ! x" if x: "x < length h" "x \<notin> own h ?R" for x
  proof -
    have "?h ! x = h1 ! x" by (rule keep) (use x len a' in auto)
    also have "h1 ! x = h ! x" by (rule grown_same [OF g x(1)]) (use x(2) sub in blast)
    finally show ?thesis .
  qed
  ultimately have "grown h (own h ?R) ?h (insert a' (\<Union>j<16. (Rs(i := S)) j))"
    unfolding Union_upd [OF i] using len u(5) by (simp add: grown_def)
  with u(1-4) fork2 a' show thesis
    by (intro that)
qed

lemma grown_put_alloc:
  assumes "grown h W h2 R" and "a \<in> W \<union> {length h..}"
  shows "grown h W (h2[a := nd] @ [n]) {length h2}"
proof -
  have "h2[a := nd] ! x = h ! x" if "x < length h" "x \<notin> W" for x
  proof -
    have "x \<noteq> a" using assms(2) that by auto
    then show ?thesis using assms(1) that by (simp add: grown_def)
  qed
  then show ?thesis
    using assms(1) unfolding grown_def by (auto simp: nth_append own_def)
qed

lemma collapse:
  assumes fork: "fork_rep (rep sha h w) sha h w a w 0 f ts Rs" and w: "w \<noteq> 0" and sole: "sole (MFork ts) = Some (ty, it)"
    and ok: "m_ok d (MFork ts)"
  obtains c nd i where "branch_count (h ! a) = 1" and "only_below_loaded_leaf (SHAMAP_LEAF_DEPTH + 2) a h = Done (Some c)"
    and "get_type (h ! c) = ty" and "peek_item (h ! c) = Some it" and "tip_ok ty it"
    and "select_only_branch (h ! a) = Some i" and "set_child i None (h ! a) = Done nd"
proof -
  obtain v where v: "live ts = [v]" using sole_live [OF sole] by blast
  have d: "d < 64" by (rule m_okD(1) [OF ok])
  obtain c where c: "only_below_loaded_leaf (SHAMAP_LEAF_DEPTH + 2) a h = Done (Some c)" "leaf_at h c (ty, it)"
    using only_below_spec [OF rep.fork [OF fork] ok, of "SHAMAP_LEAF_DEPTH + 2"] d sole
    by (auto simp: SHAMAP_LEAF_DEPTH_def option_rel_Some2 simp del: sole.simps)
  obtain i where i: "select_only_branch (h ! a) = Some i" "i < 16"
    by (rule select_only_live [OF fork]) (use v in auto)
  obtain nd where "set_child i None (h ! a) = Done nd"
    by (rule set_child_None [OF fork_repD(2) [OF fork] w i(2)])
  moreover have "tip_ok ty it"
    using tips_ok [OF ok, of "(ty, it)"] sole_tips [OF sole] by (simp del: tips.simps)
  ultimately show thesis
    using that c i fork_live(2) [OF fork] v by (simp add: leaf_at_def)
qed

lemma delete_step_spec:
  assumes fork: "fork_rep (rep sha h w) sha h w a cw hs f ts Rs" and w: "w \<noteq> 0" and mt: "mt_cowid mt = w"
    and g: "grown h (own h (Rs (nibble k d))) h1 S" and br: "branch_rep (rep sha h1 w) (link prev) u S"
    and ok: "m_ok d (MFork (ts[nibble k d := u]))"
  shows "\<exists>prev' mt' h2 R2. delete_step sha k (a, nid_at k d) (prev, mt, h1) = Done (prev', mt', h2) \<and> mt_cowid mt' = w \<and>
    grown h (own h (insert a (\<Union>i<16. Rs i))) h2 R2 \<and>
    (if d = 0 then rep sha h2 w (mt_root mt') (MFork (ts[nibble k d := u])) R2
     else branch_rep (rep sha h2 w) (link prev') (shrink (ts[nibble k d := u])) R2)"
proof -
  let ?i = "nibble k d" let ?ts = "ts[?i := u]" and ?W = "own h (insert a (\<Union>i<16. Rs i))"
  have d: "d < 64" by (rule m_okD(1) [OF ok])
  obtain a' mt' h2 nd f' Rs' where u: "unshare_node a (nid_at k d) mt h1 = Done (a', mt', h2)"
    "set_child ?i prev (h2 ! a') = Done nd" "mt_cowid mt' = w" "a' < length h2" "a' \<in> ?W \<union> {length h..}"
    "fork_rep (rep sha (h2[a' := nd]) w) sha (h2[a' := nd]) w a' w 0 f' ?ts Rs'"
    "grown h ?W (h2[a' := nd]) (insert a' (\<Union>i<16. Rs' i))"
    by (rule delete_link [OF fork w nibble_less g br mt])
  let ?h = "h2[a' := nd]"
  note rep = rep.fork [OF u(6)]
  have bc: "branch_count (?h ! a') = length (live ?ts)" by (rule fork_live(2) [OF u(6)])
  have nd: "?h ! a' = nd" using u(4) by simp
  have isr: "nid_is_root (nid_at k d) \<longleftrightarrow> d = 0" by (simp add: nid_is_root_def)
  note step = delete_step_def u(1,2) Let_def select_branch_at [OF d]
  consider (root) "d = 0" | (gone) "d \<noteq> 0" "live ?ts = []" | (keep) "d \<noteq> 0" "live ?ts \<noteq> []" "sole (MFork ?ts) = None"
    | (leaf) ty it where "d \<noteq> 0" "sole (MFork ?ts) = Some (ty, it)"
    by (cases "sole (MFork ?ts)") auto
  then show ?thesis
  proof cases
    case root
    then have "nid_is_root (nid_at k d)" using isr by blast
    then have "delete_step sha k (a, nid_at k d) (prev, mt, h1) = Done (None, mt'\<lparr>mt_root := a'\<rparr>, ?h)"
      by (simp add: step)
    with root show ?thesis
      using u(3,7) rep by (intro exI [of _ None] exI [of _ "mt'\<lparr>mt_root := a'\<rparr>"] exI [of _ ?h]) auto
  next
    case gone
    have "grown h ?W ?h {}" using u(7) by (simp add: grown_def)
    with gone show ?thesis
      using u(3) bc nd by (intro exI [of _ None] exI [of _ mt'] exI [of _ ?h] exI [of _ "{}"])
        (simp add: step isr shrink_def link_def branch_rep_def)
  next
    case keep
    have "\<exists>r. only_below_loaded_leaf (SHAMAP_LEAF_DEPTH + 2) a' ?h = Done r \<and> rel_option (leaf_at ?h) r None"
      using only_below_spec [OF rep ok] d keep(3) by (simp add: SHAMAP_LEAF_DEPTH_def del: sole.simps)
    then have "only_below_loaded_leaf (SHAMAP_LEAF_DEPTH + 2) a' ?h = Done None" by simp
    with keep show ?thesis
      using u(3,7) bc nd rep by (intro exI [of _ "Some a'"] exI [of _ mt'] exI [of _ ?h])
        (auto simp: step isr shrink_def link_def branch_rep_def simp del: sole.simps)
  next
    case (leaf ty it)
    obtain c nd' i where c: "branch_count (?h ! a') = 1" "only_below_loaded_leaf (SHAMAP_LEAF_DEPTH + 2) a' ?h = Done (Some c)"
      "get_type (?h ! c) = ty" "peek_item (?h ! c) = Some it" "tip_ok ty it"
      "select_only_branch (?h ! a') = Some i" "set_child i None (?h ! a') = Done nd'"
      by (rule collapse [OF u(6) w leaf(2) ok])
    let ?h' = "?h[a' := nd'] @ [LeafNode w (leaf_hash sha ty it) ty it]"
    have "delete_step sha k (a, nid_at k d) (prev, mt, h1) = Done (Some (length h2), mt', ?h')"
      using leaf(1) c u(3) nd by (simp add: step isr alloc_def new_leaf_Done)
    moreover have "grown h ?W ?h' {length h2}"
      using grown_put_alloc [OF u(7,5)] by simp
    moreover have "rep sha ?h' w (length h2) (MTip ty it) {length h2}"
      by (rule rep.tip [where cw = w]) (use c(5) in \<open>auto simp: nth_append\<close>)
    moreover have "live ?ts \<noteq> []" using sole_live [OF leaf(2)] by auto
    then have "shrink ?ts = MTip ty it" using leaf(2) by (simp add: shrink_def)
    ultimately show ?thesis
      using leaf(1) u(3) by (intro exI [of _ "Some (length h2)"] exI [of _ mt'] exI [of _ ?h'] exI [of _ "{length h2}"])
        (simp add: link_def branch_rep_def)
  qed
qed

section \<open>The whole way up\<close>

lemma spine_walk: "spine sha h w k d a t R p e s S \<Longrightarrow> \<not> (\<exists>ts. s = MFork ts) \<Longrightarrow> snd (m_walk d k t) = s"
proof (induction rule: spine.induct)
  case (last a cw hs f ts Rs d)
  then show ?case
    using fork_repD(4) [OF last.hyps] by (cases "ts ! nibble k d") (simp_all add: m_walk_fork del: m_walk.simps(1))
next
  case (step a cw hs f ts Rs d v c p e s S)
  then show ?case
    using fork_repD(4) [OF step.hyps(1)] by (simp add: m_walk_fork del: m_walk.simps)
qed

lemma delete_up:
  assumes "spine sha h w k d a t R p e s S" and w: "w \<noteq> 0" and mt: "mt_cowid mt = w" and "m_ok d t"
    and "s = MTip ty old" and "it_key old = k"
  shows "\<exists>prev mt' h2 R2. fold_outcome (delete_step sha k) (rev p) (None, mt, h) = Done (prev, mt', h2) \<and> mt_cowid mt' = w \<and>
    grown h (own h R) h2 R2 \<and>
    (if d = 0 then rep sha h2 w (mt_root mt') (m_del d k t) R2 else branch_rep (rep sha h2 w) (link prev) (m_del d k t) R2)"
  using assms(1,4,5,6)
proof (induction rule: spine.induct)
  case (last a cw hs f ts Rs d)
  let ?i = "nibble k d"
  note ok = m_okD [OF last.prems(1)]
  have del: "m_del (Suc d) k (ts ! ?i) = MNil" using last.prems(2) by simp
  have ok': "m_ok d (MFork (ts[?i := MNil]))"
    by (rule m_ok_fork_upd [OF last.prems(1)]) auto
  have g: "grown h (own h (Rs ?i)) h {}" by (simp add: grown_def)
  have br: "branch_rep (rep sha h w) (link None) MNil {}" by (simp add: branch_rep_def link_def)
  have eq: "m_del d k (MFork ts) = (if d = 0 then MFork (ts[?i := MNil]) else shrink (ts[?i := MNil]))"
    using ok(2) del by (simp add: Let_def)
  show ?case
    unfolding eq using delete_step_spec [OF last.hyps w mt g br ok'] by (auto simp: fold_outcome_single)
next
  case (step a cw hs f ts Rs d v c p e s S)
  let ?i = "nibble k d" let ?u = "m_del (Suc d) k (ts ! ?i)"
  note ok = m_okD [OF step.prems(1)]
  obtain prev mt1 h1 R1 where IH: "fold_outcome (delete_step sha k) (rev p) (None, mt, h) = Done (prev, mt1, h1)" "mt_cowid mt1 = w"
    "grown h (own h (Rs ?i)) h1 R1" "branch_rep (rep sha h1 w) (link prev) ?u R1"
    using step.IH [OF ok(3) [OF nibble_less] step.prems(2,3)] by auto
  have walk: "snd (m_walk (Suc d) k (ts ! ?i)) = MTip ty old"
    using spine_walk [OF step.hyps(3)] step.prems(2) by simp
  have del: "m_ok (Suc d) ?u" "tips ?u = tips (ts ! ?i) - {(ty, old)}"
    using m_del_ok [OF ok(3) [OF nibble_less] walk step.prems(3)] by auto
  have ok': "m_ok d (MFork (ts[?i := ?u]))"
    by (rule m_ok_fork_upd [OF step.prems(1) nibble_less del(1)]) (use del(2) ok(4) [OF nibble_less] in auto)
  have eq: "m_del d k (MFork ts) = (if d = 0 then MFork (ts[?i := ?u]) else shrink (ts[?i := ?u]))"
    using ok(2) by (simp add: Let_def)
  show ?case
    unfolding eq using delete_step_spec [OF step.hyps(1) w IH(2-4) ok'] IH(1) by (auto simp: fold_outcome_append fold_outcome_single)
qed

lemma delete_spec:
  assumes h: "holds sha h mt t R" and w: "m_walk 0 k t = (n, MTip ty old)" and old: "it_key old = k"
  shows "changes sha (delete_item sha k mt h) mt h R (m_del 0 k t)"
proof -
  let ?w = "mt_cowid mt"
  obtain ts where t: "t = MFork ts" "m_ok 0 t" "?w \<noteq> 0" using h by (auto simp: holds_def)
  obtain p e S where p: "spine sha h ?w k 0 (mt_root mt) t R p e (MTip ty old) S"
    "branch_rep (rep sha h ?w) e (MTip ty old) S" "walk_towards_key_with_path no_fetch False (mt_root mt) k h = Done (walk_end k n p e, h)"
    by (rule holds_walk [OF h w, where fetch = no_fetch and backed = False]) blast+
  obtain v c cw where e: "e = Some (v, Some c)" "h ! c = LeafNode cw (leaf_hash sha ty old) ty old"
    by (rule end_leaf [OF p(2)]) blast
  obtain prev mt' h2 R2 where r: "fold_outcome (delete_step sha k) (rev p) (None, mt, h) = Done (prev, mt', h2)" "mt_cowid mt' = ?w"
    "grown h (own h R) h2 R2" "rep sha h2 ?w (mt_root mt') (m_del 0 k t) R2"
    using delete_up [OF p(1) t(3) refl t(2) refl old] by auto
  show ?thesis
  proof (rule changesI [OF _ r(2) t(3) r(4) _ _ r(3)])
    show "delete_item sha k mt h = Done (Inr True, mt', h2)"
      using p(3) e old r(1) by (simp add: delete_item_def walk_end_def)
    show "m_ok 0 (m_del 0 k t)"
      using m_del_ok [OF t(2), of k ty old] w old by simp
    show "\<exists>ts. m_del 0 k t = MFork ts"
      by (simp add: t(1) Let_def)
  qed
qed

lemma delete_spec_refused:
  assumes h: "holds sha h mt t R" and w: "m_walk 0 k t = (n, s)"
  shows "s = MNil \<or> (\<exists>ty' old. s = MTip ty' old \<and> it_key old \<noteq> k) \<Longrightarrow> delete_item sha k mt h = Done (Inr False, mt, h)"
    and "s = MStub hs \<Longrightarrow> delete_item sha k mt h = Done (Inl (MutTraversal (MissingNode hs)), mt, h)"
proof -
  obtain p e S where p: "branch_rep (rep sha h (mt_cowid mt)) e s S"
    "walk_towards_key_with_path no_fetch False (mt_root mt) k h = Done (walk_end k n p e, h)"
    by (rule holds_walk [OF h w, where fetch = no_fetch and backed = False]) blast+
  note defs = delete_item_def walk_end_def
  show "delete_item sha k mt h = Done (Inl (MutTraversal (MissingNode hs)), mt, h)" if "s = MStub hs"
    using p(1) by (rule branch_repE) (use that p(2) in \<open>auto simp: defs\<close>)
  show "delete_item sha k mt h = Done (Inr False, mt, h)" if "s = MNil \<or> (\<exists>ty' old. s = MTip ty' old \<and> it_key old \<noteq> k)"
    using that
  proof
    assume "s = MNil"
    then have "e = None" using p(1) by (auto elim: branch_repE)
    then show ?thesis using p(2) by (simp add: defs)
  next
    assume "\<exists>ty' old. s = MTip ty' old \<and> it_key old \<noteq> k"
    then obtain ty' old where "s = MTip ty' old" "it_key old \<noteq> k" by blast
    moreover from this obtain v c cw where "e = Some (v, Some c)" "h ! c = LeafNode cw (leaf_hash sha ty' old) ty' old"
      using p(1) end_leaf by metis
    ultimately show ?thesis using p(2) by (simp add: defs)
  qed
qed

end
