(* ===== verification/Shamap_Flush.thy ===== *)
theory Shamap_Flush
  imports Shamap_Ops
begin

text \<open>
  Flushing a tree and taking a snapshot. After a flush every node of the tree is shared and has its hash, the root
  hash is that of the abstract tree, and the number returned is the number of nodes that were the tree's own. A
  snapshot is a copy of the nodes the tree owns, shared and hashed, and represents the same abstract tree.
\<close>

section \<open>Closing an inner node\<close>

lemma rep_hash: "rep sha h w a t R \<Longrightarrow> n_cowid (h ! a) = 0 \<Longrightarrow> n_hash (h ! a) = mhash sha t"
proof (induction rule: rep.induct)
  case (fork a cw hs f ts Rs)
  note d = fork_repD [OF fork.IH]
  show ?case
    using d(9) fork.prems table_simps(1,2) [OF d(2)] by simp
qed simp

lemma rep_not_nil: "rep sha h w a t R \<Longrightarrow> t \<noteq> MNil"
  by (auto elim: rep.cases)

lemma rep_leaf: "rep sha h w a t R \<Longrightarrow> \<not> is_inner (h ! a) \<Longrightarrow> \<exists>ty it. t = MTip ty it"
  by (induction rule: rep.induct) (auto dest: fork_repD(2) table_simps(3))

lemma own_root: "rep sha h w a t R \<Longrightarrow> own h R = {} \<Longrightarrow> n_cowid (h ! a) = 0"
  using rep_addrs(1) [of sha h w a t R] by (auto simp: own_def)

lemma fresh_hash:
  assumes "branch_rep (rep sha h w) s t R" and "own h R = {}"
  shows "slot_hash (fresh_slot (\<lambda>a. n_hash (h ! a)) s) = mhash sha t" and "fresh_slot g s = None \<longleftrightarrow> t = MNil"
    and "branch_rep (rep sha h w) (fresh_slot g s) t R"
proof -
  show "slot_hash (fresh_slot (\<lambda>a. n_hash (h ! a)) s) = mhash sha t"
    using assms(1) by (rule branch_repE)
      (use assms(2) in \<open>auto simp: slot_hash_def fresh_slot_def rep_hash own_root\<close>)
  show "fresh_slot g s = None \<longleftrightarrow> t = MNil"
    using assms(1) by (rule branch_repE) (auto simp: fresh_slot_def dest: rep_not_nil)
  show "branch_rep (rep sha h w) (fresh_slot g s) t R"
    using assms(1) by (rule branch_repE) (auto simp: fresh_slot_def branch_rep_def)
qed

lemma close_fork:
  assumes a: "a < length h" "table (h ! a) cw hs f" and ts: "length ts = 16"
    and br: "\<And>i. i < 16 \<Longrightarrow> branch_rep (rep sha h w) (f i) (ts ! i) (Rs i)"
    and own: "\<And>i. i < 16 \<Longrightarrow> own h (Rs i) = {}" and out: "\<And>i. i < 16 \<Longrightarrow> a \<notin> Rs i"
  obtains nd where "update_hash_deep sha (\<lambda>a. n_hash (h ! a)) (h ! a) = Done nd"
    and "rep sha (h[a := unshare nd]) w a (MFork ts) (insert a (\<Union>i<16. Rs i))"
    and "own (h[a := unshare nd]) (insert a (\<Union>i<16. Rs i)) = {}"
proof -
  let ?f = "\<lambda>i. fresh_slot (\<lambda>a. n_hash (h ! a)) (f i)"
  obtain nd where nd: "update_hash_deep sha (\<lambda>a. n_hash (h ! a)) (h ! a) = Done nd" "table nd cw (table_hash sha ?f) ?f"
    by (rule update_hash_deep_table [OF a(2)])
  note fr = fresh_hash [OF br own]
  let ?h = "h[a := unshare nd]"
  have tab: "table (?h ! a) 0 (table_hash sha ?f) ?f"
    using set_cowid_table [OF nd(2)] a(1) by (simp add: unshare_def)
  have "map (\<lambda>i. slot_hash (?f i)) [0..<16] = map (mhash sha) ts"
    by (rule nth_equalityI) (use ts fr(1) in auto)
  moreover have "(\<forall>i<16. ?f i = None) \<longleftrightarrow> (\<forall>t \<in> set ts. t = MNil)"
    using fr(2) ts by (simp add: all_set_conv_all_nth)
  ultimately have hash: "table_hash sha ?f = mhash sha (MFork ts)"
    by (simp add: table_hash_def)
  have own': "own ?h (Rs i) = {}" if "i < 16" for i
    using own [OF that] out [OF that] own_cong [of "Rs i" ?h h] by (metis nth_list_update_neq)
  have "branch_rep (rep sha ?h w) (?f i) (ts ! i) (Rs i)" if "i < 16" for i
    by (rule branch_rep_frame [OF fr(3) [OF that that]]) (simp, metis out [OF that] nth_list_update_neq)
  then have "fork_rep (rep sha ?h w) sha ?h w a 0 (table_hash sha ?f) ?f ts Rs"
    using a(1) tab ts own' hash fr(1) unfolding fork_rep_def by simp
  then have "rep sha ?h w a (MFork ts) (insert a (\<Union>i<16. Rs i))"
    by (rule rep.fork)
  moreover from this have "own ?h (insert a (\<Union>i<16. Rs i)) = {}"
    by (rule rep_own_root) (use tab table_simps(1) in blast)
  ultimately show thesis
    using nd(1) that by blast
qed

section \<open>Flushing\<close>

definition resume ::
  "'h sha_ops \<Rightarrow> nat \<Rightarrow> 's writer option \<Rightarrow> (addr \<times> nat) list \<Rightarrow> addr \<Rightarrow> nat \<Rightarrow> 's \<Rightarrow> heap \<Rightarrow> (addr \<times> nat \<times> 's \<times> heap) outcome option" where
  "resume sha w writer stack a n s h =
     (case stack of
        [] \<Rightarrow> Some (Done (a, n, s, h))
      | (parent, branch) # stack \<Rightarrow>
          (case share_child branch a (h ! parent) of
             Done nd \<Rightarrow> walk_subtree_loop sha w writer parent stack (branch + 1) n s (h[parent := nd])
           | Panic \<Rightarrow> Some Panic
           | OutOfFuel \<Rightarrow> Some OutOfFuel))"

lemma flush_step:
  assumes fork: "fork_rep (rep sha h w) sha h w a w hs f ts Rs" and w: "w \<noteq> 0" and i: "i < 16"
    and len: "length h' = length h" and same: "\<And>x. x \<notin> own h (Rs i) \<Longrightarrow> x \<noteq> a \<Longrightarrow> h' ! x = h ! x"
    and tab: "table (h' ! a) w hs f" and br: "branch_rep (rep sha h' w) (f i) (ts ! i) (Rs i)" and own: "own h' (Rs i) = {}"
  shows "fork_rep (rep sha h' w) sha h' w a w hs f ts Rs" and "j < 16 \<Longrightarrow> j \<noteq> i \<Longrightarrow> own h' (Rs j) = own h (Rs j)"
proof -
  note d = fork_repD [OF fork]
  have keep: "h' ! x = h ! x" if "x \<in> Rs j" "j < 16" "j \<noteq> i" for x j
    by (rule same) (use that d(6) [OF i that(2)] d(8) [OF that(2) w] in auto)
  show own': "own h' (Rs j) = own h (Rs j)" if "j < 16" "j \<noteq> i" for j
    by (rule own_cong) (rule keep [OF _ that])
  have brs: "branch_rep (rep sha h' w) (f j) (ts ! j) (Rs j)" if "j < 16" for j
    by (cases "j = i") (use br branch_rep_frame [OF d(5) [OF that], of h'] len keep [OF _ that] in auto)
  have sep: "own h' (Rs j) \<inter> Rs l = {}" if "j < 16" "l < 16" "j \<noteq> l" for j l
    using own own' [OF that(1)] d(6) [OF that] by (cases "j = i") auto
  show "fork_rep (rep sha h' w) sha h' w a w hs f ts Rs"
    using d(1,3,4,8,9,10) w len tab brs sep unfolding fork_rep_def by (auto simp del: mhash.simps)
qed

definition flushed :: "heap \<Rightarrow> addr set \<Rightarrow> heap \<Rightarrow> bool" where
  "flushed h R h' \<longleftrightarrow> length h' = length h \<and> (\<forall>x. x \<notin> own h R \<longrightarrow> h' ! x = h ! x) \<and> own h' R = {}"

definition pending :: "heap \<Rightarrow> addr \<Rightarrow> (nat \<Rightarrow> addr set) \<Rightarrow> nat \<Rightarrow> addr set" where
  "pending h a Rs pos = own h (insert a (\<Union>i \<in> {pos..<16}. Rs i))"

lemma pending_step:
  assumes "fork_rep (rep sha h w) sha h w a w hs f ts Rs" and "w \<noteq> 0" and "pos < 16"
  shows "card (pending h a Rs pos) = card (own h (Rs pos)) + card (pending h a Rs (Suc pos))"
proof -
  note d = fork_repD [OF assms(1)]
  have fin: "finite (Rs i)" if "i < 16" for i
    using branch_rep_addrs [OF d(5) [OF that]] finite_subset by blast
  have "pending h a Rs pos = own h (Rs pos) \<union> pending h a Rs (Suc pos)"
  proof -
    have "{pos..<16} = insert pos {Suc pos..<16}" using assms(3) by auto
    then show ?thesis by (auto simp: pending_def own_def)
  qed
  moreover have "own h (Rs pos) \<inter> pending h a Rs (Suc pos) = {}"
    using d(6) [OF assms(3)] d(8) [OF assms(3,2)] by (fastforce simp: pending_def own_def)
  moreover have "finite (own h (Rs pos))" "finite (pending h a Rs (Suc pos))"
    using fin assms(3) unfolding pending_def own_def by simp_all
  ultimately show ?thesis
    by (simp add: card_Un_disjoint)
qed

lemma share_child_same:
  assumes "table n w hs f" and "w \<noteq> 0" and "i < 16" and "f i = Some (v, Some c)"
  obtains nd where "share_child i c n = Done nd" and "table nd w hs f"
  using share_child_table [OF assms, of c] assms(4) by (metis fun_upd_triv)

lemma flush_leaf:
  assumes "rep sha h w c (MTip ty it) R" and "n_cowid (h ! c) = w" and "w \<noteq> 0"
  shows "flush_node sha None (\<lambda>h. update_hash sha) c s h = Done (c, s, h[c := LeafNode 0 (leaf_hash sha ty it) ty it])"
    and "flushed h R (h[c := LeafNode 0 (leaf_hash sha ty it) ty it])"
    and "rep sha (h[c := LeafNode 0 (leaf_hash sha ty it) ty it]) w c (MTip ty it) R" and "card (own h R) = 1"
proof -
  obtain cw where c: "c < length h" "h ! c = LeafNode cw (leaf_hash sha ty it) ty it" "tip_ok ty it" "R = {c}"
    using assms(1) by (rule rep_tipE)
  show "flush_node sha None (\<lambda>h. update_hash sha) c s h = Done (c, s, h[c := LeafNode 0 (leaf_hash sha ty it) ty it])"
    using c by (simp add: flush_node_def maybe_write_node_def compute_leaf_hash_Done tip_ok_def unshare_def)
  have own: "own h R = {c}"
    using c assms(2,3) by (auto simp: own_def)
  then show "card (own h R) = 1" by simp
  show "flushed h R (h[c := LeafNode 0 (leaf_hash sha ty it) ty it])"
    unfolding flushed_def own using c by (auto simp: own_def)
  show "rep sha (h[c := LeafNode 0 (leaf_hash sha ty it) ty it]) w c (MTip ty it) R"
    unfolding c(4) by (rule rep.tip [where cw = 0]) (use c in auto)
qed

lemma loop_skip:
  assumes "pos < 16" and "is_empty_branch (h ! a) pos \<or> get_child (h ! a) pos = None \<or>
    (\<exists>c. get_child (h ! a) pos = Some c \<and> n_cowid (h ! c) = 0)"
  shows "walk_subtree_loop sha w wr a stack pos n s h = walk_subtree_loop sha w wr a stack (Suc pos) n s h"
  using assms by (subst walk_subtree_loop.simps) (auto simp: BRANCH_FACTOR_def)

lemma loop_leaf:
  assumes "pos < 16" and "\<not> is_empty_branch (h ! a) pos" and "get_child (h ! a) pos = Some c" and "n_cowid (h ! c) = w" and "w \<noteq> 0"
    and "\<not> is_inner (h ! c)" and "flush_node sha None (\<lambda>h. update_hash sha) c s h = Done (c, s, h1)"
    and "share_child pos c (h1 ! a) = Done nd"
  shows "walk_subtree_loop sha w None a stack pos n s h = walk_subtree_loop sha w None a stack (Suc pos) (Suc n) s (h1[a := nd])"
  using assms by (subst walk_subtree_loop.simps) (simp add: BRANCH_FACTOR_def pre_flush_node_def)

lemma loop_inner:
  assumes "pos < 16" and "\<not> is_empty_branch (h ! a) pos" and "get_child (h ! a) pos = Some c" and "n_cowid (h ! c) = w" and "w \<noteq> 0"
    and "is_inner (h ! c)"
  shows "walk_subtree_loop sha w wr a stack pos n s h = walk_subtree_loop sha w wr c ((a, pos) # stack) 0 n s h"
  using assms by (subst walk_subtree_loop.simps) (simp add: BRANCH_FACTOR_def pre_flush_node_def)

lemma loop_end:
  assumes "update_hash_deep sha (\<lambda>a. n_hash (h ! a)) (h ! a) = Done nd"
  shows "walk_subtree_loop sha w None a stack 16 n s h = resume sha w None stack a (n + 1) s (h[a := unshare nd])"
  unfolding resume_def using assms
  by (subst walk_subtree_loop.simps) (simp add: BRANCH_FACTOR_def flush_node_def maybe_write_node_def split: list.split)

text \<open>One branch of a node: the loop moves on past it with everything below it shared.\<close>

definition passes ::
  "'h sha_ops \<Rightarrow> nat \<Rightarrow> heap \<Rightarrow> addr \<Rightarrow> mtree \<Rightarrow> addr set \<Rightarrow> bool" where
  "passes sha w h c t R \<longleftrightarrow>
     (\<forall>a pos stack n (s :: unit). is_inner (h ! c) \<longrightarrow> (\<exists>h'. walk_subtree_loop sha w None c ((a, pos) # stack) 0 n s h =
        resume sha w None ((a, pos) # stack) c (n + card (own h R)) s h' \<and> rep sha h' w c t R \<and> flushed h R h'))"

lemma loop_branch:
  fixes s :: unit
  assumes fork: "fork_rep (rep sha h w) sha h w a w hs f ts Rs" and w: "w \<noteq> 0" and pos: "pos < 16"
    and child: "\<And>v c. f pos = Some (v, Some c) \<Longrightarrow> n_cowid (h ! c) \<noteq> 0 \<Longrightarrow> passes sha w h c (ts ! pos) (Rs pos)"
  shows "\<exists>h'. walk_subtree_loop sha w None a stack pos n s h =
      walk_subtree_loop sha w None a stack (Suc pos) (n + card (own h (Rs pos))) s h' \<and>
    length h' = length h \<and> (\<forall>x. x \<notin> own h (Rs pos) \<longrightarrow> x \<noteq> a \<longrightarrow> h' ! x = h ! x) \<and> own h' (Rs pos) = {} \<and>
    table (h' ! a) w hs f \<and> branch_rep (rep sha h' w) (f pos) (ts ! pos) (Rs pos)"
proof -
  note d = fork_repD [OF fork]
  note tab = table_simps(7,9) [OF d(2) pos]
  have skip: ?thesis if "own h (Rs pos) = {}" "is_empty_branch (h ! a) pos \<or> get_child (h ! a) pos = None \<or>
      (\<exists>c. get_child (h ! a) pos = Some c \<and> n_cowid (h ! c) = 0)"
    using loop_skip [OF pos that(2)] that(1) d(2) d(5) [OF pos] by (intro exI [of _ h]) simp
  from d(5) [OF pos] show ?thesis
  proof (cases rule: branch_repE)
    case (node v c)
    have c: "\<not> is_empty_branch (h ! a) pos" "get_child (h ! a) pos = Some c"
      using tab node(1) by (simp_all add: slot_child_def)
    show ?thesis
    proof (cases "n_cowid (h ! c) = 0")
      case True
      then show ?thesis using skip c rep_own_root [OF node(2)] by blast
    next
      case False
      then have cw: "n_cowid (h ! c) = w"
        using rep_addrs(3) [OF node(2) rep_addrs(1) [OF node(2)]] by simp
      have "\<exists>h1 nd. walk_subtree_loop sha w None a stack pos n s h =
          walk_subtree_loop sha w None a stack (Suc pos) (n + card (own h (Rs pos))) s (h1[a := nd]) \<and>
          flushed h (Rs pos) h1 \<and> rep sha h1 w c (ts ! pos) (Rs pos) \<and> table nd w hs f"
      proof (cases "is_inner (h ! c)")
        case True
        obtain h1 where h1: "walk_subtree_loop sha w None c ((a, pos) # stack) 0 n s h =
            resume sha w None ((a, pos) # stack) c (n + card (own h (Rs pos))) s h1" "rep sha h1 w c (ts ! pos) (Rs pos)" "flushed h (Rs pos) h1"
          using child [OF node(1) False] True unfolding passes_def by blast
        have "a \<notin> own h (Rs pos)" using d(8) [OF pos w] own_subset by blast
        then have "h1 ! a = h ! a" using h1(3) by (simp add: flushed_def)
        then obtain nd where "share_child pos c (h1 ! a) = Done nd" "table nd w hs f"
          using share_child_same [OF d(2) w pos node(1)] by metis
        with h1 show ?thesis
          using loop_inner [OF pos c cw w True, of sha None stack n s] by (auto simp: resume_def)
      next
        case leaf: False
        then obtain ty it where ts: "ts ! pos = MTip ty it"
          using rep_leaf [OF node(2)] by blast
        note fl = flush_leaf [OF node(2) [unfolded ts] cw w]
        let ?h1 = "h[c := LeafNode 0 (leaf_hash sha ty it) ty it]"
        have "a \<noteq> c" using d(8) [OF pos w] rep_addrs(1) [OF node(2)] by blast
        then have "?h1 ! a = h ! a" by simp
        then obtain nd where "share_child pos c (?h1 ! a) = Done nd" "table nd w hs f"
          using share_child_same [OF d(2) w pos node(1)] by metis
        then show ?thesis
          using loop_leaf [OF pos c cw w leaf fl(1) [where s = s]] fl(2-4) ts by (intro exI [of _ ?h1] exI [of _ nd]) simp
      qed
      then obtain h1 nd where h1: "walk_subtree_loop sha w None a stack pos n s h =
          walk_subtree_loop sha w None a stack (Suc pos) (n + card (own h (Rs pos))) s (h1[a := nd])"
        "flushed h (Rs pos) h1" "rep sha h1 w c (ts ! pos) (Rs pos)" "table nd w hs f" by blast
      have a: "a \<notin> Rs pos" by (rule d(8) [OF pos w])
      have same: "h1[a := nd] ! x = h1 ! x" if "x \<in> Rs pos" for x
        using a that by (metis nth_list_update_neq)
      have "rep sha (h1[a := nd]) w c (ts ! pos) (Rs pos)"
        by (rule rep_frame [OF h1(3) _ same]) simp
      moreover have "own (h1[a := nd]) (Rs pos) = {}"
        using own_cong [OF same] h1(2) by (simp add: flushed_def)
      ultimately show ?thesis
        using h1(1,2,4) d(1) node(1) by (intro exI [of _ "h1[a := nd]"]) (simp add: flushed_def branch_rep_def)
    qed
  qed (use skip tab in \<open>simp_all add: slot_child_def\<close>)
qed

lemma flush_loop:
  fixes s :: unit
  assumes "fork_rep (rep sha h w) sha h w a w hs f ts Rs" and w: "w \<noteq> 0" and "pos \<le> 16"
    and "\<And>j. j < pos \<Longrightarrow> own h (Rs j) = {}"
    and child: "\<And>i h c R. i < 16 \<Longrightarrow> rep sha h w c (ts ! i) R \<Longrightarrow> n_cowid (h ! c) \<noteq> 0 \<Longrightarrow> passes sha w h c (ts ! i) R"
  shows "\<exists>h'. walk_subtree_loop sha w None a stack pos n s h = resume sha w None stack a (n + card (pending h a Rs pos)) s h' \<and>
    rep sha h' w a (MFork ts) (insert a (\<Union>i<16. Rs i)) \<and> flushed h (insert a (\<Union>i<16. Rs i)) h'"
  using assms(1,3,4)
proof (induction "16 - pos" arbitrary: pos n h)
  case 0
  note d = fork_repD [OF 0(2)]
  have pos: "pos = 16" using 0 by simp
  have own: "own h (insert a (\<Union>i<16. Rs i)) = {a}" "pending h a Rs 16 = {a}"
    using 0(4) pos w table_simps(1) [OF d(2)] by (simp_all add: pending_def own_insert)
  obtain nd where nd: "update_hash_deep sha (\<lambda>a. n_hash (h ! a)) (h ! a) = Done nd"
    "rep sha (h[a := unshare nd]) w a (MFork ts) (insert a (\<Union>i<16. Rs i))"
    "own (h[a := unshare nd]) (insert a (\<Union>i<16. Rs i)) = {}"
    by (rule close_fork [OF d(1,2,4,5)]) (use 0(4) pos d(8) w in auto)
  show ?case
    using loop_end [OF nd(1)] nd(2,3) by (intro exI [of _ "h[a := unshare nd]"]) (simp add: pos own flushed_def)
next
  case (Suc m)
  have pos: "pos < 16" using Suc(2) by simp
  note d = fork_repD [OF Suc.prems(1)]
  have ch: "passes sha w h c (ts ! pos) (Rs pos)" if "f pos = Some (v, Some c)" "n_cowid (h ! c) \<noteq> 0" for v c
    by (rule child [OF pos _ that(2)]) (use d(5) [OF pos] that(1) in \<open>simp add: branch_rep_def\<close>)
  obtain h1 where h1: "walk_subtree_loop sha w None a stack pos n s h =
      walk_subtree_loop sha w None a stack (Suc pos) (n + card (own h (Rs pos))) s h1"
    "length h1 = length h" "\<And>x. x \<notin> own h (Rs pos) \<Longrightarrow> x \<noteq> a \<Longrightarrow> h1 ! x = h ! x" "own h1 (Rs pos) = {}"
    "table (h1 ! a) w hs f" "branch_rep (rep sha h1 w) (f pos) (ts ! pos) (Rs pos)"
    using loop_branch [OF Suc.prems(1) w pos, of stack n s] ch by blast
  have fs: "fork_rep (rep sha h1 w) sha h1 w a w hs f ts Rs" "\<And>j. j < 16 \<Longrightarrow> j \<noteq> pos \<Longrightarrow> own h1 (Rs j) = own h (Rs j)"
    using flush_step [OF Suc.prems(1) w pos h1(2) _ h1(5,6,4)] h1(3) by blast+
  have own: "own h1 (Rs j) = {}" if "j < Suc pos" for j
    using that h1(4) fs(2) [of j] Suc.prems(3) [of j] pos by (cases "j = pos") auto
  have "\<exists>h'. walk_subtree_loop sha w None a stack (Suc pos) (n + card (own h (Rs pos))) s h1 =
      resume sha w None stack a (n + card (own h (Rs pos)) + card (pending h1 a Rs (Suc pos))) s h' \<and>
      rep sha h' w a (MFork ts) (insert a (\<Union>i<16. Rs i)) \<and> flushed h1 (insert a (\<Union>i<16. Rs i)) h'"
    by (rule Suc.hyps(1) [OF _ fs(1)]) (use Suc(2) pos own in auto)
  then obtain h' where h': "walk_subtree_loop sha w None a stack (Suc pos) (n + card (own h (Rs pos))) s h1 =
      resume sha w None stack a (n + card (own h (Rs pos)) + card (pending h1 a Rs (Suc pos))) s h'"
    "rep sha h' w a (MFork ts) (insert a (\<Union>i<16. Rs i))" "flushed h1 (insert a (\<Union>i<16. Rs i)) h'"
    by blast
  have aw: "n_cowid (h1 ! a) = w" "n_cowid (h ! a) = w"
    using table_simps(1) [OF h1(5)] table_simps(1) [OF d(2)] by simp_all
  have "pending h1 a Rs (Suc pos) = pending h a Rs (Suc pos)"
    unfolding pending_def using fs(2) aw by (simp add: own_insert)
  moreover have sub: "own h1 (insert a (\<Union>i<16. Rs i)) \<subseteq> own h (insert a (\<Union>i<16. Rs i))"
    using fs(2) h1(4) aw w by (auto simp: own_insert)
  moreover have "flushed h (insert a (\<Union>i<16. Rs i)) h'"
  proof -
    have "h1 ! x = h ! x" if "x \<notin> own h (insert a (\<Union>i<16. Rs i))" for x
      by (rule h1(3)) (use that pos aw w in \<open>auto simp: own_insert\<close>)
    then show ?thesis
      using h'(3) h1(2) sub unfolding flushed_def by auto
  qed
  ultimately show ?case
    using h1(1) h'(1,2) pending_step [OF Suc.prems(1) w pos] by (intro exI [of _ h']) (simp add: add.assoc)
qed

lemma all_pass:
  assumes "w \<noteq> 0"
  shows "rep sha h w c t R \<Longrightarrow> n_cowid (h ! c) \<noteq> 0 \<Longrightarrow> passes sha w h c t R"
proof (induction t arbitrary: h c R)
  case (MTip ty it)
  then show ?case by (auto simp: passes_def elim: rep_tipE)
next
  case (MFork ts)
  obtain cw hs f Rs where fork: "fork_rep (rep sha h w) sha h w c cw hs f ts Rs" and R: "R = insert c (\<Union>i<16. Rs i)"
    by (rule rep_forkE [OF MFork.prems(1)])
  note d = fork_repD [OF fork]
  have cw: "cw = w" using MFork.prems(2) table_simps(1) [OF d(2)] d(3) by simp
  have pend: "pending h c Rs 0 = own h R"
    unfolding pending_def R by (simp add: lessThan_atLeast0)
  have "\<exists>h'. walk_subtree_loop sha w None c stack 0 n s h = resume sha w None stack c (n + card (pending h c Rs 0)) s h' \<and>
      rep sha h' w c (MFork ts) (insert c (\<Union>i<16. Rs i)) \<and> flushed h (insert c (\<Union>i<16. Rs i)) h'" for stack n and s :: unit
    by (rule flush_loop [OF fork [unfolded cw] assms]) (use MFork.IH d(4) in auto)
  then show ?case
    unfolding passes_def pend R by blast
qed simp_all

lemma flush_empty:
  assumes fork: "fork_rep (rep sha h w) sha h w a w hs f ts Rs" and e: "is_empty (h ! a)"
  shows "(\<Union>i<16. Rs i) = {}" and "rep sha (h @ [new_inner 0]) w (length h) (MFork ts) {length h}" and "mhash sha (MFork ts) = 0"
proof -
  note d = fork_repD [OF fork]
  have f: "f i = None" if "i < 16" for i
    using e table_simps(6) [OF d(2)] that by simp
  have ts: "ts ! i = MNil" "Rs i = {}" if "i < 16" for i
    using d(5) [OF that] f [OF that] by (auto elim: branch_repE)
  then show "(\<Union>i<16. Rs i) = {}" by simp
  show h0: "mhash sha (MFork ts) = 0"
    using ts(1) d(4) by (auto simp: in_set_conv_nth)
  have "fork_rep (rep sha (h @ [new_inner 0]) w) sha (h @ [new_inner 0]) w (length h) 0 0 (\<lambda>_. None) ts (\<lambda>_. {})"
    using new_inner_table [of 0] d(4) ts(1) h0 unfolding fork_rep_def by (simp add: branch_rep_def slot_hash_def del: mhash.simps(4))
  then show "rep sha (h @ [new_inner 0]) w (length h) (MFork ts) {length h}"
    using rep.fork by fastforce
qed

lemma unshare_spec:
  assumes h: "holds sha h mt t R"
  shows "\<exists>mt' h' R'. mt_unshare sha mt h = Some (Done (card (own h R), mt', h')) \<and> mt_cowid mt' = mt_cowid mt \<and>
    holds sha h' mt' t R' \<and> own h' R' = {} \<and> n_hash (h' ! mt_root mt') = mhash sha t \<and> grown h (own h R) h' R'"
proof -
  let ?w = "mt_cowid mt" and ?a = "mt_root mt"
  obtain ts where t: "t = MFork ts" "m_ok 0 t" "?w \<noteq> 0" "rep sha h ?w ?a t R" using h by (auto simp: holds_def)
  have hash: "n_hash (h' ! a') = mhash sha t" if "rep sha h' ?w a' t R'" "own h' R' = {}" for h' a' R'
    by (rule rep_hash [OF that(1)]) (rule own_root [OF that])
  have "\<exists>a' h' R'. walk_subtree_impl sha ?w (None :: unit writer option) ?a () h = Some (Done (a', card (own h R), (), h')) \<and>
      rep sha h' ?w a' t R' \<and> own h' R' = {} \<and> grown h (own h R) h' R'"
  proof (cases "n_cowid (h ! ?a) = 0")
    case True
    then have "own h R = {}" using rep_own_root [OF t(4)] by simp
    then show ?thesis
      using t(4) True grown_refl [of h R] by (intro exI [of _ ?a] exI [of _ h] exI [of _ R]) (simp add: walk_subtree_impl_def)
  next
    case False
    obtain cw hs f Rs where fork: "fork_rep (rep sha h ?w) sha h ?w ?a cw hs f ts Rs" and R: "R = insert ?a (\<Union>i<16. Rs i)"
      by (rule rep_forkE [OF t(4) [unfolded t(1)]])
    note d = fork_repD [OF fork]
    have cw: "cw = ?w" "n_cowid (h ! ?a) = ?w" using False table_simps(1) [OF d(2)] d(3) by auto
    note fork = fork [unfolded cw(1)]
    have inner: "is_inner (h ! ?a)" by (rule table_simps(3) [OF d(2)])
    show ?thesis
    proof (cases "is_empty (h ! ?a)")
      case True
      note em = flush_empty [OF fork True]
      have "own h R = {?a}" unfolding R em(1) using cw t(3) by (simp add: own_insert)
      moreover have "own (h @ [new_inner 0]) {length h} = {}" by (simp add: own_def new_inner_def)
      ultimately show ?thesis
        using False inner True em(2) t(1)
        by (intro exI [of _ "length h"] exI [of _ "h @ [new_inner 0]"] exI [of _ "{length h}"])
          (simp add: walk_subtree_impl_def alloc_def grown_def nth_append)
    next
      case ne: False
      obtain h' where h': "walk_subtree_loop sha ?w None ?a [] 0 0 () h = resume sha ?w None [] ?a (0 + card (pending h ?a Rs 0)) () h'"
        "rep sha h' ?w ?a (MFork ts) (insert ?a (\<Union>i<16. Rs i))" "flushed h (insert ?a (\<Union>i<16. Rs i)) h'"
        using flush_loop [OF fork t(3) _ _ all_pass [OF t(3)], of 0 "[]" 0 "()"] by auto
      have pend: "pending h ?a Rs 0 = own h R"
        unfolding pending_def R by (simp add: lessThan_atLeast0)
      show ?thesis
        using False inner ne cw h' t(1) R pend
        by (intro exI [of _ ?a] exI [of _ h'] exI [of _ R])
          (simp add: walk_subtree_impl_def pre_flush_node_def resume_def flushed_def grown_def)
    qed
  qed
  then obtain a' h' R' where r: "walk_subtree_impl sha ?w (None :: unit writer option) ?a () h = Some (Done (a', card (own h R), (), h'))"
    "rep sha h' ?w a' t R'" "own h' R' = {}" "grown h (own h R) h' R'" by blast
  have "holds sha h' (mt\<lparr>mt_root := a'\<rparr>) t R'"
    using r(2) t by (simp add: holds_def)
  then show ?thesis
    using r hash [OF r(2,3)] by (intro exI [of _ "mt\<lparr>mt_root := a'\<rparr>"] exI [of _ h'] exI [of _ R']) (simp add: mt_unshare_def flush_dirty_def)
qed

end
