(* ===== verification/Shamap_Snapshot.thy ===== *)
theory Shamap_Snapshot
  imports Shamap_Flush
begin

text \<open>
  A snapshot: the nodes a tree owns are copied bottom up, hashed and marked shared, shared nodes are used as they
  are. The copy represents the same abstract tree, no node of it has an owner, and no existing node changes.
\<close>

definition extends :: "heap \<Rightarrow> heap \<Rightarrow> bool" where
  "extends h h' \<longleftrightarrow> length h \<le> length h' \<and> (\<forall>x < length h. h' ! x = h ! x)"

lemma extends_refl: "extends h h"
  by (simp add: extends_def)

lemma extends_trans: "extends h h1 \<Longrightarrow> extends h1 h2 \<Longrightarrow> extends h h2"
  unfolding extends_def by (auto intro: order.trans)

lemma extends_alloc: "extends h (h @ [n])"
  by (simp add: extends_def nth_append)

lemma extends_upd: "extends h h' \<Longrightarrow> length h \<le> a \<Longrightarrow> extends h (h'[a := n])"
  by (simp add: extends_def)

lemma extends_rep:
  assumes "rep sha h w a t R" and "extends h h'"
  shows "rep sha h' w a t R" and "own h' R = own h R"
proof -
  have same: "h' ! x = h ! x" if "x \<in> R" for x
    using rep_addrs(2) [OF assms(1)] assms(2) that by (auto simp: extends_def)
  show "own h' R = own h R" by (rule own_cong) (rule same)
  show "rep sha h' w a t R"
    by (rule rep_frame [OF assms(1)]) (use assms(2) same in \<open>auto simp: extends_def\<close>)
qed

lemma extends_branch:
  assumes "branch_rep (rep sha h v) s t R" and "own h R = {}" and "extends h h'"
  shows "branch_rep (rep sha h' v) s t R \<and> own h' R = {}"
  using assms(1)
proof (cases rule: branch_repE)
  case (node x c)
  then show ?thesis
    using extends_rep [OF node(2) assms(3)] assms(2) by (simp add: branch_rep_def)
qed (simp_all add: branch_rep_def)

definition clones :: "'h sha_ops \<Rightarrow> nat \<Rightarrow> heap \<Rightarrow> nat \<Rightarrow> addr \<Rightarrow> mtree \<Rightarrow> bool" where
  "clones sha v h fuel a t \<longleftrightarrow>
     (\<exists>a' h' R'. clone_loaded_subtree_as_shareable sha fuel a v h = Done (a', h') \<and> rep sha h' v a' t R' \<and>
        own h' R' = {} \<and> extends h h')"

definition clone_branch :: "'h sha_ops \<Rightarrow> nat \<Rightarrow> nat \<Rightarrow> addr \<Rightarrow> addr \<Rightarrow> nat \<Rightarrow> heap \<Rightarrow> heap outcome" where
  "clone_branch sha v fuel node cl branch h =
     (if is_empty_branch (h ! cl) branch then Done h
      else case get_child (h ! node) branch of
          None \<Rightarrow> Done h
        | Some child \<Rightarrow>
            bind_outcome (clone_loaded_subtree_as_shareable sha fuel child v h) (\<lambda>(cc, h).
            bind_outcome (set_child branch (Some cc) (h ! cl)) (\<lambda>nd. Done (h[cl := nd]))))"

definition cloned_to ::
  "'h sha_ops \<Rightarrow> nat \<Rightarrow> heap \<Rightarrow> branch_table \<Rightarrow> mtree list \<Rightarrow> nat \<Rightarrow> heap \<Rightarrow> bool" where
  "cloned_to sha v h f ts k hk \<longleftrightarrow>
     extends h hk \<and> length h < length hk \<and>
     (\<exists>hs g Rs. table (hk ! length h) v hs g \<and>
        (\<forall>i<k. branch_rep (rep sha hk v) (g i) (ts ! i) (Rs i) \<and> own hk (Rs i) = {}) \<and>
        (\<forall>i. k \<le> i \<and> i < 16 \<longrightarrow> g i = f i))"

lemma cloned_to_step:
  assumes fork: "fork_rep (rep sha h w) sha h w a cw hs f ts Rs" and v: "v \<noteq> 0" and k: "k < 16"
    and c: "cloned_to sha v h f ts k hk"
    and child: "\<And>c h R. rep sha h w c (ts ! k) R \<Longrightarrow> clones sha v h fuel c (ts ! k)"
  shows "\<exists>h'. clone_branch sha v fuel a (length h) k hk = Done h' \<and> cloned_to sha v h f ts (Suc k) h'"
proof -
  note d = fork_repD [OF fork]
  let ?cl = "length h"
  obtain hs' g Rs' where g: "extends h hk" "?cl < length hk" "table (hk ! ?cl) v hs' g"
    "\<And>i. i < k \<Longrightarrow> branch_rep (rep sha hk v) (g i) (ts ! i) (Rs' i)" "\<And>i. i < k \<Longrightarrow> own hk (Rs' i) = {}"
    "\<And>i. k \<le> i \<Longrightarrow> i < 16 \<Longrightarrow> g i = f i"
    using c unfolding cloned_to_def by blast
  have a: "hk ! a = h ! a" using g(1) d(1) by (simp add: extends_def)
  have tab: "is_empty_branch (hk ! ?cl) k \<longleftrightarrow> f k = None" "get_child (hk ! a) k = slot_child (f k)"
    using table_simps(7) [OF g(3) k] g(6) [of k] k table_simps(9) [OF d(2) k] a by simp_all
  have skip: ?thesis if "branch_rep (rep sha hk v) (f k) (ts ! k) {}" "clone_branch sha v fuel a ?cl k hk = Done hk"
  proof -
    have "branch_rep (rep sha hk v) (g i) (ts ! i) ((Rs'(k := {})) i) \<and> own hk ((Rs'(k := {})) i) = {}" if "i < Suc k" for i
      using that g(4,5) [of i] \<open>branch_rep (rep sha hk v) (f k) (ts ! k) {}\<close> g(6) [of k] k by (cases "i = k") auto
    moreover have "g i = f i" if "Suc k \<le> i \<and> i < 16" for i
      using that g(6) [of i] by simp
    ultimately have "cloned_to sha v h f ts (Suc k) hk"
      using g(1-3) unfolding cloned_to_def by blast
    with that(2) show ?thesis by blast
  qed
  from d(5) [OF k] show ?thesis
  proof (cases rule: branch_repE)
    case (node x c)
    have "rep sha hk w c (ts ! k) (Rs k)" by (rule extends_rep(1) [OF node(2) g(1)])
    then obtain cc h2 R' where r: "clone_loaded_subtree_as_shareable sha fuel c v hk = Done (cc, h2)" "rep sha h2 v cc (ts ! k) R'"
      "own h2 R' = {}" "extends hk h2"
      using child unfolding clones_def by blast
    have cl: "h2 ! ?cl = hk ! ?cl" using r(4) g(2) by (simp add: extends_def)
    obtain nd where nd: "set_child k (Some cc) (h2 ! ?cl) = Done nd" "table nd v 0 (g(k := Some (0, Some cc)))"
      unfolding cl by (rule set_child_Some [OF g(3) v k])
    let ?h = "h2[?cl := nd]"
    have clv: "n_cowid (h2 ! ?cl) = v" using cl table_simps(1) [OF g(3)] by simp
    have same: "?h ! x = h2 ! x" if "x \<in> R" "own h2 R = {}" for x R
      using that clv v by (cases "x = ?cl") (auto simp: own_def)
    have shr: "branch_rep (rep sha ?h v) s t R \<and> own ?h R = {}" if "branch_rep (rep sha h2 v) s t R" "own h2 R = {}" for s t R
      using branch_rep_frame [OF that(1), of ?h] same [OF _ that(2)] own_cong [of R ?h h2] that(2) by simp
    have old: "branch_rep (rep sha h2 v) (g i) (ts ! i) (Rs' i) \<and> own h2 (Rs' i) = {}" if "i < k" for i
      by (rule extends_branch [OF g(4,5) [OF that] r(4)])
    have "(g(k := Some (0, Some cc))) i = f i" if "Suc k \<le> i \<and> i < 16" for i
      using that g(6) [of i] by simp
    moreover have "branch_rep (rep sha ?h v) ((g(k := Some (0, Some cc))) i) (ts ! i) ((Rs'(k := R')) i) \<and>
        own ?h ((Rs'(k := R')) i) = {}" if "i < Suc k" for i
    proof (cases "i = k")
      case True
      then show ?thesis using shr [of "Some (0, Some cc)" "ts ! k" R'] r(2,3) by (simp add: branch_rep_def)
    next
      case False
      then show ?thesis using shr [of "g i" "ts ! i" "Rs' i"] old [of i] that by simp
    qed
    moreover have "extends h ?h" by (rule extends_upd [OF extends_trans [OF g(1) r(4)]]) simp
    moreover have "?cl < length ?h" "table (?h ! ?cl) v 0 (g(k := Some (0, Some cc)))"
      using g(2) r(4) nd(2) by (auto simp: extends_def)
    ultimately have "cloned_to sha v h f ts (Suc k) ?h"
      unfolding cloned_to_def by blast
    moreover have "clone_branch sha v fuel a ?cl k hk = Done ?h"
      using tab node(1) r(1) nd(1) by (simp add: clone_branch_def slot_child_def)
    ultimately show ?thesis by blast
  qed (rule skip; use tab in \<open>simp add: clone_branch_def slot_child_def branch_rep_def\<close>)+
qed

lemma clone_fold:
  assumes fork: "fork_rep (rep sha h w) sha h w a cw hs f ts Rs" and v: "v \<noteq> 0" and k: "k \<le> 16"
    and c: "cloned_to sha v h f ts 0 h0"
    and child: "\<And>i c h R. i < 16 \<Longrightarrow> rep sha h w c (ts ! i) R \<Longrightarrow> clones sha v h fuel c (ts ! i)"
  shows "\<exists>h'. fold_outcome (clone_branch sha v fuel a (length h)) [0..<k] h0 = Done h' \<and> cloned_to sha v h f ts k h'"
  using k
proof (induction k)
  case (Suc k)
  then obtain h1 where h1: "fold_outcome (clone_branch sha v fuel a (length h)) [0..<k] h0 = Done h1" "cloned_to sha v h f ts k h1"
    by auto
  have k: "k < 16" using Suc.prems by simp
  obtain h2 where "clone_branch sha v fuel a (length h) k h1 = Done h2" "cloned_to sha v h f ts (Suc k) h2"
    using cloned_to_step [OF fork v k h1(2)] child [OF k] by blast
  with h1 show ?case
    by (simp add: fold_outcome_append fold_outcome_single)
qed (use c in simp)

lemma clone_owned:
  assumes "n_cowid (h ! a) \<noteq> 0" and "clone_with_cowid v (h ! a) = Done c" and "is_inner c"
  shows "clone_loaded_subtree_as_shareable sha (Suc fuel) a v h =
    bind_outcome (fold_outcome (clone_branch sha v fuel a (length h)) [0..<16] (h @ [c])) (\<lambda>h'.
    bind_outcome (update_hash_deep sha (\<lambda>a. n_hash (h' ! a)) (h' ! length h)) (\<lambda>nd.
      Done (length h, h'[length h := nd, length h := unshare (h'[length h := nd] ! length h)])))"
  using assms unfolding clone_branch_def [abs_def]
  by (simp add: alloc_def BRANCH_FACTOR_def bind_outcome_assoc nth_append)

lemma clone_spec:
  assumes "rep sha h w a t R" and v: "v \<noteq> 0" and "m_ok d t" and "d \<le> 64" and "66 \<le> d + fuel"
  shows "clones sha v h fuel a t"
  using assms(1,3-5)
proof (induction t arbitrary: h a R d fuel)
  case (MTip ty it)
  obtain cw where a: "a < length h" "h ! a = LeafNode cw (leaf_hash sha ty it) ty it" "tip_ok ty it" "R = {a}"
    using MTip.prems(1) by (rule rep_tipE)
  obtain fuel' where fuel: "fuel = Suc fuel'" using MTip.prems by (cases fuel) auto
  show ?case
  proof (cases "cw = 0")
    case True
    then have "own h R = {}" using a by (simp add: own_def)
    then have "rep sha h v a (MTip ty it) R" by (rule rep_reown [OF MTip.prems(1)])
    with True \<open>own h R = {}\<close> show ?thesis
      unfolding clones_def using a fuel by (intro exI [of _ a] exI [of _ h] exI [of _ R]) (simp add: extends_refl)
  next
    case False
    let ?h = "h @ [LeafNode 0 (leaf_hash sha ty it) ty it]"
    have "clone_loaded_subtree_as_shareable sha fuel a v h = Done (length h, ?h)"
      using False a fuel by (simp add: alloc_def new_leaf_with_hash_def tip_ok_def MIN_SHAMAP_ITEM_BYTES_def
        compute_leaf_hash_Done unshare_def nth_append)
    moreover have "rep sha ?h v (length h) (MTip ty it) {length h}"
      by (rule rep.tip [where cw = 0]) (use a in \<open>simp_all add: nth_append\<close>)
    moreover have "own ?h {length h} = {}" by (simp add: own_def)
    ultimately show ?thesis
      unfolding clones_def using extends_alloc by blast
  qed
next
  case (MFork ts)
  note ok = m_okD [OF MFork.prems(2)]
  obtain fuel' where fuel: "fuel = Suc fuel'" using MFork.prems(4) ok(1) by (cases fuel) auto
  obtain cw hs f Rs where fork: "fork_rep (rep sha h w) sha h w a cw hs f ts Rs"
    by (rule rep_forkE [OF MFork.prems(1)])
  note r = fork_repD [OF fork]
  show ?case
  proof (cases "cw = 0")
    case True
    then have cw: "n_cowid (h ! a) = 0" using table_simps(1) [OF r(2)] by simp
    have "own h R = {}" by (rule rep_own_root [OF MFork.prems(1) cw])
    moreover from this have "rep sha h v a (MFork ts) R" by (rule rep_reown [OF MFork.prems(1)])
    ultimately show ?thesis
      unfolding clones_def using cw fuel by (intro exI [of _ a] exI [of _ h] exI [of _ R]) (simp add: extends_refl)
  next
    case False
    obtain c where c: "clone_with_cowid v (h ! a) = Done c" "table c v hs f"
      by (rule clone_table [OF r(2)])
    have "cloned_to sha v h f ts 0 (h @ [c])"
      unfolding cloned_to_def using c(2) extends_alloc by auto
    moreover have "clones sha v h' fuel' c' (ts ! i)" if "i < 16" "rep sha h' w c' (ts ! i) R'" for i c' h' R'
      by (rule MFork.IH [OF _ that(2) ok(3) [OF that(1)]]) (use that(1) ok(1,2) MFork.prems(4) fuel in auto)
    ultimately obtain h1 where h1: "fold_outcome (clone_branch sha v fuel' a (length h)) [0..<16] (h @ [c]) = Done h1"
      "cloned_to sha v h f ts 16 h1"
      using clone_fold [OF fork v order_refl] by blast
    obtain hs' g Rs' where g: "extends h h1" "length h < length h1" "table (h1 ! length h) v hs' g"
      "\<And>i. i < 16 \<Longrightarrow> branch_rep (rep sha h1 v) (g i) (ts ! i) (Rs' i)" "\<And>i. i < 16 \<Longrightarrow> own h1 (Rs' i) = {}"
      using h1(2) unfolding cloned_to_def by blast
    have out: "length h \<notin> Rs' i" if "i < 16" for i
      using g(5) [OF that] table_simps(1) [OF g(3)] v by (auto simp: own_def)
    obtain nd where nd: "update_hash_deep sha (\<lambda>a. n_hash (h1 ! a)) (h1 ! length h) = Done nd"
      "rep sha (h1[length h := unshare nd]) v (length h) (MFork ts) (insert (length h) (\<Union>i<16. Rs' i))"
      "own (h1[length h := unshare nd]) (insert (length h) (\<Union>i<16. Rs' i)) = {}"
      by (rule close_fork [OF g(2,3) r(4) g(4,5) out])
    have "clone_loaded_subtree_as_shareable sha fuel a v h = Done (length h, h1[length h := unshare nd])"
      unfolding fuel using clone_owned [of h a v c sha fuel'] False table_simps(1) [OF r(2)] table_simps(3) [OF c(2)] c(1) h1(1) nd(1) g(2)
      by simp
    moreover have "extends h (h1[length h := unshare nd])"
      by (rule extends_upd [OF g(1)]) simp
    ultimately show ?thesis
      unfolding clones_def using nd(2,3) by blast
  qed
qed simp_all

lemma snapshot_spec:
  assumes h: "holds sha h mt t R" and v: "mt_cowid mt < v"
  shows "\<exists>mt' h' R'. mutable_snapshot sha v mt h = Done (mt', h') \<and> mt_cowid mt' = v \<and> holds sha h' mt' t R' \<and>
    own h' R' = {} \<and> extends h h'"
proof -
  have t: "m_ok 0 t" "rep sha h (mt_cowid mt) (mt_root mt) t R" "\<exists>ts. t = MFork ts"
    using h by (simp_all add: holds_def)
  have "clones sha v h (SHAMAP_LEAF_DEPTH + 2) (mt_root mt) t"
    by (rule clone_spec [OF t(2) _ t(1)]) (use v in \<open>simp_all add: SHAMAP_LEAF_DEPTH_def\<close>)
  then obtain a' h' R' where r: "clone_loaded_subtree_as_shareable sha (SHAMAP_LEAF_DEPTH + 2) (mt_root mt) v h = Done (a', h')"
    "rep sha h' v a' t R'" "own h' R' = {}" "extends h h'"
    unfolding clones_def by blast
  have "mutable_snapshot sha v mt h = Done (\<lparr>mt_root = a', mt_cowid = v\<rparr>, h')"
    using v r(1) by (simp add: mutable_snapshot_def del: clone_loaded_subtree_as_shareable.simps)
  moreover have "holds sha h' \<lparr>mt_root = a', mt_cowid = v\<rparr> t R'"
    using r(2) t(1,3) v by (simp add: holds_def)
  ultimately show ?thesis
    using r(3,4) by (intro exI [of _ "\<lparr>mt_root = a', mt_cowid = v\<rparr>"] exI [of _ h'] exI [of _ R']) simp
qed

end
