(* ===== verification/Shamap_Runs.thy ===== *)
theory Shamap_Runs
  imports Shamap_Delete Shamap_Snapshot
begin

text \<open>
  Several mutable trees over one heap, used in any order through the operations of \<open>operations/mutation.rs\<close> and
  \<open>operations/search.rs\<close>. They answer like separate lists of items: taking a snapshot shares nodes between trees,
  but a change of one tree is never seen through another, and the root hash of a tree after a flush is the hash of
  a tree built afresh from its items.
\<close>

section \<open>Operations of one tree\<close>

datatype tree_cmd = TAdd shamap_item | TUpdate shamap_item | TDelete uint256 | TFind uint256 | TUnshare

datatype reply = RMut "mutation_error + bool" | RFind "shamap_item option" | RErr traversal_error | RHash uint256 | ROk | RBad

definition backed_by :: "fetcher option \<Rightarrow> fetcher \<times> bool" where
  "backed_by src = (case src of None \<Rightarrow> (no_fetch, False) | Some fetch \<Rightarrow> (fetch, True))"

fun tree_run ::
  "'h sha_ops \<Rightarrow> shamap_node_type \<Rightarrow> fetcher option \<Rightarrow> tree_cmd \<Rightarrow> mutable_tree \<Rightarrow> heap \<Rightarrow> (reply \<times> mutable_tree \<times> heap) outcome" where
  "tree_run sha ty src (TAdd it) mt h =
     bind_outcome (case src of None \<Rightarrow> add_item sha ty it mt h | Some fetch \<Rightarrow> add_item_with_fetch fetch sha ty it mt h)
       (\<lambda>(r, mt, h). Done (RMut r, mt, h))"
| "tree_run sha ty src (TUpdate it) mt h =
     bind_outcome (case src of None \<Rightarrow> update_item sha ty it mt h | Some fetch \<Rightarrow> update_item_with_fetch fetch sha ty it mt h)
       (\<lambda>(r, mt, h). Done (RMut r, mt, h))"
| "tree_run sha ty src (TDelete k) mt h = bind_outcome (delete_item sha k mt h) (\<lambda>(r, mt, h). Done (RMut r, mt, h))"
| "tree_run sha ty src (TFind k) mt h =
     bind_outcome (find_key (fst (backed_by src)) (snd (backed_by src)) (mt_root mt) k h) (\<lambda>(r, h).
       Done (case r of
               Inl e \<Rightarrow> RErr e
             | Inr None \<Rightarrow> RFind None
             | Inr (Some a) \<Rightarrow> RFind (peek_item (h ! a)), mt, h))"
| "tree_run sha ty src TUnshare mt h =
     (case mt_unshare sha mt h of
        None \<Rightarrow> OutOfFuel
      | Some r \<Rightarrow> bind_outcome r (\<lambda>(n, mt, h). Done (RHash (n_hash (h ! mt_root mt)), mt, h)))"

fun m_run :: "'h sha_ops \<Rightarrow> shamap_node_type \<Rightarrow> tree_cmd \<Rightarrow> mtree \<Rightarrow> reply \<times> mtree" where
  "m_run sha ty (TAdd it) t =
     (if m_get 0 (it_key it) t = None then (RMut (Inr True), m_add ty it t) else (RMut (Inr False), t))"
| "m_run sha ty (TUpdate it) t =
     (if m_get 0 (it_key it) t = None then (RMut (Inl (MissingExactLeaf (it_key it))), t)
      else (RMut (Inr True), m_update ty it t))"
| "m_run sha ty (TDelete k) t =
     (if m_get 0 k t = None then (RMut (Inr False), t) else (RMut (Inr True), m_del 0 k t))"
| "m_run sha ty (TFind k) t = (RFind (map_option snd (m_get 0 k t)), t)"
| "m_run sha ty TUnshare t = (RHash (mhash sha t), t)"

definition uniform :: "shamap_node_type \<Rightarrow> mtree \<Rightarrow> bool" where
  "uniform ty t \<longleftrightarrow> m_ok 0 t \<and> canon 0 t \<and> (\<exists>ts. t = MFork ts) \<and> (\<forall>x \<in> tips t. fst x = ty)"

fun cmd_ok :: "'h sha_ops \<Rightarrow> shamap_node_type \<Rightarrow> tree_cmd \<Rightarrow> mtree \<Rightarrow> bool" where
  "cmd_ok sha ty (TAdd it) t \<longleftrightarrow> tip_ok ty it"
| "cmd_ok sha ty (TUpdate it) t \<longleftrightarrow> tip_ok ty it \<and>
     (\<forall>old. (ty, old) \<in> tips t \<longrightarrow> it_key old = it_key it \<longrightarrow> leaf_hash sha ty it = leaf_hash sha ty old \<longrightarrow> it = old)"
| "cmd_ok sha ty c t \<longleftrightarrow> True"

text \<open>Where a walk in such a tree can end.\<close>

lemma uniform_walk:
  assumes "uniform ty t" and "m_walk 0 k t = (n, s)"
  obtains (nil) "s = MNil" "m_get 0 k t = None"
    | (other) old where "s = MTip ty old" "it_key old \<noteq> k" "m_get 0 k t = None"
    | (hit) old where "s = MTip ty old" "it_key old = k" "m_get 0 k t = Some (ty, old)" "(ty, old) \<in> tips t"
proof (cases s)
  case (MTip ty' old)
  have "(ty', old) \<in> tips t"
    using m_walk_tips [of 0 t "(ty', old)" k] assms MTip by (simp add: uniform_def)
  then have ty: "ty' = ty" "(ty, old) \<in> tips t" using assms(1) by (auto simp: uniform_def)
  then show thesis
    using MTip assms(2) other hit by (cases "it_key old = k") (simp_all add: m_get_def)
next
  case (MStub hs)
  have "no_stub (snd (m_walk d k u))" if "no_stub u" for d u
    using that by (induction d k u rule: m_walk.induct) (auto simp: Let_def case_prod_unfold)
  then show thesis
    using assms MStub canon_no_stub [of 0 t] by (metis no_stub.simps(1) snd_conv uniform_def)
next
  case (MFork ts)
  then show thesis
    using m_walk_get(4) [of 0 t k n s] assms by (auto simp: uniform_def)
qed (use assms nil in \<open>simp add: m_get_def\<close>)

lemma uniform_add:
  assumes u: "uniform ty t" and it: "tip_ok ty it" and new: "m_get 0 (it_key it) t = None"
  shows "uniform ty (m_add ty it t)" and "tips (m_add ty it t) = insert (ty, it) (tips t)"
proof -
  obtain ts where t: "t = MFork ts" "m_ok 0 (MFork ts)" "canon 0 (MFork ts)" "\<And>x. x \<in> tips t \<Longrightarrow> fst x = ty"
    using u by (auto simp: uniform_def)
  obtain n s where w: "m_walk 0 (it_key it) (MFork ts) = (n, s)" by fastforce
  have s: "s = MNil \<or> (\<exists>old. s = MTip ty old \<and> it_key old \<noteq> it_key it)"
    by (rule uniform_walk [OF u w [folded t(1)]]) (use new in auto)
  note a = m_add_ok [OF t(2) w it s]
  show tips: "tips (m_add ty it t) = insert (ty, it) (tips t)" using a(2) by (simp only: t(1))
  have "\<exists>us. m_add ty it (MFork ts) = MFork us"
    unfolding m_add_def w prod.case by (rule m_put_fork) (rule fork_walk_pos [OF t(2) w])
  then show "uniform ty (m_add ty it t)"
    using a(1,3) t(3,4) tips unfolding uniform_def by (auto simp del: tips.simps simp: t(1))
qed

lemma uniform_update:
  assumes u: "uniform ty t" and it: "tip_ok ty it" and old: "m_get 0 (it_key it) t = Some (ty, old)"
  shows "uniform ty (m_update ty it t)" and "tips (m_update ty it t) = insert (ty, it) (tips t - {(ty, old)})"
proof -
  obtain ts where t: "t = MFork ts" "m_ok 0 (MFork ts)" "canon 0 (MFork ts)" "\<And>x. x \<in> tips t \<Longrightarrow> fst x = ty"
    using u by (auto simp: uniform_def)
  obtain n s where w: "m_walk 0 (it_key it) (MFork ts) = (n, s)" by fastforce
  have s: "s = MTip ty old" "it_key old = it_key it"
    by (rule uniform_walk [OF u w [folded t(1)]]; use old in auto)+
  note a = m_update_ok [OF t(2) w [unfolded s(1)] it s(2)]
  show tips: "tips (m_update ty it t) = insert (ty, it) (tips t - {(ty, old)})" using a(2) by (simp only: t(1))
  have "\<exists>us. m_update ty it (MFork ts) = MFork us"
    unfolding m_update_def w prod.sel by (rule m_put_fork) (rule fork_walk_pos [OF t(2) w])
  then show "uniform ty (m_update ty it t)"
    using a(1,3) t(3,4) tips unfolding uniform_def by (auto simp del: tips.simps simp: t(1))
qed

lemma uniform_del:
  assumes u: "uniform ty t" and old: "m_get 0 k t = Some (ty, old)"
  shows "uniform ty (m_del 0 k t)" and "tips (m_del 0 k t) = tips t - {(ty, old)}"
proof -
  obtain ts where t: "t = MFork ts" "m_ok 0 t" "canon 0 t" "\<And>x. x \<in> tips t \<Longrightarrow> fst x = ty"
    using u by (auto simp: uniform_def)
  obtain n s where w: "m_walk 0 k t = (n, s)" by fastforce
  have s: "s = MTip ty old" "it_key old = k"
    by (rule uniform_walk [OF u w]; use old in auto)+
  note a = m_del_ok [OF t(2), of k ty old]
  show tips: "tips (m_del 0 k t) = tips t - {(ty, old)}" using a w s by simp
  have "\<exists>us. m_del 0 k t = MFork us" by (simp add: t(1) Let_def)
  then show "uniform ty (m_del 0 k t)"
    using a w s t(3,4) tips unfolding uniform_def by auto
qed

section \<open>The heap implements them\<close>

definition implements ::
  "'h sha_ops \<Rightarrow> (reply \<times> mutable_tree \<times> heap) outcome \<Rightarrow> mutable_tree \<Rightarrow> heap \<Rightarrow> addr set \<Rightarrow> reply \<times> mtree \<Rightarrow> bool" where
  "implements sha r mt h R x \<longleftrightarrow>
     (\<exists>mt' h' R'. r = Done (fst x, mt', h') \<and> mt_cowid mt' = mt_cowid mt \<and> holds sha h' mt' (snd x) R' \<and> grown h (own h R) h' R')"

lemma implements_keep: "holds sha h mt t R \<Longrightarrow> r = Done (a, mt, h) \<Longrightarrow> implements sha r mt h R (a, t)"
  unfolding implements_def using grown_refl [of h R "own h R"] by auto

lemma implements_change:
  "changes sha r mt h R t' \<Longrightarrow> implements sha (bind_outcome r (\<lambda>(r, mt, h). Done (RMut r, mt, h))) mt h R (RMut (Inr True), t')"
  unfolding implements_def changes_def by auto

lemma run_with:
  "tree_run sha ty src (TAdd it) mt h =
     bind_outcome (add_item_with (fst (backed_by src)) (snd (backed_by src)) sha ty it mt h) (\<lambda>(r, mt, h). Done (RMut r, mt, h))"
  "tree_run sha ty src (TUpdate it) mt h =
     bind_outcome (update_item_with (fst (backed_by src)) (snd (backed_by src)) sha ty it mt h) (\<lambda>(r, mt, h). Done (RMut r, mt, h))"
  by (simp_all add: backed_by_def add_item_def add_item_with_fetch_def update_item_def update_item_with_fetch_def split: option.split)

lemma tree_run_spec:
  assumes h: "holds sha h mt t R" and u: "uniform ty t" and c: "cmd_ok sha ty c t"
  shows "implements sha (tree_run sha ty src c mt h) mt h R (m_run sha ty c t)"
proof -
  obtain fetch backed where b: "backed_by src = (fetch, backed)" by fastforce
  have st: "backed \<longrightarrow> no_stub t" using u canon_no_stub by (auto simp: uniform_def)
  show ?thesis
  proof (cases c)
    case (TAdd it)
    then have it: "tip_ok ty it" "ty \<noteq> NT_Inner" using c by (auto simp: tip_ok_def)
    obtain n s where w: "m_walk 0 (it_key it) t = (n, s)" by fastforce
    from u w show ?thesis
    proof (cases rule: uniform_walk)
      case nil
      then show ?thesis
        using implements_change [OF add_spec_empty [OF h w [unfolded nil(1)] st it(1)]] by (simp add: TAdd run_with b del: tree_run.simps)
    next
      case (other old)
      then show ?thesis
        using implements_change [OF add_spec_split [OF h w [unfolded other(1)] st it(1) other(2)]]
        by (simp add: TAdd run_with b del: tree_run.simps)
    next
      case (hit old)
      then show ?thesis
        using add_spec_refused(1) [OF h w st it(2)] implements_keep [OF h] by (simp add: TAdd run_with b del: tree_run.simps)
    qed
  next
    case (TUpdate it)
    then have it: "tip_ok ty it" "ty \<noteq> NT_Inner" using c by (auto simp: tip_ok_def)
    obtain n s where w: "m_walk 0 (it_key it) t = (n, s)" by fastforce
    from u w show ?thesis
    proof (cases rule: uniform_walk)
      case (hit old)
      have "leaf_hash sha ty it = leaf_hash sha ty old \<Longrightarrow> it = old" using c hit by (simp add: TUpdate)
      then show ?thesis
        using implements_change [OF update_spec [OF h w [unfolded hit(1)] st it(1) hit(2)]] hit
        by (simp add: TUpdate run_with b del: tree_run.simps)
    qed (use update_spec_refused(1) [OF h w st it(2)] implements_keep [OF h]
        in \<open>simp_all add: TUpdate run_with b del: tree_run.simps\<close>)
  next
    case (TDelete k)
    obtain n s where w: "m_walk 0 k t = (n, s)" by fastforce
    from u w show ?thesis
    proof (cases rule: uniform_walk)
      case (hit old)
      then show ?thesis
        using implements_change [OF delete_spec [OF h w [unfolded hit(1)] hit(2)]] by (simp add: TDelete)
    qed (use delete_spec_refused(1) [OF h w] implements_keep [OF h] in \<open>simp_all add: TDelete\<close>)
  next
    case (TFind k)
    obtain n s where w: "m_walk 0 k t = (n, s)" by fastforce
    have "\<not> (\<exists>hs. s = MStub hs)" by (rule uniform_walk [OF u w]) auto
    then obtain r where r: "find_key fetch backed (mt_root mt) k h = Done (Inr r, h)"
      "map_option (\<lambda>a. (get_type (h ! a), peek_item (h ! a))) r = map_option (apsnd Some) (m_get 0 k t)"
      using find_spec(2) [OF h w st] by blast
    show ?thesis
      using r by (cases r; cases "m_get 0 k t") (auto simp: TFind b intro!: implements_keep [OF h])
  next
    case TUnshare
    then show ?thesis
      using unshare_spec [OF h] unfolding implements_def by auto
  qed
qed

section \<open>Many trees\<close>

definition apart :: "'h sha_ops \<Rightarrow> heap \<Rightarrow> mutable_tree list \<Rightarrow> mtree list \<Rightarrow> addr set list \<Rightarrow> bool" where
  "apart sha h ms ts Rs \<longleftrightarrow>
     length ts = length ms \<and> length Rs = length ms \<and> (\<forall>i < length ms. holds sha h (ms ! i) (ts ! i) (Rs ! i)) \<and>
     (\<forall>i < length ms. \<forall>j < length ms. i \<noteq> j \<longrightarrow> own h (Rs ! i) \<inter> Rs ! j = {})"

lemma holds_addrs: "holds sha h mt t R \<Longrightarrow> R \<subseteq> {..<length h}"
  unfolding holds_def by (blast dest: rep_addrs(2))

lemma holds_frame:
  assumes "holds sha h mt t R" and "grown h W h' S" and "W \<inter> R = {}"
  shows "holds sha h' mt t R" and "own h' R = own h R"
proof -
  have R: "R \<subseteq> {..<length h}" and r: "rep sha h (mt_cowid mt) (mt_root mt) t R"
    using holds_addrs [OF assms(1)] assms(1) by (simp_all add: holds_def)
  have same: "h' ! x = h ! x" if "x \<in> R" for x
    by (rule grown_same [OF assms(2)]) (use that R assms(3) in auto)
  show "own h' R = own h R" by (rule own_cong) (rule same)
  have "rep sha h' (mt_cowid mt) (mt_root mt) t R"
    by (rule rep_frame [OF r _ same]) (use assms(2) in \<open>simp add: grown_def\<close>)
  then show "holds sha h' mt t R" using assms(1) by (simp add: holds_def)
qed

lemma apart_disjoint:
  assumes "holds sha h mt t S" and "own h R \<inter> S = {}" and "grown h (own h R) h' R'"
  shows "own h' R' \<inter> S = {}" and "own h' S \<inter> R' = {}"
proof -
  have "S \<inter> {length h..} = {}" using holds_addrs [OF assms(1)] by auto
  moreover have "own h' R' \<subseteq> own h R \<union> {length h..}" using assms(3) by (simp add: grown_def)
  ultimately show sep: "own h' R' \<inter> S = {}" using assms(2) by blast
  then show "own h' S \<inter> R' = {}"
    using own_subset [of h' S] by (intro own_disjoint [of h' S R']) blast
qed

lemma apart_update:
  assumes a: "apart sha h ms ts Rs" and i: "i < length ms" and mt: "holds sha h' mt t R" and g: "grown h (own h (Rs ! i)) h' R"
  shows "apart sha h' (ms[i := mt]) (ts[i := t]) (Rs[i := R])"
proof -
  have len: "length ts = length ms" "length Rs = length ms" and hold: "\<And>j. j < length ms \<Longrightarrow> holds sha h (ms ! j) (ts ! j) (Rs ! j)"
    and sep: "\<And>j l. j < length ms \<Longrightarrow> l < length ms \<Longrightarrow> j \<noteq> l \<Longrightarrow> own h (Rs ! j) \<inter> Rs ! l = {}"
    using a by (auto simp: apart_def)
  have other: "holds sha h' (ms ! j) (ts ! j) (Rs ! j)" "own h' (Rs ! j) = own h (Rs ! j)"
    "own h' R \<inter> Rs ! j = {}" "own h' (Rs ! j) \<inter> R = {}" if "j < length ms" "j \<noteq> i" for j
    using holds_frame [OF hold [OF that(1)] g] apart_disjoint [OF hold [OF that(1)] _ g] sep [OF i that(1)] that(2) by auto
  have "own h' (Rs[i := R] ! j) \<inter> Rs[i := R] ! l = {}" if "j < length ms" "l < length ms" "j \<noteq> l" for j l
    using other [of j] other [of l] sep [OF that] that i len(2) by (cases "j = i"; cases "l = i") simp_all
  moreover have "holds sha h' (ms[i := mt] ! j) (ts[i := t] ! j) (Rs[i := R] ! j)" if "j < length ms" for j
    using that other(1) [of j] mt i len by (cases "j = i") simp_all
  ultimately show ?thesis
    using len by (simp add: apart_def)
qed

lemma apart_append:
  assumes a: "apart sha h ms ts Rs" and mt: "holds sha h' mt t R" and g: "grown h {} h' R"
  shows "apart sha h' (ms @ [mt]) (ts @ [t]) (Rs @ [R])"
proof -
  have len: "length ts = length ms" "length Rs = length ms" and hold: "\<And>j. j < length ms \<Longrightarrow> holds sha h (ms ! j) (ts ! j) (Rs ! j)"
    and sep: "\<And>j l. j < length ms \<Longrightarrow> l < length ms \<Longrightarrow> j \<noteq> l \<Longrightarrow> own h (Rs ! j) \<inter> Rs ! l = {}"
    using a by (auto simp: apart_def)
  have g': "grown h (own h {}) h' R" using g by simp
  have other: "holds sha h' (ms ! j) (ts ! j) (Rs ! j)" "own h' (Rs ! j) = own h (Rs ! j)"
    "own h' R \<inter> Rs ! j = {}" "own h' (Rs ! j) \<inter> R = {}" if "j < length ms" for j
    using holds_frame [OF hold [OF that] g] apart_disjoint [OF hold [OF that] _ g'] by auto
  have "own h' ((Rs @ [R]) ! j) \<inter> (Rs @ [R]) ! l = {}" if "j < Suc (length ms)" "l < Suc (length ms)" "j \<noteq> l" for j l
    using other [of j] other [of l] sep [of j l] that len(2) by (cases "j = length ms"; cases "l = length ms") (simp_all add: nth_append)
  moreover have "holds sha h' ((ms @ [mt]) ! j) ((ts @ [t]) ! j) ((Rs @ [R]) ! j)" if "j < Suc (length ms)" for j
    using that other(1) [of j] mt len by (cases "j = length ms") (simp_all add: nth_append)
  ultimately show ?thesis
    using len by (simp add: apart_def)
qed

text \<open>
  What a client of one tree needs of an operation: it does to the tree what a function on abstract trees does, and
  touches nothing of the others. Whatever keeps this contract can be used on any tree of a collection.
\<close>

locale tree_client =
  fixes sha :: "'h sha_ops" and run :: "mutable_tree \<Rightarrow> heap \<Rightarrow> (reply \<times> mutable_tree \<times> heap) outcome"
    and fn :: "mtree \<Rightarrow> reply \<times> mtree" and pre :: "mtree \<Rightarrow> bool"
  assumes run_implements: "holds sha h mt t R \<Longrightarrow> pre t \<Longrightarrow> implements sha (run mt h) mt h R (fn t)"
begin

lemma run_apart:
  assumes "apart sha h ms ts Rs" and "i < length ms" and "pre (ts ! i)"
  obtains mt' h' R' where "run (ms ! i) h = Done (fst (fn (ts ! i)), mt', h')" and "mt_cowid mt' = mt_cowid (ms ! i)"
    and "apart sha h' (ms[i := mt']) (ts[i := snd (fn (ts ! i))]) (Rs[i := R'])"
proof -
  have "holds sha h (ms ! i) (ts ! i) (Rs ! i)"
    using assms(1,2) by (simp add: apart_def)
  from run_implements [OF this assms(3)] obtain mt' h' R' where r: "run (ms ! i) h = Done (fst (fn (ts ! i)), mt', h')"
      "mt_cowid mt' = mt_cowid (ms ! i)" "holds sha h' mt' (snd (fn (ts ! i))) R'" "grown h (own h (Rs ! i)) h' R'"
    unfolding implements_def by blast
  show thesis
    by (rule that [OF r(1,2) apart_update [OF assms(1,2) r(3,4)]])
qed

end

interpretation tree_ops: tree_client sha "tree_run sha ty src c" "m_run sha ty c" "\<lambda>t. uniform ty t \<and> cmd_ok sha ty c t"
  for sha ty src c
  by unfold_locales (simp add: tree_run_spec)

section \<open>Lists of items\<close>

definition lookup_item :: "uint256 \<Rightarrow> shamap_item list \<Rightarrow> shamap_item option" where
  "lookup_item k xs = List.find (\<lambda>x. it_key x = k) xs"

definition build :: "shamap_node_type \<Rightarrow> shamap_item list \<Rightarrow> mtree" where
  "build ty xs = foldl (\<lambda>t it. m_add ty it t) (MFork (replicate 16 MNil)) xs"

fun list_run :: "'h sha_ops \<Rightarrow> shamap_node_type \<Rightarrow> tree_cmd \<Rightarrow> shamap_item list \<Rightarrow> reply \<times> shamap_item list" where
  "list_run sha ty (TAdd it) xs =
     (if lookup_item (it_key it) xs = None then (RMut (Inr True), xs @ [it]) else (RMut (Inr False), xs))"
| "list_run sha ty (TUpdate it) xs =
     (if lookup_item (it_key it) xs = None then (RMut (Inl (MissingExactLeaf (it_key it))), xs)
      else (RMut (Inr True), map (\<lambda>x. if it_key x = it_key it then it else x) xs))"
| "list_run sha ty (TDelete k) xs =
     (if lookup_item k xs = None then (RMut (Inr False), xs) else (RMut (Inr True), filter (\<lambda>x. it_key x \<noteq> k) xs))"
| "list_run sha ty (TFind k) xs = (RFind (lookup_item k xs), xs)"
| "list_run sha ty TUnshare xs = (RHash (mhash sha (build ty xs)), xs)"

definition lists :: "shamap_node_type \<Rightarrow> mtree \<Rightarrow> shamap_item list \<Rightarrow> bool" where
  "lists ty t xs \<longleftrightarrow> uniform ty t \<and> tips t = Pair ty ` set xs \<and> distinct (map it_key xs)"

lemma lookup_Some: "distinct (map it_key xs) \<Longrightarrow> lookup_item k xs = Some x \<longleftrightarrow> x \<in> set xs \<and> it_key x = k"
  unfolding lookup_item_def by (induction xs) auto

lemma lookup_None: "lookup_item k xs = None \<longleftrightarrow> k \<notin> it_key ` set xs"
  unfolding lookup_item_def by (auto simp: find_None_iff)

lemma lists_get:
  assumes "lists ty t xs"
  shows "m_get 0 k t = map_option (Pair ty) (lookup_item k xs)"
proof -
  have u: "m_ok 0 t" "tips t = Pair ty ` set xs" "distinct (map it_key xs)"
    using assms by (auto simp: lists_def uniform_def)
  show ?thesis
    by (rule m_get_eqI [OF u(1)]) (auto simp: u(2) lookup_Some [OF u(3)])
qed

lemma lists_empty: "ty \<noteq> NT_Inner \<Longrightarrow> lists ty (MFork (replicate 16 MNil)) []"
  by (simp add: lists_def uniform_def)

lemma lists_add:
  assumes "lists ty t xs" and "tip_ok ty it" and "lookup_item (it_key it) xs = None"
  shows "lists ty (m_add ty it t) (xs @ [it])"
proof -
  have u: "uniform ty t" and "m_get 0 (it_key it) t = None"
    using assms lists_get [OF assms(1)] by (auto simp: lists_def)
  with uniform_add [OF u assms(2)] show ?thesis
    using assms(1,3) by (auto simp: lists_def lookup_None)
qed

lemma lists_build:
  assumes "ty \<noteq> NT_Inner" and "\<And>x. x \<in> set xs \<Longrightarrow> tip_ok ty x" and "distinct (map it_key xs)"
  shows "lists ty (build ty xs) xs"
  using assms(2,3)
proof (induction xs rule: rev_induct)
  case Nil
  then show ?case using lists_empty [OF assms(1)] by (simp add: build_def)
next
  case (snoc x xs)
  then show ?case
    using lists_add [of ty "build ty xs" xs x] by (auto simp: build_def lookup_None)
qed

text \<open>The tree is the one built from the items, whatever its history.\<close>

lemma lists_unique:
  assumes "lists ty t xs" and "lists ty s ys" and "set xs = set ys"
  shows "s = t"
  by (rule canon_unique [of 0]) (use assms in \<open>auto simp: lists_def uniform_def\<close>)

lemma lists_built:
  assumes "lists ty t xs" and "ty \<noteq> NT_Inner"
  shows "build ty xs = t"
proof -
  have "tip_ok ty x" if "x \<in> set xs" for x
    using assms(1) tips_ok [of 0 t "(ty, x)"] that by (auto simp: lists_def uniform_def)
  then show ?thesis
    using lists_unique [OF assms(1) lists_build [OF assms(2)] refl] assms(1) by (simp add: lists_def)
qed

fun items_ok :: "'h sha_ops \<Rightarrow> shamap_node_type \<Rightarrow> tree_cmd \<Rightarrow> shamap_item list \<Rightarrow> bool" where
  "items_ok sha ty (TAdd it) xs \<longleftrightarrow> tip_ok ty it"
| "items_ok sha ty (TUpdate it) xs \<longleftrightarrow> tip_ok ty it \<and>
     (\<forall>x \<in> set xs. it_key x = it_key it \<longrightarrow> leaf_hash sha ty it = leaf_hash sha ty x \<longrightarrow> it = x)"
| "items_ok sha ty c xs \<longleftrightarrow> True"

lemma lists_cmd_ok: "lists ty t xs \<Longrightarrow> items_ok sha ty c xs \<Longrightarrow> cmd_ok sha ty c t"
  by (cases c) (auto simp: lists_def)

lemma lists_run:
  assumes l: "lists ty t xs" and ty: "ty \<noteq> NT_Inner" and ok: "items_ok sha ty c xs"
  shows "fst (m_run sha ty c t) = fst (list_run sha ty c xs)" and "lists ty (snd (m_run sha ty c t)) (snd (list_run sha ty c xs))"
proof -
  note get = lists_get [OF l]
  have u: "uniform ty t" "tips t = Pair ty ` set xs" "distinct (map it_key xs)" using l by (auto simp: lists_def)
  show "fst (m_run sha ty c t) = fst (list_run sha ty c xs)"
    using lists_built [OF l ty] by (cases c) (auto simp: get option.map_comp comp_def option.map_ident)
  show "lists ty (snd (m_run sha ty c t)) (snd (list_run sha ty c xs))"
  proof (cases c)
    case (TAdd it)
    then show ?thesis using l lists_add [OF l] ok by (simp add: get)
  next
    case (TUpdate it)
    show ?thesis
    proof (cases "lookup_item (it_key it) xs")
      case (Some old)
      then have old: "old \<in> set xs" "it_key old = it_key it" using lookup_Some [OF u(3)] by auto
      let ?ys = "map (\<lambda>x. if it_key x = it_key it then it else x) xs"
      have only: "x = old" if "x \<in> set xs" "it_key x = it_key it" for x
        using that old u(3) by (metis distinct_map inj_onD)
      have upd: "uniform ty (m_update ty it t)" "tips (m_update ty it t) = insert (ty, it) (tips t - {(ty, old)})"
        using uniform_update [OF u(1), of it old] ok TUpdate get [of "it_key it"] Some by simp_all
      have "map it_key ?ys = map it_key xs" by auto
      moreover have "?ys = map (\<lambda>x. if x = old then it else x) xs"
        by (rule map_cong [OF refl]) (use only old(2) in metis)
      then have "Pair ty ` set ?ys = insert (ty, it) (Pair ty ` set xs - {(ty, old)})"
        using old(1) by (simp only: set_map) auto
      ultimately have "lists ty (m_update ty it t) ?ys"
        using upd u unfolding lists_def by metis
      then show ?thesis using Some by (simp add: TUpdate get)
    qed (use l in \<open>simp add: TUpdate get\<close>)
  next
    case (TDelete k)
    show ?thesis
    proof (cases "lookup_item k xs")
      case (Some old)
      then have old: "old \<in> set xs" "it_key old = k" using lookup_Some [OF u(3)] by auto
      have only: "x = old" if "x \<in> set xs" "it_key x = k" for x
        using that old u(3) by (metis distinct_map inj_onD)
      have del: "uniform ty (m_del 0 k t)" "tips (m_del 0 k t) = tips t - {(ty, old)}"
        using uniform_del [OF u(1), of k old] get [of k] Some by simp_all
      have "filter (\<lambda>x. it_key x \<noteq> k) xs = filter (\<lambda>x. x \<noteq> old) xs"
        by (rule filter_cong [OF refl]) (use only old(2) in metis)
      then have "Pair ty ` set (filter (\<lambda>x. it_key x \<noteq> k) xs) = Pair ty ` set xs - {(ty, old)}"
        by auto
      moreover have "distinct (map it_key (filter (\<lambda>x. it_key x \<noteq> k) xs))"
        using u(3) by (rule distinct_map_filter)
      ultimately have "lists ty (m_del 0 k t) (filter (\<lambda>x. it_key x \<noteq> k) xs)"
        using del u(2) by (simp add: lists_def)
      then show ?thesis using Some by (simp add: TDelete get)
    qed (use l in \<open>simp add: TDelete get\<close>)
  qed (use l in simp_all)
qed

section \<open>Runs\<close>

datatype cmd = New nat | Snapshot nat nat | On nat tree_cmd

type_synonym world = "mutable_tree list \<times> heap"

fun run_cmd :: "'h sha_ops \<Rightarrow> shamap_node_type \<Rightarrow> fetcher option \<Rightarrow> cmd \<Rightarrow> world \<Rightarrow> (reply \<times> world) outcome" where
  "run_cmd sha ty src (New w) (ms, h) = bind_outcome (mt_new w h) (\<lambda>(mt, h). Done (ROk, ms @ [mt], h))"
| "run_cmd sha ty src (Snapshot i v) (ms, h) =
     (if i < length ms then bind_outcome (mutable_snapshot sha v (ms ! i) h) (\<lambda>(mt, h). Done (ROk, ms @ [mt], h))
      else Done (RBad, ms, h))"
| "run_cmd sha ty src (On i c) (ms, h) =
     (if i < length ms then bind_outcome (tree_run sha ty src c (ms ! i) h) (\<lambda>(r, mt, h). Done (r, ms[i := mt], h))
      else Done (RBad, ms, h))"

fun spec_cmd :: "'h sha_ops \<Rightarrow> shamap_node_type \<Rightarrow> cmd \<Rightarrow> (nat \<times> shamap_item list) list \<Rightarrow>
    (reply \<times> (nat \<times> shamap_item list) list) outcome" where
  "spec_cmd sha ty (New w) S = (if w = 0 then Panic else Done (ROk, S @ [(w, [])]))"
| "spec_cmd sha ty (Snapshot i v) S =
     (if i < length S then if fst (S ! i) < v then Done (ROk, S @ [(v, snd (S ! i))]) else Panic
      else Done (RBad, S))"
| "spec_cmd sha ty (On i c) S =
     (if i < length S
      then Done (fst (list_run sha ty c (snd (S ! i))), S[i := (fst (S ! i), snd (list_run sha ty c (snd (S ! i))))])
      else Done (RBad, S))"

fun run_all :: "(cmd \<Rightarrow> 's \<Rightarrow> (reply \<times> 's) outcome) \<Rightarrow> cmd list \<Rightarrow> 's \<Rightarrow> (reply list \<times> 's) outcome" where
  "run_all f [] s = Done ([], s)"
| "run_all f (c # cs) s = bind_outcome (f c s) (\<lambda>(r, s). bind_outcome (run_all f cs s) (\<lambda>(rs, s). Done (r # rs, s)))"

definition replies :: "(reply list \<times> 's) outcome \<Rightarrow> reply list outcome" where
  "replies m = bind_outcome m (\<lambda>(rs, s). Done rs)"

fun cmd_items :: "cmd \<Rightarrow> shamap_item set" where
  "cmd_items (On i (TAdd it)) = {it}"
| "cmd_items (On i (TUpdate it)) = {it}"
| "cmd_items c = {}"

definition items_fit :: "'h sha_ops \<Rightarrow> shamap_node_type \<Rightarrow> shamap_item set \<Rightarrow> bool" where
  "items_fit sha ty A \<longleftrightarrow>
     ty \<noteq> NT_Inner \<and> (\<forall>a \<in> A. MIN_SHAMAP_ITEM_BYTES \<le> length (it_data a)) \<and>
     (\<forall>a \<in> A. \<forall>b \<in> A. it_key a = it_key b \<longrightarrow> leaf_hash sha ty a = leaf_hash sha ty b \<longrightarrow> a = b)"

definition sim ::
  "'h sha_ops \<Rightarrow> shamap_node_type \<Rightarrow> shamap_item set \<Rightarrow> world \<Rightarrow> (nat \<times> shamap_item list) list \<Rightarrow> bool" where
  "sim sha ty A w S \<longleftrightarrow>
     (\<exists>ts Rs. apart sha (snd w) (fst w) ts Rs \<and> length S = length (fst w) \<and>
        (\<forall>i < length S. mt_cowid (fst w ! i) = fst (S ! i) \<and> lists ty (ts ! i) (snd (S ! i)) \<and> set (snd (S ! i)) \<subseteq> A))"

lemma list_run_items: "set xs \<subseteq> A \<Longrightarrow> cmd_items (On i c) \<subseteq> A \<Longrightarrow> set (snd (list_run sha ty c xs)) \<subseteq> A"
  by (cases c) auto

lemma items_fit_ok: "items_fit sha ty A \<Longrightarrow> set xs \<subseteq> A \<Longrightarrow> cmd_items (On i c) \<subseteq> A \<Longrightarrow> items_ok sha ty c xs"
  by (cases c) (auto simp: items_fit_def tip_ok_def MIN_SHAMAP_ITEM_BYTES_def)

definition matches ::
  "(reply \<times> world) outcome \<Rightarrow> (reply \<times> (nat \<times> shamap_item list) list) outcome \<Rightarrow>
   (world \<Rightarrow> (nat \<times> shamap_item list) list \<Rightarrow> bool) \<Rightarrow> bool" where
  "matches m n P \<longleftrightarrow>
     (case n of Done (r, S) \<Rightarrow> \<exists>w. m = Done (r, w) \<and> P w S | Panic \<Rightarrow> m = Panic | OutOfFuel \<Rightarrow> m = OutOfFuel)"

lemma sim_append:
  assumes s: "apart sha h ms ts Rs" "length S = length ms"
      "\<And>i. i < length ms \<Longrightarrow> mt_cowid (ms ! i) = fst (S ! i) \<and> lists ty (ts ! i) (snd (S ! i)) \<and> set (snd (S ! i)) \<subseteq> A"
    and mt: "holds sha h' mt t R" "grown h {} h' R" "lists ty t xs" "set xs \<subseteq> A" "mt_cowid mt = v"
  shows "sim sha ty A (ms @ [mt], h') (S @ [(v, xs)])"
proof -
  have len: "length ts = length ms" using s(1) by (simp add: apart_def)
  have "apart sha h' (ms @ [mt]) (ts @ [t]) (Rs @ [R])"
    by (rule apart_append [OF s(1) mt(1,2)])
  moreover have "mt_cowid ((ms @ [mt]) ! i) = fst ((S @ [(v, xs)]) ! i) \<and> lists ty ((ts @ [t]) ! i) (snd ((S @ [(v, xs)]) ! i)) \<and>
      set (snd ((S @ [(v, xs)]) ! i)) \<subseteq> A" if "i < Suc (length ms)" for i
    using s(2) s(3) [of i] mt(3-5) len that by (cases "i = length ms") (simp_all add: nth_append)
  ultimately show ?thesis
    unfolding sim_def using s(2) by (intro exI [of _ "ts @ [t]"] exI [of _ "Rs @ [R]"]) simp
qed

lemma new_holds:
  assumes "w \<noteq> 0"
  shows "holds sha (h @ [new_inner w]) \<lparr>mt_root = length h, mt_cowid = w\<rparr> (MFork (replicate 16 MNil)) {length h}"
    and "grown h {} (h @ [new_inner w]) {length h}"
proof -
  have "fork_rep (rep sha (h @ [new_inner w]) w) sha (h @ [new_inner w]) w (length h) w 0 (\<lambda>_. None) (replicate 16 MNil) (\<lambda>_. {})"
    by (rule new_fork) (use assms in simp_all)
  from rep.fork [OF this] show "holds sha (h @ [new_inner w]) \<lparr>mt_root = length h, mt_cowid = w\<rparr> (MFork (replicate 16 MNil)) {length h}"
    using assms by (simp add: holds_def)
  show "grown h {} (h @ [new_inner w]) {length h}"
    by (auto simp: grown_def nth_append own_def)
qed

lemma run_cmd_sim:
  assumes w: "sim sha ty A (ms, h) S" and A: "items_fit sha ty A" and c: "cmd_items c \<subseteq> A"
  shows "matches (run_cmd sha ty src c (ms, h)) (spec_cmd sha ty c S) (sim sha ty A)"
proof -
  obtain ts Rs where s: "apart sha h ms ts Rs" "length S = length ms"
    "\<And>i. i < length ms \<Longrightarrow> mt_cowid (ms ! i) = fst (S ! i) \<and> lists ty (ts ! i) (snd (S ! i)) \<and> set (snd (S ! i)) \<subseteq> A"
    using w by (auto simp: sim_def)
  have ty: "ty \<noteq> NT_Inner" using A by (simp add: items_fit_def)
  have hold: "holds sha h (ms ! i) (ts ! i) (Rs ! i)" if "i < length ms" for i
    using s(1) that by (simp add: apart_def)
  show ?thesis
  proof (cases c)
    case (New w)
    show ?thesis
    proof (cases "w = 0")
      case False
      have "sim sha ty A (ms @ [\<lparr>mt_root = length h, mt_cowid = w\<rparr>], h @ [new_inner w]) (S @ [(w, [])])"
        by (rule sim_append [OF s new_holds [OF False] lists_empty [OF ty]]) simp_all
      then show ?thesis using False by (simp add: New matches_def mt_new_def alloc_def)
    qed (simp add: New matches_def mt_new_def)
  next
    case (Snapshot i v)
    show ?thesis
    proof (cases "i < length ms \<and> fst (S ! i) < v")
      case True
      obtain mt' h' R' where r: "mutable_snapshot sha v (ms ! i) h = Done (mt', h')" "mt_cowid mt' = v"
        "holds sha h' mt' (ts ! i) R'" "own h' R' = {}" "extends h h'"
        using snapshot_spec [OF hold, of i v] True s(3) by metis
      have g: "grown h {} h' R'" using r(4,5) by (simp add: grown_def extends_def)
      have "sim sha ty A (ms @ [mt'], h') (S @ [(v, snd (S ! i))])"
        by (rule sim_append [OF s r(3) g _ _ r(2)]) (use True s(3) in auto)
      then show ?thesis using True r(1) s(2) by (simp add: Snapshot matches_def)
    qed (use w s(2,3) in \<open>auto simp: Snapshot matches_def mutable_snapshot_def\<close>)
  next
    case (On i tc)
    show ?thesis
    proof (cases "i < length ms")
      case True
      note l = s(3) [OF True]
      have ok: "items_ok sha ty tc (snd (S ! i))"
        by (rule items_fit_ok [OF A]) (use l c On in auto)
      note lr = lists_run [OF _ ty ok, of "ts ! i"]
      have pre: "uniform ty (ts ! i) \<and> cmd_ok sha ty tc (ts ! i)"
        using l lists_cmd_ok [OF _ ok] by (auto simp: lists_def)
      obtain mt' h' R' where r: "tree_run sha ty src tc (ms ! i) h = Done (fst (m_run sha ty tc (ts ! i)), mt', h')"
        "mt_cowid mt' = mt_cowid (ms ! i)" "apart sha h' (ms[i := mt']) (ts[i := snd (m_run sha ty tc (ts ! i))]) (Rs[i := R'])"
        by (rule tree_ops.run_apart [OF s(1) True pre])
      let ?xs = "snd (list_run sha ty tc (snd (S ! i)))"
      have "set ?xs \<subseteq> A" by (rule list_run_items) (use l c On in auto)
      then have "mt_cowid (ms[i := mt'] ! j) = fst (S[i := (fst (S ! i), ?xs)] ! j) \<and>
          lists ty (ts[i := snd (m_run sha ty tc (ts ! i))] ! j) (snd (S[i := (fst (S ! i), ?xs)] ! j)) \<and>
          set (snd (S[i := (fst (S ! i), ?xs)] ! j)) \<subseteq> A" if "j < length ms" for j
        using s(2) s(3) [OF that] l lr(2) r(2) that s(1) by (cases "j = i") (auto simp: apart_def)
      then have "sim sha ty A (ms[i := mt'], h') (S[i := (fst (S ! i), ?xs)])"
        unfolding sim_def using r(3) s(2) by (intro exI conjI) (auto simp del: list_update_id)
      then show ?thesis using True r(1) s(2) lr(1) l by (simp add: On matches_def)
    qed (use w s(2) in \<open>simp add: On matches_def\<close>)
  qed
qed

lemma spec_no_fuel: "spec_cmd sha ty c S \<noteq> OutOfFuel"
  by (cases c) auto

lemma run_all_sim:
  assumes "sim sha ty A w S" and A: "items_fit sha ty A" and "\<Union> (cmd_items ` set cs) \<subseteq> A"
  shows "case run_all (spec_cmd sha ty) cs S of
      Done (rs, S') \<Rightarrow> \<exists>w'. run_all (run_cmd sha ty src) cs w = Done (rs, w') \<and> sim sha ty A w' S'
    | Panic \<Rightarrow> run_all (run_cmd sha ty src) cs w = Panic
    | OutOfFuel \<Rightarrow> False"
  using assms(1,3)
proof (induction cs arbitrary: w S)
  case (Cons c cs)
  obtain ms h where w: "w = (ms, h)" by fastforce
  have m: "matches (run_cmd sha ty src c w) (spec_cmd sha ty c S) (sim sha ty A)"
    unfolding w by (rule run_cmd_sim [OF Cons.prems(1) [unfolded w] A]) (use Cons.prems(2) in auto)
  show ?case
  proof (cases "spec_cmd sha ty c S")
    case (Done x)
    obtain r S1 where x: "x = (r, S1)" by fastforce
    obtain w1 where w1: "run_cmd sha ty src c w = Done (r, w1)" "sim sha ty A w1 S1"
      using m Done x by (auto simp: matches_def)
    show ?thesis
      using Cons.IH [OF w1(2)] Cons.prems(2) w1(1) Done x
      by (cases "run_all (spec_cmd sha ty) cs S1") (auto split: prod.splits)
  next
    case Panic
    then show ?thesis using m by (simp add: matches_def)
  qed (use spec_no_fuel in blast)
qed simp

lemma sim_empty: "sim sha ty A ([], []) []"
  by (simp add: sim_def apart_def)

text \<open>
  C8: Mutable SHAMap trees that share one store of nodes behave as independent collections of items. For every
  sequence of creating trees, taking snapshots, adding, updating, deleting, finding and flushing, in any
  interleaving over the trees, the answers of the implementation, which changes shared nodes in place or copies
  them by owner number, are those of separate lists of items: no operation on one tree is visible through another,
  the flush ends, an owner number that is zero or not larger than that of the tree copied is the only panic, and the
  root hash after a flush is the hash of a tree built afresh from the items of the list. Trees without missing
  nodes never ask the backing store. The items have the least length the code asserts, and no two different items
  of the sequence with one key have the same leaf hash.
\<close>

theorem shamap_trees_independent:
  assumes "items_fit sha ty (\<Union> (cmd_items ` set cs))"
  shows "replies (run_all (run_cmd sha ty src) cs ([], [])) = replies (run_all (spec_cmd sha ty) cs [])"
  using run_all_sim [OF sim_empty assms order_refl, of src]
  by (cases "run_all (spec_cmd sha ty) cs []") (auto simp: replies_def)

definition demo_item :: "uint256 \<Rightarrow> shamap_item" where
  "demo_item k = \<lparr>it_key = k, it_data = replicate 12 7\<rparr>"

lemma demo_item_key [simp]: "it_key (demo_item k) = k" "demo_item k = demo_item l \<longleftrightarrow> k = l"
  by (simp_all add: demo_item_def)

lemma demo_items_fit: "items_fit demo_sha NT_AccountState (demo_item ` K)"
  by (auto simp: items_fit_def MIN_SHAMAP_ITEM_BYTES_def) (simp add: demo_item_def)

theorem shamap_trees_independent_witness:
  "replies (run_all (run_cmd demo_sha NT_AccountState None)
       [New 1, On 0 (TAdd (demo_item 5)), Snapshot 0 2, On 1 (TAdd (demo_item 6)), On 1 (TDelete 5), On 0 (TFind 5),
        On 1 (TFind 5), On 0 (TFind 6), On 0 (TUpdate (demo_item 6)), On 0 (TAdd (demo_item 5)), On 1 TUnshare] ([], [])) =
     Done [ROk, RMut (Inr True), ROk, RMut (Inr True), RMut (Inr True), RFind (Some (demo_item 5)), RFind None, RFind None,
       RMut (Inl (MissingExactLeaf 6)), RMut (Inr False), RHash (mhash demo_sha (build NT_AccountState [demo_item 6]))]"
proof -
  let ?cs = "[New 1, On 0 (TAdd (demo_item 5)), Snapshot 0 2, On 1 (TAdd (demo_item 6)), On 1 (TDelete 5), On 0 (TFind 5),
    On 1 (TFind 5), On 0 (TFind 6), On 0 (TUpdate (demo_item 6)), On 0 (TAdd (demo_item 5)), On 1 TUnshare]"
  have "items_fit demo_sha NT_AccountState (\<Union> (cmd_items ` set ?cs))"
    using demo_items_fit [of "{5, 6}"] by (simp add: insert_commute)
  from shamap_trees_independent [OF this, of None] show ?thesis
    by (simp add: replies_def lookup_item_def)
qed

definition find_item :: "mutable_tree \<Rightarrow> heap \<Rightarrow> uint256 \<Rightarrow> shamap_item option" where
  "find_item mt h k =
     (case find_key no_fetch False (mt_root mt) k h of
        Done (Inr (Some a), h) \<Rightarrow> peek_item (h ! a)
      | _ \<Rightarrow> None)"

lemma sim_tree:
  assumes "sim sha ty A (ms, h) S" and "i < length ms"
  obtains t R where "holds sha h (ms ! i) t R" and "lists ty t (snd (S ! i))" and "\<And>k. find_item (ms ! i) h k = lookup_item k (snd (S ! i))"
proof -
  obtain ts Rs where s: "apart sha h ms ts Rs" "lists ty (ts ! i) (snd (S ! i))"
    using assms by (auto simp: sim_def)
  have hold: "holds sha h (ms ! i) (ts ! i) (Rs ! i)" using s(1) assms(2) by (simp add: apart_def)
  have u: "uniform ty (ts ! i)" using s(2) by (simp add: lists_def)
  have "find_item (ms ! i) h k = lookup_item k (snd (S ! i))" for k
  proof -
    obtain n u' where w: "m_walk 0 k (ts ! i) = (n, u')" by fastforce
    have "\<not> (\<exists>hs. u' = MStub hs)" by (rule uniform_walk [OF u w]) auto
    then obtain r where r: "find_key no_fetch False (mt_root (ms ! i)) k h = Done (Inr r, h)"
      "map_option (\<lambda>a. (get_type (h ! a), peek_item (h ! a))) r = map_option (apsnd Some) (m_get 0 k (ts ! i))"
      using find_spec(2) [OF hold w, of False no_fetch] by auto
    then show ?thesis
      unfolding lists_get [OF s(2)] find_item_def
      by (cases r; cases "lookup_item k (snd (S ! i))") auto
  qed
  with hold s(2) show thesis by (rule that)
qed

lemma same_lookup:
  assumes "distinct (map it_key xs)" and "distinct (map it_key ys)" and "\<And>k. lookup_item k xs = lookup_item k ys"
  shows "set xs = set ys"
  using lookup_Some [OF assms(1)] lookup_Some [OF assms(2)] assms(3) by (metis subsetI subset_antisym)

text \<open>
  C9: The root hash is a function of the contents. Take two trees out of any two histories of operations, in
  different stores, from different snapshots, with items added and deleted in different orders. If looking up every
  key gives the same answer in both, then flushing either one ends without panic and the two root hashes are equal.
\<close>

theorem shamap_hash_by_contents:
  assumes "items_fit sha ty (\<Union> (cmd_items ` set cs))" and "items_fit sha ty (\<Union> (cmd_items ` set cs'))"
    and "run_all (run_cmd sha ty src) cs ([], []) = Done (rs, ms, h)" and "i < length ms"
    and "run_all (run_cmd sha ty src') cs' ([], []) = Done (rs', ms', h')" and "i' < length ms'"
    and "\<And>k. find_item (ms ! i) h k = find_item (ms' ! i') h' k"
  shows "\<exists>n mt g n' mt' g'. mt_unshare sha (ms ! i) h = Some (Done (n, mt, g)) \<and>
    mt_unshare sha (ms' ! i') h' = Some (Done (n', mt', g')) \<and> n_hash (g ! mt_root mt) = n_hash (g' ! mt_root mt')"
proof -
  obtain A S where S: "sim sha ty A (ms, h) S"
    using run_all_sim [OF sim_empty assms(1) order_refl, of src] assms(3) by (auto split: outcome.splits)
  obtain A' S' where S': "sim sha ty A' (ms', h') S'"
    using run_all_sim [OF sim_empty assms(2) order_refl, of src'] assms(5) by (auto split: outcome.splits)
  obtain t R where t: "holds sha h (ms ! i) t R" "lists ty t (snd (S ! i))" "\<And>k. find_item (ms ! i) h k = lookup_item k (snd (S ! i))"
    by (rule sim_tree [OF S assms(4)]) blast
  obtain t' R' where t': "holds sha h' (ms' ! i') t' R'" "lists ty t' (snd (S' ! i'))"
    "\<And>k. find_item (ms' ! i') h' k = lookup_item k (snd (S' ! i'))"
    by (rule sim_tree [OF S' assms(6)]) blast
  have "set (snd (S ! i)) = set (snd (S' ! i'))"
    by (rule same_lookup) (use t(2,3) t'(2,3) assms(7) in \<open>auto simp: lists_def\<close>)
  then have "t' = t" by (rule lists_unique [OF t(2) t'(2)])
  then show ?thesis
    using unshare_spec [OF t(1)] unshare_spec [OF t'(1)] by metis
qed

definition demo_run :: "nat \<Rightarrow> uint256 \<Rightarrow> uint256 \<Rightarrow> (reply list \<times> world) outcome" where
  "demo_run w k l =
     run_all (run_cmd demo_sha NT_AccountState None) [New w, On 0 (TAdd (demo_item k)), On 0 (TAdd (demo_item l))] ([], [])"

lemma demo_run_Done:
  assumes "k \<noteq> l" and "w \<noteq> 0"
  obtains ms h where "demo_run w k l = Done ([ROk, RMut (Inr True), RMut (Inr True)], ms, h)" and "0 < length ms"
    and "\<And>x. find_item (ms ! 0) h x = lookup_item x [demo_item k, demo_item l]"
proof -
  let ?A = "demo_item ` {k, l}" and ?cs = "[New w, On 0 (TAdd (demo_item k)), On 0 (TAdd (demo_item l))]"
  have "\<Union> (cmd_items ` set ?cs) \<subseteq> ?A" by auto
  from run_all_sim [OF sim_empty demo_items_fit this, of None] assms
  obtain ms h where r: "demo_run w k l = Done ([ROk, RMut (Inr True), RMut (Inr True)], ms, h)"
    "sim demo_sha NT_AccountState ?A (ms, h) [(w, [demo_item k, demo_item l])]"
    by (auto simp: demo_run_def lookup_item_def)
  have len: "0 < length ms" using r(2) by (auto simp: sim_def)
  show thesis
    by (rule sim_tree [OF r(2) len]) (rule that [OF r(1) len], simp)
qed

theorem shamap_hash_by_contents_witness:
  "\<exists>rs ms h rs' ms' h' n mt g n' mt' g'. demo_run 1 5 6 = Done (rs, ms, h) \<and> demo_run 3 6 5 = Done (rs', ms', h') \<and>
     mt_unshare demo_sha (ms ! 0) h = Some (Done (n, mt, g)) \<and> mt_unshare demo_sha (ms' ! 0) h' = Some (Done (n', mt', g')) \<and>
     n_hash (g ! mt_root mt) = n_hash (g' ! mt_root mt')"
proof -
  obtain ms h where r: "demo_run 1 5 6 = Done ([ROk, RMut (Inr True), RMut (Inr True)], ms, h)" "0 < length ms"
    "\<And>x. find_item (ms ! 0) h x = lookup_item x [demo_item 5, demo_item 6]"
    by (rule demo_run_Done [of 5 6 1]) simp_all
  obtain ms' h' where r': "demo_run 3 6 5 = Done ([ROk, RMut (Inr True), RMut (Inr True)], ms', h')" "0 < length ms'"
    "\<And>x. find_item (ms' ! 0) h' x = lookup_item x [demo_item 6, demo_item 5]"
    by (rule demo_run_Done [of 6 5 3]) simp_all
  have same: "find_item (ms ! 0) h x = find_item (ms' ! 0) h' x" for x
    by (simp add: r(3) r'(3) lookup_item_def)
  have fit: "items_fit demo_sha NT_AccountState (\<Union> (cmd_items ` set [New 1, On 0 (TAdd (demo_item 5)), On 0 (TAdd (demo_item 6))]))"
    "items_fit demo_sha NT_AccountState (\<Union> (cmd_items ` set [New 3, On 0 (TAdd (demo_item 6)), On 0 (TAdd (demo_item 5))]))"
    using demo_items_fit [of "{5, 6}"] demo_items_fit [of "{6, 5}"] by simp_all
  from shamap_hash_by_contents [OF fit r(1) [unfolded demo_run_def] r(2) r'(1) [unfolded demo_run_def] r'(2) same]
  show ?thesis
    using r(1) r'(1) by blast
qed

end
