(* ===== verification/Ledger_Trie.thy ===== *)
theory Ledger_Trie
  imports Ordered_Map "HOL-Library.Product_Lexorder"
begin

text \<open>
  The ancestry trie of validated ledgers (\<open>model/ledger_trie.rs\<close>): the arena of nodes with its free
  list, the supports, and the operations on them. A ledger type is given by its four operations;
  sequence numbers are natural numbers and supports are \<open>u32\<close> whose overflow panics. The loops that
  follow pointers carry a bound on their number of rounds, \<open>OutOfFuel\<close> when it is exceeded.
\<close>

section \<open>Ledgers and spans\<close>

record ('l, 'i) trie_ledger_ops =
  tl_genesis :: 'l
  tl_seq :: "'l \<Rightarrow> nat"
  tl_ancestor :: "'l \<Rightarrow> nat \<Rightarrow> 'i"
  tl_mismatch :: "'l \<Rightarrow> 'l \<Rightarrow> nat"

record ('l, 'i) span_tip =
  st_seq :: nat
  st_id :: 'i
  st_ledger :: 'l

definition st_ancestor :: "('l, 'i) trie_ledger_ops \<Rightarrow> ('l, 'i) span_tip \<Rightarrow> nat \<Rightarrow> 'i outcome" where
  "st_ancestor L tip s = (if s \<le> st_seq tip then Done (tl_ancestor L (st_ledger tip) s) else Panic)"

record 'l span =
  sp_start :: nat
  sp_end :: nat
  sp_ledger :: 'l

definition sp_genesis :: "('l, 'i) trie_ledger_ops \<Rightarrow> 'l span" where
  "sp_genesis L =
     (let start = tl_seq L (tl_genesis L)
      in \<lparr>sp_start = start, sp_end = start + 1, sp_ledger = tl_genesis L\<rparr>)"

definition sp_from_ledger :: "('l, 'i) trie_ledger_ops \<Rightarrow> 'l \<Rightarrow> nat \<Rightarrow> 'l span" where
  "sp_from_ledger L l zero = \<lparr>sp_start = zero, sp_end = tl_seq L l + 1, sp_ledger = l\<rparr>"

definition sp_clamp :: "'l span \<Rightarrow> nat \<Rightarrow> nat" where
  "sp_clamp sp v = min (max v (sp_start sp)) (sp_end sp)"

definition sp_sub :: "'l span \<Rightarrow> nat \<Rightarrow> nat \<Rightarrow> 'l span option" where
  "sp_sub sp from to =
     (let new_from = sp_clamp sp from; new_to = sp_clamp sp to
      in if new_from < new_to
         then Some \<lparr>sp_start = new_from, sp_end = new_to, sp_ledger = sp_ledger sp\<rparr> else None)"

definition sp_from :: "'l span \<Rightarrow> nat \<Rightarrow> 'l span option" where
  "sp_from sp spot = sp_sub sp spot (sp_end sp)"

definition sp_before :: "'l span \<Rightarrow> nat \<Rightarrow> 'l span option" where
  "sp_before sp spot = sp_sub sp (sp_start sp) spot"

definition sp_start_id :: "('l, 'i) trie_ledger_ops \<Rightarrow> 'l span \<Rightarrow> 'i" where
  "sp_start_id L sp = tl_ancestor L (sp_ledger sp) (sp_start sp)"

definition sp_diff :: "('l, 'i) trie_ledger_ops \<Rightarrow> 'l span \<Rightarrow> 'l \<Rightarrow> nat" where
  "sp_diff L sp other = sp_clamp sp (tl_mismatch L (sp_ledger sp) other)"

definition sp_tip :: "('l, 'i) trie_ledger_ops \<Rightarrow> 'l span \<Rightarrow> ('l, 'i) span_tip" where
  "sp_tip L sp =
     (let tip_seq = sp_end sp - 1
      in \<lparr>st_seq = tip_seq, st_id = tl_ancestor L (sp_ledger sp) tip_seq, st_ledger = sp_ledger sp\<rparr>)"

definition sp_merge :: "'l span \<Rightarrow> 'l span \<Rightarrow> 'l span" where
  "sp_merge a b =
     (if sp_end a < sp_end b
      then \<lparr>sp_start = min (sp_start a) (sp_start b), sp_end = sp_end b, sp_ledger = sp_ledger b\<rparr>
      else \<lparr>sp_start = min (sp_start a) (sp_start b), sp_end = sp_end a, sp_ledger = sp_ledger a\<rparr>)"

section \<open>Nodes and the arena\<close>

record 'l tnode =
  nd_span :: "'l span"
  nd_tip :: nat
  nd_branch :: nat
  nd_children :: "nat list"
  nd_parent :: "nat option"
  nd_live :: bool

definition nd_root :: "('l, 'i) trie_ledger_ops \<Rightarrow> 'l tnode" where
  "nd_root L =
     \<lparr>nd_span = sp_genesis L, nd_tip = 0, nd_branch = 0, nd_children = [], nd_parent = None,
      nd_live = True\<rparr>"

definition nd_from_span :: "'l span \<Rightarrow> 'l tnode" where
  "nd_from_span sp =
     \<lparr>nd_span = sp, nd_tip = 0, nd_branch = 0, nd_children = [], nd_parent = None, nd_live = True\<rparr>"

record 'l trie =
  tr_nodes :: "'l tnode list"
  tr_seq :: "(nat \<times> nat) list"
  tr_free :: "nat list"

definition trie_new :: "('l, 'i) trie_ledger_ops \<Rightarrow> 'l trie" where
  "trie_new L = \<lparr>tr_nodes = [nd_root L], tr_seq = [], tr_free = []\<rparr>"

text \<open>Reading and writing \<open>self.nodes[i]\<close>, and \<open>u32\<close> arithmetic; out of range they panic.\<close>

definition tr_at :: "'l trie \<Rightarrow> nat \<Rightarrow> ('l tnode \<Rightarrow> 'a outcome) \<Rightarrow> 'a outcome" where
  "tr_at t i f = (if i < length (tr_nodes t) then f (tr_nodes t ! i) else Panic)"

definition tr_modify :: "nat \<Rightarrow> ('l tnode \<Rightarrow> 'l tnode) \<Rightarrow> 'l trie \<Rightarrow> 'l trie outcome" where
  "tr_modify i f t =
     (if i < length (tr_nodes t) then Done (t\<lparr>tr_nodes := (tr_nodes t)[i := f (tr_nodes t ! i)]\<rparr>)
      else Panic)"

definition u32_add :: "nat \<Rightarrow> nat \<Rightarrow> nat outcome" where
  "u32_add a b = (if a + b < 2 ^ 32 then Done (a + b) else Panic)"

definition u32_sub :: "nat \<Rightarrow> nat \<Rightarrow> nat outcome" where
  "u32_sub a b = (if b \<le> a then Done (a - b) else Panic)"

definition tr_alloc :: "'l tnode \<Rightarrow> 'l trie \<Rightarrow> (nat \<times> 'l trie) outcome" where
  "tr_alloc node t =
     (if tr_free t = [] then Done (length (tr_nodes t), t\<lparr>tr_nodes := tr_nodes t @ [node]\<rparr>)
      else (let i = List.last (tr_free t)
            in bind_outcome (tr_modify i (\<lambda>_. node) (t\<lparr>tr_free := butlast (tr_free t)\<rparr>)) (\<lambda>t.
                 Done (i, t))))"

definition tr_erase_child ::
  "('l, 'i) trie_ledger_ops \<Rightarrow> nat \<Rightarrow> nat \<Rightarrow> 'l trie \<Rightarrow> 'l trie outcome" where
  "tr_erase_child L parent child t =
     bind_outcome (tr_modify parent (\<lambda>nd. nd\<lparr>nd_children := filter (\<lambda>c. c \<noteq> child) (nd_children nd)\<rparr>) t)
       (\<lambda>t. bind_outcome (tr_modify child (\<lambda>_. (nd_from_span (sp_genesis L))\<lparr>nd_live := False\<rparr>) t)
         (\<lambda>t. Done (t\<lparr>tr_free := tr_free t @ [child]\<rparr>)))"

definition tr_allocated_nodes :: "'l trie \<Rightarrow> nat" where
  "tr_allocated_nodes t = length (tr_nodes t)"

definition tr_live_nodes :: "'l trie \<Rightarrow> nat" where
  "tr_live_nodes t = length (tr_nodes t) - 1 - length (tr_free t)"

section \<open>Finding a ledger\<close>

fun tr_pick_child ::
  "('l, 'i) trie_ledger_ops \<Rightarrow> 'l trie \<Rightarrow> 'l \<Rightarrow> nat \<Rightarrow> nat list \<Rightarrow> (nat \<times> nat) option outcome" where
  "tr_pick_child L t l pos [] = Done None"
| "tr_pick_child L t l pos (child # cs) =
     tr_at t child (\<lambda>nd.
       if \<not> nd_live nd then tr_pick_child L t l pos cs
       else (let child_pos = sp_diff L (nd_span nd) l
             in if pos < child_pos then Done (Some (child, child_pos))
                else tr_pick_child L t l pos cs))"

fun tr_find_loop ::
  "('l, 'i) trie_ledger_ops \<Rightarrow> nat \<Rightarrow> 'l trie \<Rightarrow> 'l \<Rightarrow> nat \<Rightarrow> nat \<Rightarrow> (nat \<times> nat) outcome" where
  "tr_find_loop L 0 t l cur pos = OutOfFuel"
| "tr_find_loop L (Suc fuel) t l cur pos =
     tr_at t cur (\<lambda>nd.
       if pos = sp_end (nd_span nd) then
         bind_outcome (tr_pick_child L t l pos (nd_children nd)) (\<lambda>r.
           case r of None \<Rightarrow> Done (cur, pos) | Some (c, p) \<Rightarrow> tr_find_loop L fuel t l c p)
       else Done (cur, pos))"

definition tr_find :: "('l, 'i) trie_ledger_ops \<Rightarrow> 'l trie \<Rightarrow> 'l \<Rightarrow> (nat \<times> nat) outcome" where
  "tr_find L t l =
     tr_at t 0 (\<lambda>nd. tr_find_loop L (tl_seq L l + 2) t l 0 (sp_diff L (nd_span nd) l))"

fun tr_find_from :: "('l, 'i) trie_ledger_ops \<Rightarrow> 'i \<Rightarrow> nat \<Rightarrow> 'l tnode list \<Rightarrow> nat option" where
  "tr_find_from L i k [] = None"
| "tr_find_from L i k (nd # nds) =
     (if nd_live nd \<and> st_id (sp_tip L (nd_span nd)) = i then Some k else tr_find_from L i (Suc k) nds)"

definition tr_find_by_ledger_id :: "('l, 'i) trie_ledger_ops \<Rightarrow> 'l trie \<Rightarrow> 'i \<Rightarrow> nat option" where
  "tr_find_by_ledger_id L t i = tr_find_from L i 0 (tr_nodes t)"

section \<open>Insertion\<close>

definition tr_split :: "nat \<Rightarrow> 'l span option \<Rightarrow> 'l span \<Rightarrow> 'l trie \<Rightarrow> 'l trie outcome" where
  "tr_split loc prefix old_suffix t =
     tr_at t loc (\<lambda>nd.
       let new_node = (nd_from_span old_suffix)
             \<lparr>nd_tip := nd_tip nd, nd_branch := nd_branch nd, nd_children := nd_children nd\<rparr>
       in bind_outcome (tr_modify loc (\<lambda>nd. nd\<lparr>nd_children := []\<rparr>) t) (\<lambda>t.
          bind_outcome (tr_alloc new_node t) (\<lambda>(new, t).
          bind_outcome (fold_outcome (\<lambda>c. tr_modify c (\<lambda>nd. nd\<lparr>nd_parent := Some new\<rparr>)) (nd_children new_node) t) (\<lambda>t.
          bind_outcome (expect prefix) (\<lambda>prefix.
          bind_outcome (tr_modify loc (\<lambda>nd. nd\<lparr>nd_span := prefix\<rparr>) t) (\<lambda>t.
          bind_outcome (tr_modify new (\<lambda>nd. nd\<lparr>nd_parent := Some loc\<rparr>) t) (\<lambda>t.
          bind_outcome (tr_modify loc (\<lambda>nd. nd\<lparr>nd_children := nd_children nd @ [new]\<rparr>) t) (\<lambda>t.
          tr_modify loc (\<lambda>nd. nd\<lparr>nd_tip := 0\<rparr>) t))))))))"

definition tr_add_leaf :: "nat \<Rightarrow> 'l span \<Rightarrow> 'l trie \<Rightarrow> (nat \<times> 'l trie) outcome" where
  "tr_add_leaf loc new_suffix t =
     bind_outcome (tr_alloc ((nd_from_span new_suffix)\<lparr>nd_parent := Some loc\<rparr>) t) (\<lambda>(new, t).
     bind_outcome (tr_modify loc (\<lambda>nd. nd\<lparr>nd_children := nd_children nd @ [new]\<rparr>) t) (\<lambda>t.
     Done (new, t)))"

text \<open>The walks to the root; the span of a parent ends where the one of its child starts.\<close>

fun tr_walk :: "(nat \<Rightarrow> nat outcome) \<Rightarrow> nat \<Rightarrow> nat option \<Rightarrow> 'l trie \<Rightarrow> 'l trie outcome" where
  "tr_walk f fuel None t = Done t"
| "tr_walk f 0 (Some i) t = OutOfFuel"
| "tr_walk f (Suc fuel) (Some i) t =
     tr_at t i (\<lambda>nd. bind_outcome (f (nd_branch nd)) (\<lambda>b.
       bind_outcome (tr_modify i (\<lambda>nd. nd\<lparr>nd_branch := b\<rparr>) t) (\<lambda>t.
         tr_walk f fuel (nd_parent nd) t)))"

definition tr_walk_up :: "(nat \<Rightarrow> nat outcome) \<Rightarrow> nat \<Rightarrow> 'l trie \<Rightarrow> 'l trie outcome" where
  "tr_walk_up f i t = tr_at t i (\<lambda>nd. tr_walk f (sp_start (nd_span nd) + 1) (Some i) t)"

definition tr_bump :: "nat \<Rightarrow> nat \<Rightarrow> 'l trie \<Rightarrow> 'l trie outcome" where
  "tr_bump inc_node cnt t =
     tr_at t inc_node (\<lambda>nd.
       bind_outcome (u32_add (nd_tip nd) cnt) (\<lambda>tip.
       bind_outcome (tr_modify inc_node (\<lambda>nd. nd\<lparr>nd_tip := tip\<rparr>) t) (\<lambda>t.
       tr_walk_up (\<lambda>b. u32_add b cnt) inc_node t)))"

definition tr_seq_get :: "'l trie \<Rightarrow> nat \<Rightarrow> nat" where
  "tr_seq_get t s = (case map_of (tr_seq t) s of None \<Rightarrow> 0 | Some n \<Rightarrow> n)"

definition trie_insert :: "('l, 'i) trie_ledger_ops \<Rightarrow> 'l \<Rightarrow> nat \<Rightarrow> 'l trie \<Rightarrow> 'l trie outcome" where
  "trie_insert L l cnt t =
     bind_outcome (tr_find L t l) (\<lambda>(loc, diff_seq).
     tr_at t loc (\<lambda>nd.
       let prefix = sp_before (nd_span nd) diff_seq;
           old_suffix = sp_from (nd_span nd) diff_seq;
           new_suffix = sp_from (sp_from_ledger L l 0) diff_seq
       in bind_outcome (case old_suffix of None \<Rightarrow> Done t | Some s \<Rightarrow> tr_split loc prefix s t) (\<lambda>t.
          bind_outcome (case new_suffix of None \<Rightarrow> Done (loc, t) | Some s \<Rightarrow> tr_add_leaf loc s t)
            (\<lambda>(inc_node, t).
          bind_outcome (tr_bump inc_node cnt t) (\<lambda>t.
          bind_outcome (u32_add (tr_seq_get t (tl_seq L l)) cnt) (\<lambda>n.
          Done (t\<lparr>tr_seq := bt_insert (tl_seq L l) n (tr_seq t)\<rparr>)))))))"

section \<open>Removal\<close>

definition tr_live_children :: "'l trie \<Rightarrow> nat list \<Rightarrow> nat list" where
  "tr_live_children t cs = filter (\<lambda>c. nd_live (tr_nodes t ! c)) cs"

definition tr_merge_child ::
  "('l, 'i) trie_ledger_ops \<Rightarrow> nat \<Rightarrow> nat \<Rightarrow> nat \<Rightarrow> 'l trie \<Rightarrow> 'l trie outcome" where
  "tr_merge_child L parent loc child t =
     tr_at t loc (\<lambda>nd.
     bind_outcome (tr_modify child
       (\<lambda>cnd. cnd\<lparr>nd_span := sp_merge (nd_span nd) (nd_span cnd), nd_parent := Some parent\<rparr>) t) (\<lambda>t.
     bind_outcome (tr_modify parent (\<lambda>pnd. pnd\<lparr>nd_children := nd_children pnd @ [child]\<rparr>) t) (\<lambda>t.
     tr_erase_child L parent loc t)))"

fun tr_compress ::
  "('l, 'i) trie_ledger_ops \<Rightarrow> nat \<Rightarrow> nat \<Rightarrow> 'l trie \<Rightarrow> 'l trie outcome" where
  "tr_compress L 0 loc t = OutOfFuel"
| "tr_compress L (Suc fuel) loc t =
     tr_at t loc (\<lambda>nd.
       if nd_tip nd = 0 \<and> loc \<noteq> 0 then
         bind_outcome (expect (nd_parent nd)) (\<lambda>parent.
           if \<exists>c \<in> set (nd_children nd). length (tr_nodes t) \<le> c then Panic
           else case tr_live_children t (nd_children nd) of
             [] \<Rightarrow> bind_outcome (tr_erase_child L parent loc t) (tr_compress L fuel parent)
           | [child] \<Rightarrow> bind_outcome (tr_merge_child L parent loc child t) (tr_compress L fuel parent)
           | _ \<Rightarrow> Done t)
       else Done t)"

definition tr_drop_seq :: "nat \<Rightarrow> nat \<Rightarrow> 'l trie \<Rightarrow> 'l trie outcome" where
  "tr_drop_seq s cnt t =
     (case map_of (tr_seq t) s of
        None \<Rightarrow> Done t
      | Some support \<Rightarrow> bind_outcome (u32_sub support cnt) (\<lambda>n.
          Done (t\<lparr>tr_seq := if n = 0 then bt_remove s (tr_seq t) else bt_insert s n (tr_seq t)\<rparr>)))"

definition trie_remove ::
  "('l, 'i) trie_ledger_ops \<Rightarrow> 'i \<Rightarrow> nat \<Rightarrow> nat \<Rightarrow> 'l trie \<Rightarrow> (bool \<times> 'l trie) outcome" where
  "trie_remove L ledger_id ledger_seq cnt t =
     (case tr_find_by_ledger_id L t ledger_id of
        None \<Rightarrow> Done (False, t)
      | Some loc \<Rightarrow> tr_at t loc (\<lambda>nd.
          if nd_tip nd = 0 then Done (False, t)
          else (let cnt = min cnt (nd_tip nd)
                in bind_outcome (tr_modify loc (\<lambda>nd. nd\<lparr>nd_tip := nd_tip nd - cnt\<rparr>) t) (\<lambda>t.
                   bind_outcome (tr_drop_seq ledger_seq cnt t) (\<lambda>t.
                   bind_outcome (tr_walk_up (\<lambda>b. u32_sub b cnt) loc t) (\<lambda>t.
                   bind_outcome (tr_compress L (sp_start (nd_span nd) + 1) loc t) (\<lambda>t.
                   Done (True, t))))))))"

section \<open>Support and the preferred ledger\<close>

definition trie_tip_support :: "('l, 'i) trie_ledger_ops \<Rightarrow> 'i \<Rightarrow> 'l trie \<Rightarrow> nat outcome" where
  "trie_tip_support L ledger_id t =
     (case tr_find_by_ledger_id L t ledger_id of
        None \<Rightarrow> Done 0 | Some i \<Rightarrow> tr_at t i (\<lambda>nd. Done (nd_tip nd)))"

definition trie_branch_support :: "('l, 'i) trie_ledger_ops \<Rightarrow> 'l \<Rightarrow> 'l trie \<Rightarrow> nat outcome" where
  "trie_branch_support L l t =
     (case tr_find_by_ledger_id L t (tl_ancestor L l (tl_seq L l)) of
        Some i \<Rightarrow> tr_at t i (\<lambda>nd. Done (nd_branch nd))
      | None \<Rightarrow> bind_outcome (tr_find L t l) (\<lambda>(loc, diff_seq).
          tr_at t loc (\<lambda>nd.
            Done (if tl_seq L l < diff_seq \<and> tl_seq L l < sp_end (nd_span nd) then nd_branch nd else 0))))"

definition trie_is_empty :: "'l trie \<Rightarrow> bool outcome" where
  "trie_is_empty t = tr_at t 0 (\<lambda>nd. Done (nd_branch nd = 0))"

text \<open>The two inner loops of \<open>get_preferred\<close> over what is left of the support per sequence.\<close>

fun tr_commit_below :: "nat \<Rightarrow> nat \<Rightarrow> (nat \<times> nat) list \<Rightarrow> (nat \<times> (nat \<times> nat) list) outcome" where
  "tr_commit_below bound uncommitted [] = Done (uncommitted, [])"
| "tr_commit_below bound uncommitted ((s, n) # rest) =
     (if s < bound then bind_outcome (u32_add uncommitted n) (\<lambda>u. tr_commit_below bound u rest)
      else Done (uncommitted, (s, n) # rest))"

fun tr_advance ::
  "nat \<Rightarrow> nat \<Rightarrow> nat \<Rightarrow> nat \<Rightarrow> (nat \<times> nat) list \<Rightarrow> (nat \<times> nat \<times> (nat \<times> nat) list) outcome" where
  "tr_advance stop branch next_seq uncommitted [] =
     Done (if next_seq < stop \<and> uncommitted < branch then stop else next_seq, uncommitted, [])"
| "tr_advance stop branch next_seq uncommitted ((s, n) # rest) =
     (if next_seq < stop \<and> uncommitted < branch then
        if s < stop then bind_outcome (u32_add uncommitted n) (\<lambda>u. tr_advance stop branch (s + 1) u rest)
        else Done (stop, uncommitted, (s, n) # rest)
      else Done (next_seq, uncommitted, (s, n) # rest))"

definition tr_best_child ::
  "('l, 'i::linorder) trie_ledger_ops \<Rightarrow> 'l trie \<Rightarrow> nat list \<Rightarrow> (nat \<times> nat) option outcome" where
  "tr_best_child L t live =
     (let node = (\<lambda>c. tr_nodes t ! c)
      in case live of
           [] \<Rightarrow> Done None
         | [c] \<Rightarrow> Done (Some (c, nd_branch (node c)))
         | _ \<Rightarrow>
            (let ordered = rev (sort_key (\<lambda>c. (nd_branch (node c), sp_start_id L (nd_span (node c)))) (rev live));
                 first = ordered ! 0;
                 second = ordered ! 1
             in bind_outcome (u32_sub (nd_branch (node first)) (nd_branch (node second))) (\<lambda>margin.
                if sp_start_id L (nd_span (node second)) < sp_start_id L (nd_span (node first))
                then bind_outcome (u32_add margin 1) (\<lambda>margin. Done (Some (first, margin)))
                else Done (Some (first, margin)))))"

fun tr_preferred_loop ::
  "('l, 'i::linorder) trie_ledger_ops \<Rightarrow> nat \<Rightarrow> 'l trie \<Rightarrow> nat \<Rightarrow> nat \<Rightarrow> nat \<Rightarrow> (nat \<times> nat) list
   \<Rightarrow> ('l, 'i) span_tip option outcome" where
  "tr_preferred_loop L 0 t largest_issued cur uncommitted rest = OutOfFuel"
| "tr_preferred_loop L (Suc fuel) t largest_issued cur uncommitted rest =
     tr_at t cur (\<lambda>nd.
       let span = nd_span nd; next_seq = sp_start span + 1
       in bind_outcome (tr_commit_below (max next_seq largest_issued) uncommitted rest) (\<lambda>(uncommitted, rest).
          bind_outcome (tr_advance (sp_end span) (nd_branch nd) next_seq uncommitted rest)
            (\<lambda>(next_seq, uncommitted, rest).
          if next_seq < sp_end span then Done (map_option (sp_tip L) (sp_before span next_seq))
          else if \<exists>c \<in> set (nd_children nd). length (tr_nodes t) \<le> c then Panic
          else bind_outcome (tr_best_child L t (tr_live_children t (nd_children nd))) (\<lambda>best.
            case best of
              None \<Rightarrow> Done (Some (sp_tip L span))
            | Some (best_idx, margin) \<Rightarrow>
                if uncommitted < margin \<or> uncommitted = 0
                then tr_preferred_loop L fuel t largest_issued best_idx uncommitted rest
                else Done (Some (sp_tip L span))))))"

definition tr_horizon :: "'l trie \<Rightarrow> nat" where
  "tr_horizon t = foldr (\<lambda>nd m. max (sp_end (nd_span nd)) m) (tr_nodes t) 0"

definition trie_get_preferred ::
  "('l, 'i::linorder) trie_ledger_ops \<Rightarrow> nat \<Rightarrow> 'l trie \<Rightarrow> ('l, 'i) span_tip option outcome" where
  "trie_get_preferred L largest_issued t =
     bind_outcome (trie_is_empty t) (\<lambda>e.
       if e then Done None
       else tr_preferred_loop L (tr_horizon t + 1) t largest_issued 0 0 (tr_seq t))"

section \<open>The self-check\<close>

fun tr_sum_children :: "'l trie \<Rightarrow> nat \<Rightarrow> nat list \<Rightarrow> nat \<Rightarrow> nat option outcome" where
  "tr_sum_children t cur [] support = Done (Some support)"
| "tr_sum_children t cur (c # cs) support =
     tr_at t c (\<lambda>nd.
       if nd_parent nd \<noteq> Some cur then Done None
       else bind_outcome (u32_add support (nd_branch nd)) (tr_sum_children t cur cs))"

definition tr_expect :: "nat \<Rightarrow> nat \<Rightarrow> (nat \<times> nat) list \<Rightarrow> (nat \<times> nat) list outcome" where
  "tr_expect s n expected =
     bind_outcome (u32_add (case map_of expected s of None \<Rightarrow> 0 | Some m \<Rightarrow> m) n) (\<lambda>m.
       Done (bt_insert s m expected))"

fun tr_check_loop :: "nat \<Rightarrow> 'l trie \<Rightarrow> nat list \<Rightarrow> (nat \<times> nat) list \<Rightarrow> bool outcome" where
  "tr_check_loop 0 t stack expected = OutOfFuel"
| "tr_check_loop (Suc fuel) t stack expected =
     (if stack = [] then Done (expected = tr_seq t)
      else (let cur = List.last stack; stack = butlast stack
            in tr_at t cur (\<lambda>nd.
              if \<not> nd_live nd \<and> cur \<noteq> 0 then tr_check_loop fuel t stack expected
              else if \<exists>c \<in> set (nd_children nd). length (tr_nodes t) \<le> c then Panic
              else (let live = tr_live_children t (nd_children nd)
                in if cur \<noteq> 0 \<and> nd_tip nd = 0 \<and> length live < 2 then Done False
                   else bind_outcome (if nd_tip nd \<noteq> 0 then tr_expect (sp_end (nd_span nd) - 1) (nd_tip nd) expected
                          else Done expected) (\<lambda>expected.
                     bind_outcome (tr_sum_children t cur live (nd_tip nd)) (\<lambda>r.
                       case r of
                         None \<Rightarrow> Done False
                       | Some support \<Rightarrow>
                           if support \<noteq> nd_branch nd then Done False
                           else tr_check_loop fuel t (stack @ live) expected))))))"

definition trie_check_invariants :: "'l trie \<Rightarrow> bool outcome" where
  "trie_check_invariants t = tr_check_loop (length (tr_nodes t) + 1) t [0] []"

end
