(* ===== verification/Trie_Graph.thy ===== *)
theory Trie_Graph
  imports Ledger_Trie
begin

text \<open>
  The well-formedness of the ledger trie as a graph: a set of live slots and a function from slots to
  nodes. The operations of the trie are compositions of five changes of the graph: splitting a node,
  adding a leaf, changing the support along the path to the root, erasing a leaf, and merging a node
  into its only child. Each keeps the graph well-formed.
\<close>

type_synonym 'l graph = "nat \<Rightarrow> 'l tnode"

abbreviation n_start :: "'l graph \<Rightarrow> nat \<Rightarrow> nat" where
  "n_start N i \<equiv> sp_start (nd_span (N i))"

abbreviation n_end :: "'l graph \<Rightarrow> nat \<Rightarrow> nat" where
  "n_end N i \<equiv> sp_end (nd_span (N i))"

abbreviation n_kids :: "'l graph \<Rightarrow> nat \<Rightarrow> nat set" where
  "n_kids N i \<equiv> set (nd_children (N i))"

section \<open>Well-formed graphs\<close>

text \<open>The links between nodes: parents and children agree, and a child starts where its parent ends.\<close>

definition kids_ok :: "nat set \<Rightarrow> 'l graph \<Rightarrow> nat \<Rightarrow> bool" where
  "kids_ok V N i \<longleftrightarrow> n_start N i < n_end N i \<and> distinct (nd_children (N i)) \<and>
     (\<forall>c \<in> n_kids N i. c \<in> V \<and> nd_parent (N c) = Some i \<and> n_start N c = n_end N i)"

definition parent_ok :: "nat set \<Rightarrow> 'l graph \<Rightarrow> nat \<Rightarrow> bool" where
  "parent_ok V N i \<longleftrightarrow> (\<exists>p \<in> V. nd_parent (N i) = Some p \<and> i \<in> n_kids N p)"

definition links :: "nat set \<Rightarrow> 'l graph \<Rightarrow> bool" where
  "links V N \<longleftrightarrow> finite V \<and> 0 \<in> V \<and> nd_parent (N 0) = None \<and> n_start N 0 = 0 \<and> n_end N 0 = 1 \<and>
     (\<forall>i \<in> V. kids_ok V N i) \<and> (\<forall>i \<in> V. i \<noteq> 0 \<longrightarrow> parent_ok V N i)"

text \<open>The support of a branch is the support of its tip and of the branches below.\<close>

definition sums :: "nat set \<Rightarrow> 'l graph \<Rightarrow> bool" where
  "sums V N \<longleftrightarrow> (\<forall>i \<in> V. nd_branch (N i) = nd_tip (N i) + (\<Sum>c \<in> n_kids N i. nd_branch (N c)))"

text \<open>The tip support of the nodes whose span satisfies \<open>Q\<close>, in particular at a sequence number. What a
  tip is does not depend on where its span starts.\<close>

definition weight_of :: "('l span \<Rightarrow> bool) \<Rightarrow> nat set \<Rightarrow> 'l graph \<Rightarrow> nat" where
  "weight_of Q V N = (\<Sum>i \<in> V. if Q (nd_span (N i)) then nd_tip (N i) else 0)"

definition ends_at :: "nat \<Rightarrow> 'l span \<Rightarrow> bool" where
  "ends_at s sp \<longleftrightarrow> sp_end sp = Suc s"

definition weight :: "nat set \<Rightarrow> 'l graph \<Rightarrow> nat \<Rightarrow> nat" where
  "weight V N s = weight_of (ends_at s) V N"

lemma weight_sum: "weight V N s = (\<Sum>i \<in> V. if n_end N i = Suc s then nd_tip (N i) else 0)"
  by (simp add: weight_def weight_of_def ends_at_def)

definition about_tip :: "('l span \<Rightarrow> bool) \<Rightarrow> bool" where
  "about_tip Q \<longleftrightarrow> (\<forall>sp x. Q (sp\<lparr>sp_start := x\<rparr>) = Q sp)"

lemma about_tip_ends_at [simp]: "about_tip (ends_at s)"
  by (simp add: about_tip_def ends_at_def)

text \<open>A node without tip support of its own has at least two children, except in \<open>X\<close>.\<close>

definition packed :: "nat set \<Rightarrow> nat set \<Rightarrow> 'l graph \<Rightarrow> bool" where
  "packed X V N \<longleftrightarrow> (\<forall>i \<in> V. i \<noteq> 0 \<longrightarrow> i \<notin> X \<longrightarrow> nd_tip (N i) = 0 \<longrightarrow> 2 \<le> length (nd_children (N i)))"

section \<open>The changes\<close>

definition split_node :: "nat \<Rightarrow> nat \<Rightarrow> nat \<Rightarrow> 'l graph \<Rightarrow> 'l graph" where
  "split_node loc new pos N j =
     (if j = new then
        \<lparr>nd_span = (nd_span (N loc))\<lparr>sp_start := pos\<rparr>, nd_tip = nd_tip (N loc), nd_branch = nd_branch (N loc),
         nd_children = nd_children (N loc), nd_parent = Some loc, nd_live = True\<rparr>
      else if j = loc then
        (N loc)\<lparr>nd_span := (nd_span (N loc))\<lparr>sp_end := pos\<rparr>, nd_children := [new], nd_tip := 0\<rparr>
      else if j \<in> n_kids N loc then (N j)\<lparr>nd_parent := Some new\<rparr>
      else N j)"

definition add_leaf :: "nat \<Rightarrow> nat \<Rightarrow> 'l span \<Rightarrow> 'l graph \<Rightarrow> 'l graph" where
  "add_leaf loc new sp N =
     N(loc := (N loc)\<lparr>nd_children := nd_children (N loc) @ [new]\<rparr>,
       new := (nd_from_span sp)\<lparr>nd_parent := Some loc\<rparr>)"

definition erase_leaf :: "nat \<Rightarrow> nat \<Rightarrow> 'l graph \<Rightarrow> 'l graph" where
  "erase_leaf p loc N = N(p := (N p)\<lparr>nd_children := filter (\<lambda>c. c \<noteq> loc) (nd_children (N p))\<rparr>)"

definition merge_node :: "nat \<Rightarrow> nat \<Rightarrow> nat \<Rightarrow> 'l graph \<Rightarrow> 'l graph" where
  "merge_node p loc child N =
     N(child := (N child)\<lparr>nd_span := (nd_span (N child))\<lparr>sp_start := n_start N loc\<rparr>, nd_parent := Some p\<rparr>,
       p := (N p)\<lparr>nd_children := filter (\<lambda>c. c \<noteq> loc) (nd_children (N p)) @ [child]\<rparr>)"

section \<open>Links\<close>

lemma linksD:
  assumes "links V N"
  shows "finite V" and "0 \<in> V" and "nd_parent (N 0) = None" and "n_start N 0 = 0"
    and "\<And>i. i \<in> V \<Longrightarrow> n_start N i < n_end N i"
    and "\<And>i. i \<in> V \<Longrightarrow> distinct (nd_children (N i))"
    and "\<And>i c. i \<in> V \<Longrightarrow> c \<in> n_kids N i \<Longrightarrow> c \<in> V"
    and "\<And>i c. i \<in> V \<Longrightarrow> c \<in> n_kids N i \<Longrightarrow> nd_parent (N c) = Some i"
    and "\<And>i c. i \<in> V \<Longrightarrow> c \<in> n_kids N i \<Longrightarrow> n_start N c = n_end N i"
    and "\<And>i. i \<in> V \<Longrightarrow> i \<noteq> 0 \<Longrightarrow> parent_ok V N i" and "n_end N 0 = 1"
  using assms by (auto simp: links_def kids_ok_def)

lemma links_cong:
  assumes "links V N" and "\<And>i. i \<in> V \<Longrightarrow> nd_span (N' i) = nd_span (N i)"
    and "\<And>i. i \<in> V \<Longrightarrow> nd_children (N' i) = nd_children (N i)"
    and "\<And>i. i \<in> V \<Longrightarrow> nd_parent (N' i) = nd_parent (N i)"
  shows "links V N'"
  using assms unfolding links_def kids_ok_def parent_ok_def by (auto; metis)

lemma kids_disjoint:
  "links V N \<Longrightarrow> i \<in> V \<Longrightarrow> j \<in> V \<Longrightarrow> c \<in> n_kids N i \<Longrightarrow> c \<in> n_kids N j \<Longrightarrow> i = j"
  using linksD(8) by (metis option.inject)

lemma kid_neq: "links V N \<Longrightarrow> i \<in> V \<Longrightarrow> c \<in> n_kids N i \<Longrightarrow> c \<noteq> i \<and> c \<noteq> 0"
  by (metis linksD(3,5,7,8,9) less_irrefl option.distinct(1))

lemma links_split:
  assumes ok: "links V N" and loc: "loc \<in> V" and new: "new \<notin> V"
    and pos: "n_start N loc < pos" "pos < n_end N loc"
  shows "links (insert new V) (split_node loc new pos N)"
proof -
  note d = linksD [OF ok]
  let ?N = "split_node loc new pos N"
  have kid: "kids_ok (insert new V) ?N i" if i: "i \<in> V" "i \<noteq> loc" for i
  proof -
    have "c \<notin> n_kids N loc \<and> c \<in> V \<and> c \<noteq> new" if "c \<in> n_kids N i" for c
      using that i d(7) kids_disjoint [OF ok i(1) loc] new by blast
    then show ?thesis
      using i new d(5,6,7,8,9) by (auto simp: kids_ok_def split_node_def)
  qed
  have "kids_ok (insert new V) ?N loc"
    using loc new pos by (auto simp: kids_ok_def split_node_def)
  moreover have "kids_ok (insert new V) ?N new"
    using loc new pos d(6,7,9) kid_neq [OF ok loc] by (auto simp: kids_ok_def split_node_def)
  moreover have "parent_ok (insert new V) ?N i" if i: "i \<in> V" "i \<noteq> 0" for i
  proof -
    obtain p where p: "p \<in> V" "nd_parent (N i) = Some p" "i \<in> n_kids N p"
      using d(10) [OF i] by (auto simp: parent_ok_def)
    show ?thesis
    proof (cases "p = loc")
      case True
      then show ?thesis
        using p i new kid_neq [OF ok loc] by (auto simp: parent_ok_def split_node_def)
    next
      case False
      then show ?thesis
        using p i new kids_disjoint [OF ok p(1) loc p(3)] by (auto simp: parent_ok_def split_node_def)
    qed
  qed
  moreover have "parent_ok (insert new V) ?N new"
    using loc new by (auto simp: parent_ok_def split_node_def)
  moreover have "loc \<noteq> 0"
    using pos d(4,11) by (cases "loc = 0") auto
  then have "nd_parent (?N 0) = None" "n_start ?N 0 = 0" "n_end ?N 0 = 1"
    using d(2,3,4,11) new kid_neq [OF ok loc] by (cases "new = 0"; auto simp: split_node_def)+
  ultimately show ?thesis
    using kid d(1,2) by (auto simp: links_def)
qed

lemma links_leaf:
  assumes ok: "links V N" and loc: "loc \<in> V" and new: "new \<notin> V"
    and sp: "sp_start sp = n_end N loc" "sp_start sp < sp_end sp"
  shows "links (insert new V) (add_leaf loc new sp N)"
proof -
  note d = linksD [OF ok]
  let ?N = "add_leaf loc new sp N"
  have old: "nd_span (?N i) = nd_span (N i)" "nd_parent (?N i) = nd_parent (N i)"
    "n_kids N i \<subseteq> n_kids ?N i" if "i \<in> V" for i
    using that new by (auto simp: add_leaf_def)
  have "kids_ok (insert new V) ?N i" if "i \<in> V" "i \<noteq> loc" for i
    using that d(5-9) new by (fastforce simp: kids_ok_def add_leaf_def)
  moreover have "kids_ok (insert new V) ?N loc"
    using loc d(5-9) new sp by (fastforce simp: kids_ok_def add_leaf_def nd_from_span_def)
  moreover have "kids_ok (insert new V) ?N new"
    using sp by (auto simp: kids_ok_def add_leaf_def nd_from_span_def)
  moreover have "parent_ok (insert new V) ?N i" if "i \<in> V" "i \<noteq> 0" for i
    using d(10) [OF that] old that(1) by (fastforce simp: parent_ok_def)
  moreover have "parent_ok (insert new V) ?N new"
    using loc new by (auto simp: parent_ok_def add_leaf_def)
  ultimately show ?thesis
    using d(1-4,11) old [OF d(2)] by (auto simp: links_def)
qed


lemma kids_erased:
  assumes ok: "links V N" and p: "p \<in> V" "nd_parent (N loc) = Some p" and i: "i \<in> V" "i \<noteq> p"
  shows "loc \<notin> n_kids N i"
  using linksD(8) [OF ok i(1)] p(2) i(2) by (metis option.inject)

lemma links_erase:
  assumes ok: "links V N" and loc: "loc \<in> V" "loc \<noteq> 0" "nd_children (N loc) = []"
    and p: "nd_parent (N loc) = Some p"
  shows "p \<in> V" and "links (V - {loc}) (erase_leaf p loc N)"
proof -
  note d = linksD [OF ok]
  show pV: "p \<in> V"
    using d(10) [OF loc(1,2)] p by (auto simp: parent_ok_def)
  let ?N = "erase_leaf p loc N"
  have span: "nd_span (?N i) = nd_span (N i)" "nd_parent (?N i) = nd_parent (N i)"
    and kids: "n_kids ?N i = (if i = p then n_kids N i - {loc} else n_kids N i)"
    and dist: "distinct (nd_children (N i)) \<Longrightarrow> distinct (nd_children (?N i))" for i
    by (auto simp: erase_leaf_def)
  have "kids_ok (V - {loc}) ?N i" if "i \<in> V" "i \<noteq> loc" for i
    using that d(5-9) kids_erased [OF ok pV p that(1)] by (auto simp: kids_ok_def span kids dist)
  moreover have "parent_ok (V - {loc}) ?N i" if i: "i \<in> V" "i \<noteq> 0" "i \<noteq> loc" for i
  proof -
    obtain q where q: "q \<in> V" "nd_parent (N i) = Some q" "i \<in> n_kids N q"
      using d(10) [OF i(1,2)] by (auto simp: parent_ok_def)
    then have "q \<noteq> loc"
      using loc(3) by auto
    then show ?thesis
      using q i(3) by (auto simp: parent_ok_def span kids)
  qed
  ultimately show "links (V - {loc}) ?N"
    using d(1-4,11) loc(2) by (auto simp: links_def span)
qed

lemma links_merge:
  assumes ok: "links V N" and loc: "loc \<in> V" "loc \<noteq> 0" "nd_children (N loc) = [child]"
    and p: "nd_parent (N loc) = Some p"
  shows "p \<in> V" and "links (V - {loc}) (merge_node p loc child N)"
    and "child \<in> V" and "child \<noteq> p" and "child \<noteq> loc" and "p \<noteq> loc"
proof -
  note d = linksD [OF ok]
  show pV: "p \<in> V"
    using d(10) [OF loc(1,2)] p by (auto simp: parent_ok_def)
  have loc_kid: "loc \<in> n_kids N p"
    using d(10) [OF loc(1,2)] p by (auto simp: parent_ok_def)
  show cV: "child \<in> V"
    using d(7) [OF loc(1)] loc(3) by simp
  have c: "nd_parent (N child) = Some loc" "n_start N child = n_end N loc"
    using d(8,9) [OF loc(1)] loc(3) by simp_all
  have starts: "n_start N loc = n_end N p" "n_start N p < n_end N p" "n_start N loc < n_end N loc"
    "n_start N child < n_end N child"
    using d(5) [OF pV] d(5) [OF loc(1)] d(5) [OF cV] d(9) [OF pV loc_kid] by simp_all
  then show neq: "child \<noteq> p" "child \<noteq> loc" "p \<noteq> loc"
    using c(2) by auto
  let ?N = "merge_node p loc child N"
  have end_: "n_end ?N i = n_end N i" and start: "n_start ?N i = (if i = child then n_start N loc else n_start N i)"
    and par: "nd_parent (?N i) = (if i = child then Some p else nd_parent (N i))"
    and kids: "n_kids ?N i = (if i = p then insert child (n_kids N i - {loc}) else n_kids N i)" for i
    using neq by (auto simp: merge_node_def)
  have not_kid: "child \<notin> n_kids N i" if "i \<in> V" "i \<noteq> loc" for i
    using d(8) [OF that(1)] c(1) that(2) by (metis option.inject)
  then have dist: "distinct (nd_children (?N i))" if "i \<in> V" for i
    using d(6) [OF that] neq pV by (auto simp: merge_node_def)
  have "kids_ok (V - {loc}) ?N i" if "i \<in> V" "i \<noteq> loc" for i
    using that d(5,7-9) dist [OF that(1)] starts c not_kid [OF that] cV neq kids_erased [OF ok pV p that(1)]
    by (auto simp: kids_ok_def end_ start par kids)
  moreover have "parent_ok (V - {loc}) ?N i" if i: "i \<in> V" "i \<noteq> 0" "i \<noteq> loc" for i
  proof (cases "i = child")
    case True
    then show ?thesis
      using pV neq by (auto simp: parent_ok_def par kids)
  next
    case False
    obtain q where q: "q \<in> V" "nd_parent (N i) = Some q" "i \<in> n_kids N q"
      using d(10) [OF i(1,2)] by (auto simp: parent_ok_def)
    then have "q \<noteq> loc"
      using loc(3) False by auto
    then show ?thesis
      using q i(3) False by (auto simp: parent_ok_def par kids)
  qed
  moreover have "child \<noteq> 0"
    using c(1) d(3) by (cases child) auto
  ultimately show "links (V - {loc}) ?N"
    using d(1-4,11) loc(2) by (auto simp: links_def start par end_)
qed


section \<open>The path to the root\<close>

fun path_up :: "'l graph \<Rightarrow> nat list \<Rightarrow> bool" where
  "path_up N [] \<longleftrightarrow> False"
| "path_up N [i] \<longleftrightarrow> nd_parent (N i) = None"
| "path_up N (i # j # r) \<longleftrightarrow> nd_parent (N i) = Some j \<and> path_up N (j # r)"

lemma parent_start:
  assumes "links V N" and "i \<in> V" and "nd_parent (N i) = Some p"
  shows "p \<in> V" and "i \<in> n_kids N p" and "n_start N p < n_start N i" and "i \<noteq> 0"
proof -
  show i: "i \<noteq> 0"
    using assms(3) linksD(3) [OF assms(1)] by (cases "i = 0") auto
  then have "parent_ok V N i"
    using assms linksD(10) by blast
  then show p: "p \<in> V" "i \<in> n_kids N p"
    using assms(3) by (auto simp: parent_ok_def)
  show "n_start N p < n_start N i"
    using linksD(5,9) [OF assms(1)] p by metis
qed

lemma path_exists:
  assumes "links V N" and "i \<in> V"
  shows "\<exists>r. path_up N (i # r) \<and> length r \<le> n_start N i"
  using assms(2)
proof (induction "n_start N i" arbitrary: i rule: less_induct)
  case less
  show ?case
  proof (cases "nd_parent (N i)")
    case None
    then show ?thesis
      by (intro exI [of _ "[]"]) simp
  next
    case (Some p)
    note p = parent_start [OF assms(1) less.prems Some]
    from less.hyps [OF p(3,1)] obtain r where "path_up N (p # r)" "length r \<le> n_start N p"
      by blast
    then show ?thesis
      using Some p(3) by (intro exI [of _ "p # r"]) simp
  qed
qed

lemma path_in:
  assumes "links V N" and "path_up N (i # r)" and "i \<in> V"
  shows "set r \<subseteq> V" and "\<forall>j \<in> set r. n_start N j < n_start N i"
    and "sorted_wrt (\<lambda>a b. n_start N b < n_start N a) (i # r)"
proof -
  have "set r \<subseteq> V \<and> (\<forall>j \<in> set r. n_start N j < n_start N i) \<and>
      sorted_wrt (\<lambda>a b. n_start N b < n_start N a) (i # r)"
    using assms(2,3)
  proof (induction r arbitrary: i)
    case (Cons j r)
    then have p: "nd_parent (N i) = Some j" "path_up N (j # r)"
      by simp_all
    note j = parent_start [OF assms(1) Cons.prems(2) p(1)]
    from Cons.IH [OF p(2) j(1)] show ?case
      using j(1,3) by (auto intro: less_trans)
  qed simp
  then show "set r \<subseteq> V" and "\<forall>j \<in> set r. n_start N j < n_start N i"
    and "sorted_wrt (\<lambda>a b. n_start N b < n_start N a) (i # r)"
    by blast+
qed

lemma decreasing_inj: "sorted_wrt (\<lambda>a b. f b < (f a :: nat)) xs \<Longrightarrow> inj_on f (set xs)"
proof (induction xs)
  case (Cons a xs)
  then have "f a \<notin> f ` set xs"
    by auto
  then have "f a \<notin> f ` (set xs - {a})"
    by blast
  then show ?case
    using Cons by (simp add: inj_on_insert)
qed simp

lemma decreasing_distinct: "sorted_wrt (\<lambda>a b. f b < (f a :: nat)) xs \<Longrightarrow> distinct xs"
  by (induction xs) auto

lemma path_length:
  assumes "links V N" and "i \<in> V" and "path_up N (i # r)"
  shows "length r \<le> n_start N i"
  using assms(2,3)
proof (induction r arbitrary: i)
  case (Cons p r)
  then have p: "nd_parent (N i) = Some p" "path_up N (p # r)"
    by simp_all
  note q = parent_start [OF assms(1) Cons.prems(1) p(1)]
  show ?case
    using Cons.IH [OF q(1) p(2)] q(3) by simp
qed simp

lemma path_closed: "path_up N (i # r) \<Longrightarrow> c \<in> set (i # r) \<Longrightarrow> nd_parent (N c) = Some p \<Longrightarrow> p \<in> set r"
  by (induction r arbitrary: i) auto

lemma path_pred: "path_up N (i # r) \<Longrightarrow> j \<in> set r \<Longrightarrow> \<exists>k \<in> set (i # r). nd_parent (N k) = Some j"
  by (induction r arbitrary: i) fastforce+

lemma path_kids:
  assumes ok: "links V N" and path: "path_up N (i # r)" and i: "i \<in> V" and j: "j \<in> V"
  shows "card (n_kids N j \<inter> set (i # r)) = (if j \<in> set r then 1 else 0)"
proof -
  note in_V = path_in [OF ok path i]
  show ?thesis
  proof (cases "j \<in> set r")
    case False
    then have "n_kids N j \<inter> set (i # r) = {}"
      using path_closed [OF path] linksD(8) [OF ok j] by blast
    then show ?thesis
      using False by simp
  next
    case True
    then obtain k where k: "k \<in> set (i # r)" "nd_parent (N k) = Some j"
      using path_pred [OF path] by blast
    have kV: "k \<in> V"
      using k(1) in_V(1) i by auto
    have "c = k" if c: "c \<in> n_kids N j" "c \<in> set (i # r)" for c
    proof -
      have "n_start N c = n_start N k"
        using linksD(9) [OF ok j] c(1) parent_start(2) [OF ok kV k(2)] by simp
      then show ?thesis
        using inj_onD [OF decreasing_inj [OF in_V(3)] _ c(2) k(1)] by simp
    qed
    then have "n_kids N j \<inter> set (i # r) = {k}"
      using parent_start(2) [OF ok kV k(2)] k(1) by blast
    then show ?thesis
      using True by simp
  qed
qed

section \<open>Supports\<close>

text \<open>\<open>N'\<close> is \<open>N\<close> with \<open>n\<close> more support on the tip of \<open>i\<close> and on the branches of its path.\<close>

definition supported :: "nat \<Rightarrow> nat \<Rightarrow> nat list \<Rightarrow> nat set \<Rightarrow> 'l graph \<Rightarrow> 'l graph \<Rightarrow> bool" where
  "supported n i r V N N' \<longleftrightarrow> (\<forall>j \<in> V.
     nd_span (N' j) = nd_span (N j) \<and> nd_children (N' j) = nd_children (N j) \<and>
     nd_parent (N' j) = nd_parent (N j) \<and>
     nd_tip (N' j) = nd_tip (N j) + (if j = i then n else 0) \<and>
     nd_branch (N' j) = nd_branch (N j) + (if j \<in> set (i # r) then n else 0))"

lemma supported_sums:
  assumes ok: "links V N" and path: "path_up N (i # r)" and i: "i \<in> V" and sup: "supported n i r V N N'"
  shows "sums V N' \<longleftrightarrow> sums V N"
proof -
  have "nd_branch (N' j) = nd_tip (N' j) + (\<Sum>c \<in> n_kids N' j. nd_branch (N' c)) \<longleftrightarrow>
      nd_branch (N j) = nd_tip (N j) + (\<Sum>c \<in> n_kids N j. nd_branch (N c))" if j: "j \<in> V" for j
  proof -
    have "(\<Sum>c \<in> n_kids N j. nd_branch (N' c)) =
        (\<Sum>c \<in> n_kids N j. nd_branch (N c) + (if c \<in> set (i # r) then n else 0))"
      using sup linksD(7) [OF ok j] by (intro sum.cong) (auto simp: supported_def)
    also have "\<dots> = (\<Sum>c \<in> n_kids N j. nd_branch (N c)) + n * card (n_kids N j \<inter> set (i # r))"
      by (simp add: sum.distrib sum.If_cases Int_def)
    finally have "(\<Sum>c \<in> n_kids N j. nd_branch (N' c)) =
        (\<Sum>c \<in> n_kids N j. nd_branch (N c)) + (if j \<in> set r then n else 0)"
      by (simp only: path_kids [OF ok path i j]) simp
    moreover have "i \<notin> set r"
      using path_in(2) [OF ok path i] by blast
    ultimately show ?thesis
      using sup j by (auto simp: supported_def)
  qed
  then show ?thesis
    by (simp add: sums_def)
qed


lemma supported_weight:
  assumes "finite V" and "i \<in> V" and "supported n i r V N N'"
  shows "weight_of Q V N' = weight_of Q V N + (if Q (nd_span (N i)) then n else 0)"
proof -
  have "weight_of Q V N' = (\<Sum>j \<in> V. (if Q (nd_span (N j)) then nd_tip (N j) else 0) +
      (if j = i then if Q (nd_span (N i)) then n else 0 else 0))"
    unfolding weight_of_def using assms(3) by (intro sum.cong) (auto simp: supported_def)
  then show ?thesis
    using assms(1,2) by (simp add: sum.distrib weight_of_def)
qed

lemma supported_links: "links V N \<Longrightarrow> supported n i r V N N' \<Longrightarrow> links V N'"
  by (rule links_cong) (auto simp: supported_def)

lemma sums_split:
  assumes ok: "links V N" and loc: "loc \<in> V" and new: "new \<notin> V" and sums: "sums V N"
  shows "sums (insert new V) (split_node loc new pos N)"
proof -
  let ?N = "split_node loc new pos N"
  have br: "nd_branch (?N j) = nd_branch (N j)" if "j \<in> V" for j
    using that new by (auto simp: split_node_def)
  have kids: "(\<Sum>c \<in> n_kids N j. nd_branch (?N c)) = (\<Sum>c \<in> n_kids N j. nd_branch (N c))" if "j \<in> V" for j
    using linksD(7) [OF ok that] br by (intro sum.cong) auto
  have *: "nd_branch (N j) = nd_tip (N j) + (\<Sum>c \<in> n_kids N j. nd_branch (N c))" if "j \<in> V" for j
    using sums that by (auto simp: sums_def)
  have "nd_branch (?N j) = nd_tip (?N j) + (\<Sum>c \<in> n_kids ?N j. nd_branch (?N c))" if "j \<in> V" "j \<noteq> loc" for j
    using that * [OF that(1)] br [OF that(1)] kids [OF that(1)] new by (auto simp: split_node_def)
  moreover have "nd_branch (?N loc) = nd_tip (?N loc) + (\<Sum>c \<in> n_kids ?N loc. nd_branch (?N c))"
    using loc new by (auto simp: split_node_def)
  moreover have "nd_branch (?N new) = nd_tip (?N new) + (\<Sum>c \<in> n_kids ?N new. nd_branch (?N c))"
    using * [OF loc] kids [OF loc] by (simp add: split_node_def)
  ultimately show ?thesis
    by (auto simp: sums_def)
qed

lemma weight_split:
  assumes "finite V" and Q: "about_tip Q" and loc: "loc \<in> V" and new: "new \<notin> V"
  shows "weight_of Q (insert new V) (split_node loc new pos N) = weight_of Q V N"
proof -
  let ?f = "\<lambda>N j. if Q (nd_span (N j)) then nd_tip (N j) else 0" and ?N = "split_node loc new pos N"
  have same: "?f ?N j = ?f N j" if "j \<in> V - {loc}" for j
    using that new by (auto simp: split_node_def)
  have ends: "?f ?N loc = 0" "?f ?N new = ?f N loc"
    using loc new Q by (auto simp: split_node_def about_tip_def)
  have "(\<Sum>j \<in> V - {loc}. ?f ?N j) = (\<Sum>j \<in> V - {loc}. ?f N j)"
    using same by (intro sum.cong) auto
  then have "(\<Sum>j \<in> V. ?f ?N j) = (\<Sum>j \<in> V - {loc}. ?f N j)"
    using sum.remove [OF assms(1) loc, of "?f ?N"] ends(1) by simp
  then have "weight_of Q (insert new V) ?N = ?f N loc + (\<Sum>j \<in> V - {loc}. ?f N j)"
    using assms(1) new ends(2) by (simp add: weight_of_def)
  then show ?thesis
    using sum.remove [OF assms(1) loc, of "?f N"] by (simp add: weight_of_def)
qed

lemma sums_leaf:
  assumes ok: "links V N" and loc: "loc \<in> V" and new: "new \<notin> V" and sums: "sums V N"
  shows "sums (insert new V) (add_leaf loc new sp N)"
proof -
  let ?N = "add_leaf loc new sp N"
  have new_kid: "new \<notin> n_kids N j" if "j \<in> V" for j
    using linksD(7) [OF ok that] new by blast
  have br: "nd_branch (?N j) = nd_branch (N j)" if "j \<in> V" for j
    using that new by (auto simp: add_leaf_def)
  have kids: "(\<Sum>c \<in> n_kids N j. nd_branch (?N c)) = (\<Sum>c \<in> n_kids N j. nd_branch (N c))" if "j \<in> V" for j
    using linksD(7) [OF ok that] br by (intro sum.cong) auto
  have "nd_branch (?N j) = nd_tip (?N j) + (\<Sum>c \<in> n_kids ?N j. nd_branch (?N c))" if j: "j \<in> V" for j
  proof -
    have "(\<Sum>c \<in> n_kids ?N j. nd_branch (?N c)) = (\<Sum>c \<in> n_kids N j. nd_branch (?N c))"
      using new_kid [OF j] new j by (auto simp: add_leaf_def nd_from_span_def)
    then show ?thesis
      using sums j br [OF j] kids [OF j] new by (auto simp: sums_def add_leaf_def)
  qed
  then show ?thesis
    by (auto simp: sums_def add_leaf_def nd_from_span_def)
qed

lemma weight_leaf:
  assumes "finite V" and new: "new \<notin> V"
  shows "weight_of Q (insert new V) (add_leaf loc new sp N) = weight_of Q V N"
proof -
  have "(\<Sum>j \<in> V. if Q (nd_span (add_leaf loc new sp N j)) then nd_tip (add_leaf loc new sp N j) else 0) =
      weight_of Q V N"
    unfolding weight_of_def using new by (intro sum.cong) (auto simp: add_leaf_def)
  then show ?thesis
    using assms by (simp add: weight_of_def) (simp add: add_leaf_def nd_from_span_def)
qed


lemma sums_erase:
  assumes ok: "links V N" and loc: "loc \<in> V" "loc \<noteq> 0" "nd_children (N loc) = []" "nd_tip (N loc) = 0"
    and p: "nd_parent (N loc) = Some p" and sums: "sums V N"
  shows "sums (V - {loc}) (erase_leaf p loc N)"
proof -
  let ?N = "erase_leaf p loc N"
  have pV: "p \<in> V"
    by (rule links_erase(1) [OF ok loc(1-3) p])
  have zero: "nd_branch (N loc) = 0"
    using sums loc by (auto simp: sums_def)
  have br: "nd_branch (?N c) = nd_branch (N c)" "nd_tip (?N c) = nd_tip (N c)" for c
    by (simp_all add: erase_leaf_def)
  have "nd_branch (?N j) = nd_tip (?N j) + (\<Sum>c \<in> n_kids ?N j. nd_branch (?N c))" if j: "j \<in> V" for j
  proof -
    have "(\<Sum>c \<in> n_kids ?N j. nd_branch (N c)) = (\<Sum>c \<in> n_kids N j. nd_branch (N c))"
      using zero by (intro sum.mono_neutral_left) (auto simp: erase_leaf_def)
    then show ?thesis
      using sums j by (simp add: br sums_def)
  qed
  then show ?thesis
    by (simp add: sums_def)
qed

lemma weight_erase:
  assumes "finite V" and "nd_tip (N loc) = 0"
  shows "weight_of Q (V - {loc}) (erase_leaf p loc N) = weight_of Q V N"
proof -
  have "weight_of Q (V - {loc}) (erase_leaf p loc N) = (\<Sum>j \<in> V - {loc}. if Q (nd_span (N j)) then nd_tip (N j) else 0)"
    unfolding weight_of_def by (intro sum.cong) (auto simp: erase_leaf_def)
  also have "\<dots> = weight_of Q V N"
    unfolding weight_of_def using assms by (intro sum.mono_neutral_left) auto
  finally show ?thesis .
qed

lemma sums_merge:
  assumes ok: "links V N" and loc: "loc \<in> V" "loc \<noteq> 0" "nd_children (N loc) = [child]" "nd_tip (N loc) = 0"
    and p: "nd_parent (N loc) = Some p" and sums: "sums V N"
  shows "sums (V - {loc}) (merge_node p loc child N)"
proof -
  let ?N = "merge_node p loc child N"
  note m = links_merge [OF ok loc(1-3) p]
  have same: "nd_branch (N loc) = nd_branch (N child)"
    using sums loc by (auto simp: sums_def)
  have br: "nd_branch (?N c) = nd_branch (N c)" "nd_tip (?N c) = nd_tip (N c)" for c
    by (simp_all add: merge_node_def)
  have loc_kid: "loc \<in> n_kids N p"
    using parent_start(2) [OF ok loc(1) p] .
  have "nd_branch (?N j) = nd_tip (?N j) + (\<Sum>c \<in> n_kids ?N j. nd_branch (?N c))" if j: "j \<in> V" "j \<noteq> loc" for j
  proof (cases "j = p")
    case True
    have "child \<notin> n_kids N p"
      using linksD(8) [OF ok m(1)] linksD(8) [OF ok loc(1), of child] loc(3) m(6) by fastforce
    then have "(\<Sum>c \<in> n_kids ?N p. nd_branch (N c)) = nd_branch (N child) + (\<Sum>c \<in> n_kids N p - {loc}. nd_branch (N c))"
      using m(4) by (simp add: merge_node_def set_diff_eq)
    also have "\<dots> = (\<Sum>c \<in> n_kids N p. nd_branch (N c))"
      using sum.remove [of "n_kids N p" loc "\<lambda>c. nd_branch (N c)"] loc_kid same by simp
    finally show ?thesis
      using sums m(1) True by (simp add: br sums_def)
  next
    case False
    then have "n_kids ?N j = n_kids N j"
      by (simp add: merge_node_def)
    then show ?thesis
      using sums j(1) by (simp add: br sums_def)
  qed
  then show ?thesis
    by (simp add: sums_def)
qed

lemma weight_merge:
  assumes "finite V" and Q: "about_tip Q" and "nd_tip (N loc) = 0"
  shows "weight_of Q (V - {loc}) (merge_node p loc child N) = weight_of Q V N"
proof -
  have "weight_of Q (V - {loc}) (merge_node p loc child N) = (\<Sum>j \<in> V - {loc}. if Q (nd_span (N j)) then nd_tip (N j) else 0)"
    unfolding weight_of_def using Q by (intro sum.cong) (auto simp: merge_node_def about_tip_def)
  also have "\<dots> = weight_of Q V N"
    unfolding weight_of_def using assms by (intro sum.mono_neutral_left) auto
  finally show ?thesis .
qed

section \<open>Totals\<close>

lemma kids_cover:
  fixes f :: "nat \<Rightarrow> nat"
  assumes "links V N"
  shows "(\<Sum>i \<in> V. \<Sum>c \<in> n_kids N i. f c) = (\<Sum>c \<in> V - {0}. f c)"
proof -
  note d = linksD [OF assms]
  have "(\<Union>i \<in> V. n_kids N i) = V - {0}"
    using d(7,10) kid_neq [OF assms] by (fastforce simp: parent_ok_def)
  moreover have "(\<Sum>c \<in> (\<Union>i \<in> V. n_kids N i). f c) = (\<Sum>i \<in> V. \<Sum>c \<in> n_kids N i. f c)"
    using d(1) kids_disjoint [OF assms] by (intro sum.UNION_disjoint) auto
  ultimately show ?thesis
    by simp
qed

lemma root_total:
  assumes ok: "links V N" and "sums V N"
  shows "nd_branch (N 0) = (\<Sum>i \<in> V. nd_tip (N i))"
proof -
  note d = linksD [OF ok]
  have "(\<Sum>i \<in> V. nd_branch (N i)) = (\<Sum>i \<in> V. nd_tip (N i) + (\<Sum>c \<in> n_kids N i. nd_branch (N c)))"
    using assms(2) by (intro sum.cong) (auto simp: sums_def)
  also have "\<dots> = (\<Sum>i \<in> V. nd_tip (N i)) + (\<Sum>c \<in> V - {0}. nd_branch (N c))"
    by (simp add: sum.distrib kids_cover [OF ok])
  finally show ?thesis
    using sum.remove [OF d(1,2), of "\<lambda>i. nd_branch (N i)"] by simp
qed

lemma tip_le_branch: "sums V N \<Longrightarrow> i \<in> V \<Longrightarrow> nd_tip (N i) \<le> nd_branch (N i)"
  by (simp add: sums_def)

lemma kid_le_branch:
  assumes "sums V N" and "i \<in> V" and "c \<in> n_kids N i"
  shows "nd_branch (N c) \<le> nd_branch (N i)"
  using assms member_le_sum [of c "n_kids N i" "\<lambda>c. nd_branch (N c)"] by (simp add: sums_def trans_le_add2)

lemma branch_le_path:
  assumes "links V N" and "sums V N" and "path_up N (i # r)" and "i \<in> V" and "j \<in> set (i # r)"
  shows "nd_branch (N i) \<le> nd_branch (N j)"
  using assms(3-5)
proof (induction r arbitrary: i)
  case (Cons k r)
  then have k: "nd_parent (N i) = Some k" "path_up N (k # r)"
    by simp_all
  note p = parent_start [OF assms(1) Cons.prems(2) k(1)]
  then have "nd_branch (N i) \<le> nd_branch (N k)"
    using kid_le_branch [OF assms(2)] by blast
  then show ?case
    using Cons.IH [OF k(2) p(1)] Cons.prems(3) le_trans by auto
qed simp

lemma path_root:
  assumes "links V N" and "path_up N (i # r)" and "i \<in> V"
  shows "0 \<in> set (i # r)"
  using assms(2,3)
proof (induction r arbitrary: i)
  case Nil
  then show ?case
    using linksD(10) [OF assms(1), of i] by (cases "i = 0") (auto simp: parent_ok_def)
next
  case (Cons k r)
  then show ?case
    using parent_start(1) [OF assms(1)] by auto
qed

lemma branch_le_root:
  assumes "links V N" and "sums V N" and "i \<in> V"
  shows "nd_branch (N i) \<le> nd_branch (N 0)"
proof -
  obtain r where r: "path_up N (i # r)"
    using path_exists [OF assms(1,3)] by blast
  show ?thesis
    by (rule branch_le_path [OF assms(1,2) r assms(3) path_root [OF assms(1) r assms(3)]])
qed

lemma weight_le_root:
  assumes "links V N" and "sums V N"
  shows "weight_of Q V N \<le> nd_branch (N 0)"
  unfolding root_total [OF assms] weight_of_def by (intro sum_mono) simp


section \<open>Compression\<close>

lemma packed_mono: "packed X V N \<Longrightarrow> X \<subseteq> Y \<Longrightarrow> packed Y V N"
  by (auto simp: packed_def)

lemma packed_fill:
  "packed (insert i X) V N \<Longrightarrow> i = 0 \<or> nd_tip (N i) \<noteq> 0 \<or> 2 \<le> length (nd_children (N i)) \<Longrightarrow> packed X V N"
  by (auto simp: packed_def)

lemma packed_split:
  assumes ok: "links V N" and "loc \<in> V" "new \<notin> V" "packed {} V N" and pos: "n_start N loc < pos" "pos < n_end N loc"
  shows "packed {loc} (insert new V) (split_node loc new pos N)"
proof -
  have "loc \<noteq> 0"
    using pos linksD(4,11) [OF ok] by (cases "loc = 0") auto
  then show ?thesis
    using assms(2-4) by (auto simp: packed_def split_node_def)
qed

lemma packed_leaf:
  "new \<notin> V \<Longrightarrow> packed X V N \<Longrightarrow> packed (insert new X) (insert new V) (add_leaf loc new sp N)"
  by (auto simp: packed_def add_leaf_def)

lemma packed_supported:
  assumes "supported n i r V N N'"
  shows "0 < n \<Longrightarrow> packed {i} V N \<Longrightarrow> packed {} V N'" and "packed {} V N' \<Longrightarrow> packed {i} V N"
  using assms by (auto simp: packed_def supported_def)

lemma packed_erase: "packed {loc} V N \<Longrightarrow> packed {p} (V - {loc}) (erase_leaf p loc N)"
  by (auto simp: packed_def erase_leaf_def)

lemma packed_merge: "packed {loc} V N \<Longrightarrow> packed {p} (V - {loc}) (merge_node p loc child N)"
  by (auto simp: packed_def merge_node_def)


section \<open>Invariants of the graph\<close>

text \<open>
  A property of graphs that every change keeps, given the ledgers that are inserted. A leaf is added
  below a node with which the ledger agrees, and whose children agree with it no further.
\<close>

definition leaf_ok :: "('l, 'i) trie_ledger_ops \<Rightarrow> 'l \<Rightarrow> 'l graph \<Rightarrow> nat \<Rightarrow> nat \<Rightarrow> bool" where
  "leaf_ok L l N loc pos \<longleftrightarrow> pos \<le> tl_mismatch L (sp_ledger (nd_span (N loc))) l \<and>
     (\<forall>c \<in> n_kids N loc. tl_mismatch L (sp_ledger (nd_span (N c))) l \<le> pos)"

definition keeps_cong :: "(nat set \<Rightarrow> 'l graph \<Rightarrow> bool) \<Rightarrow> bool" where
  "keeps_cong G \<longleftrightarrow> (\<forall>V N N'. links V N \<longrightarrow> (\<forall>i \<in> V. N' i = N i) \<longrightarrow> G V N \<longrightarrow> G V N')"

definition keeps_support :: "(nat set \<Rightarrow> 'l graph \<Rightarrow> bool) \<Rightarrow> bool" where
  "keeps_support G \<longleftrightarrow> (\<forall>V N N' n i r. links V N \<longrightarrow> supported n i r V N N' \<longrightarrow> G V N' = G V N)"

definition keeps_split :: "(nat set \<Rightarrow> 'l graph \<Rightarrow> bool) \<Rightarrow> bool" where
  "keeps_split G \<longleftrightarrow> (\<forall>V N loc new pos. links V N \<longrightarrow> loc \<in> V \<longrightarrow> new \<notin> V \<longrightarrow> n_start N loc < pos \<longrightarrow>
     pos < n_end N loc \<longrightarrow> G V N \<longrightarrow> G (insert new V) (split_node loc new pos N))"

definition keeps_leaf ::
  "('l, 'i) trie_ledger_ops \<Rightarrow> ('l \<Rightarrow> bool) \<Rightarrow> (nat set \<Rightarrow> 'l graph \<Rightarrow> bool) \<Rightarrow> bool" where
  "keeps_leaf L ok G \<longleftrightarrow> (\<forall>V N loc new l. links V N \<longrightarrow> loc \<in> V \<longrightarrow> new \<notin> V \<longrightarrow> ok l \<longrightarrow>
     n_end N loc \<le> tl_seq L l \<longrightarrow> leaf_ok L l N loc (n_end N loc) \<longrightarrow> G V N \<longrightarrow>
     G (insert new V) (add_leaf loc new \<lparr>sp_start = n_end N loc, sp_end = tl_seq L l + 1, sp_ledger = l\<rparr> N))"

definition keeps_erase :: "(nat set \<Rightarrow> 'l graph \<Rightarrow> bool) \<Rightarrow> bool" where
  "keeps_erase G \<longleftrightarrow> (\<forall>V N loc p. links V N \<longrightarrow> loc \<in> V \<longrightarrow> loc \<noteq> 0 \<longrightarrow> nd_parent (N loc) = Some p \<longrightarrow>
     nd_children (N loc) = [] \<longrightarrow> G V N \<longrightarrow> G (V - {loc}) (erase_leaf p loc N))"

definition keeps_merge :: "(nat set \<Rightarrow> 'l graph \<Rightarrow> bool) \<Rightarrow> bool" where
  "keeps_merge G \<longleftrightarrow> (\<forall>V N loc p child. links V N \<longrightarrow> loc \<in> V \<longrightarrow> loc \<noteq> 0 \<longrightarrow> nd_parent (N loc) = Some p \<longrightarrow>
     nd_children (N loc) = [child] \<longrightarrow> G V N \<longrightarrow> G (V - {loc}) (merge_node p loc child N))"

definition graph_inv ::
  "('l, 'i) trie_ledger_ops \<Rightarrow> ('l \<Rightarrow> bool) \<Rightarrow> (nat set \<Rightarrow> 'l graph \<Rightarrow> bool) \<Rightarrow> bool" where
  "graph_inv L ok G \<longleftrightarrow>
     keeps_cong G \<and> keeps_support G \<and> keeps_split G \<and> keeps_leaf L ok G \<and> keeps_erase G \<and> keeps_merge G"

lemma keeps_congD: "keeps_cong G \<Longrightarrow> links V N \<Longrightarrow> G V N \<Longrightarrow> (\<And>i. i \<in> V \<Longrightarrow> N' i = N i) \<Longrightarrow> G V N'"
  unfolding keeps_cong_def by metis

lemma keeps_supportD: "keeps_support G \<Longrightarrow> links V N \<Longrightarrow> supported n i r V N N' \<Longrightarrow> G V N' = G V N"
  unfolding keeps_support_def by metis

end
