(* ===== verification/Trie_Arena.thy ===== *)
theory Trie_Arena
  imports Trie_Graph
begin

text \<open>
  The arena of the ledger trie: which slots are live, what the primitive operations on slots do to
  the graph the live slots form, and that the operations of the trie are the changes of that graph.
\<close>

abbreviation gr :: "'l trie \<Rightarrow> 'l graph" where
  "gr t \<equiv> (!) (tr_nodes t)"

definition live_set :: "'l trie \<Rightarrow> nat set" where
  "live_set t = {i. i < length (tr_nodes t) \<and> nd_live (gr t i)}"

definition slots :: "'l trie \<Rightarrow> bool" where
  "slots t \<longleftrightarrow> distinct (tr_free t) \<and> set (tr_free t) = {i. i < length (tr_nodes t) \<and> \<not> nd_live (gr t i)}"

definition arena :: "nat set \<Rightarrow> nat set \<Rightarrow> 'l trie \<Rightarrow> bool" where
  "arena X V t \<longleftrightarrow> slots t \<and> V = live_set t \<and> links V (gr t) \<and> sums V (gr t) \<and> packed X V (gr t)"

definition upd :: "nat \<Rightarrow> ('l tnode \<Rightarrow> 'l tnode) \<Rightarrow> 'l trie \<Rightarrow> 'l trie" where
  "upd i f t = t\<lparr>tr_nodes := (tr_nodes t)[i := f (gr t i)]\<rparr>"

section \<open>Changing a slot\<close>

lemma live_less: "i \<in> live_set t \<Longrightarrow> i < length (tr_nodes t)"
  by (simp add: live_set_def)

lemma finite_live [simp]: "finite (live_set t)"
  by (simp add: live_set_def)

lemma tr_at_less [simp]: "i < length (tr_nodes t) \<Longrightarrow> tr_at t i f = f (gr t i)"
  by (simp add: tr_at_def)

lemma tr_modify_less [simp]: "i < length (tr_nodes t) \<Longrightarrow> tr_modify i f t = Done (upd i f t)"
  by (simp add: tr_modify_def upd_def)

lemma gr_upd [simp]: "i < length (tr_nodes t) \<Longrightarrow> gr (upd i f t) = (gr t)(i := f (gr t i))"
  by (auto simp: upd_def fun_eq_iff nth_list_update)

lemma upd_simps [simp]: "length (tr_nodes (upd i f t)) = length (tr_nodes t)"
  "tr_free (upd i f t) = tr_free t" "tr_seq (upd i f t) = tr_seq t"
  by (simp_all add: upd_def)

text \<open>The bookkeeping of slots and sequences that writing to nodes leaves alone.\<close>

definition same_slots :: "'l trie \<Rightarrow> 'l trie \<Rightarrow> bool" where
  "same_slots t t' \<longleftrightarrow> length (tr_nodes t') = length (tr_nodes t) \<and> tr_free t' = tr_free t \<and>
     tr_seq t' = tr_seq t \<and> (\<forall>i < length (tr_nodes t). nd_live (gr t' i) = nd_live (gr t i))"

lemma same_slots_refl [simp]: "same_slots t t"
  by (simp add: same_slots_def)

lemma same_slots_trans: "same_slots t t' \<Longrightarrow> same_slots t' t'' \<Longrightarrow> same_slots t t''"
  by (simp add: same_slots_def)

lemma same_slotsD:
  assumes "same_slots t t'"
  shows "length (tr_nodes t') = length (tr_nodes t)" and "tr_seq t' = tr_seq t"
    and "live_set t' = live_set t" and "slots t \<Longrightarrow> slots t'"
  using assms by (auto simp: same_slots_def live_set_def slots_def)

lemma same_slots_upd:
  "i < length (tr_nodes t) \<Longrightarrow> (\<And>nd. nd_live (f nd) = nd_live nd) \<Longrightarrow> same_slots t (upd i f t)"
  by (simp add: same_slots_def)

lemma modify_all:
  assumes "\<forall>c \<in> set cs. c < length (tr_nodes t)" and "distinct cs" and "\<And>nd. nd_live (f nd) = nd_live nd"
  shows "\<exists>t'. fold_outcome (\<lambda>c. tr_modify c f) cs t = Done t' \<and> same_slots t t' \<and>
    gr t' = (\<lambda>j. if j \<in> set cs then f (gr t j) else gr t j)"
  using assms(1,2)
proof (induction cs arbitrary: t)
  case (Cons c cs)
  then have "\<forall>d \<in> set cs. d < length (tr_nodes (upd c f t))" and "distinct cs"
    by simp_all
  then obtain t' where t': "fold_outcome (\<lambda>c. tr_modify c f) cs (upd c f t) = Done t'"
    "same_slots (upd c f t) t'" "gr t' = (\<lambda>j. if j \<in> set cs then f (gr (upd c f t) j) else gr (upd c f t) j)"
    using Cons.IH by blast
  have "same_slots t (upd c f t)"
    using Cons.prems(1) assms(3) by (simp add: same_slots_upd)
  then show ?case
    using t' Cons.prems by (auto intro: same_slots_trans simp: fun_eq_iff)
qed simp

lemma butlast_distinct:
  "distinct xs \<Longrightarrow> xs \<noteq> [] \<Longrightarrow> distinct (butlast xs) \<and> set (butlast xs) = set xs - {List.last xs}"
  by (cases xs rule: rev_cases) auto

lemma alloc_done:
  assumes ok: "slots t" and live: "nd_live node"
  obtains new t' where "tr_alloc node t = Done (new, t')" and "new \<notin> live_set t"
    and "live_set t' = insert new (live_set t)" and "slots t'" and "tr_seq t' = tr_seq t"
    and "\<And>i. i \<in> live_set t \<Longrightarrow> gr t' i = gr t i" and "gr t' new = node"
proof (cases "tr_free t = []")
  case True
  let ?t = "t\<lparr>tr_nodes := tr_nodes t @ [node]\<rparr>" and ?n = "length (tr_nodes t)"
  have full: "nd_live (gr t i)" if "i < ?n" for i
    using ok True that by (auto simp: slots_def)
  show thesis
  proof (rule that [of ?n ?t])
    show "tr_alloc node t = Done (?n, ?t)"
      using True by (simp add: tr_alloc_def)
    show "live_set ?t = insert ?n (live_set t)"
      using live full by (auto simp: live_set_def nth_append)
    show "slots ?t"
      using True live full by (auto simp: slots_def nth_append less_Suc_eq)
  qed (auto simp: live_set_def nth_append)
next
  case False
  let ?i = "List.last (tr_free t)" and ?t = "t\<lparr>tr_free := butlast (tr_free t)\<rparr>"
  have mem: "?i \<in> set (tr_free t)"
    using False by simp
  then have i: "?i < length (tr_nodes t)" "\<not> nd_live (gr t ?i)"
    using ok by (auto simp: slots_def)
  have free: "distinct (butlast (tr_free t))" "set (butlast (tr_free t)) = set (tr_free t) - {?i}"
    using butlast_distinct [OF _ False] ok by (simp_all add: slots_def)
  show thesis
  proof (rule that [of ?i "upd ?i (\<lambda>_. node) ?t"])
    show "tr_alloc node t = Done (?i, upd ?i (\<lambda>_. node) ?t)"
      using False i by (simp add: tr_alloc_def Let_def)
    show "live_set (upd ?i (\<lambda>_. node) ?t) = insert ?i (live_set t)"
      using i live by (auto simp: live_set_def)
    show "slots (upd ?i (\<lambda>_. node) ?t)"
      using i live free ok by (auto simp: slots_def)
  qed (use i in \<open>auto simp: live_set_def\<close>)
qed


section \<open>The operations as changes of the graph\<close>

lemma graph_cong:
  assumes ok: "links V N" and same: "\<And>i. i \<in> V \<Longrightarrow> N' i = N i"
  shows "links V N'" and "sums V N \<Longrightarrow> sums V N'" and "packed X V N \<Longrightarrow> packed X V N'"
    and "weight_of Q V N' = weight_of Q V N"
proof -
  show "links V N'"
    by (rule links_cong [OF ok]) (simp_all add: same)
  have "(\<Sum>c \<in> n_kids N i. nd_branch (N' c)) = (\<Sum>c \<in> n_kids N i. nd_branch (N c))" if "i \<in> V" for i
    using linksD(7) [OF ok that] same by (intro sum.cong) auto
  then show "sums V N \<Longrightarrow> sums V N'"
    by (simp add: sums_def same)
  show "packed X V N \<Longrightarrow> packed X V N'"
    by (simp add: packed_def same)
  show "weight_of Q V N' = weight_of Q V N"
    unfolding weight_of_def using same by (intro sum.cong) auto
qed

lemma arenaI:
  assumes "slots t" and "live_set t = V" and "links V N" and "sums V N" and "packed X V N"
    and "\<And>i. i \<in> V \<Longrightarrow> gr t i = N i"
  shows "arena X V t" and "weight_of Q V (gr t) = weight_of Q V N"
  using assms graph_cong [of V N "gr t"] by (auto simp: arena_def)

lemma arenaD:
  assumes "arena X V t"
  shows "slots t" and "live_set t = V" and "links V (gr t)" and "sums V (gr t)" and "packed X V (gr t)"
    and "\<And>i. i \<in> V \<Longrightarrow> i < length (tr_nodes t)"
  using assms by (auto simp: arena_def live_set_def)

lemma same_slots_then:
  "same_slots t t' \<Longrightarrow> i < length (tr_nodes t) \<Longrightarrow> (\<And>nd. nd_live (f nd) = nd_live nd) \<Longrightarrow> same_slots t (upd i f t')"
  by (simp add: same_slots_def)

lemma split_arena:
  assumes ok: "arena {} V t" and loc: "loc \<in> V" and pos: "n_start (gr t) loc < pos" "pos < n_end (gr t) loc"
  obtains new t' where
    "tr_split loc (Some ((nd_span (gr t loc))\<lparr>sp_end := pos\<rparr>)) ((nd_span (gr t loc))\<lparr>sp_start := pos\<rparr>) t = Done t'"
    and "arena {loc} (insert new V) t'" and "new \<notin> V" and "tr_seq t' = tr_seq t"
    and "\<And>i. i \<in> insert new V \<Longrightarrow> gr t' i = split_node loc new pos (gr t) i"
    and "\<And>Q. about_tip Q \<Longrightarrow> weight_of Q (insert new V) (gr t') = weight_of Q V (gr t)"
proof -
  note a = arenaD [OF ok]
  let ?nd = "gr t loc"
  define node where "node = (nd_from_span ((nd_span ?nd)\<lparr>sp_start := pos\<rparr>))
    \<lparr>nd_tip := nd_tip ?nd, nd_branch := nd_branch ?nd, nd_children := nd_children ?nd\<rparr>"
  define t1 where "t1 = upd loc (\<lambda>nd. nd\<lparr>nd_children := []\<rparr>) t"
  have n: "loc < length (tr_nodes t)"
    by (rule a(6) [OF loc])
  have s1: "same_slots t t1"
    using n by (simp add: t1_def same_slots_upd)
  note d1 = same_slotsD [OF s1]
  have "slots t1" "nd_live node"
    using d1(4) a(1) by (simp_all add: node_def nd_from_span_def)
  then obtain new t2 where t2: "tr_alloc node t1 = Done (new, t2)" "new \<notin> live_set t1"
    "live_set t2 = insert new (live_set t1)" "slots t2" "tr_seq t2 = tr_seq t1"
    "\<And>i. i \<in> live_set t1 \<Longrightarrow> gr t2 i = gr t1 i" "gr t2 new = node"
    by (rule alloc_done) blast
  have new: "new \<notin> V" and live2: "live_set t2 = insert new V"
    using t2(2,3) d1(3) a(2) by simp_all
  have kids: "\<forall>c \<in> set (nd_children ?nd). c < length (tr_nodes t2)" "distinct (nd_children ?nd)"
    using linksD(6,7) [OF a(3) loc] live2 by (auto intro: live_less)
  obtain t3 where t3: "fold_outcome (\<lambda>c. tr_modify c (\<lambda>nd. nd\<lparr>nd_parent := Some new\<rparr>)) (nd_children ?nd) t2 = Done t3"
    "same_slots t2 t3" "gr t3 = (\<lambda>j. if j \<in> set (nd_children ?nd) then (gr t2 j)\<lparr>nd_parent := Some new\<rparr> else gr t2 j)"
    using modify_all [OF kids, of "\<lambda>nd. nd\<lparr>nd_parent := Some new\<rparr>"] by auto
  note d3 = same_slotsD [OF t3(2)]
  have n3: "loc < length (tr_nodes t3)" "new < length (tr_nodes t3)"
    using live2 loc d3(3) by (auto intro: live_less)
  define t4 where "t4 = upd loc (\<lambda>nd. nd\<lparr>nd_tip := 0\<rparr>) (upd loc (\<lambda>nd. nd\<lparr>nd_children := nd_children nd @ [new]\<rparr>)
    (upd new (\<lambda>nd. nd\<lparr>nd_parent := Some loc\<rparr>)
      (upd loc (\<lambda>nd. nd\<lparr>nd_span := (nd_span ?nd)\<lparr>sp_end := pos\<rparr>\<rparr>) t3)))"
  have s4: "same_slots t3 t4"
    using n3 unfolding t4_def by (intro same_slots_then) simp_all
  note d4 = same_slotsD [OF s4]
  have run: "tr_split loc (Some ((nd_span ?nd)\<lparr>sp_end := pos\<rparr>)) ((nd_span ?nd)\<lparr>sp_start := pos\<rparr>) t = Done t4"
    using n n3 t2(1) t3(1) by (simp add: tr_split_def Let_def t4_def flip: t1_def node_def)
  have gr4: "gr t4 i = split_node loc new pos (gr t) i" if "i \<in> insert new V" for i
    using that new loc n n3 t2(6,7) t3(3) d1(3) a(2) kid_neq [OF a(3) loc] linksD(7) [OF a(3) loc]
    by (auto simp: t4_def split_node_def t1_def node_def nd_from_span_def)
  have "slots t4" "live_set t4 = insert new V"
    using t2(4) d3(4) d4(3,4) live2 d3(3) by auto
  note ar = arenaI [OF this links_split [OF a(3) loc new pos] sums_split [OF a(3) loc new a(4)]
      packed_split [OF a(3) loc new a(5) pos] gr4]
  show thesis
    using ar weight_split [OF _ _ loc new] linksD(1) [OF a(3)] t2(5) d1(2) d3(2) d4(2)
    by (intro that [OF run _ new _ gr4]) auto
qed


lemma leaf_arena:
  assumes ok: "arena X V t" and loc: "loc \<in> V" and sp: "sp_start sp = n_end (gr t) loc" "sp_start sp < sp_end sp"
  obtains new t' where "tr_add_leaf loc sp t = Done (new, t')" and "arena (insert new X) (insert new V) t'"
    and "new \<notin> V" and "tr_seq t' = tr_seq t"
    and "\<And>i. i \<in> insert new V \<Longrightarrow> gr t' i = add_leaf loc new sp (gr t) i"
    and "\<And>Q. about_tip Q \<Longrightarrow> weight_of Q (insert new V) (gr t') = weight_of Q V (gr t)"
proof -
  note a = arenaD [OF ok]
  let ?node = "(nd_from_span sp)\<lparr>nd_parent := Some loc\<rparr>"
  have "nd_live ?node"
    by (simp add: nd_from_span_def)
  with a(1) obtain new t1 where t1: "tr_alloc ?node t = Done (new, t1)" "new \<notin> live_set t"
    "live_set t1 = insert new (live_set t)" "slots t1" "tr_seq t1 = tr_seq t"
    "\<And>i. i \<in> live_set t \<Longrightarrow> gr t1 i = gr t i" "gr t1 new = ?node"
    by (rule alloc_done) blast
  let ?t = "upd loc (\<lambda>nd. nd\<lparr>nd_children := nd_children nd @ [new]\<rparr>) t1"
  have new: "new \<notin> V" and n: "loc < length (tr_nodes t1)"
    using t1(2,3) a(2) loc by (auto intro: live_less)
  note s = same_slotsD [OF same_slots_upd [OF n, of "\<lambda>nd. nd\<lparr>nd_children := nd_children nd @ [new]\<rparr>"]]
  have run: "tr_add_leaf loc sp t = Done (new, ?t)"
    using t1(1) n by (simp add: tr_add_leaf_def)
  have gr: "gr ?t i = add_leaf loc new sp (gr t) i" if "i \<in> insert new V" for i
    using that new loc n t1(6,7) a(2) by (auto simp: add_leaf_def)
  have "slots ?t" "live_set ?t = insert new V"
    using s(3,4) t1(3,4) a(2) by simp_all
  note ar = arenaI [OF this links_leaf [OF a(3) loc new sp] sums_leaf [OF a(3) loc new a(4)]
      packed_leaf [OF new a(5)] gr]
  show thesis
    using ar weight_leaf [OF _ new] linksD(1) [OF a(3)] t1(5)
    by (intro that [OF run _ new _ gr]) auto
qed

text \<open>The walk to the root applies its function to the branch supports of the path.\<close>

lemma path_up_cong:
  "path_up N xs \<Longrightarrow> (\<And>i. i \<in> set xs \<Longrightarrow> nd_parent (N' i) = nd_parent (N i)) \<Longrightarrow> path_up N' xs"
  by (induction N xs rule: path_up.induct) auto

lemma walk_done:
  assumes "path_up (gr t) (i # r)" and "set (i # r) \<subseteq> {..< length (tr_nodes t)}" and "distinct (i # r)"
    and "length r < fuel" and "\<forall>j \<in> set (i # r). f (nd_branch (gr t j)) = Done (g (nd_branch (gr t j)))"
  shows "\<exists>t'. tr_walk f fuel (Some i) t = Done t' \<and> same_slots t t' \<and>
    gr t' = (\<lambda>j. if j \<in> set (i # r) then (gr t j)\<lparr>nd_branch := g (nd_branch (gr t j))\<rparr> else gr t j)"
  using assms
proof (induction r arbitrary: i t fuel)
  case Nil
  then obtain k where "fuel = Suc k" and i: "i < length (tr_nodes t)"
    by (cases fuel) auto
  moreover have "nd_parent (gr t i) = None" and "f (nd_branch (gr t i)) = Done (g (nd_branch (gr t i)))"
    using Nil by simp_all
  ultimately show ?case
    by (intro exI [of _ "upd i (\<lambda>nd. nd\<lparr>nd_branch := g (nd_branch (gr t i))\<rparr>) t"])
      (simp add: same_slots_upd fun_eq_iff)
next
  case (Cons p r)
  obtain k where k: "fuel = Suc k" and i: "i < length (tr_nodes t)"
    using Cons.prems(2,4) by (cases fuel) auto
  let ?b = "\<lambda>j. g (nd_branch (gr t j))"
  define t1 where "t1 = upd i (\<lambda>nd. nd\<lparr>nd_branch := ?b i\<rparr>) t"
  have gr1: "gr t1 = (gr t)(i := (gr t i)\<lparr>nd_branch := ?b i\<rparr>)" and len: "length (tr_nodes t1) = length (tr_nodes t)"
    and s1: "same_slots t t1"
    using i by (simp_all add: t1_def same_slots_upd)
  have p: "nd_parent (gr t i) = Some p" "path_up (gr t) (p # r)" and fi: "f (nd_branch (gr t i)) = Done (?b i)"
    using Cons.prems(1,5) by simp_all
  have "path_up (gr t1) (p # r)"
    by (rule path_up_cong [OF p(2)]) (use Cons.prems(3) in \<open>auto simp: gr1\<close>)
  moreover have "set (p # r) \<subseteq> {..< length (tr_nodes t1)}" and "distinct (p # r)" and "length r < k"
    using Cons.prems(2,3,4) k len by auto
  moreover have same: "gr t1 j = gr t j" if "j \<in> set (p # r)" for j
    using Cons.prems(3) that by (auto simp: gr1)
  have "\<forall>j \<in> set (p # r). f (nd_branch (gr t1 j)) = Done (g (nd_branch (gr t1 j)))"
    using Cons.prems(5) same by simp
  ultimately obtain t' where t': "tr_walk f k (Some p) t1 = Done t'" "same_slots t1 t'"
    "gr t' = (\<lambda>j. if j \<in> set (p # r) then (gr t1 j)\<lparr>nd_branch := g (nd_branch (gr t1 j))\<rparr> else gr t1 j)"
    using Cons.IH by meson
  have "tr_walk f fuel (Some i) t = Done t'"
    using i fi p(1) t'(1) by (simp add: k t1_def)
  moreover have "gr t' = (\<lambda>j. if j \<in> set (i # p # r) then (gr t j)\<lparr>nd_branch := ?b j\<rparr> else gr t j)"
    unfolding t'(3) gr1 using Cons.prems(3) by (auto simp: fun_eq_iff)
  ultimately show ?case
    using same_slots_trans [OF s1 t'(2)] by blast
qed


lemma walk_up_done:
  assumes ok: "links V (gr t)" and V: "live_set t = V" and i: "i \<in> V" and path: "path_up (gr t) (i # r)"
    and f: "\<forall>j \<in> set (i # r). f (nd_branch (gr t j)) = Done (g (nd_branch (gr t j)))"
  obtains t' where "tr_walk_up f i t = Done t'" and "same_slots t t'"
    and "gr t' = (\<lambda>j. if j \<in> set (i # r) then (gr t j)\<lparr>nd_branch := g (nd_branch (gr t j))\<rparr> else gr t j)"
proof -
  note p = path_in [OF ok path i]
  have sub: "set (i # r) \<subseteq> {..< length (tr_nodes t)}"
    using p(1) i V by (auto simp: live_set_def)
  have len: "length r < n_start (gr t) i + 1"
    using path_length [OF ok i path] by simp
  obtain t' where "tr_walk f (n_start (gr t) i + 1) (Some i) t = Done t'" "same_slots t t'"
    "gr t' = (\<lambda>j. if j \<in> set (i # r) then (gr t j)\<lparr>nd_branch := g (nd_branch (gr t j))\<rparr> else gr t j)"
    using walk_done [OF path sub decreasing_distinct [OF p(3)] len f] by blast
  moreover have "i < length (tr_nodes t)"
    using sub by simp
  ultimately show thesis
    using that by (simp add: tr_walk_up_def del: tr_walk.simps)
qed


lemma bump_arena:
  assumes ok: "arena {i} V t" and i: "i \<in> V" and n: "0 < n" and fits: "nd_branch (gr t 0) + n < 2 ^ 32"
  obtains t' where "tr_bump i n t = Done t'" and "arena {} V t'" and "tr_seq t' = tr_seq t"
    and "\<And>Q. weight_of Q V (gr t') = weight_of Q V (gr t) + (if Q (nd_span (gr t i)) then n else 0)"
    and "nd_branch (gr t' 0) = nd_branch (gr t 0) + n"
    and "\<And>j. j \<in> V \<Longrightarrow> nd_span (gr t' j) = nd_span (gr t j)"
    and "\<exists>r. supported n i r V (gr t) (gr t')"
proof -
  note a = arenaD [OF ok]
  have len: "i < length (tr_nodes t)"
    by (rule a(6) [OF i])
  have le: "nd_branch (gr t j) + n < 2 ^ 32" if "j \<in> V" for j
    using branch_le_root [OF a(3,4) that] fits by linarith
  have tip: "nd_tip (gr t i) + n < 2 ^ 32"
    using tip_le_branch [OF a(4) i] le [OF i] by linarith
  define t1 where "t1 = upd i (\<lambda>nd. nd\<lparr>nd_tip := nd_tip (gr t i) + n\<rparr>) t"
  have s1: "same_slots t t1" and gr1: "gr t1 = (gr t)(i := (gr t i)\<lparr>nd_tip := nd_tip (gr t i) + n\<rparr>)"
    using len by (simp_all add: t1_def same_slots_upd)
  obtain r where r: "path_up (gr t) (i # r)"
    using path_exists [OF a(3) i] by blast
  note p = path_in [OF a(3) r i]
  have links1: "links V (gr t1)"
    by (rule links_cong [OF a(3)]) (auto simp: gr1)
  have path1: "path_up (gr t1) (i # r)"
    by (rule path_up_cong [OF r]) (auto simp: gr1)
  have f: "\<forall>j \<in> set (i # r). u32_add (nd_branch (gr t1 j)) n = Done (nd_branch (gr t1 j) + n)"
    using le p(1) i by (auto simp: u32_add_def gr1)
  obtain t' where t': "tr_walk_up (\<lambda>b. u32_add b n) i t1 = Done t'" "same_slots t1 t'"
    "gr t' = (\<lambda>j. if j \<in> set (i # r) then (gr t1 j)\<lparr>nd_branch := nd_branch (gr t1 j) + n\<rparr> else gr t1 j)"
    by (rule walk_up_done [where g = "\<lambda>b. b + n", OF links1 _ i path1 f]) (use same_slotsD(3) [OF s1] a(2) in auto)
  have sup: "supported n i r V (gr t) (gr t')"
    by (auto simp: supported_def t'(3) gr1)
  have run: "tr_bump i n t = Done t'"
    using len tip t'(1) by (simp add: tr_bump_def u32_add_def t1_def)
  note s = same_slotsD [OF same_slots_trans [OF s1 t'(2)]]
  have "arena {} V t'"
    using s(3,4) a(1,2) supported_links [OF a(3) sup] supported_sums [OF a(3) r i sup] a(4)
      packed_supported(1) [OF sup n a(5)]
    by (simp add: arena_def)
  moreover have "0 \<in> set (i # r)"
    by (rule path_root [OF a(3) r i])
  then have "nd_branch (gr t' 0) = nd_branch (gr t 0) + n"
    by (simp add: t'(3) gr1)
  ultimately show thesis
    using that [OF run] s(2) supported_weight [OF linksD(1) [OF a(3)] i sup] sup
    by (auto simp: supported_def)
qed

end
