(* ===== verification/Trie_Insert.thy ===== *)
theory Trie_Insert
  imports Trie_Arena
begin

text \<open>
  Finding a ledger in the trie and inserting it. The interface of ledgers is a locale with the three
  laws that the structure of the trie rests on; nothing is assumed about ancestry itself.
\<close>

section \<open>The interface of ledgers\<close>

locale trie_ledger =
  fixes L :: "('l, 'i::linorder) trie_ledger_ops"
  assumes genesis_seq: "tl_seq L (tl_genesis L) = 0"
    and genesis_mismatch: "1 \<le> tl_mismatch L (tl_genesis L) l"
    and mismatch_le: "tl_mismatch L a b \<le> tl_seq L b + 1"

text \<open>The invariant of a trie: a well-formed, compressed arena rooted at the genesis ledger, and a map
  of the tip support per sequence number.\<close>

definition seq_ok :: "(nat \<Rightarrow> nat) \<Rightarrow> (nat \<times> nat) list \<Rightarrow> bool" where
  "seq_ok w m \<longleftrightarrow> bt_ok m \<and> (\<forall>s. map_of m s = (if w s = 0 then None else Some (w s)))"

definition tr_ok :: "('l, 'i) trie_ledger_ops \<Rightarrow> 'l trie \<Rightarrow> bool" where
  "tr_ok L t \<longleftrightarrow> arena {} (live_set t) t \<and> nd_span (gr t 0) = sp_genesis L \<and>
     seq_ok (weight (live_set t) (gr t)) (tr_seq t) \<and> nd_branch (gr t 0) < 2 ^ 32"

section \<open>Spans\<close>

lemma span_before:
  "sp_start sp < pos \<Longrightarrow> pos \<le> sp_end sp \<Longrightarrow> sp_before sp pos = Some (sp\<lparr>sp_end := pos\<rparr>)"
  by (cases sp) (auto simp: sp_before_def sp_sub_def sp_clamp_def Let_def)

lemma span_from:
  "sp_start sp \<le> pos \<Longrightarrow> pos \<le> sp_end sp \<Longrightarrow>
     sp_from sp pos = (if pos < sp_end sp then Some (sp\<lparr>sp_start := pos\<rparr>) else None)"
  by (cases sp) (auto simp: sp_from_def sp_sub_def sp_clamp_def Let_def)

lemma span_diff_le: "sp_start sp \<le> sp_end sp \<Longrightarrow> sp_start sp \<le> sp_diff L sp l \<and> sp_diff L sp l \<le> sp_end sp"
  by (auto simp: sp_diff_def sp_clamp_def)

lemma span_diff_mismatch: "sp_start sp < sp_diff L sp l \<Longrightarrow> sp_diff L sp l \<le> tl_mismatch L (sp_ledger sp) l"
  by (auto simp: sp_diff_def sp_clamp_def)

lemma span_diff_inside: "sp_diff L sp l < sp_end sp \<Longrightarrow> tl_mismatch L (sp_ledger sp) l \<le> sp_diff L sp l"
  by (auto simp: sp_diff_def sp_clamp_def)

lemma span_diff_start:
  "sp_diff L sp l \<le> sp_start sp \<Longrightarrow> sp_start sp < sp_end sp \<Longrightarrow> tl_mismatch L (sp_ledger sp) l \<le> sp_start sp"
  by (auto simp: sp_diff_def sp_clamp_def)

section \<open>Finding\<close>

lemma pick_child_done:
  assumes "\<forall>c \<in> set cs. c < length (tr_nodes t)"
  shows "\<exists>r. tr_pick_child L t l pos cs = Done r \<and>
    (\<forall>c p. r = Some (c, p) \<longrightarrow> c \<in> set cs \<and> pos < p \<and> p = sp_diff L (nd_span (gr t c)) l) \<and>
    (r = None \<longrightarrow> (\<forall>c \<in> set cs. nd_live (gr t c) \<longrightarrow> sp_diff L (nd_span (gr t c)) l \<le> pos))"
  using assms
proof (induction cs)
  case (Cons c cs)
  then obtain r where "tr_pick_child L t l pos cs = Done r"
    "\<forall>c p. r = Some (c, p) \<longrightarrow> c \<in> set cs \<and> pos < p \<and> p = sp_diff L (nd_span (gr t c)) l"
    "r = None \<longrightarrow> (\<forall>c \<in> set cs. nd_live (gr t c) \<longrightarrow> sp_diff L (nd_span (gr t c)) l \<le> pos)"
    by auto
  moreover have "c < length (tr_nodes t)"
    using Cons.prems by simp
  ultimately show ?case
    by (auto simp: Let_def)
qed simp

text \<open>Where the search for a ledger ends.\<close>

definition found :: "('l, 'i) trie_ledger_ops \<Rightarrow> 'l \<Rightarrow> nat set \<Rightarrow> 'l graph \<Rightarrow> nat \<Rightarrow> nat \<Rightarrow> bool" where
  "found L l V N loc pos \<longleftrightarrow> loc \<in> V \<and> n_start N loc < pos \<and> pos \<le> n_end N loc \<and> pos \<le> tl_seq L l + 1 \<and>
     pos \<le> tl_mismatch L (sp_ledger (nd_span (N loc))) l \<and>
     (pos < n_end N loc \<longrightarrow> tl_mismatch L (sp_ledger (nd_span (N loc))) l = pos) \<and>
     (pos = n_end N loc \<longrightarrow> (\<forall>c \<in> n_kids N loc. tl_mismatch L (sp_ledger (nd_span (N c))) l \<le> pos))"

context trie_ledger
begin

lemma foundI:
  assumes "links V N" and "loc \<in> V" and "n_start N loc < pos" and diff: "sp_diff L (nd_span (N loc)) l = pos"
    and "pos = n_end N loc \<Longrightarrow> \<forall>c \<in> n_kids N loc. sp_diff L (nd_span (N c)) l \<le> pos"
  shows "found L l V N loc pos"
proof -
  note d = linksD [OF assms(1)]
  let ?sp = "nd_span (N loc)"
  have mis: "pos \<le> tl_mismatch L (sp_ledger ?sp) l" and "pos \<le> n_end N loc"
    using span_diff_mismatch [of ?sp L l] span_diff_le [of ?sp L l] d(5) [OF assms(2)] assms(3) diff by simp_all
  moreover have "pos \<le> tl_seq L l + 1"
    using mis mismatch_le [of "sp_ledger ?sp" l] by simp
  moreover have "tl_mismatch L (sp_ledger ?sp) l = pos" if "pos < n_end N loc"
    using span_diff_inside [of L ?sp l] that diff mis by simp
  moreover have "tl_mismatch L (sp_ledger (nd_span (N c))) l \<le> pos" if c: "pos = n_end N loc" "c \<in> n_kids N loc" for c
    using span_diff_start [of L "nd_span (N c)" l] d(9) [OF assms(2) c(2)] d(5) [OF d(7) [OF assms(2) c(2)]] assms(5) c
    by simp
  ultimately show ?thesis
    using assms(2,3) by (simp add: found_def)
qed

lemma find_loop_done:
  assumes ok: "arena X V t" and cur: "cur \<in> V" "n_start (gr t) cur < pos" "sp_diff L (nd_span (gr t cur)) l = pos"
    and fuel: "tl_seq L l + 1 < fuel + pos"
  shows "\<exists>loc p. tr_find_loop L fuel t l cur pos = Done (loc, p) \<and> found L l V (gr t) loc p"
  using cur fuel
proof (induction fuel arbitrary: cur pos)
  case 0
  have "pos \<le> tl_seq L l + 1"
    using span_diff_mismatch [of "nd_span (gr t cur)" L l] mismatch_le [of "sp_ledger (nd_span (gr t cur))" l] 0(2,3) by simp
  then show ?case
    using 0(4) by simp
next
  case (Suc fuel)
  note a = arenaD [OF ok]
  note d = linksD [OF a(3)]
  have len: "cur < length (tr_nodes t)" "\<forall>c \<in> n_kids (gr t) cur. c < length (tr_nodes t)"
    using a(6) d(7) Suc.prems(1) by blast+
  have live: "nd_live (gr t c)" if "c \<in> n_kids (gr t) cur" for c
    using d(7) [OF Suc.prems(1) that] a(2) by (auto simp: live_set_def)
  obtain r where r: "tr_pick_child L t l pos (nd_children (gr t cur)) = Done r"
    "\<forall>c p. r = Some (c, p) \<longrightarrow> c \<in> n_kids (gr t) cur \<and> pos < p \<and> p = sp_diff L (nd_span (gr t c)) l"
    "r = None \<longrightarrow> (\<forall>c \<in> n_kids (gr t) cur. nd_live (gr t c) \<longrightarrow> sp_diff L (nd_span (gr t c)) l \<le> pos)"
    using pick_child_done [OF len(2)] by blast
  show ?case
  proof (cases "\<exists>c p. pos = n_end (gr t) cur \<and> r = Some (c, p)")
    case True
    then obtain c p where cp: "pos = n_end (gr t) cur" "r = Some (c, p)"
      by blast
    then have c: "c \<in> n_kids (gr t) cur" "pos < p" "sp_diff L (nd_span (gr t c)) l = p"
      using r(2) by blast+
    have "c \<in> V" "n_start (gr t) c < p"
      using d(7,9) [OF Suc.prems(1) c(1)] c(2) cp(1) by simp_all
    from Suc.IH [OF this c(3)] show ?thesis
      using Suc.prems(4) c(2) cp r(1) len(1) by simp
  next
    case False
    then have "tr_find_loop L (Suc fuel) t l cur pos = Done (cur, pos)"
      using r(1) len(1) by (cases r) auto
    moreover have "found L l V (gr t) cur pos"
      by (rule foundI [OF a(3) Suc.prems(1-3)]) (use False r(3) live in \<open>cases r; auto\<close>)
    ultimately show ?thesis
      by blast
  qed
qed

lemma find_done:
  assumes ok: "arena X V t" and root: "nd_span (gr t 0) = sp_genesis L"
  obtains loc pos where "tr_find L t l = Done (loc, pos)" and "found L l V (gr t) loc pos"
proof -
  note a = arenaD [OF ok]
  have diff: "sp_diff L (nd_span (gr t 0)) l = 1"
    using genesis_mismatch [of l] genesis_seq by (simp add: root sp_diff_def sp_clamp_def sp_genesis_def Let_def)
  moreover have "0 < length (tr_nodes t)"
    using a(6) linksD(2) [OF a(3)] by blast
  ultimately have "tr_find L t l = tr_find_loop L (tl_seq L l + 2) t l 0 1"
    by (simp add: tr_find_def del: tr_find_loop.simps)
  moreover have "\<exists>loc p. tr_find_loop L (tl_seq L l + 2) t l 0 1 = Done (loc, p) \<and> found L l V (gr t) loc p"
    by (rule find_loop_done [OF ok linksD(2) [OF a(3)] _ diff]) (simp_all add: linksD(4) [OF a(3)])
  ultimately show thesis
    using that by metis
qed

end


section \<open>Inserting\<close>

text \<open>The first step: the node is split unless the ledger covers all of its span.\<close>

definition has_child :: "'l trie \<Rightarrow> nat \<Rightarrow> bool" where
  "has_child t i \<longleftrightarrow> i = 0 \<or> nd_tip (gr t i) \<noteq> 0 \<or> nd_children (gr t i) \<noteq> []"

text \<open>What the steps keep of the graph: the support of tips, the root, and every invariant of graphs.\<close>

definition carries :: "('l, 'i) trie_ledger_ops \<Rightarrow> 'l set \<Rightarrow> nat set \<Rightarrow> 'l trie \<Rightarrow> nat set \<Rightarrow> 'l trie \<Rightarrow> bool" where
  "carries L ls V t V' t' \<longleftrightarrow> tr_seq t' = tr_seq t \<and> 0 \<in> V' \<and> nd_span (gr t' 0) = nd_span (gr t 0) \<and>
     nd_branch (gr t' 0) = nd_branch (gr t 0) \<and>
     (\<forall>Q. about_tip Q \<longrightarrow> weight_of Q V' (gr t') = weight_of Q V (gr t)) \<and>
     (\<forall>ok G. graph_inv L ok G \<longrightarrow> (\<forall>l \<in> ls. ok l) \<longrightarrow> G V (gr t) \<longrightarrow> G V' (gr t'))"

lemma carriesI:
  assumes "tr_seq t' = tr_seq t" and "0 \<in> V'" and "nd_span (gr t' 0) = nd_span (gr t 0)"
    and "nd_branch (gr t' 0) = nd_branch (gr t 0)" and "\<And>Q. about_tip Q \<Longrightarrow> weight_of Q V' (gr t') = weight_of Q V (gr t)"
    and "\<And>ok G. graph_inv L ok G \<Longrightarrow> (\<And>l. l \<in> ls \<Longrightarrow> ok l) \<Longrightarrow> G V (gr t) \<Longrightarrow> G V' (gr t')"
  shows "carries L ls V t V' t'"
  using assms unfolding carries_def by blast

lemma carries_refl: "arena X V t \<Longrightarrow> carries L ls V t V t"
  using linksD(2) [OF arenaD(3)] by (auto simp: carries_def)

lemma carriesD:
  assumes "carries L ls V t V' t'"
  shows "tr_seq t' = tr_seq t" and "0 \<in> V'" and "nd_span (gr t' 0) = nd_span (gr t 0)"
    and "nd_branch (gr t' 0) = nd_branch (gr t 0)" and "about_tip Q \<Longrightarrow> weight_of Q V' (gr t') = weight_of Q V (gr t)"
    and "graph_inv L ok G \<Longrightarrow> (\<And>l. l \<in> ls \<Longrightarrow> ok l) \<Longrightarrow> G V (gr t) \<Longrightarrow> G V' (gr t')"
  using assms unfolding carries_def by metis+

lemma carries_trans:
  assumes "carries L ls V t V' t'" and "carries L ls V' t' V'' t''"
  shows "carries L ls V t V'' t''"
proof (rule carriesI)
  show "G V'' (gr t'')" if "graph_inv L ok G" "\<And>l. l \<in> ls \<Longrightarrow> ok l" "G V (gr t)" for ok G
    by (rule carriesD(6) [OF assms(2) that(1,2) carriesD(6) [OF assms(1) that]]) simp
qed (simp_all add: carriesD(1-5) [OF assms(1)] carriesD(1-5) [OF assms(2)])

lemma split_stage:
  assumes ok: "arena {} V t" and found: "found L l V (gr t) loc pos"
  obtains V' t' where
    "(case sp_from (nd_span (gr t loc)) pos of None \<Rightarrow> Done t
      | Some s \<Rightarrow> tr_split loc (sp_before (nd_span (gr t loc)) pos) s t) = Done t'"
    and "arena {loc} V' t'" and "has_child t' loc" and "loc \<in> V'" and "n_end (gr t') loc = pos"
    and "leaf_ok L l (gr t') loc pos" and "carries L {l} V t V' t'"
    and "sp_ledger (nd_span (gr t' loc)) = sp_ledger (nd_span (gr t loc))"
proof (cases "pos = n_end (gr t) loc")
  case True
  note a = arenaD [OF ok]
  have loc: "loc \<in> V" "n_start (gr t) loc < pos"
    using found by (simp_all add: found_def)
  show thesis
  proof (rule that [of t V])
    show "arena {loc} V t"
      using a packed_mono [of "{}" V "gr t" "{loc}"] by (simp add: arena_def)
    show "has_child t loc"
      using a(5) loc(1) by (fastforce simp: has_child_def packed_def)
    show "leaf_ok L l (gr t) loc pos"
      using found True by (simp add: found_def leaf_ok_def)
  qed (use True loc carries_refl [OF ok] in \<open>simp_all add: span_from\<close>)
next
  case False
  note a = arenaD [OF ok]
  have loc: "loc \<in> V" and pos: "n_start (gr t) loc < pos" "pos < n_end (gr t) loc"
    and mis: "tl_mismatch L (sp_ledger (nd_span (gr t loc))) l = pos"
    using found False by (auto simp: found_def)
  obtain new t' where t': "tr_split loc (Some ((nd_span (gr t loc))\<lparr>sp_end := pos\<rparr>)) ((nd_span (gr t loc))\<lparr>sp_start := pos\<rparr>) t = Done t'"
    "arena {loc} (insert new V) t'" "new \<notin> V" "tr_seq t' = tr_seq t"
    "\<And>i. i \<in> insert new V \<Longrightarrow> gr t' i = split_node loc new pos (gr t) i"
    "\<And>Q. about_tip Q \<Longrightarrow> weight_of Q (insert new V) (gr t') = weight_of Q V (gr t)"
    using split_arena [OF ok loc pos] by metis
  have "loc \<noteq> 0" "0 \<in> V"
    using pos linksD(2,4,11) [OF a(3)] by (cases "loc = 0", auto)
  then have gr: "gr t' loc = split_node loc new pos (gr t) loc" "gr t' 0 = split_node loc new pos (gr t) 0"
    "gr t' new = split_node loc new pos (gr t) new"
    using t'(5) loc by auto
  have G: "G (insert new V) (gr t')" if G: "graph_inv L okl G" "G V (gr t)" for okl G
  proof -
    have "G (insert new V) (split_node loc new pos (gr t))"
      using G a(3) loc t'(3) pos by (simp add: graph_inv_def keeps_split_def)
    then show ?thesis
      using G(1) keeps_congD [OF _ links_split [OF a(3) loc t'(3) pos]] t'(5) by (auto simp: graph_inv_def)
  qed
  have root: "nd_span (gr t' 0) = nd_span (gr t 0)" "nd_branch (gr t' 0) = nd_branch (gr t 0)"
    using gr(2) \<open>loc \<noteq> 0\<close> \<open>0 \<in> V\<close> t'(3) by (auto simp: split_node_def)
  have carry: "carries L {l} V t (insert new V) t'"
    by (rule carriesI) (use t'(4,6) \<open>0 \<in> V\<close> root G in simp_all)
  show thesis
    using t' loc pos gr mis carry
    by (intro that [of t' "insert new V"]) (auto simp: span_from span_before has_child_def split_node_def leaf_ok_def)
qed

text \<open>The second step: a leaf for what the node does not cover.\<close>

lemma leaf_stage:
  assumes ok: "arena {loc} V t" and child: "has_child t loc" and loc: "loc \<in> V" and pos: "n_end (gr t) loc = pos"
    and leaf: "leaf_ok L l (gr t) loc pos" and seq: "pos \<le> tl_seq L l + 1"
  obtains inc V' t' where
    "(case sp_from (sp_from_ledger L l 0) pos of None \<Rightarrow> Done (loc, t) | Some s \<Rightarrow> tr_add_leaf loc s t) = Done (inc, t')"
    and "arena {inc} V' t'" and "inc \<in> V'" and "n_end (gr t') inc = tl_seq L l + 1" and "carries L {l} V t V' t'"
    and "sp_ledger (nd_span (gr t' inc)) = (if pos = tl_seq L l + 1 then sp_ledger (nd_span (gr t loc)) else l)"
proof (cases "pos = tl_seq L l + 1")
  case True
  then show thesis
    using ok loc pos carries_refl [OF ok] by (intro that [of loc t V]) (simp_all add: span_from sp_from_ledger_def)
next
  case False
  note a = arenaD [OF ok]
  let ?sp = "\<lparr>sp_start = pos, sp_end = tl_seq L l + 1, sp_ledger = l\<rparr>"
  have sp: "sp_start ?sp = n_end (gr t) loc" "sp_start ?sp < sp_end ?sp"
    using False seq pos by simp_all
  obtain new t' where t': "tr_add_leaf loc ?sp t = Done (new, t')" "arena (insert new {loc}) (insert new V) t'"
    "new \<notin> V" "tr_seq t' = tr_seq t" "\<And>i. i \<in> insert new V \<Longrightarrow> gr t' i = add_leaf loc new ?sp (gr t) i"
    "\<And>Q. about_tip Q \<Longrightarrow> weight_of Q (insert new V) (gr t') = weight_of Q V (gr t)"
    using leaf_arena [OF ok loc sp] by metis
  have V0: "0 \<in> V"
    by (rule linksD(2) [OF a(3)])
  have loc': "gr t' loc = (gr t loc)\<lparr>nd_children := nd_children (gr t loc) @ [new]\<rparr>"
    and new': "gr t' new = (nd_from_span ?sp)\<lparr>nd_parent := Some loc\<rparr>"
    using t'(3,5) loc by (auto simp: add_leaf_def)
  have "packed (insert loc {new}) (insert new V) (gr t')"
    using arenaD(5) [OF t'(2)] by (simp add: insert_commute)
  then have "packed {new} (insert new V) (gr t')"
    using child loc' by (rule_tac packed_fill) (auto simp: has_child_def Suc_le_eq)
  then have ar': "arena {new} (insert new V) t'"
    using t'(2) unfolding arena_def by blast
  have G: "G (insert new V) (gr t')" if G: "graph_inv L okl G" "okl l" "G V (gr t)" for okl G
  proof -
    have "G (insert new V) (add_leaf loc new ?sp (gr t))"
      using G a(3) loc t'(3) pos leaf False seq by (auto simp: graph_inv_def keeps_leaf_def)
    then show ?thesis
      using G(1) keeps_congD [OF _ links_leaf [OF a(3) loc t'(3) sp]] t'(5) by (auto simp: graph_inv_def)
  qed
  have root: "nd_span (gr t' 0) = nd_span (gr t 0)" "nd_branch (gr t' 0) = nd_branch (gr t 0)"
    using t'(3,5) V0 by (auto simp: add_leaf_def)
  have "carries L {l} V t (insert new V) t'"
    by (rule carriesI) (use t'(4,6) V0 root G in simp_all)
  then show thesis
    using ar' t'(1) new' False seq by (intro that [of new t' "insert new V"])
      (auto simp: span_from sp_from_ledger_def nd_from_span_def)
qed

lemma seq_ok_get: "seq_ok w (tr_seq t) \<Longrightarrow> tr_seq_get t s = w s"
  by (simp add: seq_ok_def tr_seq_get_def)

lemma seq_ok_insert:
  "seq_ok w m \<Longrightarrow> 0 < n \<Longrightarrow> (\<And>s. w' s = w s + (if s = q then n else 0)) \<Longrightarrow> seq_ok w' (bt_insert q (w q + n) m)"
  by (auto simp: seq_ok_def)

lemma tr_ok_arena:
  assumes "arena {} V t" and "nd_span (gr t 0) = sp_genesis L" and "seq_ok (weight V (gr t)) (tr_seq t)"
    and "nd_branch (gr t 0) < 2 ^ 32"
  shows "tr_ok L t"
  using assms arenaD(2) [OF assms(1)] by (simp add: tr_ok_def)

lemma arena_seq [simp]: "arena X V (t\<lparr>tr_seq := m\<rparr>) = arena X V t"
  by (simp add: arena_def slots_def live_set_def)

text \<open>The support recorded for the tips that satisfy a predicate, and the tip of a ledger.\<close>

definition support_of :: "('l span \<Rightarrow> bool) \<Rightarrow> 'l trie \<Rightarrow> nat" where
  "support_of Q t = weight_of Q (live_set t) (gr t)"

text \<open>What an insertion does to the support: the tip of the ledger, wherever its span starts, gains it.\<close>

definition tip_of :: "('l, 'i) trie_ledger_ops \<Rightarrow> 'l \<Rightarrow> 'l span \<Rightarrow> bool" where
  "tip_of L l sp \<longleftrightarrow> sp_end sp = tl_seq L l + 1 \<and> (sp_ledger sp = l \<or> tl_mismatch L (sp_ledger sp) l = tl_seq L l + 1)"

context trie_ledger
begin

lemma insert_done:
  assumes ok: "tr_ok L t" and n: "0 < n" and fits: "nd_branch (gr t 0) + n < 2 ^ 32"
  obtains t' sp where "trie_insert L l n t = Done t'" and "tr_ok L t'" and "tip_of L l sp"
    and "\<exists>i \<in> live_set t'. nd_span (gr t' i) = sp"
    and "nd_branch (gr t' 0) = nd_branch (gr t 0) + n"
    and "\<And>Q. about_tip Q \<Longrightarrow> support_of Q t' = support_of Q t + (if Q sp then n else 0)"
    and "\<And>okl G. graph_inv L okl G \<Longrightarrow> okl l \<Longrightarrow> G (live_set t) (gr t) \<Longrightarrow> G (live_set t') (gr t')"
proof -
  let ?V = "live_set t"
  have ar: "arena {} ?V t" and root: "nd_span (gr t 0) = sp_genesis L"
    and seq: "seq_ok (weight ?V (gr t)) (tr_seq t)"
    using ok by (simp_all add: tr_ok_def)
  obtain loc pos where find: "tr_find L t l = Done (loc, pos)" and found: "found L l ?V (gr t) loc pos"
    using find_done [OF ar root] by blast
  obtain V1 t1 where t1: "(case sp_from (nd_span (gr t loc)) pos of None \<Rightarrow> Done t
      | Some s \<Rightarrow> tr_split loc (sp_before (nd_span (gr t loc)) pos) s t) = Done t1"
    "arena {loc} V1 t1" "has_child t1 loc" "loc \<in> V1" "n_end (gr t1) loc = pos" "leaf_ok L l (gr t1) loc pos"
    and c1: "carries L {l} ?V t V1 t1" and l1: "sp_ledger (nd_span (gr t1 loc)) = sp_ledger (nd_span (gr t loc))"
    using split_stage [OF ar found] by metis
  have pos: "pos \<le> tl_seq L l + 1" "loc < length (tr_nodes t)" "pos \<le> tl_mismatch L (sp_ledger (nd_span (gr t loc))) l"
    using found arenaD(6) [OF ar] by (simp_all add: found_def)
  obtain inc V2 t2 where t2: "(case sp_from (sp_from_ledger L l 0) pos of None \<Rightarrow> Done (loc, t1)
      | Some s \<Rightarrow> tr_add_leaf loc s t1) = Done (inc, t2)"
    "arena {inc} V2 t2" "inc \<in> V2" "n_end (gr t2) inc = tl_seq L l + 1" and c2: "carries L {l} V1 t1 V2 t2"
    and l2: "sp_ledger (nd_span (gr t2 inc)) = (if pos = tl_seq L l + 1 then sp_ledger (nd_span (gr t1 loc)) else l)"
    using leaf_stage [OF t1(2-6) pos(1)] by metis
  note c1 = carriesD [OF c1] and c2 = carriesD [OF c2]
  have "nd_branch (gr t2 0) + n < 2 ^ 32"
    using fits c1(4) c2(4) by simp
  then obtain t3 where t3: "tr_bump inc n t2 = Done t3" "arena {} V2 t3" "tr_seq t3 = tr_seq t2"
    "\<And>Q. weight_of Q V2 (gr t3) = weight_of Q V2 (gr t2) + (if Q (nd_span (gr t2 inc)) then n else 0)"
    "nd_branch (gr t3 0) = nd_branch (gr t2 0) + n" "\<And>j. j \<in> V2 \<Longrightarrow> nd_span (gr t3 j) = nd_span (gr t2 j)"
    "\<exists>r. supported n inc r V2 (gr t2) (gr t3)"
    using bump_arena [OF t2(2,3) n] by metis
  let ?w = "weight ?V (gr t)" and ?q = "tl_seq L l" and ?sp = "nd_span (gr t2 inc)"
  have weights: "weight_of Q V2 (gr t3) = weight_of Q ?V (gr t) + (if Q ?sp then n else 0)" if "about_tip Q" for Q
    using t3(4) c1(5) [OF that] c2(5) [OF that] by simp
  have get: "tr_seq_get t3 s = ?w s" for s
    using seq t3(3) c2(1) c1(1) by (simp add: seq_ok_get)
  have "?w ?q + n < 2 ^ 32"
    using weight_le_root [OF arenaD(3,4) [OF ar], of "ends_at ?q"] fits by (simp add: weight_def)
  let ?t = "t3\<lparr>tr_seq := bt_insert ?q (?w ?q + n) (tr_seq t3)\<rparr>"
  from \<open>?w ?q + n < 2 ^ 32\<close> have run: "trie_insert L l n t = Done ?t"
    using find pos(2) t1(1) t2(1) t3(1) get by (simp add: trie_insert_def u32_add_def)
  have live: "live_set t3 = V2" "live_set ?t = V2"
    using arenaD(2) [OF t3(2)] by (simp_all add: live_set_def)
  have seq': "seq_ok (weight V2 (gr t3)) (bt_insert ?q (?w ?q + n) (tr_seq t3))"
  proof (rule seq_ok_insert)
    show "seq_ok ?w (tr_seq t3)"
      using seq t3(3) c2(1) c1(1) by simp
    show "weight V2 (gr t3) s = ?w s + (if s = ?q then n else 0)" for s
      using weights [OF about_tip_ends_at, of s] t2(4) by (simp add: weight_def ends_at_def)
  qed (rule n)
  show thesis
  proof (rule that [OF run])
    show "tr_ok L ?t"
      by (rule tr_ok_arena [of V2]) (use t3 c1(3,4) c2(2,3,4) root fits seq' in simp_all)
    have "sp_ledger ?sp = l \<or> tl_mismatch L (sp_ledger ?sp) l = tl_seq L l + 1"
      using l1 l2 pos(3) mismatch_le [of "sp_ledger ?sp" l] by auto
    then show "tip_of L l ?sp"
      using t2(4) by (simp add: tip_of_def)
    show "\<exists>i \<in> live_set ?t. nd_span (gr ?t i) = ?sp"
      using t2(3) t3(6) by (auto simp: live)
    show "G (live_set ?t) (gr ?t)" if G: "graph_inv L okl G" "okl l" "G ?V (gr t)" for okl G
    proof -
      have "G V2 (gr t2)"
        by (rule c2(6) [OF G(1) _ c1(6) [OF G(1) _ G(3)]]) (use G(2) in simp_all)
      then have "G V2 (gr t3)"
        using t3(7) G(1) keeps_supportD [of G V2 "gr t2"] arenaD(3) [OF t2(2)] by (auto simp: graph_inv_def)
      then show ?thesis
        by (simp add: live)
    qed
  qed (use t3(5) c1(4) c2(4) weights in \<open>simp_all add: support_of_def live\<close>)
qed

end

end
