(* ===== verification/Trie_Remove.thy ===== *)
theory Trie_Remove
  imports Trie_Insert
begin

text \<open>
  Removing support from the trie and compressing it again: the loop erases a leaf without support and
  merges a node without support into its only child, and climbs to the parent.
\<close>

section \<open>Compression\<close>

lemma live_children:
  assumes "arena X V t" and "i \<in> V"
  shows "tr_live_children t (nd_children (gr t i)) = nd_children (gr t i)"
    and "\<not> (\<exists>c \<in> n_kids (gr t) i. length (tr_nodes t) \<le> c)"
proof -
  have "c \<in> live_set t" if "c \<in> n_kids (gr t) i" for c
    using linksD(7) [OF arenaD(3) [OF assms(1)] assms(2) that] arenaD(2) [OF assms(1)] by simp
  then show "tr_live_children t (nd_children (gr t i)) = nd_children (gr t i)"
    and "\<not> (\<exists>c \<in> n_kids (gr t) i. length (tr_nodes t) \<le> c)"
    by (auto simp: tr_live_children_def live_set_def filter_id_conv not_le)
qed

lemma weight_of_cong: "(\<And>i. i \<in> V \<Longrightarrow> N' i = N i) \<Longrightarrow> weight_of Q V N' = weight_of Q V N"
  unfolding weight_of_def by (intro sum.cong) auto

lemma erase_child_done:
  assumes ok: "slots t" and p: "p \<in> live_set t" and c: "c \<in> live_set t" and neq: "p \<noteq> c"
  obtains t' where "tr_erase_child L p c t = Done t'" and "slots t'" and "live_set t' = live_set t - {c}"
    and "tr_seq t' = tr_seq t"
    and "\<And>i. i \<noteq> c \<Longrightarrow> gr t' i = (if i = p then (gr t p)\<lparr>nd_children := filter (\<lambda>d. d \<noteq> c) (nd_children (gr t p))\<rparr> else gr t i)"
proof -
  have len: "p < length (tr_nodes t)" "c < length (tr_nodes t)"
    using p c by (auto simp: live_set_def)
  let ?t = "upd c (\<lambda>_. (nd_from_span (sp_genesis L))\<lparr>nd_live := False\<rparr>)
    (upd p (\<lambda>nd. nd\<lparr>nd_children := filter (\<lambda>d. d \<noteq> c) (nd_children nd)\<rparr>) t)"
  let ?t' = "?t\<lparr>tr_free := tr_free t @ [c]\<rparr>"
  have run: "tr_erase_child L p c t = Done ?t'"
    using len by (simp add: tr_erase_child_def)
  have "live_set ?t' = live_set t - {c}"
    using len neq by (auto simp: live_set_def)
  moreover have "slots ?t'"
    using len ok c neq by (auto simp: slots_def live_set_def)
  ultimately show thesis
    using len neq by (intro that [OF run]) auto
qed

lemma erase_arena:
  assumes ok: "arena {loc} V t" and loc: "loc \<in> V" "loc \<noteq> 0" "nd_children (gr t loc) = []" "nd_tip (gr t loc) = 0"
    and p: "nd_parent (gr t loc) = Some p"
  obtains t' where "tr_erase_child L p loc t = Done t'" and "arena {p} (V - {loc}) t'" and "p \<in> V - {loc}"
    and "n_start (gr t') p = n_start (gr t) p" and "carries L {} V t (V - {loc}) t'"
proof -
  note a = arenaD [OF ok]
  note e = links_erase [OF a(3) loc(1-3) p]
  have neq: "p \<noteq> loc"
    using parent_start(3) [OF a(3) loc(1) p] by auto
  obtain t' where t': "tr_erase_child L p loc t = Done t'" "slots t'" "live_set t' = live_set t - {loc}"
    "tr_seq t' = tr_seq t"
    "\<And>i. i \<noteq> loc \<Longrightarrow> gr t' i = (if i = p then (gr t p)\<lparr>nd_children := filter (\<lambda>d. d \<noteq> loc) (nd_children (gr t p))\<rparr> else gr t i)"
    using erase_child_done [OF a(1) _ _ neq] e(1) loc(1) a(2) by metis
  have gr: "gr t' i = erase_leaf p loc (gr t) i" if "i \<in> V - {loc}" for i
    using that t'(5) by (auto simp: erase_leaf_def)
  have live: "live_set t' = V - {loc}"
    using t'(3) a(2) by simp
  note ar = arenaI [OF t'(2) live e(2) sums_erase [OF a(3) loc p a(4)] packed_erase [OF a(5)] gr]
  have "carries L {} V t (V - {loc}) t'"
  proof (rule carriesI)
    show "G (V - {loc}) (gr t')" if G: "graph_inv L okl G" "G V (gr t)" for okl G
      using G gr keeps_congD [OF _ e(2), of G "gr t'"] a(3) loc p by (auto simp: graph_inv_def keeps_erase_def)
    show "weight_of Q (V - {loc}) (gr t') = weight_of Q V (gr t)" for Q
      using weight_erase [of V "gr t" loc Q p] linksD(1) [OF a(3)] loc(4) weight_of_cong [of "V - {loc}" "gr t'", OF gr] by simp
  qed (use t'(4,5) loc(2) linksD(2) [OF a(3)] in auto)
  then show thesis
    using ar e(1) neq t'(5) by (intro that [OF t'(1)]) auto
qed

lemma merge_span:
  "sp_start b = sp_end a \<Longrightarrow> sp_start a < sp_end a \<Longrightarrow> sp_start b < sp_end b \<Longrightarrow> sp_merge a b = b\<lparr>sp_start := sp_start a\<rparr>"
  by (cases b) (auto simp: sp_merge_def)

lemma merge_arena:
  assumes ok: "arena {loc} V t" and loc: "loc \<in> V" "loc \<noteq> 0" "nd_children (gr t loc) = [child]" "nd_tip (gr t loc) = 0"
    and p: "nd_parent (gr t loc) = Some p"
  obtains t' where
    "tr_merge_child L p loc child t = Done t'"
    and "arena {p} (V - {loc}) t'" and "p \<in> V - {loc}" and "n_start (gr t') p = n_start (gr t) p"
    and "carries L {} V t (V - {loc}) t'"
proof -
  note a = arenaD [OF ok]
  note m = links_merge [OF a(3) loc(1-3) p]
  define t1 where "t1 = upd p (\<lambda>pnd. pnd\<lparr>nd_children := nd_children pnd @ [child]\<rparr>)
    (upd child (\<lambda>cnd. cnd\<lparr>nd_span := sp_merge (nd_span (gr t loc)) (nd_span cnd), nd_parent := Some p\<rparr>) t)"
  have len: "child < length (tr_nodes t)" "p < length (tr_nodes t)"
    using a(6) m(1,3) by blast+
  have "same_slots t t1"
    using len unfolding t1_def by (intro same_slots_then) simp_all
  note s = same_slotsD [OF this]
  have span: "sp_merge (nd_span (gr t loc)) (nd_span (gr t child)) = (nd_span (gr t child))\<lparr>sp_start := n_start (gr t) loc\<rparr>"
    using linksD(5) [OF a(3) loc(1)] linksD(5) [OF a(3) m(3)] linksD(9) [OF a(3) loc(1)] loc(3)
    by (intro merge_span) simp_all
  obtain t' where t': "tr_erase_child L p loc t1 = Done t'" "slots t'" "live_set t' = live_set t1 - {loc}"
    "tr_seq t' = tr_seq t1"
    "\<And>i. i \<noteq> loc \<Longrightarrow> gr t' i = (if i = p then (gr t1 p)\<lparr>nd_children := filter (\<lambda>d. d \<noteq> loc) (nd_children (gr t1 p))\<rparr> else gr t1 i)"
    using erase_child_done [OF s(4) [OF a(1)] _ _ m(6)] m(1) loc(1) a(2) s(3) by metis
  have gr: "gr t' i = merge_node p loc child (gr t) i" if "i \<in> V - {loc}" for i
    using that t'(5) [of i] len m(4,5) span by (auto simp: merge_node_def t1_def)
  have live: "live_set t' = V - {loc}"
    using t'(3) a(2) s(3) by simp
  note ar = arenaI [OF t'(2) live m(2) sums_merge [OF a(3) loc p a(4)] packed_merge [OF a(5)] gr]
  have "child \<noteq> 0" "child \<noteq> p"
    using kid_neq [OF a(3) loc(1)] m(4) loc(3) by auto
  have "carries L {} V t (V - {loc}) t'"
  proof (rule carriesI)
    show "G (V - {loc}) (gr t')" if G: "graph_inv L okl G" "G V (gr t)" for okl G
      using G gr keeps_congD [OF _ m(2), of G "gr t'"] a(3) loc p by (auto simp: graph_inv_def keeps_merge_def)
    show "weight_of Q (V - {loc}) (gr t') = weight_of Q V (gr t)" if "about_tip Q" for Q
      using weight_merge [of V Q "gr t" loc p child] linksD(1) [OF a(3)] loc(4) weight_of_cong [of "V - {loc}" "gr t'", OF gr] that by simp
  qed (use t'(4,5) loc(2) linksD(2) [OF a(3)] s(2) len \<open>child \<noteq> 0\<close> in \<open>auto simp: t1_def\<close>)
  then show thesis
    using ar m(1,6) t'(1,4,5) len s(2) \<open>child \<noteq> p\<close>
    by (intro that [of t']) (auto simp: t1_def tr_merge_child_def a(6) [OF loc(1)])
qed


lemma short_list: "length xs < 2 \<Longrightarrow> xs = [] \<or> (\<exists>x. xs = [x])"
  by (cases xs rule: remdups_adj.cases) auto

lemma long_list: "2 \<le> length xs \<Longrightarrow> \<exists>x y r. xs = x # y # r"
  by (cases xs rule: remdups_adj.cases) auto

lemma compress_step:
  assumes ok: "arena {loc} V t" and loc: "loc \<in> V" "loc \<noteq> 0" "nd_tip (gr t loc) = 0" "length (nd_children (gr t loc)) < 2"
  obtains p t' where "\<And>fuel. tr_compress L (Suc fuel) loc t = tr_compress L fuel p t'" and "arena {p} (V - {loc}) t'"
    and "p \<in> V - {loc}" and "n_start (gr t') p < n_start (gr t) loc" and "carries L {} V t (V - {loc}) t'"
proof -
  note a = arenaD [OF ok]
  obtain p where p: "nd_parent (gr t loc) = Some p"
    using linksD(10) [OF a(3) loc(1,2)] by (auto simp: parent_ok_def)
  note ps = parent_start [OF a(3) loc(1) p]
  have len: "loc < length (tr_nodes t)"
    by (rule a(6) [OF loc(1)])
  note live = live_children [OF ok loc(1)]
  consider "nd_children (gr t loc) = []" | child where "nd_children (gr t loc) = [child]"
    using short_list [OF loc(4)] by blast
  then show thesis
  proof cases
    case 1
    obtain t' where t': "tr_erase_child L p loc t = Done t'" "arena {p} (V - {loc}) t'" "p \<in> V - {loc}"
      "n_start (gr t') p = n_start (gr t) p" "carries L {} V t (V - {loc}) t'"
      using erase_arena [OF ok loc(1,2) 1 loc(3) p] by metis
    have "tr_compress L (Suc fuel) loc t = tr_compress L fuel p t'" for fuel
      using len loc(2,3) p live 1 t'(1) by (simp add: tr_live_children_def)
    then show thesis
      using t' ps(3) by (intro that [of p t']) auto
  next
    case (2 child)
    obtain t' where t': "tr_merge_child L p loc child t = Done t'" "arena {p} (V - {loc}) t'" "p \<in> V - {loc}"
      "n_start (gr t') p = n_start (gr t) p" "carries L {} V t (V - {loc}) t'"
      using merge_arena [OF ok loc(1,2) 2 loc(3) p] by metis
    have "tr_compress L (Suc fuel) loc t = tr_compress L fuel p t'" for fuel
      using len loc(2,3) p live 2 t'(1) by simp
    then show thesis
      using t' ps(3) by (intro that [of p t']) auto
  qed
qed

lemma compress_done:
  assumes "arena {loc} V t" and "loc \<in> V" and "n_start (gr t) loc < fuel"
  shows "\<exists>V' t'. tr_compress L fuel loc t = Done t' \<and> arena {} V' t' \<and> carries L {} V t V' t'"
  using assms
proof (induction fuel arbitrary: loc V t)
  case (Suc fuel)
  note a = arenaD [OF Suc.prems(1)]
  have len: "loc < length (tr_nodes t)"
    by (rule a(6) [OF Suc.prems(2)])
  note live = live_children [OF Suc.prems(1,2)]
  show ?case
  proof (cases "nd_tip (gr t loc) = 0 \<and> loc \<noteq> 0 \<and> length (nd_children (gr t loc)) < 2")
    case True
    then obtain p t' where t': "\<And>fuel. tr_compress L (Suc fuel) loc t = tr_compress L fuel p t'"
      "arena {p} (V - {loc}) t'" "p \<in> V - {loc}" "n_start (gr t') p < n_start (gr t) loc"
      "carries L {} V t (V - {loc}) t'"
      using compress_step [OF Suc.prems(1,2)] by metis
    have "n_start (gr t') p < fuel"
      using t'(4) Suc.prems(3) by simp
    from Suc.IH [OF t'(2,3) this] show ?thesis
      unfolding t'(1) using carries_trans [OF t'(5)] by blast
  next
    case False
    then have "packed {} V (gr t)"
      using packed_fill [of loc "{}" V "gr t"] a(5) by (auto simp: not_less)
    then have "arena {} V t"
      using Suc.prems(1) unfolding arena_def by blast
    moreover have "tr_compress L (Suc fuel) loc t = Done t"
    proof (cases "nd_tip (gr t loc) = 0 \<and> loc \<noteq> 0")
      case True
      then obtain p where "nd_parent (gr t loc) = Some p"
        using linksD(10) [OF a(3) Suc.prems(2)] by (auto simp: parent_ok_def)
      moreover have "2 \<le> length (nd_children (gr t loc))"
        using True False by simp
      then obtain c d r where "nd_children (gr t loc) = c # d # r"
        using long_list by blast
      ultimately show ?thesis
        using True len live by simp
    next
      case False
      then show ?thesis
        using len by auto
    qed
    ultimately show ?thesis
      using carries_refl [of "{}" V t L] by blast
  qed
qed simp


section \<open>Removal\<close>

lemma find_from_Some:
  "tr_find_from L i k nds = Some j \<Longrightarrow>
     k \<le> j \<and> j - k < length nds \<and> nd_live (nds ! (j - k)) \<and> st_id (sp_tip L (nd_span (nds ! (j - k)))) = i"
proof (induction nds arbitrary: k)
  case (Cons nd nds)
  show ?case
  proof (cases "nd_live nd \<and> st_id (sp_tip L (nd_span nd)) = i")
    case False
    then have "tr_find_from L i (Suc k) nds = Some j"
      using Cons.prems by auto
    from Cons.IH [OF this] have "Suc k \<le> j" "j - k = Suc (j - Suc k)" "j - Suc k < length nds"
      "nd_live (nds ! (j - Suc k))" "st_id (sp_tip L (nd_span (nds ! (j - Suc k)))) = i"
      by (simp_all add: Suc_diff_Suc Suc_le_lessD)
    then show ?thesis
      by simp
  qed (use Cons.prems in auto)
qed simp

lemma find_from_None:
  "tr_find_from L i k nds = None \<longleftrightarrow> (\<forall>nd \<in> set nds. nd_live nd \<longrightarrow> st_id (sp_tip L (nd_span nd)) \<noteq> i)"
  by (induction nds arbitrary: k) auto

lemma find_id_Some:
  "tr_find_by_ledger_id L t i = Some loc \<Longrightarrow> loc \<in> live_set t \<and> st_id (sp_tip L (nd_span (gr t loc))) = i"
  using find_from_Some [of L i 0 "tr_nodes t" loc] by (simp add: tr_find_by_ledger_id_def live_set_def)

lemma find_id_None:
  "tr_find_by_ledger_id L t i = None \<Longrightarrow> loc \<in> live_set t \<Longrightarrow> st_id (sp_tip L (nd_span (gr t loc))) \<noteq> i"
  using find_from_None [of L i 0 "tr_nodes t"] by (auto simp: tr_find_by_ledger_id_def live_set_def)

lemma weight_of_ge_tip: "finite V \<Longrightarrow> i \<in> V \<Longrightarrow> Q (nd_span (N i)) \<Longrightarrow> nd_tip (N i) \<le> weight_of Q V N"
  using member_le_sum [of i V "\<lambda>i. if Q (nd_span (N i)) then nd_tip (N i) else 0"] by (simp add: weight_of_def)

lemma drop_seq_done:
  assumes ok: "seq_ok w (tr_seq t)" and n: "n \<le> w q" "0 < w q" and w': "\<And>s. w s = w' s + (if s = q then n else 0)"
  obtains m where "tr_drop_seq q n t = Done (t\<lparr>tr_seq := m\<rparr>)" and "seq_ok w' m"
proof -
  have q: "map_of (tr_seq t) q = Some (w q)"
    using ok n by (auto simp: seq_ok_def)
  let ?m = "if w q - n = 0 then bt_remove q (tr_seq t) else bt_insert q (w q - n) (tr_seq t)"
  have run: "tr_drop_seq q n t = Done (t\<lparr>tr_seq := ?m\<rparr>)"
    using n q by (simp add: tr_drop_seq_def u32_sub_def)
  have "seq_ok w' ?m"
    using ok n w' by (auto simp: seq_ok_def)
  then show thesis
    using that [OF run] by blast
qed

lemma unsupport_arena:
  assumes ok: "arena {} V t" and loc: "loc \<in> V" and n: "n \<le> nd_tip (gr t loc)"
  obtains t' where "tr_walk_up (\<lambda>b. u32_sub b n) loc (upd loc (\<lambda>nd. nd\<lparr>nd_tip := nd_tip nd - n\<rparr>) (t\<lparr>tr_seq := m\<rparr>)) = Done t'"
    and "arena {loc} V t'" and "tr_seq t' = m" and "n_start (gr t') loc = n_start (gr t) loc"
    and "\<And>Q. weight_of Q V (gr t) = weight_of Q V (gr t') + (if Q (nd_span (gr t loc)) then n else 0)"
    and "\<exists>r. supported n loc r V (gr t') (gr t)" and "nd_branch (gr t' 0) + n = nd_branch (gr t 0)" and "nd_span (gr t' 0) = nd_span (gr t 0)"
proof -
  note a = arenaD [OF ok]
  define t1 where "t1 = upd loc (\<lambda>nd. nd\<lparr>nd_tip := nd_tip nd - n\<rparr>) (t\<lparr>tr_seq := m\<rparr>)"
  have len: "loc < length (tr_nodes t)"
    by (rule a(6) [OF loc])
  have gr1: "gr t1 = (gr t)(loc := (gr t loc)\<lparr>nd_tip := nd_tip (gr t loc) - n\<rparr>)"
    using len by (simp add: t1_def)
  have live1: "live_set t1 = V" "slots t1" "tr_seq t1 = m"
    using a(1,2) len gr1 by (auto simp: live_set_def slots_def t1_def upd_def nth_list_update)
  obtain r where r: "path_up (gr t) (loc # r)"
    using path_exists [OF a(3) loc] by blast
  note p = path_in [OF a(3) r loc]
  have links1: "links V (gr t1)"
    by (rule links_cong [OF a(3)]) (auto simp: gr1)
  have path1: "path_up (gr t1) (loc # r)"
    by (rule path_up_cong [OF r]) (auto simp: gr1)
  have ge: "n \<le> nd_branch (gr t j)" if "j \<in> set (loc # r)" for j
    using branch_le_path [OF a(3,4) r loc that] tip_le_branch [OF a(4) loc] n by linarith
  then have f: "\<forall>j \<in> set (loc # r). u32_sub (nd_branch (gr t1 j)) n = Done (nd_branch (gr t1 j) - n)"
    by (auto simp: u32_sub_def gr1)
  obtain t' where t': "tr_walk_up (\<lambda>b. u32_sub b n) loc t1 = Done t'" "same_slots t1 t'"
    "gr t' = (\<lambda>j. if j \<in> set (loc # r) then (gr t1 j)\<lparr>nd_branch := nd_branch (gr t1 j) - n\<rparr> else gr t1 j)"
    by (rule walk_up_done [where g = "\<lambda>b. b - n", OF links1 live1(1) loc path1 f])
  have sup: "supported n loc r V (gr t') (gr t)"
    using ge n by (auto simp: supported_def t'(3) gr1)
  have links': "links V (gr t')"
    by (rule links_cong [OF a(3)]) (use sup in \<open>auto simp: supported_def\<close>)
  have path': "path_up (gr t') (loc # r)"
    by (rule path_up_cong [OF r]) (auto simp: t'(3) gr1)
  note s = same_slotsD [OF t'(2)]
  have "arena {loc} V t'"
    using s(3,4) live1 links' supported_sums [OF links' path' loc sup] a(4) packed_supported(2) [OF sup a(5)]
    by (simp add: arena_def)
  moreover have "0 \<in> set (loc # r)"
    by (rule path_root [OF a(3) r loc])
  then have "nd_branch (gr t' 0) + n = nd_branch (gr t 0)" "nd_span (gr t' 0) = nd_span (gr t 0)"
    using ge [of 0] by (simp_all add: t'(3) gr1)
  moreover have "nd_span (gr t' loc) = nd_span (gr t loc)" "n_start (gr t') loc = n_start (gr t) loc"
    by (simp_all add: t'(3) gr1)
  ultimately show thesis
    using that [of t'] t'(1) s(2) live1(3) supported_weight [OF linksD(1) [OF links'] loc sup] sup t1_def by auto
qed


text \<open>Removal is called with the sequence number of the ledger it names.\<close>

definition seq_matches :: "('l, 'i) trie_ledger_ops \<Rightarrow> 'l trie \<Rightarrow> 'i \<Rightarrow> nat \<Rightarrow> bool" where
  "seq_matches L t i s \<longleftrightarrow> (case tr_find_by_ledger_id L t i of
     None \<Rightarrow> True | Some loc \<Rightarrow> st_seq (sp_tip L (nd_span (gr t loc))) = s)"

definition tip_at :: "('l, 'i) trie_ledger_ops \<Rightarrow> 'l trie \<Rightarrow> 'i \<Rightarrow> nat" where
  "tip_at L t i = (case tr_find_by_ledger_id L t i of None \<Rightarrow> 0 | Some loc \<Rightarrow> nd_tip (gr t loc))"

lemma tip_support_at: "trie_tip_support L i t = Done (tip_at L t i)"
  by (auto simp: trie_tip_support_def tip_at_def live_less dest: find_id_Some split: option.split)

lemma tr_ok_get: "tr_ok L t \<Longrightarrow> tr_seq_get t s = support_of (ends_at s) t"
  using seq_ok_get [of "weight (live_set t) (gr t)" t s] by (simp add: tr_ok_def weight_def support_of_def)

lemma remove_done:
  assumes ok: "tr_ok L t" and match: "seq_matches L t i s"
  obtains t' where "trie_remove L i s n t = Done (tip_at L t i \<noteq> 0, t')" and "tr_ok L t'"
    and "nd_branch (gr t' 0) + min n (tip_at L t i) = nd_branch (gr t 0)"
    and "tip_at L t i = 0 \<Longrightarrow> t' = t"
    and "\<And>Q loc. about_tip Q \<Longrightarrow> tr_find_by_ledger_id L t i = Some loc \<Longrightarrow>
      support_of Q t = support_of Q t' + (if Q (nd_span (gr t loc)) then min n (tip_at L t i) else 0)"
    and "\<And>okl G. graph_inv L okl G \<Longrightarrow> G (live_set t) (gr t) \<Longrightarrow> G (live_set t') (gr t')"
proof (cases "tip_at L t i = 0")
  case True
  then have "trie_remove L i s n t = Done (False, t)"
    by (auto simp: trie_remove_def tip_at_def live_less dest: find_id_Some split: option.splits)
  then show thesis
    using True ok that [of t] by simp
next
  case False
  let ?V = "live_set t"
  obtain loc where find: "tr_find_by_ledger_id L t i = Some loc" and tip: "tip_at L t i = nd_tip (gr t loc)"
    using False by (auto simp: tip_at_def split: option.splits)
  have loc: "loc \<in> ?V"
    using find_id_Some [OF find] by blast
  have ar: "arena {} ?V t" and root: "nd_span (gr t 0) = sp_genesis L"
    and seq: "seq_ok (weight ?V (gr t)) (tr_seq t)" and fits: "nd_branch (gr t 0) < 2 ^ 32"
    using ok by (simp_all add: tr_ok_def)
  note a = arenaD [OF ar]
  define k where "k = min n (nd_tip (gr t loc))"
  have end_: "n_end (gr t) loc = Suc s"
    using match find linksD(5) [OF a(3) loc] by (auto simp: seq_matches_def sp_tip_def Let_def)
  let ?t1 = "upd loc (\<lambda>nd. nd\<lparr>nd_tip := nd_tip nd - k\<rparr>) t"
  have k: "k \<le> nd_tip (gr t loc)" "nd_tip (gr t loc) \<le> weight ?V (gr t) s"
    using weight_of_ge_tip [of ?V loc "ends_at s" "gr t"] loc end_ by (auto simp: k_def weight_def ends_at_def)
  define w' where "w' = (\<lambda>q. weight ?V (gr t) q - (if q = s then k else 0))"
  obtain m where m: "tr_drop_seq s k ?t1 = Done (?t1\<lparr>tr_seq := m\<rparr>)" "seq_ok w' m"
    by (rule drop_seq_done [of "weight ?V (gr t)" ?t1 k s w']) (use seq k tip False in \<open>auto simp: w'_def\<close>)
  obtain t2 where t2: "tr_walk_up (\<lambda>b. u32_sub b k) loc (upd loc (\<lambda>nd. nd\<lparr>nd_tip := nd_tip nd - k\<rparr>) (t\<lparr>tr_seq := m\<rparr>)) = Done t2"
    "arena {loc} ?V t2" "tr_seq t2 = m" "n_start (gr t2) loc = n_start (gr t) loc"
    "\<And>Q. weight_of Q ?V (gr t) = weight_of Q ?V (gr t2) + (if Q (nd_span (gr t loc)) then k else 0)"
    "\<exists>r. supported k loc r ?V (gr t2) (gr t)"
    "nd_branch (gr t2 0) + k = nd_branch (gr t 0)" "nd_span (gr t2 0) = nd_span (gr t 0)"
    by (rule unsupport_arena [OF ar loc k(1), of m]) (rule that)
  obtain V' t3 where t3: "tr_compress L (n_start (gr t) loc + 1) loc t2 = Done t3" "arena {} V' t3"
    and "carries L {} ?V t2 V' t3"
    using compress_done [OF t2(2) loc, of "n_start (gr t) loc + 1" L] t2(4) by auto
  note c = carriesD [OF this(3)]
  have "?t1\<lparr>tr_seq := m\<rparr> = upd loc (\<lambda>nd. nd\<lparr>nd_tip := nd_tip nd - k\<rparr>) (t\<lparr>tr_seq := m\<rparr>)"
    by (simp add: upd_def)
  then have run: "trie_remove L i s n t = Done (True, t3)"
    using find a(6) [OF loc] tip False m(1) t2(1) t3(1) by (simp add: trie_remove_def Let_def del: tr_compress.simps flip: k_def)
  have weights: "weight_of Q ?V (gr t) = weight_of Q V' (gr t3) + (if Q (nd_span (gr t loc)) then k else 0)"
    if "about_tip Q" for Q
    using t2(5) c(5) [OF that] by simp
  have w: "weight V' (gr t3) = w'"
    using weights [OF about_tip_ends_at] end_ by (auto simp: weight_def w'_def fun_eq_iff ends_at_def)
  have kk: "min n (tip_at L t i) = k" and run': "trie_remove L i s n t = Done (tip_at L t i \<noteq> 0, t3)"
    and live: "live_set t3 = V'"
    using tip run False arenaD(2) [OF t3(2)] by (simp_all add: k_def)
  show thesis
  proof (rule that [OF run'])
    show "tr_ok L t3"
      by (rule tr_ok_arena [OF t3(2)]) (use c(1,3,4) t2(3,7,8) m(2) root fits w in auto)
    show "nd_branch (gr t3 0) + min n (tip_at L t i) = nd_branch (gr t 0)"
      using t2(7) c(4) by (simp add: kk)
    show "G (live_set t3) (gr t3)" if G: "graph_inv L okl G" "G ?V (gr t)" for okl G
    proof -
      have "keeps_support G"
        using G(1) by (simp add: graph_inv_def)
      then have "G ?V (gr t2)"
        using keeps_supportD arenaD(3) [OF t2(2)] t2(6) G(2) by metis
      then show ?thesis
        using c(6) [OF G(1)] live by simp
    qed
  qed (use False find weights in \<open>auto simp: support_of_def live kk\<close>)
qed

end
