(* ===== verification/Trie_Preferred.thy ===== *)
theory Trie_Preferred
  imports Trie_Remove
begin

text \<open>
  The preferred ledger and the self-check of the trie: both return on every well-formed trie, the
  preferred ledger lies on a branch with support, and the self-check succeeds.
\<close>

section \<open>Support is positive\<close>

lemma horizon_end:
  assumes "i < length (tr_nodes t)"
  shows "n_end (gr t) i \<le> tr_horizon t"
proof -
  have "sp_end (nd_span nd) \<le> foldr (\<lambda>nd m. max (sp_end (nd_span nd)) m) nds 0" if "nd \<in> set nds" for nd nds
    using that by (induction nds) (auto simp: le_max_iff_disj)
  from this [OF nth_mem [OF assms]] show ?thesis
    by (simp add: tr_horizon_def)
qed

lemma branch_pos:
  assumes ok: "arena {} V t" and "i \<in> V" and "i \<noteq> 0"
  shows "0 < nd_branch (gr t i)"
  using assms(2,3)
proof (induction "tr_horizon t - n_start (gr t) i" arbitrary: i rule: less_induct)
  case less
  note a = arenaD [OF ok]
  show ?case
  proof (cases "nd_tip (gr t i) = 0")
    case True
    then have "2 \<le> length (nd_children (gr t i))"
      using a(5) less.prems by (auto simp: packed_def)
    then obtain c where c: "c \<in> n_kids (gr t) i"
      using long_list by fastforce
    note d = linksD [OF a(3)]
    have cV: "c \<in> V" and "n_start (gr t) i < n_start (gr t) c"
      using d(5,7,9) less.prems(1) c by auto
    moreover have "n_start (gr t) c < tr_horizon t"
      using d(5) [OF cV] horizon_end [OF a(6) [OF cV]] by linarith
    ultimately have "tr_horizon t - n_start (gr t) c < tr_horizon t - n_start (gr t) i"
      by linarith
    then have "0 < nd_branch (gr t c)"
      using less.hyps cV kid_neq [OF a(3) less.prems(1) c] by blast
    then show ?thesis
      using kid_le_branch [OF a(4) less.prems(1) c] by linarith
  next
    case False
    then show ?thesis
      using tip_le_branch [OF a(4) less.prems(1)] by linarith
  qed
qed

lemma sum_list_keys:
  assumes "bt_ok m" and "\<And>s n. map_of m s = Some n \<Longrightarrow> n = w s"
  shows "sum_list (map snd m) = (\<Sum>s \<in> keys m. w s)"
proof -
  have "sum_list (map snd m) = sum_list (map (\<lambda>(s, n). w s) m)"
    using assms bt_ok_map_of_iff [OF assms(1)] by (intro arg_cong [where f = sum_list] map_cong) auto
  also have "\<dots> = sum_list (map w (map fst m))"
    by (simp add: comp_def split_def)
  also have "\<dots> = (\<Sum>s \<in> keys m. w s)"
    using bt_ok_unique [OF assms(1)] sum_list_distinct_conv_sum_set [of "map fst m" w] by simp
  finally show ?thesis .
qed

lemma seq_total:
  assumes ok: "arena X V t" and seq: "seq_ok (weight V (gr t)) (tr_seq t)"
  shows "sum_list (map snd (tr_seq t)) = nd_branch (gr t 0)"
proof -
  note a = arenaD [OF ok]
  let ?K = "keys (tr_seq t)"
  have in_keys: "s \<in> ?K" if "weight V (gr t) s \<noteq> 0" for s
    using that seq by (metis (mono_tags, lifting) map_of_eq_None_iff option.distinct(1) seq_ok_def)
  have "sum_list (map snd (tr_seq t)) = (\<Sum>s \<in> ?K. weight V (gr t) s)"
    using seq by (intro sum_list_keys) (auto simp: seq_ok_def split: if_splits)
  also have "\<dots> = (\<Sum>i \<in> V. \<Sum>s \<in> ?K. if n_end (gr t) i = Suc s then nd_tip (gr t i) else 0)"
    unfolding weight_sum by (rule sum.swap)
  also have "\<dots> = (\<Sum>i \<in> V. nd_tip (gr t i))"
  proof (rule sum.cong [OF refl])
    fix i assume i: "i \<in> V"
    let ?s = "n_end (gr t) i - 1"
    have end_: "n_end (gr t) i = Suc ?s"
      using linksD(5) [OF a(3) i] by simp
    have "(\<Sum>s \<in> ?K. if n_end (gr t) i = Suc s then nd_tip (gr t i) else 0) =
        (\<Sum>s \<in> ?K. if s = ?s then nd_tip (gr t i) else 0)"
      using end_ by (intro sum.cong) auto
    also have "\<dots> = (if ?s \<in> ?K then nd_tip (gr t i) else 0)"
      by simp
    also have "\<dots> = nd_tip (gr t i)"
    proof -
      have "nd_tip (gr t i) \<le> weight V (gr t) ?s"
        using weight_of_ge_tip [of V i "ends_at ?s" "gr t"] linksD(1) [OF a(3)] i end_ by (simp add: weight_def ends_at_def)
      then have "nd_tip (gr t i) \<noteq> 0 \<Longrightarrow> ?s \<in> ?K"
        by (intro in_keys) simp
      then show ?thesis
        by auto
    qed
    finally show "(\<Sum>s \<in> ?K. if n_end (gr t) i = Suc s then nd_tip (gr t i) else 0) = nd_tip (gr t i)" .
  qed
  finally show ?thesis
    using root_total [OF a(3,4)] by simp
qed

section \<open>The preferred ledger\<close>

lemma commit_below_done:
  assumes "bt_ok rest" and "u + sum_list (map snd rest) < 2 ^ 32"
  shows "\<exists>u' rest'. tr_commit_below b u rest = Done (u', rest') \<and> bt_ok rest' \<and>
    u' + sum_list (map snd rest') = u + sum_list (map snd rest) \<and> (\<forall>s \<in> keys rest'. b \<le> s)"
  using assms
proof (induction rest arbitrary: u)
  case (Cons e rest)
  obtain s n where e: "e = (s, n)"
    by (cases e)
  show ?case
  proof (cases "s < b")
    case True
    have "bt_ok rest" "(u + n) + sum_list (map snd rest) < 2 ^ 32"
      using Cons.prems by (auto simp: e bt_ok_Cons)
    from Cons.IH [OF this] show ?thesis
      using True Cons.prems(2) by (auto simp: e u32_add_def)
  next
    case False
    then show ?thesis
      using Cons.prems by (auto simp: e bt_ok_Cons)
  qed
qed simp

lemma advance_done:
  assumes "bt_ok rest" and "u + sum_list (map snd rest) < 2 ^ 32" and "\<forall>s \<in> keys rest. a \<le> s" and "a < nxt"
  shows "\<exists>nxt' u' rest'. tr_advance stop br nxt u rest = Done (nxt', u', rest') \<and> bt_ok rest' \<and>
    u' + sum_list (map snd rest') = u + sum_list (map snd rest) \<and> (a < nxt' \<or> stop \<le> nxt')"
  using assms
proof (induction rest arbitrary: u nxt)
  case (Cons e rest)
  obtain s n where e: "e = (s, n)"
    by (cases e)
  show ?case
  proof (cases "nxt < stop \<and> u < br \<and> s < stop")
    case True
    have "bt_ok rest" "(u + n) + sum_list (map snd rest) < 2 ^ 32" "\<forall>s \<in> keys rest. a \<le> s" "a < s + 1"
      using Cons.prems by (auto simp: e bt_ok_Cons)
    from Cons.IH [OF this] show ?thesis
      using True Cons.prems(2) by (auto simp: e u32_add_def)
  next
    case False
    then show ?thesis
      using Cons.prems by (auto simp: e)
  qed
qed auto

lemma best_child_done:
  assumes ok: "arena {} V t" and cur: "cur \<in> V" and fits: "nd_branch (gr t 0) < 2 ^ 32"
  shows "\<exists>r. tr_best_child L t (nd_children (gr t cur)) = Done r \<and>
    (\<forall>c m. r = Some (c, m) \<longrightarrow> c \<in> n_kids (gr t) cur) \<and> (r = None \<longleftrightarrow> nd_children (gr t cur) = [])"
proof (cases "nd_children (gr t cur)" rule: remdups_adj.cases)
  case (3 x y r)
  note a = arenaD [OF ok]
  let ?live = "nd_children (gr t cur)"
  let ?key = "\<lambda>c. (nd_branch (gr t c), sp_start_id L (nd_span (gr t c)))"
  define ordered where "ordered = rev (sort_key ?key (rev ?live))"
  have set: "set ordered = set ?live" and len: "2 \<le> length ordered"
    by (simp add: ordered_def) (simp add: ordered_def 3)
  then obtain p q r' where o: "ordered = p # q # r'"
    using long_list by blast
  have pq: "p \<in> n_kids (gr t) cur" "q \<in> n_kids (gr t) cur"
    using set o by auto
  have "sorted (map ?key (rev ordered))"
    by (simp add: ordered_def)
  then have "?key q \<le> ?key p"
    by (simp add: o sorted_append)
  then have le: "nd_branch (gr t q) \<le> nd_branch (gr t p)"
    by (auto simp: less_eq_prod_def)
  have "0 < nd_branch (gr t q)"
    using branch_pos [OF ok] linksD(7) [OF a(3) cur pq(2)] kid_neq [OF a(3) cur pq(2)] by blast
  moreover have "nd_branch (gr t p) < 2 ^ 32"
    using branch_le_root [OF a(3,4) linksD(7) [OF a(3) cur pq(1)]] fits by linarith
  ultimately have "nd_branch (gr t p) - nd_branch (gr t q) + 1 < 2 ^ 32"
    using le by linarith
  then show ?thesis
    using le pq o 3 unfolding tr_best_child_def Let_def ordered_def [symmetric]
    by (auto simp: u32_sub_def u32_add_def simp flip: ordered_def)
qed (simp_all add: tr_best_child_def)


definition tip_on :: "('l, 'i) trie_ledger_ops \<Rightarrow> 'l span \<Rightarrow> ('l, 'i) span_tip \<Rightarrow> bool" where
  "tip_on L sp tip \<longleftrightarrow> st_ledger tip = sp_ledger sp \<and> sp_start sp \<le> st_seq tip \<and> st_seq tip < sp_end sp \<and>
     st_id tip = tl_ancestor L (sp_ledger sp) (st_seq tip)"

lemma tip_on_span: "sp_start sp < sp_end sp \<Longrightarrow> tip_on L sp (sp_tip L sp)"
  by (auto simp: tip_on_def sp_tip_def Let_def)

lemma tip_on_before:
  "sp_start sp < pos \<Longrightarrow> pos < sp_end sp \<Longrightarrow> \<exists>tip. map_option (sp_tip L) (sp_before sp pos) = Some tip \<and> tip_on L sp tip"
  by (auto simp: span_before tip_on_def sp_tip_def Let_def)

lemma preferred_loop_done:
  assumes ok: "arena {} V t" and fits: "nd_branch (gr t 0) < 2 ^ 32"
    and "cur \<in> V" and "bt_ok rest" and "u + sum_list (map snd rest) < 2 ^ 32" and "tr_horizon t < fuel + n_start (gr t) cur"
  shows "\<exists>tip i. tr_preferred_loop L fuel t largest cur u rest = Done (Some tip) \<and> i \<in> V \<and> tip_on L (nd_span (gr t i)) tip"
  using assms(3-6)
proof (induction fuel arbitrary: cur u rest)
  case 0
  note a = arenaD [OF ok]
  have "n_start (gr t) cur < tr_horizon t"
    using linksD(5) [OF a(3) 0(1)] horizon_end [OF a(6) [OF 0(1)]] by linarith
  then show ?case
    using 0 by simp
next
  case (Suc fuel)
  note a = arenaD [OF ok]
  note d = linksD [OF a(3)]
  let ?nd = "gr t cur"
  have len: "cur < length (tr_nodes t)"
    by (rule a(6) [OF Suc.prems(1)])
  have span: "sp_start (nd_span ?nd) < sp_end (nd_span ?nd)"
    by (rule d(5) [OF Suc.prems(1)])
  note live = live_children [OF ok Suc.prems(1)]
  obtain u1 rest1 where commit: "tr_commit_below (max (n_start (gr t) cur + 1) largest) u rest = Done (u1, rest1)" "bt_ok rest1"
    "u1 + sum_list (map snd rest1) = u + sum_list (map snd rest)" "\<forall>s \<in> keys rest1. max (n_start (gr t) cur + 1) largest \<le> s"
    using commit_below_done [OF Suc.prems(2,3)] by blast
  have "u1 + sum_list (map snd rest1) < 2 ^ 32" "\<forall>s \<in> keys rest1. n_start (gr t) cur \<le> s" "n_start (gr t) cur < n_start (gr t) cur + 1"
    using commit(3,4) Suc.prems(3) by fastforce+
  then obtain nxt u2 rest2 where adv: "tr_advance (n_end (gr t) cur) (nd_branch ?nd) (n_start (gr t) cur + 1) u1 rest1 = Done (nxt, u2, rest2)"
    "bt_ok rest2" "u2 + sum_list (map snd rest2) = u1 + sum_list (map snd rest1)" "n_start (gr t) cur < nxt \<or> n_end (gr t) cur \<le> nxt"
    using advance_done [OF commit(2)] by metis
  obtain best where best: "tr_best_child L t (nd_children ?nd) = Done best"
    "\<forall>c m. best = Some (c, m) \<longrightarrow> c \<in> n_kids (gr t) cur"
    using best_child_done [OF ok Suc.prems(1) fits] by blast
  have step: "tr_preferred_loop L (Suc fuel) t largest cur u rest =
    (if nxt < n_end (gr t) cur then Done (map_option (sp_tip L) (sp_before (nd_span ?nd) nxt))
     else case best of None \<Rightarrow> Done (Some (sp_tip L (nd_span ?nd)))
       | Some (c, margin) \<Rightarrow> if u2 < margin \<or> u2 = 0 then tr_preferred_loop L fuel t largest c u2 rest2
           else Done (Some (sp_tip L (nd_span ?nd))))"
    using len commit(1) adv(1) best(1) live by (simp add: Let_def)
  show ?case
  proof (cases "nxt < n_end (gr t) cur")
    case True
    then show ?thesis
      using step adv(4) tip_on_before [of "nd_span ?nd" nxt L] Suc.prems(1) by auto
  next
    case False
    show ?thesis
    proof (cases "\<exists>c m. best = Some (c, m) \<and> (u2 < m \<or> u2 = 0)")
      case True
      then obtain c m where c: "best = Some (c, m)" "u2 < m \<or> u2 = 0" "c \<in> n_kids (gr t) cur"
        using best(2) by blast
      have "c \<in> V" "n_start (gr t) cur < n_start (gr t) c" "u2 + sum_list (map snd rest2) < 2 ^ 32"
        using d(7,9) [OF Suc.prems(1) c(3)] span adv(3) commit(3) Suc.prems(3) by simp_all
      then have "\<exists>tip i. tr_preferred_loop L fuel t largest c u2 rest2 = Done (Some tip) \<and> i \<in> V \<and> tip_on L (nd_span (gr t i)) tip"
        using Suc.IH [OF _ adv(2)] Suc.prems(4) by simp
      then show ?thesis
        using step False c(1,2) by simp
    next
      case stop: False
      then have "tr_preferred_loop L (Suc fuel) t largest cur u rest = Done (Some (sp_tip L (nd_span ?nd)))"
        using step False by (auto split: option.splits)
      then show ?thesis
        using tip_on_span [OF span] Suc.prems(1) by blast
    qed
  qed
qed

lemma get_preferred_done:
  assumes ok: "tr_ok L t"
  shows "(if nd_branch (gr t 0) = 0 then trie_get_preferred L n t = Done None
    else \<exists>tip i. trie_get_preferred L n t = Done (Some tip) \<and> i \<in> live_set t \<and> 0 < nd_branch (gr t i) \<and>
      tip_on L (nd_span (gr t i)) tip)"
proof -
  have ar: "arena {} (live_set t) t" and seq: "seq_ok (weight (live_set t) (gr t)) (tr_seq t)" and fits: "nd_branch (gr t 0) < 2 ^ 32"
    using ok by (simp_all add: tr_ok_def)
  note a = arenaD [OF ar]
  have len: "0 < length (tr_nodes t)"
    by (rule a(6) [OF linksD(2) [OF a(3)]])
  have "bt_ok (tr_seq t)" "0 + sum_list (map snd (tr_seq t)) < 2 ^ 32" "tr_horizon t < (tr_horizon t + 1) + n_start (gr t) 0"
    using seq seq_total [OF ar seq] fits by (simp_all add: seq_ok_def)
  from preferred_loop_done [OF ar fits linksD(2) [OF a(3)] this]
  obtain tip i where "tr_preferred_loop L (tr_horizon t + 1) t n 0 0 (tr_seq t) = Done (Some tip)" "i \<in> live_set t"
    "tip_on L (nd_span (gr t i)) tip"
    by blast
  moreover have "0 < nd_branch (gr t i)" if "nd_branch (gr t 0) \<noteq> 0" "i \<in> live_set t"
    using branch_pos [OF ar that(2)] that(1) by (cases "i = 0") auto
  ultimately show ?thesis
    using len by (auto simp: trie_get_preferred_def trie_is_empty_def simp del: tr_preferred_loop.simps)
qed


section \<open>The self-check\<close>

lemma bt_ext:
  assumes "bt_ok m" and "bt_ok m'" and "map_of m = map_of m'"
  shows "m = m'"
proof (rule map_sorted_distinct_set_unique [of fst])
  show set: "set m = set m'"
    using assms bt_ok_map_of_iff by (metis (no_types, opaque_lifting) subset_antisym subrelI)
  show "inj_on fst (set m \<union> set m')"
    using bt_ok_unique [OF assms(1)] set by (simp add: distinct_map)
qed (use assms in \<open>auto simp: bt_ok_def strict_sorted_iff\<close>)

lemma sum_children_done:
  assumes "\<forall>c \<in> set cs. c < length (tr_nodes t) \<and> nd_parent (gr t c) = Some cur"
    and "s + sum_list (map (\<lambda>c. nd_branch (gr t c)) cs) < 2 ^ 32"
  shows "tr_sum_children t cur cs s = Done (Some (s + sum_list (map (\<lambda>c. nd_branch (gr t c)) cs)))"
  using assms by (induction cs arbitrary: s) (auto simp: u32_add_def add.assoc)

lemma kids_sum:
  assumes ok: "arena X V t" and "cur \<in> V" and "nd_branch (gr t 0) < 2 ^ 32"
  shows "tr_sum_children t cur (nd_children (gr t cur)) (nd_tip (gr t cur)) = Done (Some (nd_branch (gr t cur)))"
proof -
  note a = arenaD [OF ok]
  have "nd_branch (gr t cur) = nd_tip (gr t cur) + sum_list (map (\<lambda>c. nd_branch (gr t c)) (nd_children (gr t cur)))"
    using a(4) assms(2) linksD(6) [OF a(3) assms(2)] by (simp add: sums_def sum_list_distinct_conv_sum_set)
  moreover have "nd_branch (gr t cur) < 2 ^ 32"
    using branch_le_root [OF a(3,4) assms(2)] assms(3) by linarith
  ultimately show ?thesis
    using sum_children_done [of "nd_children (gr t cur)" t cur "nd_tip (gr t cur)"]
      linksD(7,8) [OF a(3) assms(2)] a(6) by auto
qed

lemma weight_insert:
  "finite V \<Longrightarrow> i \<notin> V \<Longrightarrow> weight (insert i V) N s = weight V N s + (if n_end N i = Suc s then nd_tip (N i) else 0)"
  by (simp add: weight_sum)

lemma weight_mono: "finite V \<Longrightarrow> U \<subseteq> V \<Longrightarrow> weight U N s \<le> weight V N s"
  unfolding weight_sum by (intro sum_mono2) auto

text \<open>The progress of the search: what is visited, and what is on the stack.\<close>

definition searching :: "nat set \<Rightarrow> 'l graph \<Rightarrow> nat set \<Rightarrow> nat list \<Rightarrow> bool" where
  "searching V N vis stack \<longleftrightarrow> vis \<union> set stack \<subseteq> V \<and> distinct stack \<and> vis \<inter> set stack = {} \<and> 0 \<in> vis \<union> set stack \<and>
     (\<forall>i \<in> vis \<union> set stack. \<forall>p. nd_parent (N i) = Some p \<longrightarrow> p \<in> vis) \<and>
     (\<forall>p \<in> vis. n_kids N p \<subseteq> vis \<union> set stack)"

lemma searching_step:
  assumes ok: "links V N" and s: "searching V N vis (stack @ [cur])"
  shows "searching V N (insert cur vis) (stack @ nd_children (N cur))"
proof -
  have cur: "cur \<in> V" "cur \<notin> vis" "cur \<notin> set stack"
    using s by (auto simp: searching_def)
  have kids: "c \<in> V" "nd_parent (N c) = Some cur" if "c \<in> n_kids N cur" for c
    using linksD(7,8) [OF ok cur(1) that] by simp_all
  have par: "p \<in> vis" if "i \<in> vis \<union> set (stack @ [cur])" "nd_parent (N i) = Some p" for i p
    using s that unfolding searching_def by blast
  have fresh: "c \<notin> vis" "c \<notin> set stack" "c \<noteq> cur" if "c \<in> n_kids N cur" for c
    using par [of c, OF _ kids(2) [OF that]] cur(2) by auto
  have "insert cur vis \<union> set (stack @ nd_children (N cur)) \<subseteq> V" "distinct (stack @ nd_children (N cur))"
    "insert cur vis \<inter> set (stack @ nd_children (N cur)) = {}"
    using s cur kids(1) linksD(6) [OF ok cur(1)] fresh by (auto simp: searching_def)
  moreover have "0 \<in> insert cur vis \<union> set (stack @ nd_children (N cur))"
    using s by (auto simp: searching_def)
  moreover have "p \<in> insert cur vis" if "i \<in> insert cur vis \<union> set (stack @ nd_children (N cur))" "nd_parent (N i) = Some p" for i p
  proof (cases "i \<in> n_kids N cur")
    case True
    then show ?thesis
      using kids(2) that(2) by simp
  next
    case False
    then show ?thesis
      using par [OF _ that(2)] that(1) by auto
  qed
  moreover have "n_kids N p \<subseteq> insert cur vis \<union> set (stack @ nd_children (N cur))" if "p \<in> insert cur vis" for p
    using s that by (auto simp: searching_def)
  ultimately show ?thesis
    by (simp add: searching_def)
qed

lemma searching_done:
  assumes ok: "links V N" and s: "searching V N vis []"
  shows "vis = V"
proof -
  have "i \<in> vis" if "i \<in> V" for i
    using that
  proof (induction "n_start N i" arbitrary: i rule: less_induct)
    case less
    show ?case
    proof (cases "i = 0")
      case True
      then show ?thesis
        using s by (simp add: searching_def)
    next
      case False
      then obtain p where p: "nd_parent (N i) = Some p"
        using linksD(10) [OF ok less.prems] by (auto simp: parent_ok_def)
      note q = parent_start [OF ok less.prems p]
      then have "p \<in> vis"
        using less.hyps by blast
      then show ?thesis
        using s q(2) by (auto simp: searching_def)
    qed
  qed
  then show ?thesis
    using s by (auto simp: searching_def)
qed

lemma expect_done:
  assumes "seq_ok w m" and "w s + n < 2 ^ 32" and "n \<noteq> 0" and "\<And>q. w' q = w q + (if q = s then n else 0)"
  shows "\<exists>m'. tr_expect s n m = Done m' \<and> seq_ok w' m'"
proof -
  have "(case map_of m s of None \<Rightarrow> 0 | Some k \<Rightarrow> k) = w s"
    using assms(1) by (simp add: seq_ok_def)
  then show ?thesis
    using assms(2,3) seq_ok_insert [where w' = w', OF assms(1) _ assms(4)] by (auto simp: tr_expect_def u32_add_def)
qed

lemma check_loop_done:
  assumes ok: "arena {} V t" and fits: "nd_branch (gr t 0) < 2 ^ 32" and seq: "seq_ok (weight V (gr t)) (tr_seq t)"
    and "searching V (gr t) vis stack" and "seq_ok (weight vis (gr t)) m" and "card (V - vis) < fuel"
  shows "tr_check_loop fuel t stack m = Done True"
  using assms(4-6)
proof (induction fuel arbitrary: vis stack m)
  case (Suc fuel)
  note a = arenaD [OF ok]
  show ?case
  proof (cases stack rule: rev_cases)
    case Nil
    then have "vis = V"
      using searching_done [OF a(3)] Suc.prems(1) by simp
    then show ?thesis
      using Nil Suc.prems(2) seq bt_ext [of m "tr_seq t"] by (auto simp: seq_ok_def fun_eq_iff)
  next
    case (snoc stack' cur)
    have cur: "cur \<in> V" "cur \<notin> vis" and vis: "vis \<subseteq> V"
      using Suc.prems(1) by (auto simp: searching_def snoc)
    note live = live_children [OF ok cur(1)]
    let ?nd = "gr t cur"
    obtain s where end_: "n_end (gr t) cur = Suc s"
      using linksD(5) [OF a(3) cur(1)] by (cases "n_end (gr t) cur") auto
    have w: "weight (insert cur vis) (gr t) q = weight vis (gr t) q + (if q = s then nd_tip ?nd else 0)" for q
      using weight_insert [OF finite_subset [OF vis linksD(1) [OF a(3)]] cur(2), of "gr t" q] end_ by auto
    have "weight (insert cur vis) (gr t) s < 2 ^ 32"
      using weight_mono [OF linksD(1) [OF a(3)], of "insert cur vis" "gr t" s] cur(1) vis weight_le_root [OF a(3,4), of "ends_at s"] fits
      by (auto simp: weight_def)
    then have "\<exists>m'. (if nd_tip ?nd \<noteq> 0 then tr_expect s (nd_tip ?nd) m else Done m) = Done m' \<and>
        seq_ok (weight (insert cur vis) (gr t)) m'"
    proof (cases "nd_tip ?nd = 0")
      case True
      then have "weight (insert cur vis) (gr t) = weight vis (gr t)"
        using w by (auto simp: fun_eq_iff)
      then show ?thesis
        using True Suc.prems(2) by simp
    next
      case False
      then show ?thesis
        using expect_done [OF Suc.prems(2) _ False w] \<open>weight (insert cur vis) (gr t) s < 2 ^ 32\<close> w [of s] by simp
    qed
    then obtain m' where m': "(if nd_tip ?nd \<noteq> 0 then tr_expect s (nd_tip ?nd) m else Done m) = Done m'"
      "seq_ok (weight (insert cur vis) (gr t)) m'"
      by blast
    have "nd_live ?nd" "cur < length (tr_nodes t)"
      using cur(1) a(2) by (auto simp: live_set_def)
    moreover have "\<not> (cur \<noteq> 0 \<and> nd_tip ?nd = 0 \<and> length (nd_children ?nd) < 2)"
      using a(5) cur(1) by (auto simp: packed_def not_less)
    ultimately have "tr_check_loop (Suc fuel) t stack m = tr_check_loop fuel t (stack' @ nd_children ?nd) m'"
      using live kids_sum [OF ok cur(1) fits] m'(1) end_
      by (cases "nd_tip ?nd = 0") (auto simp: snoc Let_def)
    moreover have "card (V - insert cur vis) < card (V - vis)"
      using cur linksD(1) [OF a(3)] by (intro psubset_card_mono) auto
    ultimately show ?thesis
      using Suc.IH [OF searching_step [OF a(3)] m'(2)] Suc.prems(1,3) by (simp add: snoc)
  qed
qed simp

lemma check_invariants_done:
  assumes "tr_ok L t"
  shows "trie_check_invariants t = Done True"
proof -
  have ar: "arena {} (live_set t) t" and seq: "seq_ok (weight (live_set t) (gr t)) (tr_seq t)" and fits: "nd_branch (gr t 0) < 2 ^ 32"
    using assms by (simp_all add: tr_ok_def)
  note a = arenaD [OF ar]
  have "searching (live_set t) (gr t) {} [0]"
    using linksD(2,3) [OF a(3)] by (simp add: searching_def)
  moreover have "seq_ok (weight {} (gr t)) []"
    by (simp add: seq_ok_def weight_sum)
  moreover have "card (live_set t - {}) < length (tr_nodes t) + 1"
  proof -
    have "live_set t \<subseteq> {..< length (tr_nodes t)}"
      by (auto simp: live_set_def)
    from card_mono [OF _ this] show ?thesis
      by simp
  qed
  ultimately show ?thesis
    unfolding trie_check_invariants_def by (rule check_loop_done [OF ar fits seq])
qed

end
