(* ===== verification/Trie_Chain.thy ===== *)
theory Trie_Chain
  imports Trie_Preferred
begin

text \<open>
  What the trie records when the ledgers form chains: an id fixes its sequence number, and the mismatch of
  two ledgers is where their ancestry parts. Then a tip belongs to one node, and the supports of the nodes
  are those of the ledgers that were inserted.
\<close>

section \<open>Ledgers that form chains\<close>

definition chained :: "('l, 'i) trie_ledger_ops \<Rightarrow> ('l \<Rightarrow> bool) \<Rightarrow> bool" where
  "chained L ok \<longleftrightarrow> ok (tl_genesis L) \<and>
     (\<forall>a b s r. ok a \<longrightarrow> ok b \<longrightarrow> s \<le> tl_seq L a \<longrightarrow> r \<le> tl_seq L b \<longrightarrow>
        tl_ancestor L a s = tl_ancestor L b r \<longrightarrow> s = r) \<and>
     (\<forall>a b s. ok a \<longrightarrow> ok b \<longrightarrow> s \<le> tl_seq L a \<longrightarrow> s \<le> tl_seq L b \<longrightarrow>
        (s < tl_mismatch L a b \<longleftrightarrow> tl_ancestor L a s = tl_ancestor L b s))"

lemma chainedD:
  assumes "chained L ok"
  shows "ok (tl_genesis L)"
    and "ok a \<Longrightarrow> ok b \<Longrightarrow> s \<le> tl_seq L a \<Longrightarrow> r \<le> tl_seq L b \<Longrightarrow> tl_ancestor L a s = tl_ancestor L b r \<Longrightarrow> s = r"
    and "ok a \<Longrightarrow> ok b \<Longrightarrow> s \<le> tl_seq L a \<Longrightarrow> s \<le> tl_seq L b \<Longrightarrow>
      s < tl_mismatch L a b \<longleftrightarrow> tl_ancestor L a s = tl_ancestor L b s"
  using assms unfolding chained_def by blast+

text \<open>The nodes of a trie of such ledgers: a child continues the ledger of its parent, and two children
  part where they start.\<close>

definition n_led :: "'l graph \<Rightarrow> nat \<Rightarrow> 'l" where
  "n_led N i = sp_ledger (nd_span (N i))"

definition agree :: "('l, 'i) trie_ledger_ops \<Rightarrow> 'l \<Rightarrow> 'l \<Rightarrow> nat \<Rightarrow> bool" where
  "agree L a b pos \<longleftrightarrow> (\<forall>s < pos. tl_ancestor L a s = tl_ancestor L b s)"

definition kids_related :: "('l, 'i) trie_ledger_ops \<Rightarrow> 'l graph \<Rightarrow> nat \<Rightarrow> bool" where
  "kids_related L N i \<longleftrightarrow> (\<forall>c \<in> n_kids N i. agree L (n_led N c) (n_led N i) (n_end N i)) \<and>
     (\<forall>c \<in> n_kids N i. \<forall>d \<in> n_kids N i. c \<noteq> d \<longrightarrow>
        tl_ancestor L (n_led N c) (n_end N i) \<noteq> tl_ancestor L (n_led N d) (n_end N i))"

definition related :: "('l, 'i) trie_ledger_ops \<Rightarrow> ('l \<Rightarrow> bool) \<Rightarrow> nat set \<Rightarrow> 'l graph \<Rightarrow> bool" where
  "related L ok V N \<longleftrightarrow>
     (\<forall>i \<in> V. ok (n_led N i) \<and> n_end N i \<le> tl_seq L (n_led N i) + 1 \<and> kids_related L N i)"

lemma relatedD:
  assumes "related L ok V N" and "i \<in> V"
  shows "ok (n_led N i)" and "n_end N i \<le> tl_seq L (n_led N i) + 1" and "kids_related L N i"
    and "c \<in> n_kids N i \<Longrightarrow> s < n_end N i \<Longrightarrow> tl_ancestor L (n_led N c) s = tl_ancestor L (n_led N i) s"
    and "c \<in> n_kids N i \<Longrightarrow> d \<in> n_kids N i \<Longrightarrow> c \<noteq> d \<Longrightarrow>
      tl_ancestor L (n_led N c) (n_end N i) \<noteq> tl_ancestor L (n_led N d) (n_end N i)"
  using assms by (auto simp: related_def kids_related_def agree_def)

lemma agree_refl [simp]: "agree L a a p"
  by (simp add: agree_def)

lemma agree_mono: "agree L a b p \<Longrightarrow> q \<le> p \<Longrightarrow> agree L a b q"
  by (simp add: agree_def)

lemma agree_mismatch:
  assumes "chained L ok" and "ok a" and "ok b" and "p \<le> tl_mismatch L a b" and "p \<le> tl_seq L a + 1" and "p \<le> tl_seq L b + 1"
  shows "agree L a b p"
proof -
  have "tl_ancestor L a s = tl_ancestor L b s" if "s < p" for s
    using chainedD(3) [OF assms(1-3), of s] assms(4-6) that by simp
  then show ?thesis
    by (simp add: agree_def)
qed

lemma related_cong:
  assumes "related L ok V N" and "links V N"
    and "\<And>i. i \<in> V \<Longrightarrow> nd_span (N' i) = nd_span (N i) \<and> nd_children (N' i) = nd_children (N i)"
  shows "related L ok V N'"
  using assms linksD(7) [OF assms(2)]
  by (simp add: related_def kids_related_def n_led_def)

section \<open>Every change keeps the relation\<close>

lemma keeps_cong_related: "keeps_cong (related L ok)"
  unfolding keeps_cong_def by (intro allI impI, erule related_cong) auto

lemma keeps_support_related: "keeps_support (related L ok)"
proof -
  have "related L ok V N' = related L ok V N" if "links V N" "supported n i r V N N'" for V N N' n i r
  proof
    have same: "\<And>i. i \<in> V \<Longrightarrow> nd_span (N' i) = nd_span (N i) \<and> nd_children (N' i) = nd_children (N i) \<and> nd_parent (N' i) = nd_parent (N i)"
      using that(2) by (simp add: supported_def)
    then have "links V N'"
      using links_cong [OF that(1)] by simp
    then show "related L ok V N' \<Longrightarrow> related L ok V N"
      using related_cong [of L ok V N' N] same by simp
    show "related L ok V N \<Longrightarrow> related L ok V N'"
      using related_cong [of L ok V N N'] that(1) same by simp
  qed
  then show ?thesis
    unfolding keeps_support_def by blast
qed

lemma keeps_split_related: "keeps_split (related L ok)"
proof -
  have "related L ok (insert new V) (split_node loc new pos N)"
    if ok: "links V N" "loc \<in> V" "new \<notin> V" "n_start N loc < pos" "pos < n_end N loc" "related L ok V N"
    for V N loc new pos
  proof -
    let ?N = "split_node loc new pos N"
    note r = relatedD [OF ok(6)]
    have new: "new \<notin> n_kids N i" if "i \<in> V" for i
      using linksD(7) [OF ok(1) that] ok(3) by blast
    have loc: "loc \<notin> n_kids N loc" "loc \<noteq> new"
      using kid_neq [OF ok(1,2)] ok(2,3) by auto
    have led: "n_led ?N j = (if j = new then n_led N loc else n_led N j)" for j
      by (simp add: n_led_def split_node_def)
    have end_: "n_end ?N j = (if j = new then n_end N loc else if j = loc then pos else n_end N j)" for j
      by (simp add: split_node_def)
    have kids: "n_kids ?N j = (if j = new then n_kids N loc else if j = loc then {new} else n_kids N j)" for j
      by (simp add: split_node_def)
    have "kids_related L ?N new" "kids_related L ?N loc"
      using r(3) [OF ok(2)] new [OF ok(2)] loc(2) by (auto simp: kids_related_def led end_ kids)
    moreover have "kids_related L ?N j" if "j \<in> V" "j \<noteq> loc" for j
    proof -
      have "n_led ?N c = n_led N c" if "c \<in> n_kids N j" for c
        using new [OF \<open>j \<in> V\<close>] that led by auto
      moreover have "n_led ?N j = n_led N j" "n_end ?N j = n_end N j" "n_kids ?N j = n_kids N j"
        using that ok(3) by (auto simp: led end_ kids)
      ultimately show ?thesis
        using r(3) [OF that(1)] by (simp add: kids_related_def)
    qed
    ultimately have "kids_related L ?N j" if "j \<in> insert new V" for j
      using that by (cases "j = new \<or> j = loc") auto
    moreover have "ok (n_led ?N j) \<and> n_end ?N j \<le> tl_seq L (n_led ?N j) + 1" if "j \<in> insert new V" for j
      using that r(1,2) ok(2,5) loc le_trans [OF less_imp_le [OF ok(5)] r(2) [OF ok(2)]] by (auto simp: led end_)
    ultimately show ?thesis
      by (simp add: related_def)
  qed
  then show ?thesis
    unfolding keeps_split_def by blast
qed

lemma keeps_leaf_related:
  assumes "chained L ok"
  shows "keeps_leaf L ok (related L ok)"
proof -
  have "related L ok (insert new V) (add_leaf loc new \<lparr>sp_start = n_end N loc, sp_end = tl_seq L l + 1, sp_ledger = l\<rparr> N)"
    if g: "links V N" "loc \<in> V" "new \<notin> V" "ok l" "n_end N loc \<le> tl_seq L l" "leaf_ok L l N loc (n_end N loc)" "related L ok V N"
    for V N loc new l
  proof -
    define N' where "N' = add_leaf loc new \<lparr>sp_start = n_end N loc, sp_end = tl_seq L l + 1, sp_ledger = l\<rparr> N"
    note r = relatedD [OF g(7)]
    have new: "new \<notin> n_kids N i" if "i \<in> V" for i
      using linksD(7) [OF g(1) that] g(3) by blast
    have led: "n_led N' j = (if j = new then l else n_led N j)" "n_end N' j = (if j = new then tl_seq L l + 1 else n_end N j)"
      "n_kids N' j = (if j = new then {} else if j = loc then insert new (n_kids N loc) else n_kids N j)" for j
      using g(2,3) by (auto simp: N'_def n_led_def add_leaf_def nd_from_span_def)
    have low: "tl_ancestor L l s = tl_ancestor L (n_led N loc) s" if "s < n_end N loc" for s
      using that g(5,6) r(1,2) [OF g(2)] chainedD(3) [OF assms _ g(4), of "n_led N loc" s]
      by (auto simp: leaf_ok_def n_led_def)
    have part: "tl_ancestor L l (n_end N loc) \<noteq> tl_ancestor L (n_led N c) (n_end N loc)" if c: "c \<in> n_kids N loc" for c
    proof -
      have cV: "c \<in> V" "n_start N c = n_end N loc" "n_start N c < n_end N c"
        using linksD(7,9) [OF g(1,2) c] linksD(5) [OF g(1)] by blast+
      moreover have "\<not> n_end N loc < tl_mismatch L (n_led N c) l"
        using g(6) c by (simp add: leaf_ok_def n_led_def not_less)
      ultimately show ?thesis
        using g(5) r(1,2) [OF cV(1)] chainedD(3) [OF assms _ g(4), of "n_led N c" "n_end N loc"] by auto
    qed
    have "kids_related L N' j" if "j \<in> V" for j
    proof (cases "j = loc")
      case True
      have c: "n_led N' c = n_led N c" if "c \<in> n_kids N loc" for c
        using new [OF g(2)] that led(1) by auto
      have "n_led N' new = l" "n_led N' loc = n_led N loc" "n_end N' loc = n_end N loc" "n_kids N' loc = insert new (n_kids N loc)"
        using g(2,3) by (auto simp: led)
      then show ?thesis
        using True r(3) [OF g(2)] low part new [OF g(2)] part [symmetric] unfolding kids_related_def by (auto simp: agree_def c)
    next
      case False
      have "n_led N' c = n_led N c" if "c \<in> n_kids N j" for c
        using new [OF \<open>j \<in> V\<close>] that led(1) by auto
      moreover have "n_led N' j = n_led N j" "n_end N' j = n_end N j" "n_kids N' j = n_kids N j"
        using that g(3) False by (auto simp: led)
      ultimately show ?thesis
        using r(3) [OF that] by (simp add: kids_related_def)
    qed
    moreover have "kids_related L N' new"
      by (simp add: kids_related_def led)
    ultimately show ?thesis
      unfolding N'_def [symmetric] related_def using r(1,2) g(3,4) by (auto simp: led)
  qed
  then show ?thesis
    unfolding keeps_leaf_def by blast
qed

lemma keeps_erase_related: "keeps_erase (related L ok)"
proof -
  have "related L ok (V - {loc}) (erase_leaf p loc N)" if "related L ok V N" for V loc p N
    using that by (auto simp: related_def kids_related_def n_led_def erase_leaf_def)
  then show ?thesis
    unfolding keeps_erase_def by blast
qed

lemma keeps_merge_related: "keeps_merge (related L ok)"
proof -
  have "related L ok (V - {loc}) (merge_node p loc child N)"
    if g: "links V N" "loc \<in> V" "loc \<noteq> 0" "nd_parent (N loc) = Some p" "nd_children (N loc) = [child]" "related L ok V N"
    for V N loc p child
  proof -
    define N' where "N' = merge_node p loc child N"
    note r = relatedD [OF g(6)] and m = links_merge [OF g(1-3,5,4)] and p = parent_start [OF g(1,2,4)]
    have led: "n_led N' j = n_led N j" "n_end N' j = n_end N j" for j
      using m(4) by (auto simp: N'_def n_led_def merge_node_def)
    have kids: "n_kids N' p = insert child (n_kids N p - {loc})" "\<And>j. j \<noteq> p \<Longrightarrow> n_kids N' j = n_kids N j"
      using m(4) by (auto simp: N'_def merge_node_def)
    have lp: "n_end N p < n_end N loc" "loc \<in> n_kids N p" "child \<in> n_kids N loc" "p \<in> V"
      using linksD(5) [OF g(1,2)] linksD(9) [OF g(1)] p g(5) by auto
    have low: "tl_ancestor L (n_led N child) s = tl_ancestor L (n_led N loc) s" if "s < n_end N loc" for s
      using r(4) [OF g(2) lp(3) that] .
    have "kids_related L N' p"
      unfolding kids_related_def led kids agree_def
      using low lp(1) r(4,5) [OF lp(4)] lp(2) by (auto simp: order_less_trans)
    moreover have "kids_related L N' j" if "j \<in> V" "j \<noteq> p" for j
      using r(3) [OF that(1)] by (simp add: kids_related_def led kids(2) [OF that(2)])
    ultimately have "kids_related L N' j" if "j \<in> V" for j
      using that by blast
    then show ?thesis
      unfolding N'_def [symmetric] related_def using r(1,2) by (auto simp: led)
  qed
  then show ?thesis
    unfolding keeps_merge_def by blast
qed

lemma related_inv: "chained L ok \<Longrightarrow> graph_inv L ok (related L ok)"
  by (simp add: graph_inv_def keeps_cong_related keeps_support_related keeps_split_related keeps_leaf_related
      keeps_erase_related keeps_merge_related)

section \<open>A tip belongs to one node\<close>

lemma start_zero: "links V N \<Longrightarrow> k \<in> V \<Longrightarrow> n_start N k = 0 \<Longrightarrow> k = 0"
  using linksD(10) [of V N k] parent_start(3) [of V N k] by (auto simp: parent_ok_def)

lemma parent_holds:
  assumes ok: "links V N" "related L ok V N" and k: "k \<in> V" "n_start N k \<noteq> 0"
  obtains p where "p \<in> V" and "k \<in> n_kids N p" and "n_end N p = n_start N k" and "n_start N p < n_start N k"
    and "\<And>q. q < n_start N k \<Longrightarrow> tl_ancestor L (n_led N p) q = tl_ancestor L (n_led N k) q"
proof -
  have "k \<noteq> 0"
    using k(2) linksD(4) [OF ok(1)] by (cases "k = 0") auto
  then obtain p where "nd_parent (N k) = Some p"
    using linksD(10) [OF ok(1) k(1)] by (auto simp: parent_ok_def)
  note p = parent_start [OF ok(1) k(1) this]
  show thesis
    using that [OF p(1,2)] p(3) linksD(9) [OF ok(1) p(1,2)] relatedD(4) [OF ok(2) p(1,2)] by auto
qed

text \<open>The node on the way to \<open>k\<close> that holds sequence number \<open>s\<close>.\<close>

definition holds :: "('l, 'i) trie_ledger_ops \<Rightarrow> nat set \<Rightarrow> 'l graph \<Rightarrow> nat \<Rightarrow> 'i \<Rightarrow> nat \<Rightarrow> bool" where
  "holds L V N s x h \<longleftrightarrow> h \<in> V \<and> n_start N h \<le> s \<and> s < n_end N h \<and> tl_ancestor L (n_led N h) s = x"

lemma holder:
  assumes "links V N" and "related L ok V N" and "k \<in> V" and "s < n_end N k"
  shows "\<exists>h. holds L V N s (tl_ancestor L (n_led N k) s) h"
  using assms(3,4)
proof (induction "n_start N k" arbitrary: k rule: less_induct)
  case less
  show ?case
  proof (cases "n_start N k \<le> s")
    case False
    then obtain p where p: "p \<in> V" "n_end N p = n_start N k" "n_start N p < n_start N k"
      "\<And>q. q < n_start N k \<Longrightarrow> tl_ancestor L (n_led N p) q = tl_ancestor L (n_led N k) q"
      by (metis parent_holds [OF assms(1,2) less.prems(1)] not_less0 not_le)
    then show ?thesis
      using less.hyps [OF p(3,1)] False by simp
  qed (use less.prems in \<open>auto simp: holds_def\<close>)
qed

lemma holders_below:
  assumes ch: "chained L ok" and rel: "related L ok V N" and i: "holds L V N s x i" and j: "holds L V N s x j" and q: "q \<le> s"
  shows "tl_ancestor L (n_led N i) q = tl_ancestor L (n_led N j) q"
proof -
  note r = relatedD [OF rel]
  have le: "s \<le> tl_seq L (n_led N i)" "s \<le> tl_seq L (n_led N j)" "ok (n_led N i)" "ok (n_led N j)"
    using r(1,2) [of i] r(1,2) [of j] i j by (auto simp: holds_def)
  then have "q < tl_mismatch L (n_led N i) (n_led N j)"
    using chainedD(3) [OF ch, of "n_led N i" "n_led N j" s] i j q by (auto simp: holds_def)
  then show ?thesis
    using chainedD(3) [OF ch, of "n_led N i" "n_led N j" q] le q by simp
qed

lemma holder_unique:
  assumes ch: "chained L ok" and ok: "links V N" and rel: "related L ok V N"
    and "holds L V N s x i" and "holds L V N s x j"
  shows "i = j"
  using assms(4,5)
proof (induction s arbitrary: x i j rule: less_induct)
  case (less s)
  have order: "\<not> n_start N a < n_start N b" if a: "holds L V N s x a" and b: "holds L V N s x b" for a b
  proof
    assume lt: "n_start N a < n_start N b"
    obtain p where p: "p \<in> V" "n_end N p = n_start N b" "n_start N p < n_start N b"
      "\<And>q. q < n_start N b \<Longrightarrow> tl_ancestor L (n_led N p) q = tl_ancestor L (n_led N b) q"
      using parent_holds [OF ok rel, of b] b lt by (auto simp: holds_def)
    let ?s = "n_start N b - 1"
    have "?s < s" "?s < n_start N b"
      using b lt by (auto simp: holds_def)
    moreover have "holds L V N ?s (tl_ancestor L (n_led N b) ?s) p"
      using p calculation(2) by (simp add: holds_def)
    moreover have "holds L V N ?s (tl_ancestor L (n_led N b) ?s) a"
      using a b lt holders_below [OF ch rel a b, of ?s] calculation(1) by (auto simp: holds_def)
    ultimately have "p = a"
      using less.IH by blast
    then show False
      using p(2) a b by (simp add: holds_def)
  qed
  then have same: "n_start N i = n_start N j"
    using less.prems by (metis linorder_neqE_nat)
  show "i = j"
  proof (cases "n_start N i = 0")
    case True
    then show ?thesis
      using start_zero [OF ok] less.prems same by (auto simp: holds_def)
  next
    case False
    let ?s = "n_start N i - 1"
    have s: "?s < s" "?s < n_start N i" "n_start N i \<le> s" "i \<in> V" "j \<in> V"
      using False less.prems by (auto simp: holds_def)
    obtain p where p: "p \<in> V" "i \<in> n_kids N p" "n_end N p = n_start N i" "n_start N p < n_start N i"
      "\<And>q. q < n_start N i \<Longrightarrow> tl_ancestor L (n_led N p) q = tl_ancestor L (n_led N i) q"
      using parent_holds [OF ok rel s(4) False] by metis
    obtain p' where p': "p' \<in> V" "j \<in> n_kids N p'" "n_end N p' = n_start N j" "n_start N p' < n_start N j"
      "\<And>q. q < n_start N j \<Longrightarrow> tl_ancestor L (n_led N p') q = tl_ancestor L (n_led N j) q"
      using parent_holds [OF ok rel s(5)] False same by metis
    note below = holders_below [OF ch rel less.prems]
    have "holds L V N ?s (tl_ancestor L (n_led N i) ?s) p" "holds L V N ?s (tl_ancestor L (n_led N i) ?s) p'"
      using p p' s same below [of ?s] by (auto simp: holds_def)
    then have "p = p'"
      using less.IH [OF s(1)] by blast
    then show ?thesis
      using relatedD(5) [OF rel p(1,2)] p'(2) below [of "n_start N i"] s(3) p(3) by auto
  qed
qed

section \<open>The supports of a trie\<close>

text \<open>The support below a node is that of any set of nodes that holds it, the children of its members and,
  but for the node itself, their parents.\<close>

lemma subtree_total:
  assumes ok: "links V N" and sums: "sums V N" and S: "S \<subseteq> V" "i \<in> S"
    and down: "\<And>j. j \<in> S \<Longrightarrow> n_kids N j \<subseteq> S" and up: "\<And>j. j \<in> S \<Longrightarrow> j \<noteq> i \<Longrightarrow> \<exists>p \<in> S. j \<in> n_kids N p"
    and top: "\<And>j. j \<in> S \<Longrightarrow> i \<notin> n_kids N j"
  shows "nd_branch (N i) = (\<Sum>j \<in> S. nd_tip (N j))"
proof -
  note d = linksD [OF ok]
  have fin: "finite S"
    using S(1) d(1) by (rule finite_subset)
  have kids: "(\<Union>j \<in> S. n_kids N j) = S - {i}"
    by (intro equalityI subsetI) (use down up top in \<open>force, fastforce\<close>)
  have "(\<Sum>c \<in> (\<Union>j \<in> S. n_kids N j). nd_branch (N c)) = (\<Sum>j \<in> S. \<Sum>c \<in> n_kids N j. nd_branch (N c))"
  proof (rule sum.UNION_disjoint [OF fin])
    show "\<forall>a \<in> S. \<forall>b \<in> S. a \<noteq> b \<longrightarrow> n_kids N a \<inter> n_kids N b = {}"
      using kids_disjoint [OF ok] subsetD [OF S(1)] by fast
  qed simp
  then have cover: "(\<Sum>j \<in> S. \<Sum>c \<in> n_kids N j. nd_branch (N c)) = (\<Sum>c \<in> S - {i}. nd_branch (N c))"
    by (simp only: kids)
  have "(\<Sum>j \<in> S. nd_branch (N j)) = (\<Sum>j \<in> S. nd_tip (N j) + (\<Sum>c \<in> n_kids N j. nd_branch (N c)))"
    using sums S(1) by (intro sum.cong) (auto simp: sums_def)
  also have "\<dots> = (\<Sum>j \<in> S. nd_tip (N j)) + (\<Sum>c \<in> S - {i}. nd_branch (N c))"
    by (simp add: sum.distrib cover)
  finally show ?thesis
    using sum.remove [OF fin S(2), of "\<lambda>j. nd_branch (N j)"] by simp
qed

definition on_branch :: "('l, 'i) trie_ledger_ops \<Rightarrow> nat \<Rightarrow> 'i \<Rightarrow> 'l span \<Rightarrow> bool" where
  "on_branch L s x sp \<longleftrightarrow> s < sp_end sp \<and> tl_ancestor L (sp_ledger sp) s = x"

lemma weight_of_filter: "finite V \<Longrightarrow> weight_of Q V N = (\<Sum>i \<in> {i \<in> V. Q (nd_span (N i))}. nd_tip (N i))"
  by (simp add: weight_of_def sum.If_cases Int_def)

lemma branch_total:
  assumes ch: "chained L ok" and lk: "links V N" and rel: "related L ok V N" and sums: "sums V N"
    and i: "holds L V N s x i"
  shows "nd_branch (N i) = weight_of (on_branch L s x) V N"
proof -
  let ?S = "{j \<in> V. on_branch L s x (nd_span (N j))}"
  note d = linksD [OF lk] and r = relatedD [OF rel]
  have iS: "i \<in> ?S" "i \<in> V"
    using i by (simp_all add: holds_def on_branch_def n_led_def)
  have down: "n_kids N j \<subseteq> ?S" if j: "j \<in> ?S" for j
  proof
    fix c assume c: "c \<in> n_kids N j"
    have "c \<in> V" "n_end N j < n_end N c"
      using d(7,9) [of j c] d(5) [of c] c j by auto
    then show "c \<in> ?S"
      using r(4) [of j c s] c j by (auto simp: on_branch_def n_led_def)
  qed
  have up: "\<exists>p \<in> ?S. j \<in> n_kids N p" if j: "j \<in> ?S" "j \<noteq> i" for j
  proof -
    have "\<not> n_start N j \<le> s"
      using j i holder_unique [OF ch lk rel i, of j] by (auto simp: holds_def on_branch_def n_led_def)
    then have "n_start N j \<noteq> 0" "j \<in> V"
      using j by auto
    then obtain p where "p \<in> V" "j \<in> n_kids N p" "n_end N p = n_start N j"
      "\<And>q. q < n_start N j \<Longrightarrow> tl_ancestor L (n_led N p) q = tl_ancestor L (n_led N j) q"
      using parent_holds [OF lk rel, of j] by metis
    then show ?thesis
      using \<open>\<not> n_start N j \<le> s\<close> j by (auto simp: on_branch_def n_led_def)
  qed
  have top: "i \<notin> n_kids N j" if "j \<in> ?S" for j
    using d(9) [of j i] that i by (auto simp: holds_def on_branch_def)
  show ?thesis
    using subtree_total [OF lk sums _ iS(1) down up top]
      weight_of_filter [OF d(1), of "on_branch L s x" N] by simp
qed

lemma no_holder:
  assumes lk: "links V N" and rel: "related L ok V N" and none: "\<And>h. \<not> holds L V N s x h"
  shows "weight_of (on_branch L s x) V N = 0"
proof -
  have "\<not> on_branch L s x (nd_span (N j))" if "j \<in> V" for j
    using holder [OF lk rel that, of s] none by (auto simp: on_branch_def n_led_def)
  then show ?thesis
    by (simp add: weight_of_def)
qed

end
