(* ===== verification/Trie_Records.thy ===== *)
theory Trie_Records
  imports Trie_Chain
begin

text \<open>
  The trie refines a table that gives every known ledger its support: what the operations return and leave
  behind is what the table says.
\<close>

section \<open>The trie as a table of supports\<close>

text \<open>A predicate on spans that depends on the line of ids only.\<close>

definition line_pred :: "('l, 'i) trie_ledger_ops \<Rightarrow> ('l span \<Rightarrow> bool) \<Rightarrow> bool" where
  "line_pred L Q \<longleftrightarrow>
     (\<forall>a b. sp_end a = sp_end b \<longrightarrow> agree L (sp_ledger a) (sp_ledger b) (sp_end a) \<longrightarrow> Q a = Q b)"

definition tip_is :: "('l, 'i) trie_ledger_ops \<Rightarrow> 'l \<Rightarrow> 'l span \<Rightarrow> bool" where
  "tip_is L l sp \<longleftrightarrow> sp_end sp = tl_seq L l + 1 \<and>
     tl_ancestor L (sp_ledger sp) (tl_seq L l) = tl_ancestor L l (tl_seq L l)"

lemma line_predD: "line_pred L Q \<Longrightarrow> sp_end a = sp_end b \<Longrightarrow> agree L (sp_ledger a) (sp_ledger b) (sp_end a) \<Longrightarrow> Q a = Q b"
  unfolding line_pred_def by blast

lemma line_pred_tip: "line_pred L Q \<Longrightarrow> about_tip Q"
  unfolding about_tip_def using line_predD [of L Q "sp\<lparr>sp_start := x\<rparr>" sp for sp x] by simp

lemma line_preds [simp]: "line_pred L (on_branch L s x)" "line_pred L (tip_is L l)" "line_pred L (\<lambda>_. True)"
  by (auto simp: line_pred_def on_branch_def tip_is_def agree_def)

text \<open>The ledgers that are known, told apart by their ids, and the support given to each.\<close>

definition known :: "('l, 'i) trie_ledger_ops \<Rightarrow> ('l \<Rightarrow> bool) \<Rightarrow> 'l set \<Rightarrow> bool" where
  "known L ok K \<longleftrightarrow> finite K \<and> chained L ok \<and> (\<forall>l \<in> K. ok l) \<and>
     (\<forall>a \<in> K. \<forall>b \<in> K. tl_ancestor L a (tl_seq L a) = tl_ancestor L b (tl_seq L b) \<longrightarrow> a = b)"

definition given :: "('l, 'i) trie_ledger_ops \<Rightarrow> 'l set \<Rightarrow> ('l \<Rightarrow> nat) \<Rightarrow> ('l span \<Rightarrow> bool) \<Rightarrow> nat" where
  "given L K M Q = (\<Sum>l \<in> K. if Q (sp_from_ledger L l 0) then M l else 0)"

definition records :: "('l, 'i) trie_ledger_ops \<Rightarrow> ('l \<Rightarrow> bool) \<Rightarrow> 'l set \<Rightarrow> ('l \<Rightarrow> nat) \<Rightarrow> 'l trie \<Rightarrow> bool" where
  "records L ok K M t \<longleftrightarrow> tr_ok L t \<and> related L ok (live_set t) (gr t) \<and>
     (\<forall>Q. line_pred L Q \<longrightarrow> support_of Q t = given L K M Q)"

lemma recordsD:
  assumes "records L ok K M t"
  shows "tr_ok L t" and "related L ok (live_set t) (gr t)" and "line_pred L Q \<Longrightarrow> support_of Q t = given L K M Q"
    and "arena {} (live_set t) t" and "links (live_set t) (gr t)" and "sums (live_set t) (gr t)"
proof -
  show "tr_ok L t" "related L ok (live_set t) (gr t)" "line_pred L Q \<Longrightarrow> support_of Q t = given L K M Q"
    using assms by (simp_all add: records_def)
  then show ar: "arena {} (live_set t) t"
    by (simp add: tr_ok_def)
  show "links (live_set t) (gr t)" "sums (live_set t) (gr t)"
    using arenaD(3,4) [OF ar] by simp_all
qed

lemma given_update:
  assumes "finite K" and "l \<in> K"
  shows "given L K (M(l := M l + n)) Q = given L K M Q + (if Q (sp_from_ledger L l 0) then n else 0)"
proof -
  have "given L K (M(l := M l + n)) Q = (\<Sum>m \<in> K. (if Q (sp_from_ledger L m 0) then M m else 0) +
      (if m = l then if Q (sp_from_ledger L l 0) then n else 0 else 0))"
    unfolding given_def by (intro sum.cong) auto
  then show ?thesis
    using assms by (simp add: given_def sum.distrib sum.delta)
qed

lemma given_tip:
  assumes "known L ok K" and l: "l \<in> K"
  shows "given L K M (tip_is L l) = M l"
proof -
  have "tip_is L l (sp_from_ledger L m 0) \<longleftrightarrow> m = l" if "m \<in> K" for m
    using assms that by (auto simp: tip_is_def sp_from_ledger_def known_def)
  then have "given L K M (tip_is L l) = (\<Sum>m \<in> K. if m = l then M m else 0)"
    unfolding given_def by (intro sum.cong) auto
  then show ?thesis
    using assms by (simp add: sum.delta' known_def)
qed

text \<open>A node whose tip has the id of a known ledger stands for that ledger.\<close>

lemma tip_line:
  assumes ch: "chained L ok" and rel: "related L ok V N" and lk: "links V N" and l: "ok l" and i: "i \<in> V"
    and id: "st_id (sp_tip L (nd_span (N i))) = tl_ancestor L l (tl_seq L l)"
  shows "n_end N i = tl_seq L l + 1" and "agree L (n_led N i) l (n_end N i)" and "tip_is L l (nd_span (N i))"
proof -
  let ?a = "n_led N i"
  have le: "ok ?a" "0 < n_end N i" "n_end N i - 1 \<le> tl_seq L ?a"
    using relatedD(1,2) [OF rel i] linksD(5) [OF lk i] by auto
  have eq: "tl_ancestor L ?a (n_end N i - 1) = tl_ancestor L l (tl_seq L l)"
    using id by (simp add: sp_tip_def Let_def n_led_def)
  then have s: "n_end N i - 1 = tl_seq L l"
    using chainedD(2) [OF ch le(1) l le(3) le_refl] by simp
  then show end_: "n_end N i = tl_seq L l + 1"
    using le(2) by simp
  have "tl_seq L l < tl_mismatch L ?a l"
    using chainedD(3) [OF ch le(1) l, of "tl_seq L l"] eq s le(3) by simp
  then show "agree L ?a l (n_end N i)"
    using agree_mismatch [OF ch le(1) l] le(3) s end_ by simp
  show "tip_is L l (nd_span (N i))"
    using eq end_ by (simp add: tip_is_def n_led_def)
qed

context trie_ledger
begin

lemma new_ok: "tr_ok L (trie_new L)"
proof -
  have live: "live_set (trie_new L) = {0}" "gr (trie_new L) 0 = nd_root L" "tr_seq (trie_new L) = []" "tr_free (trie_new L) = []"
    by (auto simp: live_set_def trie_new_def nd_root_def)
  have root: "nd_span (nd_root L) = sp_genesis L" "nd_children (nd_root L) = []" "nd_tip (nd_root L) = 0"
    "nd_branch (nd_root L) = 0" "nd_parent (nd_root L) = None" "nd_live (nd_root L)"
    by (simp_all add: nd_root_def)
  have "n_start (gr (trie_new L)) 0 = 0" "n_end (gr (trie_new L)) 0 = 1"
    by (simp_all add: live root sp_genesis_def genesis_seq Let_def)
  then have "links {0} (gr (trie_new L))" "sums {0} (gr (trie_new L))" "packed {} {0} (gr (trie_new L))"
    by (simp_all add: links_def kids_ok_def sums_def packed_def live root)
  moreover have "slots (trie_new L)"
  proof -
    have "nd_live (gr (trie_new L) i)" if "i < length (tr_nodes (trie_new L))" for i
      using that by (simp add: trie_new_def root)
    then show ?thesis
      using live(4) by (auto simp: slots_def)
  qed
  moreover have "seq_ok (weight {0} (gr (trie_new L))) []"
    by (simp add: seq_ok_def weight_sum live root)
  ultimately show ?thesis
    by (simp add: tr_ok_def arena_def live root)
qed

lemma records_new:
  assumes "chained L ok"
  shows "records L ok K (\<lambda>_. 0) (trie_new L)"
proof -
  have live: "live_set (trie_new L) = {0}" "gr (trie_new L) 0 = nd_root L"
    by (auto simp: live_set_def trie_new_def nd_root_def)
  have "related L ok {0} (gr (trie_new L))"
    using chainedD(1) [OF assms] by (simp add: related_def kids_related_def n_led_def live nd_root_def sp_genesis_def Let_def)
  then show ?thesis
    using new_ok by (simp add: records_def support_of_def live weight_of_def given_def nd_root_def)
qed

lemma records_total:
  assumes "records L ok K M t"
  shows "nd_branch (gr t 0) = (\<Sum>l \<in> K. M l)"
proof -
  note r = recordsD [OF assms]
  have "nd_branch (gr t 0) = support_of (\<lambda>_. True) t"
    using root_total [OF r(5,6)] by (simp add: support_of_def weight_of_def)
  then show ?thesis
    using r(3) [of "\<lambda>_. True"] by (simp add: given_def)
qed

lemma records_insert:
  assumes rec: "records L ok K M t" and K: "known L ok K" "l \<in> K" and n: "0 < n" and fits: "(\<Sum>m \<in> K. M m) + n < 2 ^ 32"
  obtains t' where "trie_insert L l n t = Done t'" and "records L ok K (M(l := M l + n)) t'"
proof -
  note r = recordsD [OF rec]
  have ch: "chained L ok" and l: "ok l" and fin: "finite K"
    using K by (auto simp: known_def)
  have "nd_branch (gr t 0) + n < 2 ^ 32"
    using fits records_total [OF rec] by simp
  then obtain t' sp where t': "trie_insert L l n t = Done t'" "tr_ok L t'" "tip_of L l sp"
    "\<exists>i \<in> live_set t'. nd_span (gr t' i) = sp"
    "\<And>Q. about_tip Q \<Longrightarrow> support_of Q t' = support_of Q t + (if Q sp then n else 0)"
    "\<And>okl G. graph_inv L okl G \<Longrightarrow> okl l \<Longrightarrow> G (live_set t) (gr t) \<Longrightarrow> G (live_set t') (gr t')"
    using insert_done [OF r(1) n] by metis
  have rel: "related L ok (live_set t') (gr t')"
    using t'(6) [OF related_inv [OF ch] l r(2)] .
  obtain i where i: "i \<in> live_set t'" "nd_span (gr t' i) = sp"
    using t'(4) by blast
  have "agree L (sp_ledger sp) l (sp_end sp)"
    using relatedD(1,2) [OF rel i(1)] t'(3) i(2) agree_mismatch [OF ch _ l, of "sp_ledger sp" "tl_seq L l + 1"]
    by (auto simp: tip_of_def n_led_def)
  then have same: "Q sp = Q (sp_from_ledger L l 0)" if "line_pred L Q" for Q
    using line_predD [OF that, of sp "sp_from_ledger L l 0"] t'(3) by (simp add: tip_of_def sp_from_ledger_def)
  have "support_of Q t' = given L K (M(l := M l + n)) Q" if "line_pred L Q" for Q
    using same [OF that] t'(5) [OF line_pred_tip [OF that]] r(3) [OF that] given_update [OF fin K(2), of L M n Q] by simp
  then have "records L ok K (M(l := M l + n)) t'"
    unfolding records_def using t'(2) rel by blast
  then show thesis
    using that t'(1) by blast
qed

end

lemma given_drop:
  assumes "finite K" and "l \<in> K"
  shows "given L K M Q = given L K (M(l := M l - n)) Q + (if Q (sp_from_ledger L l 0) then min n (M l) else 0)"
  using given_update [OF assms, of L "M(l := M l - n)" "min n (M l)" Q] by (simp add: min_def split: if_splits)

lemma tip_unique:
  assumes ch: "chained L ok" and lk: "links V N" and rel: "related L ok V N"
    and i: "i \<in> V" "tip_is L l (nd_span (N i))" and j: "j \<in> V" "tip_is L l (nd_span (N j))"
  shows "i = j"
proof (rule holder_unique [OF ch lk rel])
  show "holds L V N (tl_seq L l) (tl_ancestor L l (tl_seq L l)) i" "holds L V N (tl_seq L l) (tl_ancestor L l (tl_seq L l)) j"
    using i j linksD(5) [OF lk i(1)] linksD(5) [OF lk j(1)] by (auto simp: holds_def tip_is_def n_led_def)
qed

lemma tip_at_records:
  assumes rec: "records L ok K M t" and K: "known L ok K" "l \<in> K"
  shows "tip_at L t (tl_ancestor L l (tl_seq L l)) = M l"
proof -
  note r = recordsD [OF rec]
  have ch: "chained L ok" and l: "ok l"
    using K by (auto simp: known_def)
  let ?V = "live_set t" and ?N = "gr t" and ?x = "tl_ancestor L l (tl_seq L l)"
  have "tip_at L t ?x = weight_of (tip_is L l) ?V ?N"
  proof (cases "tr_find_by_ledger_id L t ?x")
    case None
    have "\<not> tip_is L l (nd_span (?N i))" if "i \<in> ?V" for i
      using find_id_None [OF None that] by (auto simp: tip_is_def sp_tip_def Let_def)
    then show ?thesis
      using None by (simp add: tip_at_def weight_of_def)
  next
    case (Some loc)
    have loc: "loc \<in> ?V" "tip_is L l (nd_span (?N loc))"
      using find_id_Some [OF Some] tip_line(3) [OF ch r(2,5) l] by auto
    have "tip_is L l (nd_span (?N i)) \<longleftrightarrow> i = loc" if "i \<in> ?V" for i
      using tip_unique [OF ch r(5,2) that _ loc] loc(2) by blast
    then have "weight_of (tip_is L l) ?V ?N = (\<Sum>i \<in> ?V. if i = loc then nd_tip (?N i) else 0)"
      unfolding weight_of_def by (intro sum.cong) auto
    then show ?thesis
      using Some loc(1) linksD(1) [OF r(5)] by (simp add: tip_at_def sum.delta')
  qed
  then show ?thesis
    using r(3) [of "tip_is L l"] given_tip [OF K] by (simp add: support_of_def)
qed

lemma records_remove:
  assumes rec: "records L ok K M t" and K: "known L ok K" "l \<in> K"
  obtains t' where "trie_remove L (tl_ancestor L l (tl_seq L l)) (tl_seq L l) n t = Done (M l \<noteq> 0, t')"
    and "records L ok K (M(l := M l - n)) t'"
proof -
  note r = recordsD [OF rec] and tip = tip_at_records [OF rec K]
  have ch: "chained L ok" and l: "ok l" and fin: "finite K"
    using K by (auto simp: known_def)
  let ?x = "tl_ancestor L l (tl_seq L l)"
  have loc: "loc \<in> live_set t" "n_end (gr t) loc = tl_seq L l + 1" "agree L (n_led (gr t) loc) l (n_end (gr t) loc)"
    if "tr_find_by_ledger_id L t ?x = Some loc" for loc
    using find_id_Some [OF that] tip_line(1,2) [OF ch r(2,5) l] by auto
  have "seq_matches L t ?x (tl_seq L l)"
    using loc(2) by (auto simp: seq_matches_def sp_tip_def Let_def split: option.split)
  then obtain t' where t': "trie_remove L ?x (tl_seq L l) n t = Done (M l \<noteq> 0, t')" "tr_ok L t'" "M l = 0 \<Longrightarrow> t' = t"
    "\<And>Q loc. about_tip Q \<Longrightarrow> tr_find_by_ledger_id L t ?x = Some loc \<Longrightarrow>
      support_of Q t = support_of Q t' + (if Q (nd_span (gr t loc)) then min n (M l) else 0)"
    "\<And>okl G. graph_inv L okl G \<Longrightarrow> G (live_set t) (gr t) \<Longrightarrow> G (live_set t') (gr t')"
    using remove_done [OF r(1), of ?x "tl_seq L l" n] unfolding tip by metis
  have rel: "related L ok (live_set t') (gr t')"
    using t'(5) [OF related_inv [OF ch] r(2)] .
  have "support_of Q t' = given L K (M(l := M l - n)) Q" if Q: "line_pred L Q" for Q
  proof (cases "M l = 0")
    case True
    then show ?thesis
      using t'(3) r(3) [OF Q] given_drop [OF fin K(2), of L M Q n] by simp
  next
    case False
    then obtain loc where find: "tr_find_by_ledger_id L t ?x = Some loc"
      using tip by (cases "tr_find_by_ledger_id L t ?x") (auto simp: tip_at_def)
    have "Q (nd_span (gr t loc)) = Q (sp_from_ledger L l 0)"
      using loc [OF find] by (intro line_predD [OF Q]) (simp_all add: sp_from_ledger_def n_led_def)
    then show ?thesis
      using t'(4) [OF line_pred_tip [OF Q] find] r(3) [OF Q] given_drop [OF fin K(2), of L M Q n] by simp
  qed
  then have "records L ok K (M(l := M l - n)) t'"
    unfolding records_def using t'(2) rel by blast
  then show thesis
    using that t'(1) by blast
qed

lemma holds_agree:
  assumes ch: "chained L ok" and rel: "related L ok V N" and l: "ok l" and s: "s \<le> tl_seq L l"
    and h: "holds L V N s (tl_ancestor L l s) h"
  shows "agree L (n_led N h) l (s + 1)" and "s < tl_mismatch L (n_led N h) l"
proof -
  have h': "ok (n_led N h)" "s \<le> tl_seq L (n_led N h)" "tl_ancestor L (n_led N h) s = tl_ancestor L l s"
    using relatedD(1,2) [OF rel, of h] h by (auto simp: holds_def)
  then show "s < tl_mismatch L (n_led N h) l"
    using chainedD(3) [OF ch h'(1) l] s by simp
  then show "agree L (n_led N h) l (s + 1)"
    using agree_mismatch [OF ch h'(1) l] h'(2) s by simp
qed

lemma found_agree:
  assumes ch: "chained L ok" and rel: "related L ok V N" and l: "ok l" and found: "found L l V N loc pos"
  shows "agree L (n_led N loc) l pos"
  using found relatedD(1,2) [OF rel, of loc] agree_mismatch [OF ch _ l, of "n_led N loc" pos]
  by (auto simp: found_def n_led_def)

text \<open>Where the search stops short of the ledger, no node holds it.\<close>

lemma found_short:
  assumes ch: "chained L ok" and lk: "links V N" and rel: "related L ok V N" and l: "ok l"
    and found: "found L l V N loc pos" and short: "pos \<le> tl_seq L l"
  shows "\<not> holds L V N (tl_seq L l) (tl_ancestor L l (tl_seq L l)) k"
proof
  assume k: "holds L V N (tl_seq L l) (tl_ancestor L l (tl_seq L l)) k"
  have f: "loc \<in> V" "n_start N loc < pos" "pos \<le> n_end N loc"
    "pos < n_end N loc \<Longrightarrow> tl_mismatch L (n_led N loc) l = pos"
    "pos = n_end N loc \<Longrightarrow> c \<in> n_kids N loc \<Longrightarrow> tl_mismatch L (n_led N c) l \<le> pos" for c
    using found by (auto simp: found_def n_led_def)
  have "tl_ancestor L (n_led N k) pos = tl_ancestor L l pos"
    using holds_agree(1) [OF ch rel l le_refl k] short by (simp add: agree_def)
  then obtain h where h: "holds L V N pos (tl_ancestor L l pos) h"
    using holder [OF lk rel, of k pos] k short by (auto simp: holds_def)
  note a = holds_agree [OF ch rel l short h]
  have loc: "holds L V N (pos - 1) (tl_ancestor L l (pos - 1)) loc"
    using f(1-3) found_agree [OF ch rel l found] by (auto simp: holds_def agree_def)
  show False
  proof (cases "n_start N h < pos")
    case True
    then have "holds L V N (pos - 1) (tl_ancestor L l (pos - 1)) h"
      using h a(1) by (auto simp: holds_def agree_def)
    then have "h = loc"
      using holder_unique [OF ch lk rel _ loc] by simp
    then show False
      using f(4) h a(2) by (simp add: holds_def)
  next
    case False
    then have start: "n_start N h = pos" "h \<in> V" "n_start N h \<noteq> 0"
      using h f(2) by (auto simp: holds_def)
    then obtain p where p: "p \<in> V" "h \<in> n_kids N p" "n_end N p = n_start N h" "n_start N p < n_start N h"
      "\<And>q. q < n_start N h \<Longrightarrow> tl_ancestor L (n_led N p) q = tl_ancestor L (n_led N h) q"
      using parent_holds [OF lk rel, of h] by metis
    have "holds L V N (pos - 1) (tl_ancestor L l (pos - 1)) p"
      using p start f(2) a(1) by (auto simp: holds_def agree_def)
    then have "p = loc"
      using holder_unique [OF ch lk rel _ loc] by simp
    then show False
      using f(5) [of h] p(2,3) start(1) a(2) by simp
  qed
qed

context trie_ledger
begin

lemma records_branch:
  assumes rec: "records L ok K M t" and ch: "chained L ok" and l: "ok l"
  shows "trie_branch_support L l t = Done (given L K M (on_branch L (tl_seq L l) (tl_ancestor L l (tl_seq L l))))"
proof -
  note r = recordsD [OF rec]
  let ?s = "tl_seq L l" let ?x = "tl_ancestor L l ?s" and ?V = "live_set t" and ?N = "gr t"
  let ?Q = "on_branch L ?s ?x"
  have w: "weight_of ?Q ?V ?N = given L K M ?Q"
    using r(3) [of ?Q] by (simp add: support_of_def)
  have branch: "nd_branch (?N i) = given L K M ?Q" if "holds L ?V ?N ?s ?x i" for i
    using branch_total [OF ch r(5,2,6) that] w by simp
  show ?thesis
  proof (cases "tr_find_by_ledger_id L t ?x")
    case (Some i)
    then have i: "i \<in> ?V" "st_id (sp_tip L (nd_span (?N i))) = ?x"
      using find_id_Some [OF Some] by simp_all
    then have "holds L ?V ?N ?s ?x i"
      using tip_line [OF ch r(2,5) l i] linksD(5) [OF r(5) i(1)] by (auto simp: holds_def agree_def)
    then show ?thesis
      using Some branch i(1) by (simp add: trie_branch_support_def live_less)
  next
    case None
    have root: "nd_span (gr t 0) = sp_genesis L"
      using r(1) by (simp add: tr_ok_def)
    obtain loc pos where find: "tr_find L t l = Done (loc, pos)" and found: "found L l ?V ?N loc pos"
      using find_done [OF r(4) root] by blast
    have f: "loc \<in> ?V" "n_start ?N loc < pos" "pos \<le> n_end ?N loc" "pos \<le> ?s + 1"
      using found by (simp_all add: found_def)
    have run: "trie_branch_support L l t = Done (if ?s < pos \<and> ?s < n_end ?N loc then nd_branch (?N loc) else 0)"
      using None find f(1) by (simp add: trie_branch_support_def live_less)
    show ?thesis
    proof (cases "?s < pos")
      case True
      then have "holds L ?V ?N ?s ?x loc"
        using f found_agree [OF ch r(2) l found] by (auto simp: holds_def agree_def)
      then show ?thesis
        using run True f(3) branch by simp
    next
      case False
      then show ?thesis
        using run no_holder [OF r(5,2)] found_short [OF ch r(5,2) l found] w by simp
    qed
  qed
qed

lemma records_preferred:
  assumes rec: "records L ok K M t" and ch: "chained L ok"
  shows "(if (\<Sum>l \<in> K. M l) = 0 then trie_get_preferred L n t = Done None
    else \<exists>tip. trie_get_preferred L n t = Done (Some tip) \<and> ok (st_ledger tip) \<and>
      st_seq tip \<le> tl_seq L (st_ledger tip) \<and> st_id tip = tl_ancestor L (st_ledger tip) (st_seq tip) \<and>
      0 < given L K M (on_branch L (st_seq tip) (st_id tip)))"
proof -
  note r = recordsD [OF rec]
  have ok: "ok (st_ledger tip) \<and> st_seq tip \<le> tl_seq L (st_ledger tip) \<and>
      st_id tip = tl_ancestor L (st_ledger tip) (st_seq tip) \<and> 0 < given L K M (on_branch L (st_seq tip) (st_id tip))"
    if i: "i \<in> live_set t" "0 < nd_branch (gr t i)" and tip: "tip_on L (nd_span (gr t i)) tip" for i tip
  proof -
    have "holds L (live_set t) (gr t) (st_seq tip) (st_id tip) i"
      using i(1) tip by (simp add: holds_def tip_on_def n_led_def)
    from branch_total [OF ch r(5,2,6) this] show ?thesis
      using r(3) [of "on_branch L (st_seq tip) (st_id tip)"] relatedD(1,2) [OF r(2) i(1)] i(2) tip
      by (auto simp: support_of_def tip_on_def n_led_def)
  qed
  show ?thesis
  proof (cases "nd_branch (gr t 0) = 0")
    case True
    then show ?thesis
      using get_preferred_done [OF r(1), of n] records_total [OF rec] by simp
  next
    case False
    then obtain tip i where tip: "trie_get_preferred L n t = Done (Some tip)" "i \<in> live_set t" "0 < nd_branch (gr t i)"
      "tip_on L (nd_span (gr t i)) tip"
      using get_preferred_done [OF r(1), of n] by auto
    then show ?thesis
      using ok [OF tip(2-4)] False records_total [OF rec] by (simp only: if_False) blast
  qed
qed

end

end
