(* ===== verification/Rcl_Trie.thy ===== *)
theory Rcl_Trie
  imports Trie_Records Ledger_View
begin

text \<open>
  The validated ledger of the application (\<open>xrpld/app/src/consensus/rcl_validation.rs\<close>) as the ledger of the
  trie: its own id and as many ids of its ancestors as the skip list of the ledger holds. Sequence numbers
  are natural numbers; the code keeps them in \<open>u32\<close>, which is the same below the last one
  (\<open>rl_fits\<close>).
\<close>

section \<open>The validated ledger\<close>

record rcl_ledger =
  rl_id :: uint256
  rl_seq :: nat
  rl_ancestors :: "uint256 list"

definition rl_genesis :: rcl_ledger where
  "rl_genesis = \<lparr>rl_id = 0, rl_seq = 0, rl_ancestors = [0]\<rparr>"

text \<open>Construction from a ledger: \<open>skip\<close> is what reading the skip list gave, the last sequence number and
  the hashes. A skip list that does not end at the parent trips the debug assertion.\<close>

definition rl_from_ledger :: "nat \<Rightarrow> uint256 \<Rightarrow> (nat \<times> uint256 list) option \<Rightarrow> rcl_ledger outcome" where
  "rl_from_ledger ledger_seq ledger_id skip =
     (case skip of
        Some (last_seq, hashes) \<Rightarrow>
          if last_seq = ledger_seq - 1
          then Done \<lparr>rl_id = ledger_id, rl_seq = ledger_seq, rl_ancestors = hashes\<rparr>
          else Panic
      | None \<Rightarrow> Done \<lparr>rl_id = ledger_id, rl_seq = ledger_seq, rl_ancestors = []\<rparr>)"

definition rl_min_seq :: "rcl_ledger \<Rightarrow> nat" where
  "rl_min_seq l = rl_seq l - length (rl_ancestors l)"

definition rl_ancestor :: "rcl_ledger \<Rightarrow> nat \<Rightarrow> uint256" where
  "rl_ancestor l s =
     (if rl_seq l < s then 0
      else if s = rl_seq l then rl_id l
      else if s < rl_min_seq l then 0
      else rl_ancestors l ! (length (rl_ancestors l) - (rl_seq l - s)))"

text \<open>The loop of \<open>mismatch\<close>, down from the smaller of the two sequence numbers.\<close>

fun rl_scan :: "rcl_ledger \<Rightarrow> rcl_ledger \<Rightarrow> nat \<Rightarrow> nat \<Rightarrow> nat" where
  "rl_scan a b lower 0 = 0"
| "rl_scan a b lower (Suc cur) =
     (if rl_ancestor a (Suc cur) \<noteq> rl_ancestor b (Suc cur) \<and> lower \<le> Suc cur then rl_scan a b lower cur
      else Suc cur)"

definition rl_mismatch :: "rcl_ledger \<Rightarrow> rcl_ledger \<Rightarrow> nat" where
  "rl_mismatch a b =
     (let lower = max (rl_min_seq a) (rl_min_seq b);
          upper = min (rl_seq a) (rl_seq b);
          cur = rl_scan a b lower upper
      in if cur < lower then 1 else cur + 1)"

definition rcl_ops :: "(rcl_ledger, uint256) trie_ledger_ops" where
  "rcl_ops = \<lparr>tl_genesis = rl_genesis, tl_seq = rl_seq, tl_ancestor = rl_ancestor, tl_mismatch = rl_mismatch\<rparr>"

text \<open>The sequence numbers that \<open>u32\<close> arithmetic handles: one past the tip has to fit.\<close>

definition rl_fits :: "rcl_ledger \<Rightarrow> bool" where
  "rl_fits l \<longleftrightarrow> rl_seq l + 1 < 2 ^ 32"

text \<open>The operations a client performs, on the trie and on a table of supports.\<close>

datatype trie_op = TInsert rcl_ledger nat | TRemove rcl_ledger nat

fun tr_apply :: "trie_op \<Rightarrow> rcl_ledger trie \<Rightarrow> (bool \<times> rcl_ledger trie) outcome" where
  "tr_apply (TInsert l n) t = bind_outcome (trie_insert rcl_ops l n t) (\<lambda>t. Done (True, t))"
| "tr_apply (TRemove l n) t = trie_remove rcl_ops (rl_id l) (rl_seq l) n t"

fun table_apply :: "trie_op \<Rightarrow> (rcl_ledger \<Rightarrow> nat) \<Rightarrow> bool \<times> (rcl_ledger \<Rightarrow> nat)" where
  "table_apply (TInsert l n) M = (True, M(l := M l + n))"
| "table_apply (TRemove l n) M = (M l \<noteq> 0, M(l := M l - n))"

fun tr_run :: "trie_op list \<Rightarrow> rcl_ledger trie \<Rightarrow> (bool list \<times> rcl_ledger trie) outcome" where
  "tr_run [] t = Done ([], t)"
| "tr_run (op # ops) t =
     bind_outcome (tr_apply op t) (\<lambda>(r, t). bind_outcome (tr_run ops t) (\<lambda>(rs, t). Done (r # rs, t)))"

fun table_run :: "trie_op list \<Rightarrow> (rcl_ledger \<Rightarrow> nat) \<Rightarrow> bool list \<times> (rcl_ledger \<Rightarrow> nat)" where
  "table_run [] M = ([], M)"
| "table_run (op # ops) M = (let (r, M) = table_apply op M; (rs, M) = table_run ops M in (r # rs, M))"

text \<open>Ledgers of one history: each knows all its ancestors back to the genesis ledger, and an id fixes the
  sequence number and the id of the parent, as a hash over the header does.\<close>

definition rl_full :: "rcl_ledger \<Rightarrow> bool" where
  "rl_full l \<longleftrightarrow> rl_seq l \<le> length (rl_ancestors l) \<and> rl_ancestor l 0 = 0"

definition rl_same_line :: "rcl_ledger \<Rightarrow> rcl_ledger \<Rightarrow> bool" where
  "rl_same_line a b \<longleftrightarrow> (\<forall>s \<le> rl_seq a. \<forall>r \<le> rl_seq b. rl_ancestor a s = rl_ancestor b r \<longrightarrow>
     s = r \<and> (0 < s \<longrightarrow> rl_ancestor a (s - 1) = rl_ancestor b (s - 1)))"

definition rl_history :: "rcl_ledger list \<Rightarrow> bool" where
  "rl_history ks \<longleftrightarrow> rl_genesis \<in> set ks \<and>
     (\<forall>a \<in> set ks. rl_full a \<and> rl_fits a \<and> (\<forall>b \<in> set ks. rl_same_line a b \<and> (rl_id a = rl_id b \<longrightarrow> a = b)))"

fun op_ok :: "rcl_ledger list \<Rightarrow> trie_op \<Rightarrow> bool" where
  "op_ok ks (TInsert l n) \<longleftrightarrow> l \<in> set ks \<and> 0 < n"
| "op_ok ks (TRemove l n) \<longleftrightarrow> l \<in> set ks"

fun op_added :: "trie_op \<Rightarrow> nat" where
  "op_added (TInsert l n) = n"
| "op_added (TRemove l n) = 0"

text \<open>The ledger \<open>m\<close> is \<open>l\<close> or descends from it.\<close>

definition rl_descends :: "rcl_ledger \<Rightarrow> rcl_ledger \<Rightarrow> bool" where
  "rl_descends m l \<longleftrightarrow> rl_seq l \<le> rl_seq m \<and> rl_ancestor m (rl_seq l) = rl_id l"

text \<open>The tries that the operations reach, from ledgers with any ancestry at all.\<close>

inductive trie_reach :: "rcl_ledger trie \<Rightarrow> bool" where
  reach_new: "trie_reach (trie_new rcl_ops)"
| reach_insert: "trie_reach t \<Longrightarrow> rl_fits l \<Longrightarrow> 0 < n \<Longrightarrow> nd_branch (gr t 0) + n < 2 ^ 32 \<Longrightarrow>
    trie_insert rcl_ops l n t = Done t' \<Longrightarrow> trie_reach t'"
| reach_remove: "trie_reach t \<Longrightarrow> seq_matches rcl_ops t i s \<Longrightarrow>
    trie_remove rcl_ops i s n t = Done (r, t') \<Longrightarrow> trie_reach t'"

section \<open>The ledger as the ledger of the trie\<close>

lemma rcl_ops_simps [simp]:
  "tl_genesis rcl_ops = rl_genesis" "tl_seq rcl_ops = rl_seq" "tl_ancestor rcl_ops = rl_ancestor"
  "tl_mismatch rcl_ops = rl_mismatch"
  by (simp_all add: rcl_ops_def)

lemma scan_le: "rl_scan a b lower cur \<le> cur"
  by (induction cur) auto

lemma mismatch_bounds: "1 \<le> rl_mismatch a b" "rl_mismatch a b \<le> rl_seq b + 1"
  using scan_le [of a b "max (rl_min_seq a) (rl_min_seq b)" "min (rl_seq a) (rl_seq b)"]
  by (auto simp: rl_mismatch_def Let_def)

interpretation rcl_trie: trie_ledger rcl_ops
  by unfold_locales (use mismatch_bounds in \<open>simp_all add: rl_genesis_def\<close>)

lemma scan_spec:
  "(rl_scan a b 0 cur \<noteq> 0 \<longrightarrow> rl_ancestor a (rl_scan a b 0 cur) = rl_ancestor b (rl_scan a b 0 cur)) \<and>
   (\<forall>q. rl_scan a b 0 cur < q \<longrightarrow> q \<le> cur \<longrightarrow> rl_ancestor a q \<noteq> rl_ancestor b q)"
  by (induction cur) (auto simp: le_Suc_eq)

lemma same_line_below:
  assumes "rl_same_line a b" and "rl_ancestor a s = rl_ancestor b s" and "s \<le> rl_seq a" and "s \<le> rl_seq b" and "q \<le> s"
  shows "rl_ancestor a q = rl_ancestor b q"
  using assms(2-)
proof (induction s)
  case (Suc s)
  then have "rl_ancestor a s = rl_ancestor b s"
    using assms(1) unfolding rl_same_line_def by (metis diff_Suc_1 zero_less_Suc)
  then show ?case
    using Suc by (cases "q = Suc s") auto
qed simp

lemma full_mismatch:
  assumes full: "rl_full a" "rl_full b" and line: "rl_same_line a b" and s: "s \<le> rl_seq a" "s \<le> rl_seq b"
  shows "s < rl_mismatch a b \<longleftrightarrow> rl_ancestor a s = rl_ancestor b s"
proof -
  let ?u = "min (rl_seq a) (rl_seq b)" let ?c = "rl_scan a b 0 ?u"
  have c: "?c \<le> rl_seq a" "?c \<le> rl_seq b"
    using scan_le [of a b 0 ?u] by auto
  have eq: "rl_mismatch a b = ?c + 1"
    using full by (simp add: rl_mismatch_def rl_min_seq_def rl_full_def)
  have "rl_ancestor a ?c = rl_ancestor b ?c"
    using scan_spec [of a b ?u] full by (cases "?c = 0") (auto simp: rl_full_def)
  then have "s \<le> ?c \<Longrightarrow> rl_ancestor a s = rl_ancestor b s"
    using same_line_below [OF line _ c] by blast
  moreover have "\<not> s \<le> ?c \<Longrightarrow> rl_ancestor a s \<noteq> rl_ancestor b s"
    using scan_spec [of a b ?u] s by auto
  ultimately show ?thesis
    unfolding eq by fastforce
qed

lemma history_known:
  assumes "rl_history ks"
  shows "known rcl_ops (\<lambda>l. l \<in> set ks) (set ks)"
proof -
  note h = assms [unfolded rl_history_def]
  have "chained rcl_ops (\<lambda>l. l \<in> set ks)"
    unfolding chained_def
  proof (intro conjI allI impI)
    fix a b s r
    assume "a \<in> set ks" "b \<in> set ks" "s \<le> tl_seq rcl_ops a" "r \<le> tl_seq rcl_ops b" "tl_ancestor rcl_ops a s = tl_ancestor rcl_ops b r"
    then show "s = r"
      using h by (simp add: rl_same_line_def)
  next
    fix a b s
    assume "a \<in> set ks" "b \<in> set ks" "s \<le> tl_seq rcl_ops a" "s \<le> tl_seq rcl_ops b"
    then show "s < tl_mismatch rcl_ops a b \<longleftrightarrow> tl_ancestor rcl_ops a s = tl_ancestor rcl_ops b s"
      using h full_mismatch [of a b s] by simp
  qed (use h in simp)
  moreover have "rl_ancestor l (rl_seq l) = rl_id l" for l
    by (simp add: rl_ancestor_def)
  ultimately show ?thesis
    using h by (simp add: known_def)
qed

section \<open>Runs\<close>

abbreviation records_rcl :: "rcl_ledger list \<Rightarrow> (rcl_ledger \<Rightarrow> nat) \<Rightarrow> rcl_ledger trie \<Rightarrow> bool" where
  "records_rcl ks \<equiv> records rcl_ops (\<lambda>l. l \<in> set ks) (set ks)"

lemma own_id [simp]: "rl_ancestor l (rl_seq l) = rl_id l"
  by (simp add: rl_ancestor_def)

lemma given_descends:
  "given rcl_ops (set ks) M (on_branch rcl_ops (rl_seq l) (rl_id l)) = (\<Sum>m \<in> {m \<in> set ks. rl_descends m l}. M m)"
proof -
  have "on_branch rcl_ops (rl_seq l) (rl_id l) (sp_from_ledger rcl_ops m 0) \<longleftrightarrow> rl_descends m l" for m
    by (auto simp: on_branch_def sp_from_ledger_def rl_descends_def)
  then show ?thesis
    by (simp add: given_def sum.If_cases Int_def)
qed

lemma apply_records:
  assumes "rl_history ks" and "records_rcl ks M t" and "op_ok ks op" and "(\<Sum>l \<in> set ks. M l) + op_added op < 2 ^ 32"
  shows "\<exists>t'. tr_apply op t = Done (fst (table_apply op M), t') \<and> records_rcl ks (snd (table_apply op M)) t'"
proof (cases op)
  case (TInsert l n)
  then obtain t' where "trie_insert rcl_ops l n t = Done t'" "records_rcl ks (M(l := M l + n)) t'"
    using rcl_trie.records_insert [OF assms(2) history_known [OF assms(1)], of l n] assms(3,4) by auto
  then show ?thesis
    by (simp add: TInsert)
next
  case (TRemove l n)
  then obtain t' where "trie_remove rcl_ops (rl_id l) (rl_seq l) n t = Done (M l \<noteq> 0, t')" "records_rcl ks (M(l := M l - n)) t'"
    using records_remove [OF assms(2) history_known [OF assms(1)], of l n] assms(3) by auto
  then show ?thesis
    by (simp add: TRemove)
qed

lemma table_total: "(\<Sum>l \<in> set ks. snd (table_apply op M) l) \<le> (\<Sum>l \<in> set ks. M l) + op_added op"
proof (cases op)
  case (TInsert l n)
  have "(\<Sum>m \<in> set ks. (M(l := M l + n)) m) = (\<Sum>m \<in> set ks. M m + (if m = l then n else 0))"
    by (intro sum.cong) auto
  then show ?thesis
    by (simp add: TInsert sum.distrib)
next
  case (TRemove l n)
  then show ?thesis
    by (auto intro: sum_mono)
qed

lemma run_records:
  assumes "rl_history ks"
  shows "records_rcl ks M t \<Longrightarrow> list_all (op_ok ks) ops \<Longrightarrow> (\<Sum>l \<in> set ks. M l) + sum_list (map op_added ops) < 2 ^ 32 \<Longrightarrow>
    \<exists>t'. tr_run ops t = Done (fst (table_run ops M), t') \<and> records_rcl ks (snd (table_run ops M)) t'"
proof (induction ops arbitrary: M t)
  case (Cons op ops)
  obtain r M' where op: "table_apply op M = (r, M')"
    by fastforce
  obtain t' where t': "tr_apply op t = Done (r, t')" "records_rcl ks M' t'"
    using apply_records [OF assms Cons.prems(1), of op] Cons.prems(2,3) op by auto
  have "(\<Sum>l \<in> set ks. M' l) + sum_list (map op_added ops) < 2 ^ 32"
    using table_total [of op M ks] op Cons.prems(3) by simp
  then obtain t'' where "tr_run ops t' = Done (fst (table_run ops M'), t'')" "records_rcl ks (snd (table_run ops M')) t''"
    using Cons.IH [OF t'(2)] Cons.prems(2) by auto
  then show ?case
    by (simp add: op t'(1) split_beta)
qed simp

text \<open>What a trie that records a table answers.\<close>

definition answers :: "rcl_ledger list \<Rightarrow> (rcl_ledger \<Rightarrow> nat) \<Rightarrow> rcl_ledger trie \<Rightarrow> bool" where
  "answers ks M t \<longleftrightarrow>
     (\<forall>l \<in> set ks. trie_tip_support rcl_ops (rl_id l) t = Done (M l) \<and>
        trie_branch_support rcl_ops l t = Done (\<Sum>m \<in> {m \<in> set ks. rl_descends m l}. M m)) \<and>
     trie_is_empty t = Done (\<forall>l \<in> set ks. M l = 0)"

lemma records_answers:
  assumes h: "rl_history ks" and rec: "records_rcl ks M t"
  shows "answers ks M t"
proof -
  note k = history_known [OF h]
  have tip: "trie_tip_support rcl_ops (rl_id l) t = Done (M l)" if "l \<in> set ks" for l
    using tip_at_records [OF rec k that] tip_support_at [of rcl_ops "rl_id l" t] by simp
  have branch: "trie_branch_support rcl_ops l t = Done (\<Sum>m \<in> {m \<in> set ks. rl_descends m l}. M m)" if "l \<in> set ks" for l
    using rcl_trie.records_branch [OF rec, of l] k that given_descends [of ks M l] by (simp add: known_def)
  have "0 < length (tr_nodes t)"
    using recordsD(4,5) [OF rec] arenaD(6) linksD(2) by blast
  then have "trie_is_empty t = Done (\<forall>l \<in> set ks. M l = 0)"
    using rcl_trie.records_total [OF rec] by (simp add: trie_is_empty_def)
  with tip branch show ?thesis
    by (simp add: answers_def)
qed

lemma reach_ok: "trie_reach t \<Longrightarrow> tr_ok rcl_ops t"
proof (induction rule: trie_reach.induct)
  case reach_new
  show ?case
    by (rule rcl_trie.new_ok)
next
  case (reach_insert t l n t')
  then show ?case
    using rcl_trie.insert_done [of t n l] by (metis outcome.inject)
next
  case (reach_remove t i s n r t')
  then show ?case
    using remove_done [of rcl_ops t i s n] by (metis outcome.inject prod.inject)
qed

lemma branch_support_done: "tr_ok rcl_ops t \<Longrightarrow> \<exists>n. trie_branch_support rcl_ops l t = Done n"
proof (cases "tr_find_by_ledger_id rcl_ops t (rl_id l)")
  case None
  assume "tr_ok rcl_ops t"
  then have ar: "arena {} (live_set t) t" and root: "nd_span (gr t 0) = sp_genesis rcl_ops"
    by (simp_all add: tr_ok_def)
  obtain loc pos where "tr_find rcl_ops t l = Done (loc, pos)" "found rcl_ops l (live_set t) (gr t) loc pos"
    using rcl_trie.find_done [OF ar root] by blast
  then show ?thesis
    using None by (simp add: trie_branch_support_def found_def live_less)
next
  case (Some i)
  then show ?thesis
    using find_id_Some [OF Some] by (simp add: trie_branch_support_def live_less)
qed

section \<open>Properties\<close>


definition ex_a :: rcl_ledger where
  "ex_a = \<lparr>rl_id = 1, rl_seq = 1, rl_ancestors = [0]\<rparr>"

definition ex_b :: rcl_ledger where
  "ex_b = \<lparr>rl_id = 2, rl_seq = 2, rl_ancestors = [0, 1]\<rparr>"

definition ex_c :: rcl_ledger where
  "ex_c = \<lparr>rl_id = 3, rl_seq = 2, rl_ancestors = [0, 1]\<rparr>"

lemmas ex_defs = ex_a_def ex_b_def ex_c_def rl_genesis_def

lemma all_le: "(\<forall>s \<le> (0::nat). P s) = P 0" "(\<forall>s \<le> Suc n. P s) = (P (Suc n) \<and> (\<forall>s \<le> n. P s))"
  by (auto simp: le_Suc_eq)

lemma ex_lines:
  "rl_ancestor rl_genesis 0 = 0" "rl_ancestor ex_a 0 = 0" "rl_ancestor ex_a 1 = 1"
  "rl_ancestor ex_b 0 = 0" "rl_ancestor ex_b 1 = 1" "rl_ancestor ex_b 2 = 2"
  "rl_ancestor ex_c 0 = 0" "rl_ancestor ex_c 1 = 1" "rl_ancestor ex_c 2 = 3"
  by (simp_all add: ex_defs rl_ancestor_def rl_min_seq_def)

lemma ex_seqs [simp]: "rl_seq rl_genesis = 0" "rl_seq ex_a = Suc 0" "rl_seq ex_b = Suc (Suc 0)" "rl_seq ex_c = Suc (Suc 0)"
  by (simp_all add: ex_defs)

lemma ex_history: "rl_history [rl_genesis, ex_a, ex_b, ex_c]"
  by (simp add: rl_history_def rl_full_def rl_fits_def rl_same_line_def all_le ex_lines [unfolded numeral_2_eq_2 One_nat_def])
    (simp add: ex_defs)




text \<open>With partial ancestry two nodes can end at the same ledger. The lookup by id then stops at the one
  without support, and the support of the ledger, which the count per sequence number holds, is neither
  reported nor removed.\<close>

definition ex_p4 :: rcl_ledger where
  "ex_p4 = \<lparr>rl_id = 4, rl_seq = 4, rl_ancestors = [1, 2, 3]\<rparr>"

definition ex_p6 :: rcl_ledger where
  "ex_p6 = \<lparr>rl_id = 6, rl_seq = 6, rl_ancestors = [3, 4, 5]\<rparr>"

definition ex_p7 :: rcl_ledger where
  "ex_p7 = \<lparr>rl_id = 77, rl_seq = 7, rl_ancestors = [4, 5, 6]\<rparr>"

definition ex_p9 :: rcl_ledger where
  "ex_p9 = \<lparr>rl_id = 9, rl_seq = 9, rl_ancestors = [6, 7, 8]\<rparr>"

lemmas ex_p_defs = ex_p4_def ex_p6_def ex_p7_def ex_p9_def

lemma ex_p_seq [simp]: "rl_id ex_p4 = 4" "rl_seq ex_p4 = 4" "rl_seq ex_p6 = 6" "rl_seq ex_p7 = 7" "rl_seq ex_p9 = 9"
  by (simp_all add: ex_p_defs)

lemma ex_p_ids [simp]:
  "rl_ancestor ex_p4 4 = 4" "rl_ancestor ex_p6 4 = 4" "rl_ancestor ex_p6 6 = 6" "rl_ancestor ex_p7 7 = 77" "rl_ancestor ex_p9 6 = 6"
  "rl_ancestor ex_p9 9 = 9" "rl_ancestor rl_genesis 0 = 0"
  by (simp_all add: ex_p_defs rl_ancestor_def rl_min_seq_def rl_genesis_def)

lemma scan_numeral [simp]:
  "rl_scan a b lower (numeral k) =
     (if rl_ancestor a (numeral k) \<noteq> rl_ancestor b (numeral k) \<and> lower \<le> numeral k then rl_scan a b lower (pred_numeral k)
      else numeral k)"
  by (simp add: numeral_eq_Suc)

lemma ex_p_mismatch [simp]:
  "rl_mismatch rl_genesis l = 1" "rl_mismatch ex_p4 ex_p9 = 1" "rl_mismatch ex_p4 ex_p6 = 5" "rl_mismatch ex_p9 ex_p6 = 7"
  "rl_mismatch ex_p6 ex_p7 = 7" "rl_mismatch ex_p9 ex_p7 = 7"
  by (simp_all add: ex_p_defs rl_mismatch_def rl_ancestor_def rl_min_seq_def rl_genesis_def)

lemmas fuel_numeral =
  tr_find_loop.simps(2) [of _ "pred_numeral k" for k, folded numeral_eq_Suc]
  tr_walk.simps(3) [of _ "pred_numeral k" for k, folded numeral_eq_Suc]
  tr_compress.simps(2) [of _ "pred_numeral k" for k, folded numeral_eq_Suc]

lemmas trie_eval = fuel_numeral trie_insert_def trie_new_def nd_root_def sp_genesis_def tr_find_def tr_at_def sp_diff_def
  sp_clamp_def sp_before_def sp_from_def sp_sub_def sp_from_ledger_def tr_split_def tr_add_leaf_def tr_alloc_def
  nd_from_span_def tr_modify_def tr_bump_def u32_add_def u32_sub_def tr_walk_up_def tr_seq_get_def trie_remove_def
  tr_find_by_ledger_id_def tr_drop_seq_def tr_live_children_def tr_merge_child_def tr_erase_child_def sp_merge_def
  sp_tip_def trie_tip_support_def Let_def

lemma partial_ancestry_loses_support:
  "case tr_run [TInsert ex_p4 1, TInsert ex_p9 1, TInsert ex_p6 1, TRemove ex_p4 1, TInsert ex_p7 1] (trie_new rcl_ops) of
     Done (_, t) \<Rightarrow> tr_seq_get t 6 = 1 \<and> trie_tip_support rcl_ops 6 t = Done 0 \<and>
       (case trie_remove rcl_ops 6 6 1 t of Done (r, _) \<Rightarrow> \<not> r | _ \<Rightarrow> False)
   | _ \<Rightarrow> False"
  by (simp add: trie_eval)

end
