(* ===== verification/Validations.thy ===== *)
theory Validations
  imports Rcl_Trie
begin

text \<open>
  The tracker of current and recent validations (\<open>rcl_support/validations.rs\<close>): the per-node sequence
  enforcers, the aged maps, the acquisition queue, the recovery latch and the operations of
  \<open>Validations\<close> on them, with the ledger trie as a component of the state. The adaptor is a record with the
  network time and the ledgers it can hand out, as they are while one operation holds the lock; the
  steady clock is an argument.
\<close>

section \<open>Parameters and validations\<close>

record validation_parms =
  vp_current_wall :: duration
  vp_current_local :: duration
  vp_current_early :: duration
  vp_set_expires :: duration
  vp_freshness :: duration

definition vp_default :: validation_parms where
  "vp_default = \<lparr>vp_current_wall = from_secs (5 * 60), vp_current_local = from_secs (3 * 60),
     vp_current_early = from_secs (3 * 60), vp_set_expires = from_secs (10 * 60), vp_freshness = from_secs 20\<rparr>"

datatype val_status = VCurrent | VStale | VBadSeq | VMultiple | VConflicting

fun val_status_display :: "val_status \<Rightarrow> string" where
  "val_status_display VCurrent = ''current''"
| "val_status_display VStale = ''stale''"
| "val_status_display VBadSeq = ''badSeq''"
| "val_status_display VMultiple = ''multiple''"
| "val_status_display VConflicting = ''conflicting''"

record ('i, 'n, 'k) validation =
  vd_ledger_id :: 'i
  vd_seq :: nat
  vd_sign_time :: net_time
  vd_seen_time :: net_time
  vd_key :: 'k
  vd_trusted :: bool
  vd_full :: bool
  vd_node_id :: 'n
  vd_load_fee :: "u32 option"
  vd_cookie :: "64 word"

record ('i, 'l) val_adaptor =
  ad_now :: net_time
  ad_acquire :: "'i \<Rightarrow> 'l option"

definition as_secs :: "duration \<Rightarrow> nat" where
  "as_secs d = d div 1000000000"

definition is_current :: "validation_parms \<Rightarrow> net_time \<Rightarrow> net_time \<Rightarrow> net_time \<Rightarrow> bool" where
  "is_current p now sign_time seen_time =
     (let early = int (as_secs (vp_current_early p));
          wall = int (as_secs (vp_current_wall p));
          loc = int (as_secs (vp_current_local p));
          now_secs = uint now; sign_secs = uint sign_time; seen_secs = uint seen_time
      in sign_secs > now_secs - early \<and> sign_secs < now_secs + wall \<and>
         (seen_time = 0 \<or> seen_secs < now_secs + loc))"

section \<open>Sequence enforcers\<close>

record seq_enforcer =
  se_seq :: nat
  se_when :: "instant option"

definition se_default :: seq_enforcer where
  "se_default = \<lparr>se_seq = 0, se_when = None\<rparr>"

definition se_try_advance :: "instant \<Rightarrow> nat \<Rightarrow> validation_parms \<Rightarrow> seq_enforcer \<Rightarrow> bool \<times> seq_enforcer" where
  "se_try_advance now s p e =
     (let e = (case se_when e of
                 Some w \<Rightarrow> if w + vp_set_expires p < now then e\<lparr>se_seq := 0\<rparr> else e
               | None \<Rightarrow> e)
      in if s \<le> se_seq e then (False, e) else (True, e\<lparr>se_seq := s, se_when := Some now\<rparr>))"

definition se_largest :: "seq_enforcer \<Rightarrow> nat" where
  "se_largest e = se_seq e"

section \<open>Aged maps\<close>

record ('k, 'v) aged_map =
  am_entries :: "('k \<times> 'v) list"
  am_touched :: "('k \<times> instant) list"

definition am_new :: "('k, 'v) aged_map" where
  "am_new = \<lparr>am_entries = [], am_touched = []\<rparr>"

definition am_touch :: "'k \<Rightarrow> instant \<Rightarrow> ('k, 'v) aged_map \<Rightarrow> ('k, 'v) aged_map" where
  "am_touch k now m = m\<lparr>am_touched := AList.update k now (am_touched m)\<rparr>"

text \<open>\<open>get_or_insert_with\<close> touches the key and makes sure of its entry; \<open>am_put\<close> writes through the
  reference that it returns.\<close>

definition am_get_or_insert :: "'k \<Rightarrow> instant \<Rightarrow> 'v \<Rightarrow> ('k, 'v) aged_map \<Rightarrow> ('k, 'v) aged_map" where
  "am_get_or_insert k now d m =
     (let m = am_touch k now m
      in case map_of (am_entries m) k of
           Some _ \<Rightarrow> m
         | None \<Rightarrow> m\<lparr>am_entries := AList.update k d (am_entries m)\<rparr>)"

definition am_put :: "'k \<Rightarrow> 'v \<Rightarrow> ('k, 'v) aged_map \<Rightarrow> ('k, 'v) aged_map" where
  "am_put k v m = m\<lparr>am_entries := AList.update k v (am_entries m)\<rparr>"

definition am_get :: "'k \<Rightarrow> ('k, 'v) aged_map \<Rightarrow> 'v option" where
  "am_get k m = map_of (am_entries m) k"

definition am_expire ::
  "instant \<Rightarrow> duration \<Rightarrow> ('k \<Rightarrow> bool) option \<Rightarrow> ('k, 'v) aged_map \<Rightarrow> ('k, 'v) aged_map" where
  "am_expire now expires_after kp m =
     (let m = (case kp of
                 Some f \<Rightarrow> fold (\<lambda>k. am_touch k now) (filter f (map fst (am_entries m))) m
               | None \<Rightarrow> m);
          expired = map fst (filter (\<lambda>(_, touched). expires_after \<le> now - touched) (am_touched m))
      in fold (\<lambda>k m. m\<lparr>am_entries := AList.delete k (am_entries m), am_touched := AList.delete k (am_touched m)\<rparr>)
           expired m)"

definition am_len :: "('k, 'v) aged_map \<Rightarrow> nat" where
  "am_len m = length (am_entries m)"

section \<open>The state\<close>

record ('i, 'n) recovery =
  rp_key :: "nat \<times> 'i"
  rp_nodes :: "'n list"

record ('i, 'n, 'k, 'l) val_inner =
  vi_current :: "('n \<times> ('i, 'n, 'k) validation) list"
  vi_local_seq :: seq_enforcer
  vi_seq_enforcers :: "('n \<times> seq_enforcer) list"
  vi_by_ledger :: "('i, ('n \<times> ('i, 'n, 'k) validation) list) aged_map"
  vi_by_sequence :: "(nat, ('n \<times> ('i, 'n, 'k) validation) list) aged_map"
  vi_keep :: "(nat \<times> nat) option"
  vi_next_keep_refresh :: "instant option"
  vi_trie :: "'l trie"
  vi_last_ledger :: "('n \<times> 'l) list"
  vi_acquiring :: "((nat \<times> 'i) \<times> 'n list) list"
  vi_anchor :: "('i, 'n) recovery option"
  vi_candidate :: "('i, 'n) recovery option"

definition vi_new :: "('l, 'i) trie_ledger_ops \<Rightarrow> ('i, 'n, 'k, 'l) val_inner" where
  "vi_new L = \<lparr>vi_current = [], vi_local_seq = se_default, vi_seq_enforcers = [], vi_by_ledger = am_new,
     vi_by_sequence = am_new, vi_keep = None, vi_next_keep_refresh = None, vi_trie = trie_new L,
     vi_last_ledger = [], vi_acquiring = [], vi_anchor = None, vi_candidate = None\<rparr>"

text \<open>The id of a ledger, and \<open>HashSet::extend\<close>.\<close>

definition led_id :: "('l, 'i) trie_ledger_ops \<Rightarrow> 'l \<Rightarrow> 'i" where
  "led_id L l = tl_ancestor L l (tl_seq L l)"

definition hs_extend :: "'a list \<Rightarrow> 'a list \<Rightarrow> 'a list" where
  "hs_extend xs ys = fold List.insert ys xs"

section \<open>The recovery latch\<close>

definition observe_validation_recovery ::
  "('i, 'n) recovery option \<Rightarrow> ('i, 'n, 'k, 'l) val_inner \<Rightarrow> ('i, 'n, 'k, 'l) val_inner" where
  "observe_validation_recovery obs s =
     (case obs of
        None \<Rightarrow> s\<lparr>vi_candidate := None\<rparr>
      | Some ob \<Rightarrow>
          (case vi_anchor s of
             None \<Rightarrow> s\<lparr>vi_anchor := Some ob\<rparr>
           | Some a \<Rightarrow>
               if rp_key a = rp_key ob then s\<lparr>vi_anchor := Some (a\<lparr>rp_nodes := hs_extend (rp_nodes a) (rp_nodes ob)\<rparr>)\<rparr>
               else (case vi_candidate s of
                       Some c \<Rightarrow>
                         if rp_key c = rp_key ob
                         then s\<lparr>vi_candidate := Some (c\<lparr>rp_nodes := hs_extend (rp_nodes c) (rp_nodes ob)\<rparr>)\<rparr>
                         else s\<lparr>vi_candidate := Some ob\<rparr>
                     | None \<Rightarrow> s\<lparr>vi_candidate := Some ob\<rparr>)))"

definition take_validation_recovery_nodes ::
  "nat \<times> 'i \<Rightarrow> ('i, 'n, 'k, 'l) val_inner \<Rightarrow> 'n list \<times> ('i, 'n, 'k, 'l) val_inner" where
  "take_validation_recovery_nodes key s =
     (case vi_anchor s of
        Some a \<Rightarrow>
          if rp_key a = key then (rp_nodes a, s\<lparr>vi_anchor := vi_candidate s, vi_candidate := None\<rparr>)
          else (case vi_candidate s of
                  Some c \<Rightarrow> if rp_key c = key then (rp_nodes c, s\<lparr>vi_candidate := None\<rparr>) else ([], s)
                | None \<Rightarrow> ([], s))
      | None \<Rightarrow>
          (case vi_candidate s of
             Some c \<Rightarrow> if rp_key c = key then (rp_nodes c, s\<lparr>vi_candidate := None\<rparr>) else ([], s)
           | None \<Rightarrow> ([], s)))"

definition prune_validation_recovery_signer ::
  "nat \<times> 'i \<Rightarrow> 'n \<Rightarrow> ('i, 'n, 'k, 'l) val_inner \<Rightarrow> ('i, 'n, 'k, 'l) val_inner" where
  "prune_validation_recovery_signer key node s =
     (case vi_anchor s of
        Some a \<Rightarrow>
          if rp_key a = key then s\<lparr>vi_anchor := Some (a\<lparr>rp_nodes := removeAll node (rp_nodes a)\<rparr>)\<rparr>
          else (case vi_candidate s of
                  Some c \<Rightarrow>
                    if rp_key c = key then s\<lparr>vi_candidate := Some (c\<lparr>rp_nodes := removeAll node (rp_nodes c)\<rparr>)\<rparr> else s
                | None \<Rightarrow> s)
      | None \<Rightarrow>
          (case vi_candidate s of
             Some c \<Rightarrow>
               if rp_key c = key then s\<lparr>vi_candidate := Some (c\<lparr>rp_nodes := removeAll node (rp_nodes c)\<rparr>)\<rparr> else s
           | None \<Rightarrow> s))"

text \<open>\<open>Vec::swap_remove\<close> at the first proof with the key.\<close>

definition take_exact ::
  "nat \<times> 'i \<Rightarrow> ('i, 'n) recovery list \<Rightarrow> ('i, 'n) recovery option \<times> ('i, 'n) recovery list" where
  "take_exact key proofs =
     (case List.find (\<lambda>i. rp_key (proofs ! i) = key) [0..<length proofs] of
        None \<Rightarrow> (None, proofs)
      | Some i \<Rightarrow> (Some (proofs ! i), butlast (proofs[i := List.last proofs])))"

definition reconcile_validation_recovery_latch ::
  "(nat \<times> 'i) option \<Rightarrow> (nat \<times> 'i) option \<Rightarrow> ('i, 'n, 'k, 'l) val_inner \<Rightarrow> ('i, 'n, 'k, 'l) val_inner" where
  "reconcile_validation_recovery_latch actual_anchor actual_candidate s =
     (let proofs = (case vi_anchor s of Some a \<Rightarrow> [a] | None \<Rightarrow> []) @ (case vi_candidate s of Some c \<Rightarrow> [c] | None \<Rightarrow> []);
          (anchor, proofs) = (case actual_anchor of Some key \<Rightarrow> take_exact key proofs | None \<Rightarrow> (None, proofs));
          distinct_candidate = (case actual_candidate of
              Some key \<Rightarrow> if Some key \<noteq> actual_anchor then Some key else None | None \<Rightarrow> None);
          (candidate, proofs) = (case distinct_candidate of Some key \<Rightarrow> take_exact key proofs | None \<Rightarrow> (None, proofs))
      in s\<lparr>vi_anchor := anchor, vi_candidate := candidate\<rparr>)"


section \<open>The trie and the acquisition queue\<close>

text \<open>Removing a node from the waiters of a key; a key without waiters goes.\<close>

definition acq_drop :: "nat \<times> 'i::linorder \<Rightarrow> 'n \<Rightarrow> ((nat \<times> 'i) \<times> 'n list) list \<Rightarrow> ((nat \<times> 'i) \<times> 'n list) list" where
  "acq_drop key node m =
     (case map_of m key of
        None \<Rightarrow> m
      | Some ns \<Rightarrow> if removeAll node ns = [] then bt_remove key m else bt_insert key (removeAll node ns) m)"

definition remove_trie ::
  "('l, 'i::linorder) trie_ledger_ops \<Rightarrow> 'n \<Rightarrow> ('i, 'n, 'k) validation \<Rightarrow> ('i, 'n, 'k, 'l) val_inner \<Rightarrow>
   ('i, 'n, 'k, 'l) val_inner outcome" where
  "remove_trie L node val s =
     (let key = (vd_seq val, vd_ledger_id val);
          s = prune_validation_recovery_signer key node s;
          s = s\<lparr>vi_acquiring := acq_drop key node (vi_acquiring s)\<rparr>
      in case map_of (vi_last_ledger s) node of
           None \<Rightarrow> Done s
         | Some l \<Rightarrow>
             if led_id L l = vd_ledger_id val then
               bind_outcome (trie_remove L (led_id L l) (tl_seq L l) 1 (vi_trie s)) (\<lambda>(_, t).
                 Done (s\<lparr>vi_last_ledger := AList.delete node (vi_last_ledger s), vi_trie := t\<rparr>))
             else Done s)"

definition update_trie_ledger ::
  "('l, 'i::linorder) trie_ledger_ops \<Rightarrow> 'n \<Rightarrow> 'l \<Rightarrow> ('i, 'n, 'k, 'l) val_inner \<Rightarrow> ('i, 'n, 'k, 'l) val_inner outcome" where
  "update_trie_ledger L node l s =
     bind_outcome
       (case map_of (vi_last_ledger s) node of
          None \<Rightarrow> Done (vi_trie s)
        | Some prior \<Rightarrow> bind_outcome (trie_remove L (led_id L prior) (tl_seq L prior) 1 (vi_trie s)) (\<lambda>(_, t). Done t))
       (\<lambda>t. bind_outcome (trie_insert L l 1 t) (\<lambda>t.
          Done (s\<lparr>vi_last_ledger := AList.update node l (vi_last_ledger s), vi_trie := t\<rparr>)))"

definition check_acquired ::
  "('l, 'i::linorder) trie_ledger_ops \<Rightarrow> ('i, 'l) val_adaptor \<Rightarrow> ('i, 'n, 'k, 'l) val_inner \<Rightarrow>
   ('i, 'n, 'k, 'l) val_inner outcome" where
  "check_acquired L ad s =
     fold_outcome (\<lambda>key s.
       case ad_acquire ad (snd key) of
         None \<Rightarrow> Done s
       | Some l \<Rightarrow>
           bind_outcome
             (fold_outcome (\<lambda>node. update_trie_ledger L node l)
                (case map_of (vi_acquiring s) key of Some ns \<Rightarrow> ns | None \<Rightarrow> []) s)
             (\<lambda>s. Done (s\<lparr>vi_acquiring := bt_remove key (vi_acquiring s)\<rparr>)))
       (map fst (vi_acquiring s)) s"

text \<open>Queueing a node for the ledger of its validation, or taking the ledger at once.\<close>

definition acquire_or_wait ::
  "('l, 'i::linorder) trie_ledger_ops \<Rightarrow> ('i, 'l) val_adaptor \<Rightarrow> 'n \<Rightarrow> ('i, 'n, 'k) validation \<Rightarrow>
   ('i, 'n, 'k, 'l) val_inner \<Rightarrow> ('i, 'n, 'k, 'l) val_inner outcome" where
  "acquire_or_wait L ad node val s =
     (let key = (vd_seq val, vd_ledger_id val)
      in case map_of (vi_acquiring s) key of
           Some ns \<Rightarrow> Done (s\<lparr>vi_acquiring := bt_insert key (List.insert node ns) (vi_acquiring s)\<rparr>)
         | None \<Rightarrow>
             (case ad_acquire ad (vd_ledger_id val) of
                Some l \<Rightarrow> update_trie_ledger L node l s
              | None \<Rightarrow> Done (s\<lparr>vi_acquiring := bt_insert key [node] (vi_acquiring s)\<rparr>)))"

definition update_trie_validation ::
  "('l, 'i::linorder) trie_ledger_ops \<Rightarrow> ('i, 'l) val_adaptor \<Rightarrow> 'n \<Rightarrow> ('i, 'n, 'k) validation \<Rightarrow>
   (nat \<times> 'i) option \<Rightarrow> ('i, 'n, 'k, 'l) val_inner \<Rightarrow> ('i, 'n, 'k, 'l) val_inner outcome" where
  "update_trie_validation L ad node val prior s =
     (if \<not> vd_trusted val then Panic
      else let s = (case prior of
                      Some key \<Rightarrow> s\<lparr>vi_acquiring := acq_drop key node (vi_acquiring s)\<rparr>
                    | None \<Rightarrow> s)
           in bind_outcome (check_acquired L ad s) (acquire_or_wait L ad node val))"

definition current_live ::
  "('l, 'i::linorder) trie_ledger_ops \<Rightarrow> validation_parms \<Rightarrow> ('i, 'l) val_adaptor \<Rightarrow> ('i, 'n, 'k, 'l) val_inner \<Rightarrow>
   ('i, 'n, 'k, 'l) val_inner outcome" where
  "current_live L p ad s =
     fold_outcome (\<lambda>node s.
       bind_outcome (case map_of (vi_current s) node of Some v \<Rightarrow> remove_trie L node v s | None \<Rightarrow> Done s) (\<lambda>s.
         Done (s\<lparr>vi_current := AList.delete node (vi_current s)\<rparr>)))
       (map fst (filter (\<lambda>(_, v). \<not> is_current p (ad_now ad) (vd_sign_time v) (vd_seen_time v)) (vi_current s))) s"

definition with_trie ::
  "('l, 'i::linorder) trie_ledger_ops \<Rightarrow> validation_parms \<Rightarrow> ('i, 'l) val_adaptor \<Rightarrow> ('l trie \<Rightarrow> 'r outcome) \<Rightarrow>
   ('i, 'n, 'k, 'l) val_inner \<Rightarrow> ('r \<times> ('i, 'n, 'k, 'l) val_inner) outcome" where
  "with_trie L p ad f s =
     bind_outcome (current_live L p ad s) (\<lambda>s.
     bind_outcome (check_acquired L ad s) (\<lambda>s.
     bind_outcome (f (vi_trie s)) (\<lambda>r. Done (r, s))))"

section \<open>Ledgers that arrive and go\<close>

text \<open>A node that waited for the ledger, or whose signature the recovery latch holds, gets it when it is
  still trusted; a recovery does not downgrade.\<close>

definition acquired_node ::
  "('l, 'i::linorder) trie_ledger_ops \<Rightarrow> 'l \<Rightarrow> 'n list \<Rightarrow> 'n \<Rightarrow> ('i, 'n, 'k, 'l) val_inner \<Rightarrow>
   ('i, 'n, 'k, 'l) val_inner outcome" where
  "acquired_node L l recovery_nodes node s =
     (let current_is_eligible = (case map_of (vi_current s) node of
            Some cur \<Rightarrow> vd_trusted cur \<and>
              (node \<notin> set recovery_nodes \<or> (vd_full cur \<and> tl_seq L l \<le> vd_seq cur))
          | None \<Rightarrow> False);
          recovery_does_not_downgrade = (node \<notin> set recovery_nodes \<or>
            (case map_of (vi_last_ledger s) node of Some r \<Rightarrow> tl_seq L r < tl_seq L l | None \<Rightarrow> True))
      in if current_is_eligible \<and> recovery_does_not_downgrade then update_trie_ledger L node l s else Done s)"

definition on_ledger_acquired ::
  "('l, 'i::linorder) trie_ledger_ops \<Rightarrow> validation_parms \<Rightarrow> ('i, 'l) val_adaptor \<Rightarrow> 'l \<Rightarrow> ('i, 'n, 'k, 'l) val_inner \<Rightarrow>
   ('i, 'n, 'k, 'l) val_inner outcome" where
  "on_ledger_acquired L p ad l s =
     (let key = (tl_seq L l, led_id L l)
      in bind_outcome (current_live L p ad s) (\<lambda>s.
         let exact_nodes = (case map_of (vi_acquiring s) key of Some ns \<Rightarrow> ns | None \<Rightarrow> []);
             s = s\<lparr>vi_acquiring := bt_remove key (vi_acquiring s)\<rparr>;
             (recovery_nodes, s) = take_validation_recovery_nodes key s
         in fold_outcome (acquired_node L l recovery_nodes) (hs_extend exact_nodes recovery_nodes) s))"

text \<open>A node whose last ledger is withdrawn goes back to the ledger of its current trusted validation.\<close>

definition unacquire_node ::
  "('l, 'i::linorder) trie_ledger_ops \<Rightarrow> ('i, 'l) val_adaptor \<Rightarrow> 'n \<Rightarrow> ('i, 'n, 'k, 'l) val_inner \<Rightarrow>
   ('i, 'n, 'k, 'l) val_inner outcome" where
  "unacquire_node L ad node s =
     bind_outcome
       (case map_of (vi_last_ledger s) node of
          Some resident \<Rightarrow>
            bind_outcome (trie_remove L (led_id L resident) (tl_seq L resident) 1 (vi_trie s)) (\<lambda>(_, t).
              Done (s\<lparr>vi_last_ledger := AList.delete node (vi_last_ledger s), vi_trie := t\<rparr>))
        | None \<Rightarrow> Done s)
       (\<lambda>s. case map_of (vi_current s) node of
              Some cur \<Rightarrow> if vd_trusted cur then acquire_or_wait L ad node cur s else Done s
            | None \<Rightarrow> Done s)"

definition on_ledger_unacquired ::
  "('l, 'i::linorder) trie_ledger_ops \<Rightarrow> validation_parms \<Rightarrow> ('i, 'l) val_adaptor \<Rightarrow> 'i \<Rightarrow> ('i, 'n, 'k, 'l) val_inner \<Rightarrow>
   (nat \<times> ('i, 'n, 'k, 'l) val_inner) outcome" where
  "on_ledger_unacquired L p ad ledger_id s =
     bind_outcome (current_live L p ad s) (\<lambda>s.
       let affected = map fst (filter (\<lambda>(_, l). led_id L l = ledger_id) (vi_last_ledger s))
       in bind_outcome (fold_outcome (unacquire_node L ad) affected s) (\<lambda>s. Done (length affected, s)))"

section \<open>Adding and expiring validations\<close>

definition can_validate_seq ::
  "validation_parms \<Rightarrow> instant \<Rightarrow> nat \<Rightarrow> ('i, 'n, 'k, 'l) val_inner \<Rightarrow> bool \<times> ('i, 'n, 'k, 'l) val_inner" where
  "can_validate_seq p now q s =
     (let (r, e) = se_try_advance now q p (vi_local_seq s) in (r, s\<lparr>vi_local_seq := e\<rparr>))"

text \<open>The entry of the node in the set of its sequence number is replaced only by a validation signed much
  later.\<close>

definition add_by_sequence ::
  "validation_parms \<Rightarrow> instant \<Rightarrow> 'n \<Rightarrow> ('i, 'n, 'k) validation \<Rightarrow> ('i, 'n, 'k, 'l) val_inner \<Rightarrow>
   ('i, 'n, 'k, 'l) val_inner" where
  "add_by_sequence p now node val s =
     (let m = am_get_or_insert (vd_seq val) now [] (vi_by_sequence s);
          entry = (case am_get (vd_seq val) m of Some e \<Rightarrow> e | None \<Rightarrow> []);
          entry = (case map_of entry node of
              Some old \<Rightarrow>
                (let diff_secs = nat \<bar>uint (vd_sign_time old) - uint (vd_sign_time val)\<bar>
                 in if vp_current_wall p < from_secs diff_secs \<and> vd_sign_time old < vd_sign_time val
                    then AList.update node val entry else entry)
            | None \<Rightarrow> AList.update node val entry)
      in s\<lparr>vi_by_sequence := am_put (vd_seq val) entry m\<rparr>)"

text \<open>Why a validation that breaks the sequence rule is refused.\<close>

definition seq_violation ::
  "('n \<times> ('i, 'n, 'k) validation) list \<Rightarrow> 'n \<Rightarrow> ('i, 'n, 'k) validation \<Rightarrow> val_status" where
  "seq_violation entry node val =
     (case map_of entry node of
        Some old \<Rightarrow>
          if vd_seq old = vd_seq val then
            (if vd_ledger_id old \<noteq> vd_ledger_id val then VConflicting
             else if vd_sign_time old \<noteq> vd_sign_time val then VConflicting
             else if vd_cookie old \<noteq> vd_cookie val then VMultiple
             else VBadSeq)
          else VBadSeq
      | None \<Rightarrow> VBadSeq)"

definition add_current ::
  "('l, 'i::linorder) trie_ledger_ops \<Rightarrow> ('i, 'l) val_adaptor \<Rightarrow> 'n \<Rightarrow> ('i, 'n, 'k) validation \<Rightarrow>
   ('i, 'n, 'k, 'l) val_inner \<Rightarrow> (val_status \<times> ('i, 'n, 'k, 'l) val_inner) outcome" where
  "add_current L ad node val s =
     (case map_of (vi_current s) node of
        None \<Rightarrow>
          bind_outcome (if vd_trusted val then update_trie_validation L ad node val None s else Done s) (\<lambda>s.
            Done (VCurrent, s\<lparr>vi_current := AList.update node val (vi_current s)\<rparr>))
      | Some old_val \<Rightarrow>
          if vd_sign_time old_val < vd_sign_time val then
            (let old_key = (vd_seq old_val, vd_ledger_id old_val);
                 s = s\<lparr>vi_current := AList.update node val (vi_current s)\<rparr>
             in bind_outcome (if vd_trusted val then update_trie_validation L ad node val (Some old_key) s else Done s)
                  (\<lambda>s. Done (VCurrent, s)))
          else Done (VStale, s))"

definition val_add ::
  "('l, 'i::linorder) trie_ledger_ops \<Rightarrow> validation_parms \<Rightarrow> ('i, 'l) val_adaptor \<Rightarrow> instant \<Rightarrow> 'n \<Rightarrow>
   ('i, 'n, 'k) validation \<Rightarrow> ('i, 'n, 'k, 'l) val_inner \<Rightarrow> (val_status \<times> ('i, 'n, 'k, 'l) val_inner) outcome" where
  "val_add L p ad now node val s =
     (if \<not> is_current p (ad_now ad) (vd_sign_time val) (vd_seen_time val) then Done (VStale, s)
      else
        let s = add_by_sequence p now node val s;
            e = (case map_of (vi_seq_enforcers s) node of Some e \<Rightarrow> e | None \<Rightarrow> se_default);
            (advanced, e) = se_try_advance now (vd_seq val) p e;
            s = s\<lparr>vi_seq_enforcers := AList.update node e (vi_seq_enforcers s)\<rparr>
        in if \<not> advanced then
             bind_outcome (expect (am_get (vd_seq val) (vi_by_sequence s))) (\<lambda>entry.
               Done (seq_violation entry node val, s))
           else
             let m = am_get_or_insert (vd_ledger_id val) now [] (vi_by_ledger s);
                 entry = (case am_get (vd_ledger_id val) m of Some e \<Rightarrow> e | None \<Rightarrow> []);
                 s = s\<lparr>vi_by_ledger := am_put (vd_ledger_id val) (AList.update node val entry) m\<rparr>
             in add_current L ad node val s)"

definition set_seq_to_keep :: "nat \<Rightarrow> nat \<Rightarrow> ('i, 'n, 'k, 'l) val_inner \<Rightarrow> ('i, 'n, 'k, 'l) val_inner outcome" where
  "set_seq_to_keep low high s = (if low < high then Done (s\<lparr>vi_keep := Some (low, high)\<rparr>) else Panic)"


definition in_range :: "nat \<times> nat \<Rightarrow> nat \<Rightarrow> bool" where
  "in_range r q \<longleftrightarrow> fst r \<le> q \<and> q < snd r"

text \<open>The protected range is touched shortly before it would expire: the sets of ledgers by the sequence
  number of their first validation, the sets of sequence numbers by the number.\<close>

definition keep_refresh ::
  "validation_parms \<Rightarrow> instant \<Rightarrow> nat \<times> nat \<Rightarrow> ('i, 'n, 'k, 'l) val_inner \<Rightarrow> ('i, 'n, 'k, 'l) val_inner" where
  "keep_refresh p now r s =
     (let refresh_due = (case vi_next_keep_refresh s of Some t \<Rightarrow> t \<le> now | None \<Rightarrow> True)
      in if \<not> refresh_due then s
         else let ledgers = map fst (filter (\<lambda>(_, vs). case vs of [] \<Rightarrow> False | (_, v) # _ \<Rightarrow> in_range r (vd_seq v))
                    (am_entries (vi_by_ledger s)));
                  seqs = filter (in_range r) (map fst (am_entries (vi_by_sequence s)))
              in s\<lparr>vi_next_keep_refresh := Some (now + (vp_set_expires p - vp_freshness p)),
                   vi_by_ledger := fold (\<lambda>k. am_touch k now) ledgers (vi_by_ledger s),
                   vi_by_sequence := fold (\<lambda>k. am_touch k now) seqs (vi_by_sequence s)\<rparr>)"

definition val_expire :: "validation_parms \<Rightarrow> instant \<Rightarrow> ('i, 'n, 'k, 'l) val_inner \<Rightarrow> ('i, 'n, 'k, 'l) val_inner" where
  "val_expire p now s =
     (let s = (case vi_keep s of Some r \<Rightarrow> keep_refresh p now r s | None \<Rightarrow> s)
      in s\<lparr>vi_by_ledger := am_expire now (vp_set_expires p) None (vi_by_ledger s),
           vi_by_sequence := am_expire now (vp_set_expires p) None (vi_by_sequence s)\<rparr>)"

section \<open>Changes of trust\<close>

definition trust_node ::
  "('l, 'i::linorder) trie_ledger_ops \<Rightarrow> ('i, 'l) val_adaptor \<Rightarrow> 'n list \<Rightarrow> 'n list \<Rightarrow> 'n \<Rightarrow> ('i, 'n, 'k, 'l) val_inner \<Rightarrow>
   ('i, 'n, 'k, 'l) val_inner outcome" where
  "trust_node L ad added removed node s =
     (if node \<in> set added then
        bind_outcome (expect (map_of (vi_current s) node)) (\<lambda>v.
          let v = v\<lparr>vd_trusted := True\<rparr>
          in update_trie_validation L ad node v None (s\<lparr>vi_current := AList.update node v (vi_current s)\<rparr>))
      else if node \<in> set removed then
        bind_outcome (expect (map_of (vi_current s) node)) (\<lambda>v.
          let v = v\<lparr>vd_trusted := False\<rparr>
          in remove_trie L node v (s\<lparr>vi_current := AList.update node v (vi_current s)\<rparr>))
      else Done s)"

definition trust_entry :: "'n list \<Rightarrow> 'n list \<Rightarrow> 'n \<times> ('i, 'n, 'k) validation \<Rightarrow> 'n \<times> ('i, 'n, 'k) validation" where
  "trust_entry added removed e =
     (if fst e \<in> set added then (fst e, (snd e)\<lparr>vd_trusted := True\<rparr>)
      else if fst e \<in> set removed then (fst e, (snd e)\<lparr>vd_trusted := False\<rparr>)
      else e)"

definition trust_changed ::
  "('l, 'i::linorder) trie_ledger_ops \<Rightarrow> ('i, 'l) val_adaptor \<Rightarrow> 'n list \<Rightarrow> 'n list \<Rightarrow> ('i, 'n, 'k, 'l) val_inner \<Rightarrow>
   ('i, 'n, 'k, 'l) val_inner outcome" where
  "trust_changed L ad added removed s =
     bind_outcome (fold_outcome (trust_node L ad added removed) (map fst (vi_current s)) s) (\<lambda>s.
       Done (s\<lparr>vi_by_ledger := (vi_by_ledger s)
                \<lparr>am_entries := map (\<lambda>(i, vs). (i, map (trust_entry added removed) vs)) (am_entries (vi_by_ledger s))\<rparr>\<rparr>))"

section \<open>The preferred ledger\<close>

text \<open>\<open>Iterator::max_by\<close> keeps the last of the largest elements.\<close>

definition max_by :: "('a \<Rightarrow> 'b::linorder) \<Rightarrow> 'a list \<Rightarrow> 'a option" where
  "max_by f xs = foldl (\<lambda>best x. case best of None \<Rightarrow> Some x | Some b \<Rightarrow> if f b \<le> f x then Some x else Some b) None xs"

definition acquiring_preferred :: "((nat \<times> 'i::linorder) \<times> 'n list) list \<Rightarrow> (nat \<times> 'i) option" where
  "acquiring_preferred m = map_option fst (max_by (\<lambda>(key, ns). (length ns, snd key)) m)"

text \<open>The choice between the local ledger and the tip that the trie prefers.\<close>

definition choose_working ::
  "('l, 'i) trie_ledger_ops \<Rightarrow> 'l \<Rightarrow> ('l, 'i) span_tip \<Rightarrow> (nat \<times> 'i) outcome" where
  "choose_working L cur tip =
     bind_outcome (if st_seq tip = tl_seq L cur + 1
         then bind_outcome (st_ancestor L tip (tl_seq L cur)) (\<lambda>x. Done (x = led_id L cur)) else Done False) (\<lambda>parent.
       Done (if parent then (tl_seq L cur, led_id L cur)
         else if tl_seq L cur < st_seq tip then (st_seq tip, st_id tip)
         else if tl_ancestor L cur (st_seq tip) \<noteq> st_id tip then (st_seq tip, st_id tip)
         else (tl_seq L cur, led_id L cur)))"

definition val_get_preferred ::
  "('l, 'i::linorder) trie_ledger_ops \<Rightarrow> validation_parms \<Rightarrow> ('i, 'l) val_adaptor \<Rightarrow> 'l \<Rightarrow> ('i, 'n, 'k, 'l) val_inner \<Rightarrow>
   ((nat \<times> 'i) option \<times> ('i, 'n, 'k, 'l) val_inner) outcome" where
  "val_get_preferred L p ad cur s =
     bind_outcome (with_trie L p ad (trie_get_preferred L (se_largest (vi_local_seq s))) s) (\<lambda>(preferred, s).
       case preferred of
         None \<Rightarrow> Done (acquiring_preferred (vi_acquiring s), s)
       | Some tip \<Rightarrow> bind_outcome (choose_working L cur tip) (\<lambda>r. Done (Some r, s)))"

definition get_preferred_min_seq ::
  "('l, 'i::linorder) trie_ledger_ops \<Rightarrow> validation_parms \<Rightarrow> ('i, 'l) val_adaptor \<Rightarrow> 'l \<Rightarrow> nat \<Rightarrow> ('i, 'n, 'k, 'l) val_inner \<Rightarrow>
   ('i \<times> ('i, 'n, 'k, 'l) val_inner) outcome" where
  "get_preferred_min_seq L p ad cur min_valid_seq s =
     bind_outcome (val_get_preferred L p ad cur s) (\<lambda>(r, s).
       Done (case r of
               Some (q, i) \<Rightarrow> if min_valid_seq \<le> q then i else led_id L cur
             | None \<Rightarrow> led_id L cur, s))"

datatype lcl_working_source = WorkTrie | WorkAcquiring | WorkNone

datatype lcl_selection_source = SelWorking | SelLocalBelowMinSeq | SelPeer | SelLocal

record 'i lcl_diagnostic =
  ld_trie_preferred :: "(nat \<times> 'i) option"
  ld_acquiring_preferred :: "(nat \<times> 'i) option"
  ld_working_preferred :: "(nat \<times> 'i) option"
  ld_acquired_recovery_candidate :: "(nat \<times> 'i) option"
  ld_acquired_recovery_peer_support :: "nat option"
  ld_recovery_candidate :: "(nat \<times> 'i) option"
  ld_recovery_support :: "nat option"
  ld_recovery_peer_support :: "nat option"
  ld_working_source :: lcl_working_source
  ld_selection_source :: lcl_selection_source
  ld_selected :: 'i
  ld_peer_preferred :: "('i \<times> nat) option"
  ld_peer_lcl_entry_count :: nat
  ld_current_validation_count :: nat
  ld_current_trusted_count :: nat
  ld_current_trusted_full_count :: nat
  ld_trie_ledger_count :: nat
  ld_acquiring_entry_count :: nat
  ld_acquiring_waiter_count :: nat

text \<open>The waiters of a key whose current validation is a trusted full one for exactly that key.\<close>

definition exact_signers ::
  "('n \<times> ('i, 'n, 'k) validation) list \<Rightarrow> nat \<times> 'i \<Rightarrow> 'n list \<Rightarrow> 'n list" where
  "exact_signers cur key ns =
     filter (\<lambda>n. case map_of cur n of
         Some v \<Rightarrow> vd_trusted v \<and> vd_full v \<and> vd_seq v = fst key \<and> vd_ledger_id v = snd key
       | None \<Rightarrow> False) ns"

definition quorum_candidate ::
  "('i::linorder, 'n, 'k, 'l) val_inner \<Rightarrow> nat \<Rightarrow> (nat \<times> 'i \<times> nat) option" where
  "quorum_candidate s full_count =
     max_by (\<lambda>(q, i, support). (support, q, i))
       (concat (map (\<lambda>(key, ns).
          let support = length (exact_signers (vi_current s) key ns)
          in if full_count div 2 < support then [(fst key, snd key, support)] else [])
        (vi_acquiring s)))"

definition recovery_advice ::
  "('l, 'i) trie_ledger_ops \<Rightarrow> 'l \<Rightarrow> nat \<Rightarrow> ('i \<times> nat) list \<Rightarrow> nat \<times> 'i \<times> nat \<Rightarrow> (nat \<times> 'i \<times> nat \<times> nat) option" where
  "recovery_advice L lcl min_seq peer_counts c =
     (case c of (q, i, support) \<Rightarrow>
        if min_seq \<le> q \<and> tl_seq L lcl < q \<and> tl_seq L lcl < q - 1 \<and> i \<noteq> led_id L lcl
        then Some (q, i, support, case map_of peer_counts i of Some n \<Rightarrow> n | None \<Rightarrow> 0) else None)"

text \<open>The working candidate and its source: the trie, else the acquisition queue, else none.\<close>

definition lcl_working ::
  "('l, 'i::linorder) trie_ledger_ops \<Rightarrow> 'l \<Rightarrow> ('l, 'i) span_tip option \<Rightarrow> (nat \<times> 'i) option \<Rightarrow>
   ((nat \<times> 'i) option \<times> lcl_working_source) outcome" where
  "lcl_working L lcl trie_preferred acquiring =
     (case trie_preferred of
        Some tip \<Rightarrow> bind_outcome (choose_working L lcl tip) (\<lambda>r. Done (Some r, WorkTrie))
      | None \<Rightarrow> (case acquiring of Some k \<Rightarrow> Done (Some k, WorkAcquiring) | None \<Rightarrow> Done (None, WorkNone)))"

text \<open>A trusted preference below the minimum keeps the local ledger; the peers count only without one.\<close>

definition lcl_select ::
  "('l, 'i) trie_ledger_ops \<Rightarrow> 'l \<Rightarrow> nat \<Rightarrow> (nat \<times> 'i) option \<Rightarrow> ('i \<times> nat) option \<Rightarrow> 'i \<times> lcl_selection_source" where
  "lcl_select L lcl min_seq working peer_preferred =
     (case working of
        Some (q, i) \<Rightarrow> if min_seq \<le> q then (i, SelWorking) else (led_id L lcl, SelLocalBelowMinSeq)
      | None \<Rightarrow> (case peer_preferred of Some (i, _) \<Rightarrow> (i, SelPeer) | None \<Rightarrow> (led_id L lcl, SelLocal)))"

definition lcl_decide ::
  "('l, 'i::linorder) trie_ledger_ops \<Rightarrow> 'l \<Rightarrow> nat \<Rightarrow> ('i \<times> nat) list \<Rightarrow> ('l, 'i) span_tip option \<Rightarrow>
   (nat \<times> 'i) option \<times> lcl_working_source \<Rightarrow> ('i, 'n, 'k, 'l) val_inner \<Rightarrow> 'i lcl_diagnostic \<times> ('i, 'n, 'k, 'l) val_inner" where
  "lcl_decide L lcl min_seq peer_counts trie_preferred work s =
     (let (working, source) = work;
          peer_preferred = max_by (\<lambda>(i, n). (n, i)) peer_counts;
          full_count = length (filter (\<lambda>(_, v). vd_trusted v \<and> vd_full v) (vi_current s));
          advice = Option.bind (quorum_candidate s full_count) (recovery_advice L lcl min_seq peer_counts);
          (selected, selection) = lcl_select L lcl min_seq working peer_preferred;
          recovery = (if source = WorkTrie \<and> selected = led_id L lcl then advice else None);
          provenance = map_option (\<lambda>(q, i, _, _).
            \<lparr>rp_key = (q, i), rp_nodes = exact_signers (vi_current s) (q, i)
               (case map_of (vi_acquiring s) (q, i) of Some ns \<Rightarrow> ns | None \<Rightarrow> [])\<rparr>) recovery;
          s = observe_validation_recovery provenance s
      in (\<lparr>ld_trie_preferred = map_option (\<lambda>t. (st_seq t, st_id t)) trie_preferred,
           ld_acquiring_preferred = acquiring_preferred (vi_acquiring s), ld_working_preferred = working,
           ld_acquired_recovery_candidate = None, ld_acquired_recovery_peer_support = None,
           ld_recovery_candidate = map_option (\<lambda>(q, i, _, _). (q, i)) recovery,
           ld_recovery_support = map_option (\<lambda>(_, _, n, _). n) recovery,
           ld_recovery_peer_support = map_option (\<lambda>(_, _, _, n). n) recovery,
           ld_working_source = source, ld_selection_source = selection, ld_selected = selected,
           ld_peer_preferred = peer_preferred, ld_peer_lcl_entry_count = length peer_counts,
           ld_current_validation_count = length (vi_current s),
           ld_current_trusted_count = length (filter (\<lambda>(_, v). vd_trusted v) (vi_current s)),
           ld_current_trusted_full_count = full_count, ld_trie_ledger_count = length (vi_last_ledger s),
           ld_acquiring_entry_count = length (vi_acquiring s),
           ld_acquiring_waiter_count = sum_list (map (\<lambda>(_, ns). length ns) (vi_acquiring s))\<rparr>, s))"

definition get_preferred_lcl_diagnostic ::
  "('l, 'i::linorder) trie_ledger_ops \<Rightarrow> validation_parms \<Rightarrow> ('i, 'l) val_adaptor \<Rightarrow> 'l \<Rightarrow> nat \<Rightarrow> ('i \<times> nat) list \<Rightarrow>
   ('i, 'n, 'k, 'l) val_inner \<Rightarrow> ('i lcl_diagnostic \<times> ('i, 'n, 'k, 'l) val_inner) outcome" where
  "get_preferred_lcl_diagnostic L p ad lcl min_seq peer_counts s =
     bind_outcome (with_trie L p ad (trie_get_preferred L (se_largest (vi_local_seq s))) s) (\<lambda>(trie_preferred, s).
     bind_outcome (lcl_working L lcl trie_preferred (acquiring_preferred (vi_acquiring s))) (\<lambda>work.
     Done (lcl_decide L lcl min_seq peer_counts trie_preferred work s)))"

definition get_preferred_lcl ::
  "('l, 'i::linorder) trie_ledger_ops \<Rightarrow> validation_parms \<Rightarrow> ('i, 'l) val_adaptor \<Rightarrow> 'l \<Rightarrow> nat \<Rightarrow> ('i \<times> nat) list \<Rightarrow>
   ('i, 'n, 'k, 'l) val_inner \<Rightarrow> ('i \<times> ('i, 'n, 'k, 'l) val_inner) outcome" where
  "get_preferred_lcl L p ad lcl min_seq peer_counts s =
     bind_outcome (get_preferred_lcl_diagnostic L p ad lcl min_seq peer_counts s) (\<lambda>(d, s). Done (ld_selected d, s))"

section \<open>Queries\<close>

definition get_nodes_after ::
  "('l, 'i::linorder) trie_ledger_ops \<Rightarrow> validation_parms \<Rightarrow> ('i, 'l) val_adaptor \<Rightarrow> 'l \<Rightarrow> 'i \<Rightarrow> ('i, 'n, 'k, 'l) val_inner \<Rightarrow>
   (nat \<times> ('i, 'n, 'k, 'l) val_inner) outcome" where
  "get_nodes_after L p ad l ledger_id s =
     (if led_id L l = ledger_id then
        with_trie L p ad (\<lambda>t.
          bind_outcome (trie_branch_support L l t) (\<lambda>b.
          bind_outcome (trie_tip_support L (led_id L l) t) (\<lambda>n. u32_sub b n))) s
      else Done (length (filter (\<lambda>(_, m). 0 < tl_seq L m \<and> tl_ancestor L m (tl_seq L m - 1) = ledger_id) (vi_last_ledger s)), s))"

definition current_trusted ::
  "('l, 'i::linorder) trie_ledger_ops \<Rightarrow> validation_parms \<Rightarrow> ('i, 'l) val_adaptor \<Rightarrow> ('i, 'n, 'k, 'l) val_inner \<Rightarrow>
   (('i, 'n, 'k) validation list \<times> ('i, 'n, 'k, 'l) val_inner) outcome" where
  "current_trusted L p ad s =
     bind_outcome (current_live L p ad s) (\<lambda>s.
       Done (map snd (filter (\<lambda>(_, v). vd_trusted v \<and> vd_full v) (vi_current s)), s))"

definition get_current_node_ids ::
  "('l, 'i::linorder) trie_ledger_ops \<Rightarrow> validation_parms \<Rightarrow> ('i, 'l) val_adaptor \<Rightarrow> ('i, 'n, 'k, 'l) val_inner \<Rightarrow>
   ('n list \<times> ('i, 'n, 'k, 'l) val_inner) outcome" where
  "get_current_node_ids L p ad s =
     bind_outcome (current_live L p ad s) (\<lambda>s. Done (map fst (vi_current s), s))"

definition trusted_full_of :: "'i \<Rightarrow> ('i, 'n, 'k, 'l) val_inner \<Rightarrow> ('i, 'n, 'k) validation list" where
  "trusted_full_of ledger_id s =
     (case am_get ledger_id (vi_by_ledger s) of
        Some m \<Rightarrow> filter (\<lambda>v. vd_trusted v \<and> vd_full v) (map snd m) | None \<Rightarrow> [])"

definition touch_ledger :: "'i \<Rightarrow> instant \<Rightarrow> ('i, 'n, 'k, 'l) val_inner \<Rightarrow> ('i, 'n, 'k, 'l) val_inner" where
  "touch_ledger ledger_id now s = s\<lparr>vi_by_ledger := am_touch ledger_id now (vi_by_ledger s)\<rparr>"

definition num_trusted_for_ledger ::
  "instant \<Rightarrow> 'i \<Rightarrow> ('i, 'n, 'k, 'l) val_inner \<Rightarrow> nat \<times> ('i, 'n, 'k, 'l) val_inner" where
  "num_trusted_for_ledger now ledger_id s =
     (let s = touch_ledger ledger_id now s in (length (trusted_full_of ledger_id s), s))"

definition get_trusted_for_ledger ::
  "instant \<Rightarrow> 'i \<Rightarrow> nat \<Rightarrow> ('i, 'n, 'k, 'l) val_inner \<Rightarrow> ('i, 'n, 'k) validation list \<times> ('i, 'n, 'k, 'l) val_inner" where
  "get_trusted_for_ledger now ledger_id q s =
     (let s = touch_ledger ledger_id now s in (filter (\<lambda>v. vd_seq v = q) (trusted_full_of ledger_id s), s))"

definition val_fees :: "instant \<Rightarrow> 'i \<Rightarrow> u32 \<Rightarrow> ('i, 'n, 'k, 'l) val_inner \<Rightarrow> u32 list \<times> ('i, 'n, 'k, 'l) val_inner" where
  "val_fees now ledger_id base_fee s =
     (let s = touch_ledger ledger_id now s
      in (map (\<lambda>v. case vd_load_fee v of Some f \<Rightarrow> f | None \<Rightarrow> base_fee) (trusted_full_of ledger_id s), s))"

definition val_flush :: "('i, 'n, 'k, 'l) val_inner \<Rightarrow> ('i, 'n, 'k, 'l) val_inner" where
  "val_flush s = s\<lparr>vi_current := [], vi_anchor := None, vi_candidate := None\<rparr>"

text \<open>\<open>saturating_add\<close> on the seconds of the clock.\<close>

definition sat_add32 :: "net_time \<Rightarrow> u32 \<Rightarrow> net_time" where
  "sat_add32 a b = (if unat a + unat b < 2 ^ 32 then a + b else u32_max)"

definition laggards_of ::
  "validation_parms \<Rightarrow> net_time \<Rightarrow> nat \<Rightarrow> ('i, 'n, 'k) validation list \<Rightarrow> 'k list \<Rightarrow> nat \<times> 'k list" where
  "laggards_of p now q vs trusted_keys =
     fold (\<lambda>v (n, ks).
       if now < sat_add32 (vd_seen_time v) (of_nat (as_secs (vp_freshness p))) \<and> vd_key v \<in> set ks
       then (if vd_seq v < q then n + 1 else n, removeAll (vd_key v) ks) else (n, ks)) vs (0, trusted_keys)"

definition laggards ::
  "('l, 'i::linorder) trie_ledger_ops \<Rightarrow> validation_parms \<Rightarrow> ('i, 'l) val_adaptor \<Rightarrow> nat \<Rightarrow> 'k list \<Rightarrow>
   ('i, 'n, 'k, 'l) val_inner \<Rightarrow> ((nat \<times> 'k list) \<times> ('i, 'n, 'k, 'l) val_inner) outcome" where
  "laggards L p ad q trusted_keys s =
     bind_outcome (current_live L p ad s) (\<lambda>s.
       Done (laggards_of p (ad_now ad) q (map snd (vi_current s)) trusted_keys, s))"

end
