(* ===== verification/Validation_Support.thy ===== *)
theory Validation_Support
  imports Validations
begin

text \<open>
  The trie inside the tracker of validations counts nodes: the support of a ledger is the number of nodes
  whose last ledger it is. Every operation returns without a panic and keeps that.
\<close>

section \<open>Outcomes that return\<close>

definition runs :: "'a outcome \<Rightarrow> ('a \<Rightarrow> bool) \<Rightarrow> bool" where
  "runs r P \<longleftrightarrow> (\<exists>x. r = Done x \<and> P x)"

lemma runs_Done [simp]: "runs (Done x) P \<longleftrightarrow> P x"
  by (simp add: runs_def)

lemma runs_bind: "runs r P \<Longrightarrow> (\<And>x. P x \<Longrightarrow> runs (f x) Q) \<Longrightarrow> runs (bind_outcome r f) Q"
  by (auto simp: runs_def)

lemma runs_mono: "runs r P \<Longrightarrow> (\<And>x. P x \<Longrightarrow> Q x) \<Longrightarrow> runs r Q"
  by (auto simp: runs_def)

lemma runs_fold:
  assumes "\<And>x s. x \<in> set xs \<Longrightarrow> I s \<Longrightarrow> runs (f x s) I" and "I s"
  shows "runs (fold_outcome f xs s) I"
  using assms
proof (induction xs arbitrary: s)
  case (Cons x xs)
  show ?case
    using Cons.prems(1) [of x s] Cons.prems by (auto intro!: runs_bind [of _ I] Cons.IH)
qed simp

section \<open>Counting nodes\<close>

definition tally :: "('n \<times> 'l) list \<Rightarrow> 'l \<Rightarrow> nat" where
  "tally m l = card {n. map_of m n = Some l}"

lemma finite_tally [simp]: "finite {n. map_of m n = Some l}"
  by (rule finite_subset [of _ "dom (map_of m)"]) (auto simp: finite_dom_map_of)

lemma tally_cong: "map_of m = map_of m' \<Longrightarrow> tally m = tally m'"
  by (simp add: tally_def fun_eq_iff)

lemma tally_Nil [simp]: "tally [] = (\<lambda>_. 0)"
  by (simp add: tally_def fun_eq_iff)

lemma tally_update:
  assumes "map_of m n = None"
  shows "tally (AList.update n l m) = (tally m)(l := tally m l + 1)"
proof
  fix k
  have "{x. map_of (AList.update n l m) x = Some k} = (if k = l then insert n {x. map_of m x = Some k} else {x. map_of m x = Some k})"
    using assms by auto
  then show "tally (AList.update n l m) k = ((tally m)(l := tally m l + 1)) k"
    using assms by (simp add: tally_def)
qed

lemma tally_delete:
  assumes "map_of m n = Some p"
  shows "tally (AList.delete n m) = (tally m)(p := tally m p - 1)"
proof
  fix k
  have "{x. map_of (AList.delete n m) x = Some k} = {x. map_of m x = Some k} - {n}"
    by auto
  then show "tally (AList.delete n m) k = ((tally m)(p := tally m p - 1)) k"
    using assms by (simp add: tally_def)
qed

lemma tally_total:
  assumes "finite K" and "\<And>n l. map_of m n = Some l \<Longrightarrow> l \<in> K"
  shows "(\<Sum>l \<in> K. tally m l) = card (dom (map_of m))"
proof -
  have "dom (map_of m) = (\<Union>l \<in> K. {n. map_of m n = Some l})"
    using assms(2) by auto
  moreover have "card (\<Union>l \<in> K. {n. map_of m n = Some l}) = (\<Sum>l \<in> K. card {n. map_of m n = Some l})"
    using assms(1) by (intro card_UN_disjoint) auto
  ultimately show ?thesis
    by (simp add: tally_def)
qed

section \<open>The invariant\<close>

definition val_ok ::
  "('l, 'i::linorder) trie_ledger_ops \<Rightarrow> ('l \<Rightarrow> bool) \<Rightarrow> 'l set \<Rightarrow> 'n set \<Rightarrow> ('i, 'n, 'k, 'l) val_inner \<Rightarrow> bool" where
  "val_ok L ok K U s \<longleftrightarrow>
     records L ok K (tally (vi_last_ledger s)) (vi_trie s) \<and>
     (\<forall>n l. map_of (vi_last_ledger s) n = Some l \<longrightarrow> n \<in> U \<and> l \<in> K) \<and>
     bt_ok (vi_acquiring s) \<and> (\<forall>k ns. map_of (vi_acquiring s) k = Some ns \<longrightarrow> ns \<noteq> [] \<and> set ns \<subseteq> U) \<and>
     keys (vi_current s) \<subseteq> U"

text \<open>The setting: ledgers that are known, and fewer nodes than \<open>u32\<close> counts.\<close>

definition val_setting ::
  "('l, 'i::linorder) trie_ledger_ops \<Rightarrow> ('l \<Rightarrow> bool) \<Rightarrow> 'l set \<Rightarrow> 'n set \<Rightarrow> bool" where
  "val_setting L ok K U \<longleftrightarrow> trie_ledger L \<and> known L ok K \<and> finite U \<and> card U < 2 ^ 32"

definition serves :: "('l, 'i) trie_ledger_ops \<Rightarrow> 'l set \<Rightarrow> ('i, 'l) val_adaptor \<Rightarrow> bool" where
  "serves L K ad \<longleftrightarrow> (\<forall>x l. ad_acquire ad x = Some l \<longrightarrow> l \<in> K \<and> led_id L l = x)"

lemma val_okD:
  assumes "val_ok L ok K U s"
  shows "records L ok K (tally (vi_last_ledger s)) (vi_trie s)"
    and "map_of (vi_last_ledger s) n = Some l \<Longrightarrow> n \<in> U" and "map_of (vi_last_ledger s) n = Some l \<Longrightarrow> l \<in> K"
    and "bt_ok (vi_acquiring s)" and "map_of (vi_acquiring s) k = Some ns \<Longrightarrow> ns \<noteq> []"
    and "map_of (vi_acquiring s) k = Some ns \<Longrightarrow> x \<in> set ns \<Longrightarrow> x \<in> U" and "keys (vi_current s) \<subseteq> U"
  using assms unfolding val_ok_def by blast+

text \<open>The invariant does not read the sets, the enforcers or the latch.\<close>

lemma val_ok_frame [simp]:
  "val_ok L ok K U (s\<lparr>vi_local_seq := e\<rparr>) = val_ok L ok K U s"
  "val_ok L ok K U (s\<lparr>vi_seq_enforcers := es\<rparr>) = val_ok L ok K U s"
  "val_ok L ok K U (s\<lparr>vi_by_ledger := bl\<rparr>) = val_ok L ok K U s"
  "val_ok L ok K U (s\<lparr>vi_by_sequence := bs\<rparr>) = val_ok L ok K U s"
  "val_ok L ok K U (s\<lparr>vi_keep := kp\<rparr>) = val_ok L ok K U s"
  "val_ok L ok K U (s\<lparr>vi_next_keep_refresh := nx\<rparr>) = val_ok L ok K U s"
  "val_ok L ok K U (s\<lparr>vi_anchor := a\<rparr>) = val_ok L ok K U s"
  "val_ok L ok K U (s\<lparr>vi_candidate := c\<rparr>) = val_ok L ok K U s"
  by (simp_all add: val_ok_def)

lemma val_ok_current: "val_ok L ok K U s \<Longrightarrow> keys c \<subseteq> U \<Longrightarrow> val_ok L ok K U (s\<lparr>vi_current := c\<rparr>)"
  by (simp add: val_ok_def)

lemma val_ok_acquiring:
  assumes "val_ok L ok K U s" and "bt_ok m" and "\<And>k ns. map_of m k = Some ns \<Longrightarrow> ns \<noteq> [] \<and> set ns \<subseteq> U"
  shows "val_ok L ok K U (s\<lparr>vi_acquiring := m\<rparr>)"
  using assms unfolding val_ok_def by simp

lemma val_ok_last:
  assumes "val_ok L ok K U s" and "records L ok K (tally m) t" and "\<And>n l. map_of m n = Some l \<Longrightarrow> n \<in> U \<and> l \<in> K"
  shows "val_ok L ok K U (s\<lparr>vi_last_ledger := m, vi_trie := t\<rparr>)"
  using assms unfolding val_ok_def by simp

lemma val_ok_drop:
  assumes ok: "val_ok L ok K U s"
  shows "val_ok L ok K U (s\<lparr>vi_acquiring := acq_drop key node (vi_acquiring s)\<rparr>)"
proof (rule val_ok_acquiring [OF ok])
  note a = val_okD(4-6) [OF ok]
  show "bt_ok (acq_drop key node (vi_acquiring s))"
    using a(1) by (simp add: acq_drop_def split: option.split)
  show "ns \<noteq> [] \<and> set ns \<subseteq> U" if "map_of (acq_drop key node (vi_acquiring s)) k = Some ns" for k ns
    using that a(2) [of k ns] a(3) [of key] a(3) [of k ns] by (auto simp: acq_drop_def split: option.splits if_splits)
qed

lemma val_ok_forget:
  assumes ok: "val_ok L ok K U s"
  shows "val_ok L ok K U (s\<lparr>vi_acquiring := bt_remove key (vi_acquiring s)\<rparr>)"
proof (rule val_ok_acquiring [OF ok])
  show "ns \<noteq> [] \<and> set ns \<subseteq> U" if "map_of (bt_remove key (vi_acquiring s)) k = Some ns" for k ns
    using that val_okD(5,6) [OF ok, of k ns] by (auto split: if_splits)
qed (simp add: val_okD(4) [OF ok])

lemma val_ok_delete: "val_ok L ok K U s \<Longrightarrow> val_ok L ok K U (s\<lparr>vi_current := AList.delete n (vi_current s)\<rparr>)"
  by (rule val_ok_current) (use val_okD(7) [of L ok K U s] in \<open>auto simp: in_delete_iff\<close>)

lemma val_ok_put: "val_ok L ok K U s \<Longrightarrow> n \<in> U \<Longrightarrow> val_ok L ok K U (s\<lparr>vi_current := AList.update n v (vi_current s)\<rparr>)"
  by (rule val_ok_current) (use val_okD(7) [of L ok K U s] in simp_all)

lemma val_ok_prune [simp]: "val_ok L ok K U (prune_validation_recovery_signer key node s) = val_ok L ok K U s"
  by (simp add: prune_validation_recovery_signer_def split: option.split)

lemma val_ok_observe [simp]: "val_ok L ok K U (observe_validation_recovery ob s) = val_ok L ok K U s"
  by (simp add: observe_validation_recovery_def split: option.split)

lemma val_ok_reconcile [simp]: "val_ok L ok K U (reconcile_validation_recovery_latch a c s) = val_ok L ok K U s"
  by (simp add: reconcile_validation_recovery_latch_def Let_def split_beta)

lemma val_ok_take [simp]: "val_ok L ok K U (snd (take_validation_recovery_nodes key s)) = val_ok L ok K U s"
  by (simp add: take_validation_recovery_nodes_def split: option.split)


section \<open>Moving support\<close>

lemma settingD:
  assumes "val_setting L ok K U"
  shows "trie_ledger L" and "known L ok K" and "finite U" and "card U < 2 ^ 32" and "finite K" and "chained L ok"
  using assms by (simp_all add: val_setting_def known_def)

text \<open>One unit of support less for the last ledger of a node.\<close>

lemma trie_remove_last:
  assumes set: "val_setting L ok K U" and ok: "val_ok L ok K U s" and n: "map_of (vi_last_ledger s) n = Some l"
  obtains r t where "trie_remove L (led_id L l) (tl_seq L l) 1 (vi_trie s) = Done (r, t)"
    and "records L ok K (tally (AList.delete n (vi_last_ledger s))) t"
proof -
  note v = val_okD [OF ok]
  obtain t where t: "trie_remove L (led_id L l) (tl_seq L l) 1 (vi_trie s) = Done (tally (vi_last_ledger s) l \<noteq> 0, t)"
    "records L ok K ((tally (vi_last_ledger s))(l := tally (vi_last_ledger s) l - 1)) t"
    using records_remove [OF v(1) settingD(2) [OF set] v(3) [OF n], of 1] by (auto simp: led_id_def)
  show thesis
    using that [OF t(1)] t(2) tally_delete [OF n] by simp
qed

lemma val_ok_unlink:
  assumes ok: "val_ok L ok K U s" and rec: "records L ok K (tally (AList.delete n (vi_last_ledger s))) t"
  shows "val_ok L ok K U (s\<lparr>vi_last_ledger := AList.delete n (vi_last_ledger s), vi_trie := t\<rparr>)"
  by (rule val_ok_last [OF ok rec]) (use val_okD(2,3) [OF ok] in \<open>auto split: if_splits\<close>)

lemma update_trie_ledger_ok:
  assumes set: "val_setting L ok K U" and ok: "val_ok L ok K U s" and n: "n \<in> U" and l: "l \<in> K"
  shows "runs (update_trie_ledger L n l s) (\<lambda>s'. val_ok L ok K U s' \<and>
    (\<exists>t. s' = s\<lparr>vi_last_ledger := AList.update n l (vi_last_ledger s), vi_trie := t\<rparr>))"
proof -
  note v = val_okD [OF ok] and S = settingD [OF set]
  let ?m = "vi_last_ledger s" let ?d = "AList.delete n ?m"
  have d: "\<And>k x. map_of ?d k = Some x \<Longrightarrow> k \<in> U \<and> x \<in> K" "n \<notin> dom (map_of ?d)"
    using v(2,3) by (auto split: if_splits)
  obtain t1 where t1: "(case map_of ?m n of None \<Rightarrow> Done (vi_trie s)
      | Some prior \<Rightarrow> bind_outcome (trie_remove L (led_id L prior) (tl_seq L prior) 1 (vi_trie s)) (\<lambda>(_, t). Done t)) = Done t1"
    "records L ok K (tally ?d) t1"
  proof (cases "map_of ?m n")
    case None
    then have "tally ?d = tally ?m"
      by (intro tally_cong) auto
    then show thesis
      using that None v(1) by simp
  next
    case (Some p)
    obtain r t where "trie_remove L (led_id L p) (tl_seq L p) 1 (vi_trie s) = Done (r, t)" "records L ok K (tally ?d) t"
      using trie_remove_last [OF set ok Some] by metis
    then show thesis
      using Some by (intro that [of t]) simp_all
  qed
  have "dom (map_of ?d) \<subseteq> U"
    using d(1) by fast
  then have "card (dom (map_of ?d)) < card U"
    using d(2) n by (intro psubset_card_mono [OF S(3)]) blast
  then have "(\<Sum>k \<in> K. tally ?d k) + 1 < 2 ^ 32"
    using tally_total [OF S(5), of ?d] d(1) S(4) by simp
  then obtain t2 where t2: "trie_insert L l 1 t1 = Done t2" "records L ok K ((tally ?d)(l := tally ?d l + 1)) t2"
    using trie_ledger.records_insert [OF S(1) t1(2) S(2) l, of 1] by auto
  have "tally (AList.update n l ?m) = tally (AList.update n l ?d)"
    by (intro tally_cong) auto
  then have rec: "records L ok K (tally (AList.update n l ?m)) t2"
    using t2(2) tally_update [of ?d n l] by simp
  have "val_ok L ok K U (s\<lparr>vi_last_ledger := AList.update n l ?m, vi_trie := t2\<rparr>)"
    by (rule val_ok_last [OF ok rec]) (use v(2,3) n l in \<open>auto split: if_splits\<close>)
  then show ?thesis
    by (auto simp: update_trie_ledger_def t1(1) t2(1) simp del: One_nat_def)
qed

lemma remove_trie_ok:
  assumes set: "val_setting L ok K U" and ok: "val_ok L ok K U s"
  shows "runs (remove_trie L n v s) (\<lambda>s'. val_ok L ok K U s' \<and> vi_current s' = vi_current s)"
proof -
  let ?key = "(vd_seq v, vd_ledger_id v)"
  define s1 where "s1 = prune_validation_recovery_signer ?key n s"
  define s2 where "s2 = s1\<lparr>vi_acquiring := acq_drop ?key n (vi_acquiring s1)\<rparr>"
  have "val_ok L ok K U s1" and cur: "vi_current s2 = vi_current s"
    using ok by (simp_all add: s1_def s2_def prune_validation_recovery_signer_def split: option.split)
  then have ok2: "val_ok L ok K U s2"
    unfolding s2_def by (intro val_ok_drop)
  have eq: "remove_trie L n v s = (case map_of (vi_last_ledger s2) n of None \<Rightarrow> Done s2
    | Some l \<Rightarrow> if led_id L l = vd_ledger_id v then
        bind_outcome (trie_remove L (led_id L l) (tl_seq L l) 1 (vi_trie s2)) (\<lambda>(_, t).
          Done (s2\<lparr>vi_last_ledger := AList.delete n (vi_last_ledger s2), vi_trie := t\<rparr>)) else Done s2)"
    by (simp only: remove_trie_def Let_def s1_def [symmetric] s2_def [symmetric])
  show ?thesis
  proof (cases "map_of (vi_last_ledger s2) n")
    case None
    then show ?thesis
      using ok2 cur by (simp add: eq)
  next
    case (Some l)
    obtain r t where t: "trie_remove L (led_id L l) (tl_seq L l) 1 (vi_trie s2) = Done (r, t)"
      "records L ok K (tally (AList.delete n (vi_last_ledger s2))) t"
      using trie_remove_last [OF set ok2 Some] by metis
    have "remove_trie L n v s = (if led_id L l = vd_ledger_id v
        then Done (s2\<lparr>vi_last_ledger := AList.delete n (vi_last_ledger s2), vi_trie := t\<rparr>) else Done s2)"
      by (simp only: eq Some option.case t(1) bind_outcome.simps prod.case)
    then show ?thesis
      using ok2 cur val_ok_unlink [OF ok2 t(2)] by simp
  qed
qed


lemma check_acquired_ok:
  assumes set: "val_setting L ok K U" and ad: "serves L K ad" and ok: "val_ok L ok K U s"
  shows "runs (check_acquired L ad s) (\<lambda>s'. val_ok L ok K U s' \<and> vi_current s' = vi_current s)"
  unfolding check_acquired_def
proof (rule runs_fold)
  fix key s1
  assume s1: "val_ok L ok K U s1 \<and> vi_current s1 = vi_current s"
  show "runs (case ad_acquire ad (snd key) of None \<Rightarrow> Done s1
    | Some l \<Rightarrow> bind_outcome (fold_outcome (\<lambda>node. update_trie_ledger L node l)
        (case map_of (vi_acquiring s1) key of Some ns \<Rightarrow> ns | None \<Rightarrow> []) s1)
        (\<lambda>s. Done (s\<lparr>vi_acquiring := bt_remove key (vi_acquiring s)\<rparr>)))
    (\<lambda>s'. val_ok L ok K U s' \<and> vi_current s' = vi_current s)"
  proof (cases "ad_acquire ad (snd key)")
    case None
    then show ?thesis
      using s1 by simp
  next
    case (Some l)
    let ?ns = "case map_of (vi_acquiring s1) key of Some ns \<Rightarrow> ns | None \<Rightarrow> []"
    have l: "l \<in> K"
      using ad Some by (simp add: serves_def)
    have ns: "x \<in> U" if "x \<in> set ?ns" for x
      using that val_okD(6) [of L ok K U s1 key] s1 by (cases "map_of (vi_acquiring s1) key") auto
    have "runs (fold_outcome (\<lambda>node. update_trie_ledger L node l) ?ns s1)
        (\<lambda>s'. val_ok L ok K U s' \<and> vi_current s' = vi_current s)"
      using s1
    proof (intro runs_fold)
      show "runs (update_trie_ledger L x l s2) (\<lambda>s'. val_ok L ok K U s' \<and> vi_current s' = vi_current s)"
        if "x \<in> set ?ns" "val_ok L ok K U s2 \<and> vi_current s2 = vi_current s" for x s2
        using update_trie_ledger_ok [OF set _ ns [OF that(1)] l, of s2] that(2) by (auto elim: runs_mono)
    qed
    then show ?thesis
      using Some by (auto intro!: runs_bind val_ok_forget)
  qed
qed (use ok in simp)

lemma acquire_or_wait_ok:
  assumes set: "val_setting L ok K U" and ad: "serves L K ad" and ok: "val_ok L ok K U s" and n: "n \<in> U"
  shows "runs (acquire_or_wait L ad n v s) (\<lambda>s'. val_ok L ok K U s' \<and> vi_current s' = vi_current s)"
proof -
  let ?key = "(vd_seq v, vd_ledger_id v)"
  note a = val_okD(4-6) [OF ok]
  have put: "val_ok L ok K U (s\<lparr>vi_acquiring := bt_insert ?key ns (vi_acquiring s)\<rparr>)" if "ns \<noteq> []" "set ns \<subseteq> U" for ns
    by (rule val_ok_acquiring [OF ok]) (use that a in \<open>auto split: if_splits\<close>)
  show ?thesis
  proof (cases "map_of (vi_acquiring s) ?key")
    case (Some ns)
    then have "List.insert n ns \<noteq> []" "set (List.insert n ns) \<subseteq> U"
      using a(3) [of ?key ns] n by (auto simp: List.insert_def)
    then show ?thesis
      using Some put by (simp add: acquire_or_wait_def Let_def)
  next
    case None
    show ?thesis
    proof (cases "ad_acquire ad (vd_ledger_id v)")
      case (Some l)
      then have "l \<in> K"
        using ad by (simp add: serves_def)
      then show ?thesis
        using None Some update_trie_ledger_ok [OF set ok n, of l] by (auto simp: acquire_or_wait_def Let_def elim: runs_mono)
    qed (use None put [of "[n]"] n in \<open>simp add: acquire_or_wait_def Let_def\<close>)
  qed
qed

lemma update_trie_validation_ok:
  assumes set: "val_setting L ok K U" and ad: "serves L K ad" and ok: "val_ok L ok K U s" and n: "n \<in> U" and "vd_trusted v"
  shows "runs (update_trie_validation L ad n v prior s) (\<lambda>s'. val_ok L ok K U s' \<and> vi_current s' = vi_current s)"
proof -
  define s1 where "s1 = (case prior of Some key \<Rightarrow> s\<lparr>vi_acquiring := acq_drop key n (vi_acquiring s)\<rparr> | None \<Rightarrow> s)"
  have "val_ok L ok K U s1" "vi_current s1 = vi_current s"
    using ok val_ok_drop [OF ok] by (simp_all add: s1_def split: option.split)
  then have "runs (bind_outcome (check_acquired L ad s1) (acquire_or_wait L ad n v))
      (\<lambda>s'. val_ok L ok K U s' \<and> vi_current s' = vi_current s)"
    using check_acquired_ok [OF set ad, of s1]
    by (auto intro!: runs_bind [of "check_acquired L ad s1"] runs_mono [OF acquire_or_wait_ok [OF set ad _ n]])
  then show ?thesis
    using assms(5) by (simp add: update_trie_validation_def s1_def Let_def)
qed

lemma current_live_ok:
  assumes set: "val_setting L ok K U" and ok: "val_ok L ok K U s"
  shows "runs (current_live L p ad s) (val_ok L ok K U)"
  unfolding current_live_def
proof (rule runs_fold)
  fix n s1
  assume ok1: "val_ok L ok K U s1"
  have "runs (case map_of (vi_current s1) n of Some v \<Rightarrow> remove_trie L n v s1 | None \<Rightarrow> Done s1) (val_ok L ok K U)"
    using ok1 by (auto split: option.split intro: runs_mono [OF remove_trie_ok [OF set ok1]])
  then show "runs (bind_outcome (case map_of (vi_current s1) n of Some v \<Rightarrow> remove_trie L n v s1 | None \<Rightarrow> Done s1)
      (\<lambda>s. Done (s\<lparr>vi_current := AList.delete n (vi_current s)\<rparr>))) (val_ok L ok K U)"
    by (rule runs_bind) (simp add: val_ok_delete)
qed (rule ok)

lemma with_trie_ok:
  assumes set: "val_setting L ok K U" and ad: "serves L K ad" and ok: "val_ok L ok K U s"
    and f: "\<And>s. val_ok L ok K U s \<Longrightarrow> runs (f (vi_trie s)) (Q s)"
  shows "runs (with_trie L p ad f s) (\<lambda>(r, s'). val_ok L ok K U s' \<and> Q s' r)"
  unfolding with_trie_def
  by (rule runs_bind [OF current_live_ok [OF set ok]], rule runs_bind [OF check_acquired_ok [OF set ad]], assumption)
    (auto intro!: runs_bind [OF f])


section \<open>The operations\<close>

lemma acquired_node_ok:
  assumes set: "val_setting L ok K U" and ok: "val_ok L ok K U s" and l: "l \<in> K"
  shows "runs (acquired_node L l ns n s) (val_ok L ok K U)"
proof (cases "map_of (vi_current s) n")
  case (Some c)
  then have "n \<in> U"
    using val_okD(7) [OF ok] by (force dest: map_of_SomeD)
  then have "runs (update_trie_ledger L n l s) (val_ok L ok K U)"
    using runs_mono [OF update_trie_ledger_ok [OF set ok _ l]] by blast
  then show ?thesis
    using ok by (simp add: acquired_node_def Let_def)
qed (use ok in \<open>simp add: acquired_node_def\<close>)

lemma acquired_ok:
  assumes set: "val_setting L ok K U" and ok: "val_ok L ok K U s" and l: "l \<in> K"
  shows "runs (on_ledger_acquired L p ad l s) (val_ok L ok K U)"
proof -
  have "runs (fold_outcome (acquired_node L l ns) nodes s1) (val_ok L ok K U)" if "val_ok L ok K U s1" for ns nodes s1
    by (rule runs_fold) (use acquired_node_ok [OF set _ l] that in blast)+
  then show ?thesis
    unfolding on_ledger_acquired_def Let_def split_beta
    by (rule runs_bind [OF current_live_ok [OF set ok]]) (simp add: val_ok_forget)
qed

lemma unacquire_node_ok:
  assumes set: "val_setting L ok K U" and ad: "serves L K ad" and ok: "val_ok L ok K U s"
  shows "runs (unacquire_node L ad n s) (val_ok L ok K U)"
  unfolding unacquire_node_def
proof (rule runs_bind)
  show "runs (case map_of (vi_last_ledger s) n of
      Some l \<Rightarrow> bind_outcome (trie_remove L (led_id L l) (tl_seq L l) 1 (vi_trie s)) (\<lambda>(_, t).
        Done (s\<lparr>vi_last_ledger := AList.delete n (vi_last_ledger s), vi_trie := t\<rparr>))
    | None \<Rightarrow> Done s) (val_ok L ok K U)"
  proof (cases "map_of (vi_last_ledger s) n")
    case (Some l)
    obtain r t where t: "trie_remove L (led_id L l) (tl_seq L l) 1 (vi_trie s) = Done (r, t)"
      "records L ok K (tally (AList.delete n (vi_last_ledger s))) t"
      using trie_remove_last [OF set ok Some] by metis
    show ?thesis
      by (simp only: Some option.case t(1) bind_outcome.simps prod.case runs_Done val_ok_unlink [OF ok t(2)])
  qed (use ok in simp)
next
  fix s3
  assume ok3: "val_ok L ok K U s3"
  show "runs (case map_of (vi_current s3) n of
      Some cur \<Rightarrow> if vd_trusted cur then acquire_or_wait L ad n cur s3 else Done s3 | None \<Rightarrow> Done s3) (val_ok L ok K U)"
  proof (cases "map_of (vi_current s3) n")
    case (Some c)
    then have "n \<in> U"
      using val_okD(7) [OF ok3] by (force dest: map_of_SomeD)
    then show ?thesis
      using Some ok3 by (auto intro: runs_mono [OF acquire_or_wait_ok [OF set ad ok3]])
  qed (use ok3 in simp)
qed

lemma unacquired_ok:
  assumes set: "val_setting L ok K U" and ad: "serves L K ad" and ok: "val_ok L ok K U s"
  shows "runs (on_ledger_unacquired L p ad x s) (\<lambda>r. val_ok L ok K U (snd r))"
proof -
  have "runs (fold_outcome (unacquire_node L ad) nodes s1) (val_ok L ok K U)" if "val_ok L ok K U s1" for nodes s1
    by (rule runs_fold) (use unacquire_node_ok [OF set ad] that in blast)+
  then show ?thesis
    unfolding on_ledger_unacquired_def Let_def
    by (rule runs_bind [OF current_live_ok [OF set ok] runs_bind]) auto
qed

lemma add_current_ok:
  assumes set: "val_setting L ok K U" and ad: "serves L K ad" and ok: "val_ok L ok K U s" and n: "n \<in> U"
  shows "runs (add_current L ad n v s) (\<lambda>r. val_ok L ok K U (snd r))"
proof -
  have upd: "runs (if vd_trusted v then update_trie_validation L ad n v prior s1 else Done s1) (val_ok L ok K U)"
    if "val_ok L ok K U s1" for prior s1
    using that by (auto intro: runs_mono [OF update_trie_validation_ok [OF set ad that n]])
  show ?thesis
  proof (cases "map_of (vi_current s) n")
    case None
    show ?thesis
      unfolding add_current_def None option.case by (rule runs_bind [OF upd [OF ok]]) (simp add: val_ok_put n)
  next
    case (Some old)
    have "runs (bind_outcome (if vd_trusted v then update_trie_validation L ad n v (Some (vd_seq old, vd_ledger_id old))
        (s\<lparr>vi_current := AList.update n v (vi_current s)\<rparr>) else Done (s\<lparr>vi_current := AList.update n v (vi_current s)\<rparr>))
        (\<lambda>s. Done (VCurrent, s))) (\<lambda>r. val_ok L ok K U (snd r))"
      by (rule runs_bind [OF upd [OF val_ok_put [OF ok n]]]) simp
    then show ?thesis
      using Some ok unfolding add_current_def by (simp add: Let_def)
  qed
qed

lemma add_ok:
  assumes set: "val_setting L ok K U" and ad: "serves L K ad" and ok: "val_ok L ok K U s" and n: "n \<in> U"
  shows "runs (val_add L p ad now n v s) (\<lambda>r. val_ok L ok K U (snd r))"
proof -
  define s1 where "s1 = add_by_sequence p now n v s"
  have ok1: "val_ok L ok K U s1"
    using ok by (simp add: s1_def add_by_sequence_def Let_def)
  have "\<exists>e. am_get (vd_seq v) (vi_by_sequence s1) = Some e"
    by (simp add: s1_def add_by_sequence_def Let_def am_get_def am_put_def)
  then show ?thesis
    unfolding val_add_def Let_def split_beta s1_def [symmetric]
    using ok ok1 by (auto intro!: add_current_ok [OF set ad _ n])
qed

lemma trust_node_ok:
  assumes set: "val_setting L ok K U" and ad: "serves L K ad" and ok: "val_ok L ok K U s" and n: "n \<in> keys (vi_current s)"
  shows "runs (trust_node L ad added removed n s) (\<lambda>s'. val_ok L ok K U s' \<and> keys (vi_current s') = keys (vi_current s))"
proof -
  obtain v where v: "map_of (vi_current s) n = Some v"
    using n by (metis map_of_None_keys option.exhaust)
  have nU: "n \<in> U"
    using n val_okD(7) [OF ok] by auto
  have ok': "val_ok L ok K U (s\<lparr>vi_current := AList.update n w (vi_current s)\<rparr>)" for w
    by (rule val_ok_put [OF ok nU])
  have "runs (update_trie_validation L ad n (v\<lparr>vd_trusted := True\<rparr>) None (s\<lparr>vi_current := AList.update n (v\<lparr>vd_trusted := True\<rparr>) (vi_current s)\<rparr>))
      (\<lambda>s'. val_ok L ok K U s' \<and> keys (vi_current s') = keys (vi_current s))"
    by (rule runs_mono [OF update_trie_validation_ok [OF set ad ok' nU]]) (use n in \<open>simp_all add: insert_absorb\<close>)
  moreover have "runs (remove_trie L n (v\<lparr>vd_trusted := False\<rparr>) (s\<lparr>vi_current := AList.update n (v\<lparr>vd_trusted := False\<rparr>) (vi_current s)\<rparr>))
      (\<lambda>s'. val_ok L ok K U s' \<and> keys (vi_current s') = keys (vi_current s))"
    by (rule runs_mono [OF remove_trie_ok [OF set ok']]) (use n in \<open>simp add: insert_absorb\<close>)
  ultimately show ?thesis
    using v ok by (simp add: trust_node_def Let_def)
qed

lemma trust_changed_ok:
  assumes set: "val_setting L ok K U" and ad: "serves L K ad" and ok: "val_ok L ok K U s"
  shows "runs (trust_changed L ad added removed s) (val_ok L ok K U)"
proof -
  have "runs (fold_outcome (trust_node L ad added removed) (map fst (vi_current s)) s)
      (\<lambda>s'. val_ok L ok K U s' \<and> keys (vi_current s') = keys (vi_current s))"
  proof (rule runs_fold)
    show "runs (trust_node L ad added removed n s1) (\<lambda>s'. val_ok L ok K U s' \<and> keys (vi_current s') = keys (vi_current s))"
      if "n \<in> set (map fst (vi_current s))" "val_ok L ok K U s1 \<and> keys (vi_current s1) = keys (vi_current s)" for n s1
      using trust_node_ok [OF set ad, of s1 n added removed] that by auto
  qed (use ok in simp)
  then show ?thesis
    unfolding trust_changed_def by (rule runs_bind) simp
qed


section \<open>Queries\<close>

text \<open>The nodes whose last ledger is at or after the ledger with the given sequence number and id.\<close>

definition supporters :: "('l, 'i) trie_ledger_ops \<Rightarrow> ('n \<times> 'l) list \<Rightarrow> nat \<times> 'i \<Rightarrow> 'n set" where
  "supporters L m k = {n. \<exists>l. map_of m n = Some l \<and> fst k \<le> tl_seq L l \<and> tl_ancestor L l (fst k) = snd k}"

lemma given_tally:
  assumes "finite K" and "\<And>n l. map_of m n = Some l \<Longrightarrow> l \<in> K"
  shows "given L K (tally m) Q = card {n. \<exists>l. map_of m n = Some l \<and> Q (sp_from_ledger L l 0)}"
proof -
  let ?S = "\<lambda>l. {n. map_of m n = Some l \<and> Q (sp_from_ledger L l 0)}"
  have "{n. \<exists>l. map_of m n = Some l \<and> Q (sp_from_ledger L l 0)} = (\<Union>l \<in> K. ?S l)"
    using assms(2) by auto
  moreover have "card (\<Union>l \<in> K. ?S l) = (\<Sum>l \<in> K. card (?S l))"
    using assms(1) by (intro card_UN_disjoint) auto
  moreover have "card (?S l) = (if Q (sp_from_ledger L l 0) then tally m l else 0)" for l
    by (simp add: tally_def)
  ultimately show ?thesis
    by (simp add: given_def)
qed

lemma given_supporters:
  assumes "finite K" and "\<And>n l. map_of m n = Some l \<Longrightarrow> l \<in> K"
  shows "given L K (tally m) (on_branch L q i) = card (supporters L m (q, i))"
  using given_tally [OF assms(1), of m L "on_branch L q i"] assms(2)
  by (simp add: supporters_def on_branch_def sp_from_ledger_def less_Suc_eq_le)

lemma val_supports:
  assumes set: "val_setting L ok K U" and ok: "val_ok L ok K U s" and l: "l \<in> K"
  shows "trie_tip_support L (led_id L l) (vi_trie s) = Done (tally (vi_last_ledger s) l)"
    and "trie_branch_support L l (vi_trie s) = Done (card (supporters L (vi_last_ledger s) (tl_seq L l, led_id L l)))"
proof -
  note v = val_okD [OF ok] and S = settingD [OF set]
  show "trie_tip_support L (led_id L l) (vi_trie s) = Done (tally (vi_last_ledger s) l)"
    using tip_at_records [OF v(1) S(2) l] tip_support_at [of L "led_id L l"] by (simp add: led_id_def)
  have "ok l"
    using S(2) l by (simp add: known_def)
  then show "trie_branch_support L l (vi_trie s) = Done (card (supporters L (vi_last_ledger s) (tl_seq L l, led_id L l)))"
    using trie_ledger.records_branch [OF S(1) v(1) S(6), of l] given_supporters [OF S(5), of "vi_last_ledger s" L] v(3) by (simp add: led_id_def)
qed

definition tip_spec ::
  "('l, 'i) trie_ledger_ops \<Rightarrow> ('i, 'n, 'k, 'l) val_inner \<Rightarrow> ('l, 'i) span_tip option \<Rightarrow> bool" where
  "tip_spec L s r \<longleftrightarrow> (case r of
      None \<Rightarrow> map_of (vi_last_ledger s) = Map.empty
    | Some tip \<Rightarrow> supporters L (vi_last_ledger s) (st_seq tip, st_id tip) \<noteq> {})"

lemma val_trie_preferred:
  assumes set: "val_setting L ok K U" and ok: "val_ok L ok K U s"
  shows "runs (trie_get_preferred L n (vi_trie s)) (tip_spec L s)"
proof -
  note v = val_okD [OF ok] and S = settingD [OF set]
  let ?m = "vi_last_ledger s"
  have total: "(\<Sum>l \<in> K. tally ?m l) = 0 \<longleftrightarrow> map_of ?m = Map.empty"
    using tally_total [OF S(5), of ?m] v(3) by (simp add: finite_dom_map_of)
  have "supporters L ?m (st_seq tip, st_id tip) \<noteq> {}" if "0 < given L K (tally ?m) (on_branch L (st_seq tip) (st_id tip))" for tip
    using that given_supporters [OF S(5), of ?m L "st_seq tip" "st_id tip"] v(3) by (auto simp: card_gt_0_iff)
  then have sup: "tip_spec L s (Some tip)" if "0 < given L K (tally ?m) (on_branch L (st_seq tip) (st_id tip))" for tip
    using that by (simp add: tip_spec_def)
  note r = trie_ledger.records_preferred [OF S(1) v(1) S(6), of n]
  show ?thesis
  proof (cases "(\<Sum>l \<in> K. tally ?m l) = 0")
    case True
    then show ?thesis
      using r total by (simp add: tip_spec_def)
  next
    case False
    then obtain tip where "trie_get_preferred L n (vi_trie s) = Done (Some tip)"
      "0 < given L K (tally ?m) (on_branch L (st_seq tip) (st_id tip))"
      using r by (simp only: if_False) blast
    then show ?thesis
      using sup by simp
  qed
qed

lemma max_by_fold:
  "\<exists>y. foldl (\<lambda>best x. case best of None \<Rightarrow> Some x | Some b \<Rightarrow> if f b \<le> f x then Some x else Some b) (Some b) xs = Some y \<and>
     (y = b \<or> y \<in> set xs)"
proof (induction xs arbitrary: b)
  case (Cons x xs)
  show ?case
    using Cons.IH [of x] Cons.IH [of b] by auto
qed simp

lemma max_by_in: "max_by f xs = Some x \<Longrightarrow> x \<in> set xs"
  using max_by_fold [of f "hd xs" "tl xs"] by (cases xs) (auto simp: max_by_def)

lemma max_by_None: "max_by f xs = None \<longleftrightarrow> xs = []"
  using max_by_fold [of f "hd xs" "tl xs"] by (cases xs) (auto simp: max_by_def)

lemma acquiring_preferred_in:
  assumes "bt_ok m" and "acquiring_preferred m = Some k"
  shows "\<exists>ns. map_of m k = Some ns"
proof -
  obtain e where e: "max_by (\<lambda>(key, ns). (length ns, snd key)) m = Some e" "fst e = k"
    using assms(2) unfolding acquiring_preferred_def map_option_eq_Some by metis
  then have "e \<in> set m" "fst e = k"
    using max_by_in [OF e(1)] by simp_all
  then show ?thesis
    using bt_ok_map_of_iff [OF assms(1), of k "snd e"] by (metis prod.collapse)
qed

definition builds_on :: "('l, 'i) trie_ledger_ops \<Rightarrow> 'l \<Rightarrow> ('l, 'i) span_tip \<Rightarrow> bool" where
  "builds_on L cur tip \<longleftrightarrow>
     st_seq tip = tl_seq L cur + 1 \<and> tl_ancestor L (st_ledger tip) (tl_seq L cur) = led_id L cur \<or>
     st_seq tip \<le> tl_seq L cur \<and> tl_ancestor L cur (st_seq tip) = st_id tip"

lemma choose_working_spec:
  "runs (choose_working L cur tip)
     (\<lambda>k. k = (if builds_on L cur tip then (tl_seq L cur, led_id L cur) else (st_seq tip, st_id tip)))"
  by (auto simp: choose_working_def st_ancestor_def builds_on_def)

text \<open>What the preferred ledger is. With last ledgers it follows the tip that the trie prefers, which is
  supported: the current ledger when it is the parent of the tip, the tip or a descendant of it, and the tip
  otherwise. With no last ledgers at all it is one that nodes wait for.\<close>

definition preferred_spec ::
  "('l, 'i::linorder) trie_ledger_ops \<Rightarrow> nat \<Rightarrow> 'l \<Rightarrow> ('i, 'n, 'k, 'l) val_inner \<Rightarrow> (nat \<times> 'i) option \<Rightarrow> bool" where
  "preferred_spec L largest cur s r \<longleftrightarrow>
     (if map_of (vi_last_ledger s) = Map.empty
      then (case r of None \<Rightarrow> vi_acquiring s = [] | Some k \<Rightarrow> map_of (vi_acquiring s) k \<noteq> None)
      else \<exists>tip. trie_get_preferred L largest (vi_trie s) = Done (Some tip) \<and>
             supporters L (vi_last_ledger s) (st_seq tip, st_id tip) \<noteq> {} \<and>
             r = Some (if builds_on L cur tip then (tl_seq L cur, led_id L cur) else (st_seq tip, st_id tip)))"

lemma preferred_ok:
  assumes set: "val_setting L ok K U" and ad: "serves L K ad" and ok: "val_ok L ok K U s"
  shows "runs (val_get_preferred L p ad cur s) (\<lambda>r. val_ok L ok K U (snd r) \<and> preferred_spec L (se_largest (vi_local_seq s)) cur (snd r) (fst r))"
  unfolding val_get_preferred_def
proof (rule runs_bind)
  let ?n = "se_largest (vi_local_seq s)"
  show "runs (with_trie L p ad (trie_get_preferred L ?n) s)
      (\<lambda>(r, s'). val_ok L ok K U s' \<and> tip_spec L s' r \<and> trie_get_preferred L ?n (vi_trie s') = Done r)"
    by (rule with_trie_ok [OF set ad ok]) (use val_trie_preferred [OF set, of _ ?n] in \<open>auto simp: runs_def\<close>)
next
  fix x
  let ?n = "se_largest (vi_local_seq s)"
  assume x': "case x of (r, s') \<Rightarrow> val_ok L ok K U s' \<and> tip_spec L s' r \<and> trie_get_preferred L ?n (vi_trie s') = Done r"
  obtain tip s1 where x: "x = (tip, s1)"
    by fastforce
  then have ok1: "val_ok L ok K U s1" and sup: "tip_spec L s1 tip"
    and tr: "trie_get_preferred L ?n (vi_trie s1) = Done tip"
    using x' by simp_all
  show "runs (case x of (None, s) \<Rightarrow> Done (acquiring_preferred (vi_acquiring s), s)
      | (Some tip, s) \<Rightarrow> bind_outcome (choose_working L cur tip) (\<lambda>r. Done (Some r, s)))
      (\<lambda>r. val_ok L ok K U (snd r) \<and> preferred_spec L (se_largest (vi_local_seq s)) cur (snd r) (fst r))"
  proof (cases tip)
    case None
    have "acquiring_preferred (vi_acquiring s1) = None \<Longrightarrow> vi_acquiring s1 = []"
      by (simp add: acquiring_preferred_def max_by_None)
    then show ?thesis
      using None ok1 sup [unfolded tip_spec_def] acquiring_preferred_in [OF val_okD(4) [OF ok1]]
      by (auto simp: x preferred_spec_def split: option.split)
  next
    case (Some t)
    then have "supporters L (vi_last_ledger s1) (st_seq t, st_id t) \<noteq> {}" "map_of (vi_last_ledger s1) \<noteq> Map.empty"
      using sup by (auto simp: supporters_def tip_spec_def)
    then have *: "val_ok L ok K U s1 \<and> preferred_spec L ?n cur s1
        (Some (if builds_on L cur t then (tl_seq L cur, led_id L cur) else (st_seq t, st_id t)))"
      using Some ok1 tr by (simp add: preferred_spec_def)
    show ?thesis
      unfolding x Some by (simp, rule runs_bind [OF choose_working_spec]) (use * in simp)
  qed
qed

lemma nodes_after_ok:
  assumes set: "val_setting L ok K U" and ad: "serves L K ad" and ok: "val_ok L ok K U s" and l: "l \<in> K"
  shows "runs (get_nodes_after L p ad l (led_id L l) s) (\<lambda>r. val_ok L ok K U (snd r) \<and>
    fst r = card (supporters L (vi_last_ledger (snd r)) (tl_seq L l, led_id L l) - {n. map_of (vi_last_ledger (snd r)) n = Some l}))"
proof -
  have sub: "runs (bind_outcome (trie_branch_support L l (vi_trie s1)) (\<lambda>b.
      bind_outcome (trie_tip_support L (led_id L l) (vi_trie s1)) (\<lambda>n. u32_sub b n)))
      (\<lambda>r. r = card (supporters L (vi_last_ledger s1) (tl_seq L l, led_id L l) - {n. map_of (vi_last_ledger s1) n = Some l}))"
    if ok1: "val_ok L ok K U s1" for s1
  proof -
    let ?S = "supporters L (vi_last_ledger s1) (tl_seq L l, led_id L l)" and ?T = "{n. map_of (vi_last_ledger s1) n = Some l}"
    have "?T \<subseteq> ?S" "finite ?T"
      by (auto simp: supporters_def led_id_def)
    moreover have "finite ?S"
      by (rule finite_subset [of _ "dom (map_of (vi_last_ledger s1))"]) (auto simp: supporters_def finite_dom_map_of)
    ultimately have "card ?T \<le> card ?S" "card (?S - ?T) = card ?S - card ?T"
      by (simp_all add: card_mono card_Diff_subset)
    then show ?thesis
      by (simp add: val_supports [OF set ok1 l] u32_sub_def tally_def)
  qed
  have "runs (with_trie L p ad (\<lambda>t. bind_outcome (trie_branch_support L l t) (\<lambda>b.
      bind_outcome (trie_tip_support L (led_id L l) t) (\<lambda>n. u32_sub b n))) s) (\<lambda>(r, s'). val_ok L ok K U s' \<and>
      r = card (supporters L (vi_last_ledger s') (tl_seq L l, led_id L l) - {n. map_of (vi_last_ledger s') n = Some l}))"
    by (rule with_trie_ok [OF set ad ok]) (rule sub)
  then show ?thesis
    unfolding get_nodes_after_def by (auto elim: runs_mono)
qed

end
