(* ===== verification/Validation_Runs.thy ===== *)
theory Validation_Runs
  imports Validation_Support
begin

text \<open>
  Sequences of operations on the tracker of validations, and what holds after any of them.
\<close>

section \<open>Operations as data\<close>

datatype ('i, 'n, 'k, 'l) val_op =
    OpAdd "('i, 'l) val_adaptor" instant 'n "('i, 'n, 'k) validation"
  | OpAcquired "('i, 'l) val_adaptor" 'l
  | OpUnacquired "('i, 'l) val_adaptor" 'i
  | OpReconcile "(nat \<times> 'i) option" "(nat \<times> 'i) option"
  | OpCanValidate instant nat
  | OpKeep nat nat
  | OpExpire instant
  | OpTrust "('i, 'l) val_adaptor" "'n list" "'n list"
  | OpPreferred "('i, 'l) val_adaptor" 'l
  | OpPreferredLcl "('i, 'l) val_adaptor" 'l nat "('i \<times> nat) list"
  | OpNodesAfter "('i, 'l) val_adaptor" 'l
  | OpCurrentTrusted "('i, 'l) val_adaptor"
  | OpTouch instant 'i
  | OpFlush
  | OpLaggards "('i, 'l) val_adaptor" nat "'k list"

text \<open>The state after an operation, without what it returns.\<close>

fun val_exec ::
  "('l, 'i::linorder) trie_ledger_ops \<Rightarrow> validation_parms \<Rightarrow> ('i, 'n, 'k, 'l) val_op \<Rightarrow> ('i, 'n, 'k, 'l) val_inner \<Rightarrow>
   ('i, 'n, 'k, 'l) val_inner outcome" where
  "val_exec L p (OpAdd ad now n v) s = bind_outcome (val_add L p ad now n v s) (\<lambda>r. Done (snd r))"
| "val_exec L p (OpAcquired ad l) s = on_ledger_acquired L p ad l s"
| "val_exec L p (OpUnacquired ad i) s = bind_outcome (on_ledger_unacquired L p ad i s) (\<lambda>r. Done (snd r))"
| "val_exec L p (OpReconcile a c) s = Done (reconcile_validation_recovery_latch a c s)"
| "val_exec L p (OpCanValidate now q) s = Done (snd (can_validate_seq p now q s))"
| "val_exec L p (OpKeep low high) s = set_seq_to_keep low high s"
| "val_exec L p (OpExpire now) s = Done (val_expire p now s)"
| "val_exec L p (OpTrust ad added removed) s = trust_changed L ad added removed s"
| "val_exec L p (OpPreferred ad cur) s = bind_outcome (val_get_preferred L p ad cur s) (\<lambda>r. Done (snd r))"
| "val_exec L p (OpPreferredLcl ad lcl q peers) s =
     bind_outcome (get_preferred_lcl L p ad lcl q peers s) (\<lambda>r. Done (snd r))"
| "val_exec L p (OpNodesAfter ad l) s =
     bind_outcome (get_nodes_after L p ad l (led_id L l) s) (\<lambda>r. Done (snd r))"
| "val_exec L p (OpCurrentTrusted ad) s = bind_outcome (current_trusted L p ad s) (\<lambda>r. Done (snd r))"
| "val_exec L p (OpTouch now i) s = Done (snd (num_trusted_for_ledger now i s))"
| "val_exec L p OpFlush s = Done (val_flush s)"
| "val_exec L p (OpLaggards ad q ks) s = bind_outcome (laggards L p ad q ks s) (\<lambda>r. Done (snd r))"

definition val_run ::
  "('l, 'i::linorder) trie_ledger_ops \<Rightarrow> validation_parms \<Rightarrow> ('i, 'n, 'k, 'l) val_op list \<Rightarrow> ('i, 'n, 'k, 'l) val_inner \<Rightarrow>
   ('i, 'n, 'k, 'l) val_inner outcome" where
  "val_run L p = fold_outcome (val_exec L p)"

text \<open>What the callers grant: an adaptor hands out known ledgers under their ids, nodes are among the nodes
  of the network, and the range to keep is not empty.\<close>

fun val_op_ok :: "('l, 'i) trie_ledger_ops \<Rightarrow> 'l set \<Rightarrow> 'n set \<Rightarrow> ('i, 'n, 'k, 'l) val_op \<Rightarrow> bool" where
  "val_op_ok L K U (OpAdd ad now n v) \<longleftrightarrow> serves L K ad \<and> n \<in> U"
| "val_op_ok L K U (OpAcquired ad l) \<longleftrightarrow> l \<in> K"
| "val_op_ok L K U (OpUnacquired ad i) \<longleftrightarrow> serves L K ad"
| "val_op_ok L K U (OpKeep low high) \<longleftrightarrow> low < high"
| "val_op_ok L K U (OpTrust ad added removed) \<longleftrightarrow> serves L K ad"
| "val_op_ok L K U (OpPreferred ad cur) \<longleftrightarrow> serves L K ad"
| "val_op_ok L K U (OpPreferredLcl ad lcl q peers) \<longleftrightarrow> serves L K ad"
| "val_op_ok L K U (OpNodesAfter ad l) \<longleftrightarrow> serves L K ad \<and> l \<in> K"
| "val_op_ok L K U _ \<longleftrightarrow> True"

fun op_add_time :: "('i, 'n, 'k, 'l) val_op \<Rightarrow> instant option" where
  "op_add_time (OpAdd ad now n v) = Some now"
| "op_add_time _ = None"

section \<open>Every operation keeps the invariant\<close>

lemma runs_snd: "runs r (\<lambda>r. P (snd r)) \<Longrightarrow> runs (bind_outcome r (\<lambda>r. Done (snd r))) P"
  by (auto simp: runs_def)

lemma lcl_diagnostic_ok:
  assumes set: "val_setting L ok K U" and ad: "serves L K ad" and ok: "val_ok L ok K U s"
  shows "runs (get_preferred_lcl_diagnostic L p ad lcl q peers s) (\<lambda>r. val_ok L ok K U (snd r))"
  unfolding get_preferred_lcl_diagnostic_def
proof (rule runs_bind)
  show "runs (with_trie L p ad (trie_get_preferred L (se_largest (vi_local_seq s))) s)
      (\<lambda>(r, s'). val_ok L ok K U s' \<and> tip_spec L s' r)"
    by (rule with_trie_ok [OF set ad ok]) (rule val_trie_preferred [OF set])
next
  fix x
  assume "case x of (r, s') \<Rightarrow> val_ok L ok K U s' \<and> tip_spec L s' r"
  then obtain tip s1 where x: "x = (tip, s1)" "val_ok L ok K U s1"
    by (cases x) auto
  have "runs (lcl_working L lcl tip (acquiring_preferred (vi_acquiring s1))) (\<lambda>_. True)"
    by (auto simp: lcl_working_def split: option.split intro: runs_bind [OF choose_working_spec])
  then show "runs (case x of (tip, s) \<Rightarrow> bind_outcome (lcl_working L lcl tip (acquiring_preferred (vi_acquiring s))) (\<lambda>work.
      Done (lcl_decide L lcl q peers tip work s))) (\<lambda>r. val_ok L ok K U (snd r))"
    using x by (auto intro!: runs_bind simp: lcl_decide_def Let_def split_beta)
qed

lemma expire_frame:
  "vi_trie (val_expire p now s) = vi_trie s" "vi_last_ledger (val_expire p now s) = vi_last_ledger s"
  "vi_acquiring (val_expire p now s) = vi_acquiring s" "vi_current (val_expire p now s) = vi_current s"
  "vi_seq_enforcers (val_expire p now s) = vi_seq_enforcers s"
  by (simp_all add: val_expire_def keep_refresh_def Let_def split: option.split)

lemma exec_ok:
  assumes set: "val_setting L ok K U" and ok: "val_ok L ok K U s" and op: "val_op_ok L K U op"
  shows "runs (val_exec L p op s) (val_ok L ok K U)"
proof (cases op)
  case (OpAdd ad now n v)
  then show ?thesis
    using runs_snd [OF add_ok [OF set _ ok]] op by simp
next
  case (OpAcquired ad l)
  then show ?thesis
    using acquired_ok [OF set ok] op by simp
next
  case (OpUnacquired ad i)
  then show ?thesis
    using runs_snd [OF unacquired_ok [OF set _ ok]] op by simp
next
  case (OpCanValidate now q)
  then show ?thesis
    using ok by (simp add: can_validate_seq_def split_beta)
next
  case (OpKeep low high)
  then show ?thesis
    using ok op by (simp add: set_seq_to_keep_def)
next
  case (OpExpire now)
  then show ?thesis
    using ok by (simp add: val_ok_def expire_frame)
next
  case (OpTrust ad added removed)
  then show ?thesis
    using trust_changed_ok [OF set _ ok] op by simp
next
  case (OpPreferred ad cur)
  then show ?thesis
    using preferred_ok [OF set _ ok, of ad p cur] op by (auto simp: runs_def)
next
  case (OpPreferredLcl ad lcl q peers)
  then have "runs (get_preferred_lcl_diagnostic L p ad lcl q peers s) (\<lambda>r. val_ok L ok K U (snd r))"
    using lcl_diagnostic_ok [OF set _ ok] op by simp
  then show ?thesis
    by (auto simp: OpPreferredLcl get_preferred_lcl_def runs_def)
next
  case (OpNodesAfter ad l)
  then show ?thesis
    using nodes_after_ok [OF set _ ok, of ad l p] op by (auto simp: runs_def)
next
  case (OpCurrentTrusted ad)
  then show ?thesis
    using current_live_ok [OF set ok, of p ad] by (auto simp: current_trusted_def runs_def)
next
  case (OpTouch now i)
  then show ?thesis
    using ok by (simp add: num_trusted_for_ledger_def touch_ledger_def Let_def)
next
  case (OpLaggards ad q ks)
  then show ?thesis
    using current_live_ok [OF set ok, of p ad] by (auto simp: laggards_def runs_def)
qed (use ok in \<open>simp_all add: val_flush_def val_ok_current\<close>)

lemma run_ok:
  assumes "val_setting L ok K U" and "val_ok L ok K U s" and "list_all (val_op_ok L K U) ops"
  shows "runs (val_run L p ops s) (val_ok L ok K U)"
  unfolding val_run_def
  by (rule runs_fold) (use assms exec_ok [OF assms(1)] in \<open>auto simp: list_all_iff\<close>)

lemma new_val_ok:
  assumes "val_setting L ok K U"
  shows "val_ok L ok K U (vi_new L)"
  using trie_ledger.records_new [OF settingD(1,6) [OF assms]] by (simp add: val_ok_def vi_new_def)


section \<open>The sequence rule\<close>

text \<open>Only adding a validation touches the enforcers.\<close>

definition post :: "'a outcome \<Rightarrow> ('a \<Rightarrow> bool) \<Rightarrow> bool" where
  "post r P \<longleftrightarrow> (\<forall>x. r = Done x \<longrightarrow> P x)"

lemma post_Done [simp]: "post (Done x) P \<longleftrightarrow> P x"
  and post_Panic [simp]: "post Panic P"
  by (simp_all add: post_def)

lemma post_bind: "post r P \<Longrightarrow> (\<And>x. P x \<Longrightarrow> post (f x) Q) \<Longrightarrow> post (bind_outcome r f) Q"
  by (cases r) (auto simp: post_def)

lemma post_any: "(\<And>x. post (f x) Q) \<Longrightarrow> post (bind_outcome r f) Q"
  by (cases r) (auto simp: post_def)

lemma post_fold: "(\<And>x s. I s \<Longrightarrow> post (f x s) I) \<Longrightarrow> I s \<Longrightarrow> post (fold_outcome f xs s) I"
  by (induction xs arbitrary: s) (auto intro: post_bind)

lemma post_mono: "post r P \<Longrightarrow> (\<And>x. P x \<Longrightarrow> Q x) \<Longrightarrow> post r Q"
  by (auto simp: post_def)

abbreviation same_enf :: "('i, 'n, 'k, 'l) val_inner \<Rightarrow> ('i, 'n, 'k, 'l) val_inner \<Rightarrow> bool" where
  "same_enf s s' \<equiv> vi_seq_enforcers s' = vi_seq_enforcers s"

named_theorems enf \<open>the operations that leave the enforcers alone\<close>

lemma enf_update [enf]: "post (update_trie_ledger L n l s) (same_enf s)"
  unfolding update_trie_ledger_def by (intro post_any) simp

lemma enf_prune [simp]: "vi_seq_enforcers (prune_validation_recovery_signer k n s) = vi_seq_enforcers s"
  by (simp add: prune_validation_recovery_signer_def split: option.split)

lemma enf_take [simp]: "vi_seq_enforcers (snd (take_validation_recovery_nodes k s)) = vi_seq_enforcers s"
  by (simp add: take_validation_recovery_nodes_def split: option.split)

lemma enf_observe [simp]: "vi_seq_enforcers (observe_validation_recovery ob s) = vi_seq_enforcers s"
  by (simp add: observe_validation_recovery_def split: option.split)

lemma enf_remove [enf]: "post (remove_trie L n v s) (same_enf s)"
  unfolding remove_trie_def Let_def by (auto split: option.split intro!: post_any)

lemma enf_check [enf]: "post (check_acquired L ad s) (same_enf s)"
  unfolding check_acquired_def
proof (rule post_fold)
  fix key s1
  assume s1: "same_enf s s1"
  have fold: "post (fold_outcome (\<lambda>node. update_trie_ledger L node l) ns s1) (same_enf s)" for l ns
    by (rule post_fold [where I = "same_enf s"]) (use s1 in \<open>auto intro: post_mono [OF enf_update]\<close>)
  have "post (bind_outcome (fold_outcome (\<lambda>node. update_trie_ledger L node l) ns s1)
      (\<lambda>s. Done (s\<lparr>vi_acquiring := bt_remove key (vi_acquiring s)\<rparr>))) (same_enf s)" for l ns
    by (rule post_bind [OF fold]) simp
  then show "post (case ad_acquire ad (snd key) of None \<Rightarrow> Done s1
      | Some l \<Rightarrow> bind_outcome (fold_outcome (\<lambda>node. update_trie_ledger L node l)
          (case map_of (vi_acquiring s1) key of Some ns \<Rightarrow> ns | None \<Rightarrow> []) s1)
          (\<lambda>s. Done (s\<lparr>vi_acquiring := bt_remove key (vi_acquiring s)\<rparr>))) (same_enf s)"
    using s1 by (simp split: option.split)
qed simp

lemma enf_wait [enf]: "post (acquire_or_wait L ad n v s) (same_enf s)"
  unfolding acquire_or_wait_def Let_def by (auto split: option.split intro: enf_update)

lemma enf_validation [enf]: "post (update_trie_validation L ad n v prior s) (same_enf s)"
proof -
  have "post (bind_outcome (check_acquired L ad s1) (acquire_or_wait L ad n v)) (same_enf s)" if "same_enf s s1" for s1
    by (rule post_bind [OF enf_check], rule post_mono [OF enf_wait]) (simp add: that)
  then show ?thesis
    by (simp add: update_trie_validation_def Let_def split: option.split)
qed

lemma enf_live [enf]: "post (current_live L p ad s) (same_enf s)"
  unfolding current_live_def
proof (rule post_fold)
  fix n s1
  assume "same_enf s s1"
  then have "post (case map_of (vi_current s1) n of Some v \<Rightarrow> remove_trie L n v s1 | None \<Rightarrow> Done s1) (same_enf s)"
    by (auto split: option.split intro: post_mono [OF enf_remove])
  then show "post (bind_outcome (case map_of (vi_current s1) n of Some v \<Rightarrow> remove_trie L n v s1 | None \<Rightarrow> Done s1)
      (\<lambda>s. Done (s\<lparr>vi_current := AList.delete n (vi_current s)\<rparr>))) (same_enf s)"
    by (rule post_bind) simp
qed simp

lemma enf_with [enf]: "post (with_trie L p ad f s) (\<lambda>r. same_enf s (snd r))"
  unfolding with_trie_def
  by (rule post_bind [OF enf_live], rule post_bind [OF enf_check], rule post_any) simp

lemma enf_acquired [enf]: "post (on_ledger_acquired L p ad l s) (same_enf s)"
proof -
  have node: "post (acquired_node L l ns n s1) (same_enf s)" if "same_enf s s1" for ns n s1
    using that by (auto simp: acquired_node_def Let_def intro: post_mono [OF enf_update])
  show ?thesis
    unfolding on_ledger_acquired_def Let_def split_beta
    by (rule post_bind [OF enf_live], rule post_fold [OF node]) simp_all
qed

lemma enf_unacquired [enf]: "post (on_ledger_unacquired L p ad x s) (\<lambda>r. same_enf s (snd r))"
proof -
  have node: "post (unacquire_node L ad n s1) (same_enf s)" if s1: "same_enf s s1" for n s1
    unfolding unacquire_node_def
  proof (rule post_bind)
    show "post (case map_of (vi_last_ledger s1) n of
        Some l \<Rightarrow> bind_outcome (trie_remove L (led_id L l) (tl_seq L l) 1 (vi_trie s1)) (\<lambda>(_, t).
          Done (s1\<lparr>vi_last_ledger := AList.delete n (vi_last_ledger s1), vi_trie := t\<rparr>))
      | None \<Rightarrow> Done s1) (same_enf s)"
      using s1 by (auto split: option.split intro: post_any)
    show "post (case map_of (vi_current s2) n of
        Some cur \<Rightarrow> if vd_trusted cur then acquire_or_wait L ad n cur s2 else Done s2 | None \<Rightarrow> Done s2) (same_enf s)"
      if "same_enf s s2" for s2
      using that by (auto split: option.split intro: post_mono [OF enf_wait])
  qed
  have "post (fold_outcome (unacquire_node L ad) ns s1) (same_enf s)" if "same_enf s s1" for ns s1
    using node that by (rule post_fold)
  then show ?thesis
    unfolding on_ledger_unacquired_def Let_def by (intro post_bind [OF enf_live] post_bind) auto
qed

lemma enf_trust [enf]: "post (trust_changed L ad added removed s) (same_enf s)"
proof -
  have "post (trust_node L ad added removed n s1) (same_enf s)" if "same_enf s s1" for n s1
    using that unfolding trust_node_def Let_def
    by (auto intro!: post_any post_mono [OF enf_validation] post_mono [OF enf_remove])
  then have "post (fold_outcome (trust_node L ad added removed) ns s) (same_enf s)" for ns
    by (rule post_fold [where I = "same_enf s"]) simp_all
  then show ?thesis
    unfolding trust_changed_def by (rule post_bind) simp
qed


text \<open>What adding a validation does to the enforcer of a node.\<close>

definition enforcer_of :: "'n \<Rightarrow> ('i, 'n, 'k, 'l) val_inner \<Rightarrow> seq_enforcer" where
  "enforcer_of n s = (case map_of (vi_seq_enforcers s) n of Some e \<Rightarrow> e | None \<Rightarrow> se_default)"

lemma add_current_enf: "post (add_current L ad n v s) (\<lambda>r. same_enf s (snd r))"
proof -
  have upd: "post (if vd_trusted v then update_trie_validation L ad n v prior s1 else Done s1) (same_enf s1)" for prior s1
    using enf_validation by auto
  show ?thesis
  proof (cases "map_of (vi_current s) n")
    case None
    show ?thesis
      unfolding add_current_def None option.case by (rule post_bind [OF upd]) simp
  next
    case (Some old)
    have "post (bind_outcome (if vd_trusted v then update_trie_validation L ad n v prior s1 else Done s1) (\<lambda>s. Done (VCurrent, s)))
        (\<lambda>r. same_enf s1 (snd r))" for prior s1
      by (rule post_bind [OF upd]) simp
    from this [of "Some (vd_seq old, vd_ledger_id old)" "s\<lparr>vi_current := AList.update n v (vi_current s)\<rparr>"] show ?thesis
      by (simp add: add_current_def Some Let_def)
  qed
qed

lemma add_enf:
  "post (val_add L p ad now n v s) (\<lambda>(st, s').
     (\<forall>m. m \<noteq> n \<longrightarrow> enforcer_of m s' = enforcer_of m s) \<and>
     (enforcer_of n s' = enforcer_of n s \<and> st \<noteq> VCurrent \<or>
      enforcer_of n s' = snd (se_try_advance now (vd_seq v) p (enforcer_of n s)) \<and>
      (st = VCurrent \<longrightarrow> fst (se_try_advance now (vd_seq v) p (enforcer_of n s)))))"
proof (cases "is_current p (ad_now ad) (vd_sign_time v) (vd_seen_time v)")
  case True
  define s1 where "s1 = add_by_sequence p now n v s"
  let ?adv = "se_try_advance now (vd_seq v) p (enforcer_of n s)"
  have s1: "enforcer_of m s1 = enforcer_of m s" for m
    by (simp add: s1_def add_by_sequence_def enforcer_of_def Let_def)
  define s2 where "s2 = s1\<lparr>vi_seq_enforcers := AList.update n (snd ?adv) (vi_seq_enforcers s1)\<rparr>"
  have s2: "enforcer_of m s2 = (if m = n then snd ?adv else enforcer_of m s)" for m
    using s1 [of m] by (simp add: s2_def enforcer_of_def)
  define b where "b = (let m = am_get_or_insert (vd_ledger_id v) now [] (vi_by_ledger s2);
      entry = (case am_get (vd_ledger_id v) m of Some e \<Rightarrow> e | None \<Rightarrow> []) in am_put (vd_ledger_id v) (AList.update n v entry) m)"
  have eq: "val_add L p ad now n v s = (if \<not> fst ?adv
      then bind_outcome (expect (am_get (vd_seq v) (vi_by_sequence s2))) (\<lambda>entry. Done (seq_violation entry n v, s2))
      else add_current L ad n v (s2\<lparr>vi_by_ledger := b\<rparr>))"
    using True s1 [of n, unfolded enforcer_of_def]
    by (simp add: val_add_def s2_def s1_def b_def enforcer_of_def Let_def split_beta)
  have viol: "seq_violation e n v \<noteq> VCurrent" for e
    by (simp add: seq_violation_def split: option.split)
  show ?thesis
  proof (cases "fst ?adv")
    case True
    have "post (add_current L ad n v (s2\<lparr>vi_by_ledger := b\<rparr>)) (\<lambda>r. \<forall>m. enforcer_of m (snd r) = enforcer_of m s2)"
      by (rule post_mono [OF add_current_enf]) (simp add: enforcer_of_def)
    then show ?thesis
      unfolding eq using True s2 by (auto elim!: post_mono)
  next
    case False
    then show ?thesis
      unfolding eq using s2 viol by (auto intro!: post_any)
  qed
qed (simp add: val_add_def)

text \<open>An enforcer that has seen a sequence number keeps it while the number has not expired.\<close>

definition holds_seq :: "instant \<Rightarrow> nat \<Rightarrow> seq_enforcer \<Rightarrow> bool" where
  "holds_seq t q e \<longleftrightarrow> q \<le> se_seq e \<and> (\<exists>w. se_when e = Some w \<and> t \<le> w)"

lemma advance_holds:
  "holds_seq t q e \<Longrightarrow> t \<le> now \<Longrightarrow> now \<le> t + vp_set_expires p \<Longrightarrow> holds_seq t q (snd (se_try_advance now s p e))"
  by (auto simp: holds_seq_def se_try_advance_def Let_def)

lemma advance_larger:
  "holds_seq t q e \<Longrightarrow> now \<le> t + vp_set_expires p \<Longrightarrow> fst (se_try_advance now s p e) \<Longrightarrow> q < s"
  by (auto simp: holds_seq_def se_try_advance_def Let_def split: if_splits)

lemma advance_new: "fst (se_try_advance now s p e) \<Longrightarrow> holds_seq now s (snd (se_try_advance now s p e))"
  by (auto simp: holds_seq_def se_try_advance_def Let_def split: if_splits)

definition within :: "instant \<Rightarrow> duration \<Rightarrow> ('i, 'n, 'k, 'l) val_op \<Rightarrow> bool" where
  "within t d op \<longleftrightarrow> (case op_add_time op of Some now \<Rightarrow> t \<le> now \<and> now \<le> t + d | None \<Rightarrow> True)"

lemma enf_snd: "post r (\<lambda>r. same_enf s (snd r)) \<Longrightarrow> post (bind_outcome r (\<lambda>r. Done (snd r))) (same_enf s)"
  by (rule post_bind) simp_all

lemma exec_holds:
  assumes h: "holds_seq t q (enforcer_of n s)" and w: "within t (vp_set_expires p) op"
  shows "post (val_exec L p op s) (\<lambda>s'. holds_seq t q (enforcer_of n s'))"
proof (cases "op_add_time op")
  case None
  have "post (val_exec L p op s) (same_enf s)"
  proof (cases op)
    case (OpAdd ad now m v)
    then show ?thesis
      using None by simp
  next
    case (OpPreferred ad cur)
    have "post (val_get_preferred L p ad cur s) (\<lambda>r. same_enf s (snd r))"
      unfolding val_get_preferred_def by (rule post_bind [OF enf_with]) (auto split: option.split intro!: post_any)
    then show ?thesis
      by (simp add: OpPreferred enf_snd)
  next
    case (OpPreferredLcl ad lcl x peers)
    have "post (get_preferred_lcl_diagnostic L p ad lcl x peers s) (\<lambda>r. same_enf s (snd r))"
      unfolding get_preferred_lcl_diagnostic_def
      by (rule post_bind [OF enf_with]) (auto simp: lcl_decide_def Let_def split_beta intro!: post_any)
    then have "post (get_preferred_lcl L p ad lcl x peers s) (\<lambda>r. same_enf s (snd r))"
      unfolding get_preferred_lcl_def by (rule post_bind) auto
    then show ?thesis
      by (simp add: OpPreferredLcl enf_snd)
  next
    case (OpNodesAfter ad l)
    then show ?thesis
      by (simp add: get_nodes_after_def enf_snd [OF enf_with])
  next
    case (OpCurrentTrusted ad)
    have "post (current_trusted L p ad s) (\<lambda>r. same_enf s (snd r))"
      unfolding current_trusted_def by (rule post_bind [OF enf_live]) simp
    then show ?thesis
      by (simp add: OpCurrentTrusted enf_snd)
  next
    case (OpLaggards ad x ks)
    have "post (laggards L p ad x ks s) (\<lambda>r. same_enf s (snd r))"
      unfolding laggards_def by (rule post_bind [OF enf_live]) simp
    then show ?thesis
      by (simp add: OpLaggards enf_snd)
  qed (use enf in \<open>auto simp: enf_snd [OF enf_unacquired] reconcile_validation_recovery_latch_def can_validate_seq_def set_seq_to_keep_def
      expire_frame num_trusted_for_ledger_def touch_ledger_def val_flush_def Let_def split_beta\<close>)
  then show ?thesis
    by (rule post_mono) (use h in \<open>simp add: enforcer_of_def\<close>)
next
  case (Some now)
  then obtain ad m v where op: "op = OpAdd ad now m v"
    by (cases op) auto
  have "holds_seq t q (snd (se_try_advance now (vd_seq v) p (enforcer_of n s)))"
    using advance_holds [OF h] w Some by (simp add: within_def)
  then have "post (val_add L p ad now m v s) (\<lambda>r. holds_seq t q (enforcer_of n (snd r)))"
    by (intro post_mono [OF add_enf]) (use h in \<open>cases "m = n"; auto\<close>)
  then show ?thesis
    unfolding op val_exec.simps by (rule post_bind) simp
qed


section \<open>Properties\<close>

lemma rcl_setting:
  assumes "rl_history ks" and "length nodes < 2 ^ 32"
  shows "val_setting rcl_ops (\<lambda>l. l \<in> set ks) (set ks) (set nodes)"
  using history_known [OF assms(1)] rcl_trie.trie_ledger_axioms assms(2) card_length [of nodes]
  by (simp add: val_setting_def)

lemma rcl_run:
  assumes "rl_history ks" and "length nodes < 2 ^ 32" and "list_all (val_op_ok rcl_ops (set ks) (set nodes)) ops"
  obtains s where "val_run rcl_ops p ops (vi_new rcl_ops) = Done s"
    and "val_ok rcl_ops (\<lambda>l. l \<in> set ks) (set ks) (set nodes) s"
  using run_ok [OF rcl_setting [OF assms(1,2)] new_val_ok [OF rcl_setting [OF assms(1,2)]] assms(3), of p]
  by (auto simp: runs_def)

lemma supporters_after:
  "supporters rcl_ops m (rl_seq l, rl_id l) - {n. map_of m n = Some l} = {n. \<exists>k. map_of m n = Some k \<and> rl_descends k l \<and> k \<noteq> l}"
  by (auto simp: supporters_def rl_descends_def)

lemma rcl_id [simp]: "led_id rcl_ops l = rl_id l"
  by (simp add: led_id_def)


definition ex_ad :: "(uint256, rcl_ledger) val_adaptor" where
  "ex_ad = \<lparr>ad_now = 1000, ad_acquire = (\<lambda>x. if x = 1 then Some ex_a else if x = 2 then Some ex_b else None)\<rparr>"

definition ex_val :: "uint256 \<Rightarrow> nat \<Rightarrow> net_time \<Rightarrow> nat \<Rightarrow> (uint256, nat, unit) validation" where
  "ex_val i q sign n = \<lparr>vd_ledger_id = i, vd_seq = q, vd_sign_time = sign, vd_seen_time = sign, vd_key = (), vd_trusted = True,
     vd_full = True, vd_node_id = n, vd_load_fee = None, vd_cookie = 0\<rparr>"

lemma ex_serves: "serves rcl_ops (set [rl_genesis, ex_a, ex_b, ex_c]) ex_ad"
  by (simp add: serves_def ex_ad_def) (simp add: ex_defs)






text \<open>
  C10: The sequence rule. Once a validation of a node is accepted as current, any later validation of that node
  accepted as current within the expiry time has a larger sequence number, whatever operations come between,
  as long as the validations added in between come within that time too.
\<close>

theorem accepted_sequences_increase:
  assumes "val_add L p ad t n v s = Done (VCurrent, s1)" and "list_all (within t (vp_set_expires p)) ops"
    and "val_run L p ops s1 = Done s2" and "val_add L p ad' t' n v' s2 = Done (VCurrent, s3)"
    and "t' \<le> t + vp_set_expires p"
  shows "vd_seq v < vd_seq v'"
proof -
  have h: "holds_seq t (vd_seq v) (enforcer_of n s1)"
    using add_enf [of L p ad t n v s] assms(1) advance_new by (auto simp: post_def)
  have "post (val_run L p ops s1) (\<lambda>s'. holds_seq t (vd_seq v) (enforcer_of n s'))"
    unfolding val_run_def using assms(2) h
  proof (induction ops arbitrary: s1)
    case (Cons op ops)
    show ?case
      unfolding fold_outcome.simps
      by (rule post_bind [OF exec_holds [OF Cons.prems(2)]]) (use Cons in auto)
  qed simp
  then have "holds_seq t (vd_seq v) (enforcer_of n s2)"
    using assms(3) by (simp add: post_def)
  moreover have "fst (se_try_advance t' (vd_seq v') p (enforcer_of n s2))"
    using add_enf [of L p ad' t' n v' s2] assms(4) by (auto simp: post_def)
  ultimately show ?thesis
    using advance_larger assms(5) by blast
qed

lemma ex_untrusted_add:
  "vi_current s = [] \<Longrightarrow> vi_seq_enforcers s = [] \<Longrightarrow> vi_by_sequence s = am_new \<Longrightarrow>
   \<exists>s1. val_add rcl_ops vp_default ex_ad 0 1 (ex_val 1 1 1000 1\<lparr>vd_trusted := False\<rparr>) s = Done (VCurrent, s1) \<and>
     (\<exists>s2. val_add rcl_ops vp_default ex_ad 5 1 (ex_val 2 2 1001 1\<lparr>vd_trusted := False\<rparr>) s1 = Done (VCurrent, s2))"
  by (simp add: val_add_def is_current_def vp_default_def as_secs_def ex_ad_def ex_val_def Let_def add_by_sequence_def am_get_or_insert_def
      am_touch_def am_new_def am_get_def am_put_def se_try_advance_def se_default_def add_current_def)

theorem accepted_sequences_increase_witness:
  "\<exists>s1 s2. val_add rcl_ops vp_default ex_ad 0 1 (ex_val 1 1 1000 1\<lparr>vd_trusted := False\<rparr>) (vi_new rcl_ops) = Done (VCurrent, s1) \<and>
     val_add rcl_ops vp_default ex_ad 5 1 (ex_val 2 2 1001 1\<lparr>vd_trusted := False\<rparr>) s1 = Done (VCurrent, s2) \<and>
     vd_seq (ex_val 1 1 1000 1\<lparr>vd_trusted := False\<rparr>) < vd_seq (ex_val 2 2 1001 1\<lparr>vd_trusted := False\<rparr>)"
proof -
  let ?v = "ex_val 1 1 1000 1\<lparr>vd_trusted := False\<rparr>" and ?v' = "ex_val 2 2 1001 1\<lparr>vd_trusted := False\<rparr>"
  obtain s1 s2 where s: "val_add rcl_ops vp_default ex_ad 0 1 ?v (vi_new rcl_ops) = Done (VCurrent, s1)"
    "val_add rcl_ops vp_default ex_ad 5 1 ?v' s1 = Done (VCurrent, s2)"
    using ex_untrusted_add [of "vi_new rcl_ops"] by (auto simp: vi_new_def)
  have "vd_seq ?v < vd_seq ?v'"
    by (rule accepted_sequences_increase [OF s(1) _ _ s(2), of "[]"]) (simp_all add: val_run_def vp_default_def)
  then show ?thesis
    using s by blast
qed

text \<open>A node that is no longer trusted can keep its support: when its last ledger is older than the validation
  that is removed, the ledger stays in the trie and the node is counted among those that work on it.\<close>

lemma distrusted_node_keeps_support:
  "case val_run rcl_ops vp_default [OpAdd ex_ad 0 1 (ex_val 1 1 1000 1), OpAdd ex_ad 5 1 (ex_val 7 2 1001 1), OpTrust ex_ad [] [1]]
     (vi_new rcl_ops) of
     Done s \<Rightarrow> (\<forall>(n, v) \<in> set (vi_current s). \<not> vd_trusted v) \<and> trie_tip_support rcl_ops 1 (vi_trie s) = Done 1
   | _ \<Rightarrow> False"
proof -
  have [simp]: "rl_ancestor ex_a 0 = 0" "rl_ancestor ex_a (Suc 0) = 1" "rl_id ex_a = 1"
    by (simp_all add: ex_defs rl_ancestor_def rl_min_seq_def)
  show ?thesis
    by (simp add: val_run_def val_add_def is_current_def vp_default_def as_secs_def ex_ad_def ex_val_def Let_def add_by_sequence_def
      am_get_or_insert_def am_touch_def am_new_def am_get_def am_put_def se_try_advance_def se_default_def add_current_def vi_new_def
      update_trie_validation_def check_acquired_def acquire_or_wait_def update_trie_ledger_def acq_drop_def trust_changed_def
      trust_node_def remove_trie_def prune_validation_recovery_signer_def trie_eval)
qed

text \<open>The window in which a validation is current: it ends the early bound after signing, not the wall bound,
  and the time at which it was seen does not close it.\<close>

lemma current_window_ends_at_early:
  "\<not> is_current vp_default now sign seen" if "uint now = uint sign + 180"
  using that by (simp add: is_current_def vp_default_def as_secs_def Let_def)

lemma seen_time_never_expires:
  assumes "uint sign > uint now - 180" and "uint sign < uint now + 300" and "uint seen \<le> uint now"
  shows "is_current vp_default now sign seen"
  using assms by (simp add: is_current_def vp_default_def as_secs_def Let_def)

end
