(* ===== verification/Spec2Isabelle.thy ===== *)
theory Spec2Isabelle
  imports Consensus_Termination Flow_Sandbox Ledger_Header Shamap_Runs Validation_Runs
begin

text \<open>
  A verification of parts of quaxar, a server for the XRP Ledger written in Rust. All paths are below
  \<^verbatim>\<open>src/\<close>.

  \<^bold>\<open>The program.\<close> In every round the \<^emph>\<open>consensus engine\<close> (\<^verbatim>\<open>xrpld/consensus\<close>) closes the open
  ledger, exchanges proposals with trusted peers, disputes the transactions they do not share, votes on them and
  on the close time, and hands an agreed set to the application. The application builds the next ledger by
  applying the set through a stack of \<^emph>\<open>views\<close> (\<^verbatim>\<open>xrpld/ledger\<close>), hashes and serializes its header
  (\<^verbatim>\<open>xrpl/protocol\<close>), and publishes a validation. The state and the transactions of a ledger are \<^emph>\<open>SHAMaps\<close>
  (\<^verbatim>\<open>xrpl/shamap\<close>), Merkle radix trees whose root hashes go into the header. The validations of all nodes are kept by the
  \<^emph>\<open>tracker of validations\<close>, which counts them in an \<^emph>\<open>ancestry trie\<close>; its preferred ledger is what the
  engine asks for as the ledger to build on.

  \<^bold>\<open>Shared vocabulary.\<close> \<^verbatim>\<open>Prelude\<close> has the outcomes of Rust code: \<open>Done\<close> a value, \<open>Panic\<close> for a failed
  assertion, \<open>unwrap\<close>, checked arithmetic or index, and \<open>OutOfFuel\<close> where a recursion is bounded by an
  argument. A hash map is an association list with unique keys and a \<open>BTreeMap\<close> an association list in key order
  (\<^verbatim>\<open>Ordered_Map\<close>).

  \<^bold>\<open>Consensus.\<close>
  \<^item> \<^verbatim>\<open>Consensus_Params\<close>, \<^verbatim>\<open>Ledger_Timing\<close>, \<^verbatim>\<open>Consensus_Types\<close>, \<^verbatim>\<open>Consensus_Decisions\<close> model
    \<^verbatim>\<open>algorithm/params.rs\<close>, \<^verbatim>\<open>timing.rs\<close>, \<^verbatim>\<open>types.rs\<close> and \<^verbatim>\<open>functions.rs\<close>; \<^verbatim>\<open>Proposal\<close> and
    \<^verbatim>\<open>Disputed_Tx\<close> model \<^verbatim>\<open>model/proposal.rs\<close> and \<^verbatim>\<open>model/disputed_tx.rs\<close>. Their lemmas say when a ledger is
    closed and consensus declared, how a vote and its avalanche state move, and how close times are rounded.
  \<^item> \<^verbatim>\<open>Consensus_State\<close> and \<^verbatim>\<open>Consensus_Engine\<close> model \<^verbatim>\<open>algorithm/consensus.rs\<close>: the record
    \<open>consensus\<close> is \<open>struct Consensus\<close>, the record \<open>adaptor\<close> is what the application supplies, and there is one
    definition per method. \<open>start_round\<close>, \<open>timer_entry\<close>, \<open>got_tx_set\<close>, \<open>peer_proposal\<close> and \<open>simulate\<close> are
    the operations an application can call.
  \<^item> \<^verbatim>\<open>Consensus_Disputes\<close>, \<^verbatim>\<open>Consensus_Invariants\<close> and \<^verbatim>\<open>Consensus_Establish\<close> prove the invariant
    of the engine under the laws of transaction sets and of the application (\<open>adaptor_laws\<close>), and
    \<^verbatim>\<open>Consensus_Rounds\<close> draws the consequences for all reachable states: no panic, faithful votes, complete
    disputes, when a round may be accepted. \<^verbatim>\<open>Consensus_Termination\<close> shows that a timer call returns. The only
    recursion of the engine is through a switch of the previous ledger inside a timer call; two levels are enough
    when the preferred ledger does not change during the call.

  \<^bold>\<open>Ledger trie.\<close> \<^verbatim>\<open>Ledger_Trie\<close> models \<^verbatim>\<open>model/ledger_trie.rs\<close>: the arena with its free list, spans,
    insertion, removal, supports, the preferred ledger and the self-check. The record \<open>trie_ledger_ops\<close> is the trait
    \<open>TrieLedger\<close>.
  \<^item> \<^verbatim>\<open>Trie_Graph\<close> describes the live nodes as a graph and the five changes of it; \<^verbatim>\<open>Trie_Arena\<close>,
    \<^verbatim>\<open>Trie_Insert\<close>, \<^verbatim>\<open>Trie_Remove\<close> and \<^verbatim>\<open>Trie_Preferred\<close> show that the operations are such changes, return,
    and keep the trie well-formed, for ledgers that satisfy the three laws of the locale \<open>trie_ledger\<close>.
  \<^item> \<^verbatim>\<open>Trie_Chain\<close> and \<^verbatim>\<open>Trie_Records\<close> show that for ledgers of one history the trie is a table of supports.
    \<^verbatim>\<open>Rcl_Trie\<close> models the ledger the application uses (\<open>RclValidatedLedger\<close> of
    \<^verbatim>\<open>xrpld/app/src/consensus/rcl_validation.rs\<close>), interprets the locale on it, and states the two results.
  \<^item> Bounds: the descent of \<open>find\<close> has fuel one more than the sequence number of the ledger plus one, since every step
    moves to a span that starts later; compressing and walking up have fuel one more than the start of the node's span,
    since a parent starts earlier; the self-check visits every node at most once. Supports are natural numbers below
    \<open>2^32\<close>, and addition and subtraction on them panic outside that range.

  \<^bold>\<open>Validations.\<close> \<^verbatim>\<open>Validations\<close> models \<^verbatim>\<open>rcl_support/validations.rs\<close>: \<open>is_current\<close>, the sequence enforcers, aged
    maps, the recovery latch, the queue of ledgers being acquired, and every operation of \<open>Validations\<close>. The
    adaptor is an argument of each operation, so it may change from one to the next.
    \<^verbatim>\<open>Validation_Support\<close> proves that the trie counts the last ledgers of the nodes and that this is kept;
    \<^verbatim>\<open>Validation_Runs\<close> has the sequences of operations and the results about all of them.

  \<^bold>\<open>Views.\<close> \<^verbatim>\<open>Ledger_View\<close> has entries, keylets, errors and the view traits as records of functions;
    \<^verbatim>\<open>Raw_State_Table\<close> models \<^verbatim>\<open>views/raw_state_table.rs\<close> and \<^verbatim>\<open>open_view.rs\<close>,
    \<^verbatim>\<open>Apply_State_Table\<close> models \<^verbatim>\<open>apply_state_table.rs\<close> and \<^verbatim>\<open>sandbox.rs\<close>, \<^verbatim>\<open>Flow_Sandbox\<close> models
    \<^verbatim>\<open>flow_sandbox.rs\<close>. Each view refines a finite map from keys to entries, and a commit installs the contents of
    the child in the parent; the last theory composes the three levels. The search for the next key skips erased keys
    with fuel one more than the number of changes of the table, since every step passes one of them.

  \<^bold>\<open>Codec.\<close> \<^verbatim>\<open>Serializer\<close> models \<^verbatim>\<open>xrpl/protocol/src/serialization/serializer.rs\<close> and \<^verbatim>\<open>Ledger_Header\<close>
    the wire form and the hash of ledger headers. SHA-512 is an argument with the law of incremental hashing. The
    lemmas are round trips, canonicity and the exact conditions of errors and panics.

  \<^bold>\<open>SHAMap.\<close> Nodes are shared between trees, owned by a tree through an owner number, changed in place by the
    owner and copied by everyone else, so they live in an explicit heap whose positions are the addresses.
  \<^item> \<^verbatim>\<open>Shamap_Node_Id\<close> models \<^verbatim>\<open>nodes/node_id.rs\<close>, \<^verbatim>\<open>Shamap_Arrays\<close> the packed arrays of an inner node and
    \<^verbatim>\<open>Shamap_Node\<close> the nodes of \<^verbatim>\<open>nodes/tree_node.rs\<close>; their lemmas describe an inner node as a table of
    sixteen branches. \<^verbatim>\<open>Shamap_Mutation\<close> models \<^verbatim>\<open>traverse/traversal.rs\<close>, \<^verbatim>\<open>operations/search.rs\<close> and
    \<^verbatim>\<open>operations/mutation.rs\<close>: walking towards a key, adding with leaf splits, updating, deleting with collapse,
    snapshots, and the flush that hashes and shares what a tree owns.
  \<^item> \<^verbatim>\<open>Shamap_Tree\<close> relates the heap to abstract trees, \<^verbatim>\<open>Shamap_Spec\<close> has lookup, insertion and deletion on
    abstract trees and proves that the shape of a tree is determined by its contents. \<^verbatim>\<open>Shamap_Update\<close>,
    \<^verbatim>\<open>Shamap_Ops\<close>, \<^verbatim>\<open>Shamap_Delete\<close>, \<^verbatim>\<open>Shamap_Flush\<close> and \<^verbatim>\<open>Shamap_Snapshot\<close> show that each operation does
    to the abstract tree what its function does, never panics, and changes no node but the tree's own.
    \<^verbatim>\<open>Shamap_Runs\<close> puts many trees over one heap, with the locale \<open>tree_client\<close> as the contract of one
    operation, and states the results.
  \<^item> Bounds: finding the only leaf below a node and copying a subtree have fuel 66, since a tree has at most 64 levels
    of inner nodes and one of leaves. The flush is a loop with its own stack, modelled as a partial function; that it
    ends is part of the results. Owner numbers are natural numbers: the code only compares them.

  \<^bold>\<open>Not modelled.\<close> Threads, locks, logging, metrics and JSON. Of the views: metadata and the threading of
    transaction ids, balance hooks and deferred credits, and the caching views. Of the SHAMap: reference counts, locks,
    the wire form of nodes, proof paths, comparison, iteration, synchronisation, the families of caches and the flushes
    with a writer that can fail. The transactors, job queue, overlay,
    ledger acquisition, RPC and databases are input and output, other threads, or built on the network; where the
    modelled code calls them they are arguments.
\<close>

end
